(* ===== verification/Prelude.thy ===== *)
theory Prelude
  imports Main "HOL-Library.Word"
begin

unbundle bit_operations_syntax

text \<open>
  Shared vocabulary of the development: the machine-integer types of the Go sources, the
  theorem collections the component theories feed and use, and the generic facts on words,
  lists and sums that more than one component needs.
\<close>

section \<open>Machine integers and results\<close>

text \<open>
  Go's fixed-width integers are words of that width. The signed types use the same words,
  read through \<^term>\<open>sint\<close>: \<^verbatim>\<open>uint32(x)\<close> of a signed \<open>x\<close> is \<^term>\<open>scast\<close>, of an
  unsigned one \<^term>\<open>ucast\<close>, \<^verbatim>\<open>>>\<close> is \<^term>\<open>drop_bit\<close> on unsigned and
  \<^term>\<open>signed_drop_bit\<close> on signed operands.
\<close>

type_synonym u8 = "8 word"
type_synonym u16 = "16 word"
type_synonym u32 = "32 word"
type_synonym u64 = "64 word"
type_synonym i8 = "8 word"
type_synonym i16 = "16 word"
type_synonym i32 = "32 word"
type_synonym i64 = "64 word"

text \<open>A Go function with an error result is a sum: \<^term>\<open>Inl\<close> carries the error.\<close>

type_synonym ('e, 'a) result = "'e + 'a"

named_theorems word_vals
  \<open>the integer value of a word expression, under its range conditions\<close>

section \<open>Words through their integer values\<close>

lemma uint_drop_bit [word_vals]: "uint (drop_bit n w) = uint w div 2 ^ n" for w :: "'a::len word"
proof -
  have "take_bit LENGTH('a) (uint w) = uint w"
    by (rule take_bit_int_eq_self) (simp_all add: uint_lt2p)
  then show ?thesis
    unfolding unsigned_drop_bit_eq by (simp add: drop_bit_eq_div)
qed

lemma uint_of_int_eqI:
  fixes w :: "'a::len word"
  assumes "w = word_of_int k" and "0 \<le> k" and "k < 2 ^ LENGTH('a)"
  shows "uint w = k"
  using assms by (simp add: uint_word_of_int)

lemma sint_of_int_eqI:
  fixes w :: "'a::len word"
  assumes "w = word_of_int k" and "- (2 ^ (LENGTH('a) - 1)) \<le> k" and "k < 2 ^ (LENGTH('a) - 1)"
  shows "sint w = k"
  using assms by (simp add: signed_of_int signed_take_bit_int_eq_self)

lemma uint_add_lt: "uint x + uint y < 2 ^ LENGTH('a) \<Longrightarrow> uint (x + y) = uint x + uint y"
  for x y :: "'a::len word"
  by (simp add: uint_add_lem)

lemma uint_mult_lt: "uint x * uint y < 2 ^ LENGTH('a) \<Longrightarrow> uint (x * y) = uint x * uint y"
  for x y :: "'a::len word"
  by (simp add: uint_mult_lem)

lemma uint_sub_le: "uint y \<le> uint x \<Longrightarrow> uint (x - y) = uint x - uint y"
  for x y :: "'a::len word"
  by (simp add: uint_sub_lem)

lemma word_and_one: "x AND 1 = (if even (uint x) then 0 else 1)" for x :: "'a::len word"
proof -
  have "uint (x AND 1) = uint x mod 2"
    unfolding unsigned_and_eq by (simp add: and_one_eq)
  then have "uint (x AND 1) = uint (if even (uint x) then 0 else 1 :: 'a word)"
    by (simp add: mod2_eq_if)
  then show ?thesis by (simp only: word_uint_eq_iff)
qed

section \<open>Loops over the first elements of a slice\<close>

text \<open>
  \<^verbatim>\<open>for i := 0; i < n; i++ { a[i] = f(i, a[i]) }\<close>: the loop every polynomial operation of
  the sources is made of. Elements from \<open>n\<close> on keep their values.
\<close>

definition for_upd :: "nat \<Rightarrow> (nat \<Rightarrow> 'a \<Rightarrow> 'a) \<Rightarrow> 'a list \<Rightarrow> 'a list" where
  "for_upd n f a = fold (\<lambda>i a. a[i := f i (a ! i)]) [0..<n] a"

lemma for_upd_length [simp]: "length (for_upd n f a) = length a"
  by (induction n) (simp_all add: for_upd_def)

lemma for_upd_nth:
  "p < length a \<Longrightarrow> for_upd n f a ! p = (if p < n then f p (a ! p) else a ! p)"
proof (induction n)
  case (Suc n)
  have "for_upd (Suc n) f a = (for_upd n f a)[n := f n (for_upd n f a ! n)]"
    by (simp add: for_upd_def)
  with Suc show ?case by (auto simp: nth_list_update less_Suc_eq)
qed (simp add: for_upd_def)

lemma for_upd_nth_lt [simp]: "n \<le> length a \<Longrightarrow> p < n \<Longrightarrow> for_upd n f a ! p = f p (a ! p)"
  by (simp add: for_upd_nth)

lemma all_set_nthI: "(\<And>i. i < length xs \<Longrightarrow> Q (xs ! i)) \<Longrightarrow> \<forall>x \<in> set xs. Q x"
  by (simp add: all_set_conv_all_nth)

end
