(* ===== verification/Store.thy ===== *)
theory Store
  imports Prelude
begin

text \<open>
  What the two gRPC services rely on and do not define themselves: the gRPC status values,
  times and identifiers, and the relational store behind \<^verbatim>\<open>gorm\<close>. The store and the
  third-party packages are parameters: \<open>gorm\<close> is the record of the calls the
  repositories make on a \<^verbatim>\<open>*gorm.DB\<close> handle, and the locale \<open>gorm_table\<close>
  states their documented behaviour. A reference table in memory satisfies the locale.
\<close>

section \<open>Values that cross the services\<close>

text \<open>An error of package \<^verbatim>\<open>google.golang.org/grpc/status\<close>: a code and a message.\<close>

record status =
  Code :: nat
  Message :: string

abbreviation "codes_InvalidArgument \<equiv> 3 :: nat"
abbreviation "codes_NotFound \<equiv> 5 :: nat"
abbreviation "codes_Internal \<equiv> 13 :: nat"
abbreviation "codes_Unauthenticated \<equiv> 16 :: nat"

definition status_Error :: "nat \<Rightarrow> string \<Rightarrow> status" where
  "status_Error c msg = \<lparr>Code = c, Message = msg\<rparr>"

type_synonym uuid = "128 word"

text \<open>A \<^verbatim>\<open>time.Time\<close> as seconds since the epoch, an \<^verbatim>\<open>int64\<close> that wraps, and the
  nanoseconds within the second. \<^verbatim>\<open>time.Unix\<close> and \<^verbatim>\<open>time.UnixMilli\<close> divide with
  truncation and then bring the nanoseconds into range, which is flooring division.\<close>

record go_time =
  unix :: i64
  nsec :: int

definition time_Unix :: "i64 \<Rightarrow> int \<Rightarrow> go_time" where
  "time_Unix s ns = \<lparr>unix = s + word_of_int (ns div 10 ^ 9), nsec = ns mod 10 ^ 9\<rparr>"

definition time_UnixMilli :: "i64 \<Rightarrow> go_time" where
  "time_UnixMilli ms = \<lparr>unix = word_of_int (sint ms div 1000), nsec = (sint ms mod 1000) * 10 ^ 6\<rparr>"

text \<open>The method \<^verbatim>\<open>t.UnixMilli()\<close>.\<close>

definition UnixMilli :: "go_time \<Rightarrow> i64" where
  "UnixMilli t = unix t * 1000 + word_of_int (nsec t div 10 ^ 6)"

lemma UnixMilli_time_UnixMilli [simp]: "UnixMilli (time_UnixMilli ms) = ms"
proof -
  have hom: "word_of_int a * 1000 + word_of_int b = (word_of_int (a * 1000 + b) :: i64)" for a b by simp
  have "(sint ms mod 1000) * 10 ^ 6 div 10 ^ 6 = sint ms mod 1000" by simp
  then show ?thesis
    by (simp only: UnixMilli_def time_UnixMilli_def go_time.simps hom div_mult_mod_eq of_int_sint scast_id)
qed

lemma UnixMilli_time_Unix:
  "UnixMilli (time_Unix s 0) = s * 1000"
  by (simp add: UnixMilli_def time_Unix_def)

text \<open>The functions of \<^verbatim>\<open>github.com/google/uuid\<close> and
  \<^verbatim>\<open>google.golang.org/protobuf/types/known/timestamppb\<close> the services call.\<close>

record 'ts libs =
  uuid_Parse :: "string \<Rightarrow> uuid option"
  uuid_String :: "uuid \<Rightarrow> string"
  timestamppb_New :: "go_time \<Rightarrow> 'ts"
  AsTime :: "'ts \<Rightarrow> go_time"

text \<open>Their documentation: \<^verbatim>\<open>Parse\<close> reads what \<^verbatim>\<open>String\<close> writes, and refuses the empty string, and a
  timestamp keeps the instant it was made from.\<close>

definition libs_ok :: "'ts libs \<Rightarrow> bool" where
  "libs_ok L \<longleftrightarrow> (\<forall>u. uuid_Parse L (uuid_String L u) = Some u) \<and>
     uuid_Parse L [] = None \<and> (\<forall>t. AsTime L (timestamppb_New L t) = t)"

lemma libs_okD [simp]:
  assumes "libs_ok L"
  shows "uuid_Parse L (uuid_String L u) = Some u" "uuid_Parse L [] = None"
    "AsTime L (timestamppb_New L t) = t"
  using assms by (simp_all add: libs_ok_def)

text \<open>The loop \<^verbatim>\<open>for _, x := range xs { acc = append(acc, f(x)) }\<close>.\<close>

lemma fold_append_map [simp]: "fold (\<lambda>x acc. acc @ [f x]) xs acc = acc @ map f xs"
  by (induction xs arbitrary: acc) simp_all

text \<open>An instance for evaluation: unary identifiers, and times as their own timestamps.\<close>

definition ref_libs :: "go_time libs" where
  "ref_libs = \<lparr>uuid_Parse = (\<lambda>s. if s = [] then None else Some (of_nat (length s - 1))),
     uuid_String = (\<lambda>u. replicate (Suc (unat u)) CHR ''u''), timestamppb_New = id, AsTime = id\<rparr>"

lemma ref_libs_ok: "libs_ok ref_libs"
  by (simp add: libs_ok_def ref_libs_def)

section \<open>The store interface\<close>

datatype db_error = ErrRecordNotFound | ErrDuplicatedKey | ErrConn

text \<open>The calls on a handle of type \<open>'s\<close> over a table of rows \<open>'row\<close>. A handle is a connection
  or an open transaction, as in the source, where both are a \<^verbatim>\<open>*gorm.DB\<close>; the conditions given to
  \<^verbatim>\<open>Where\<close> are predicates on rows.\<close>

record ('s, 'row) gorm =
  Begin :: "'s \<Rightarrow> 's"
  Commit :: "'s \<Rightarrow> db_error option \<times> 's"
  Rollback :: "'s \<Rightarrow> 's"
  CreateRow :: "'s \<Rightarrow> 'row \<Rightarrow> db_error option \<times> 's"
  Updates :: "'s \<Rightarrow> ('row \<Rightarrow> bool) \<Rightarrow> 'row \<Rightarrow> db_error option \<times> 's"
  DeleteRows :: "'s \<Rightarrow> ('row \<Rightarrow> bool) \<Rightarrow> db_error option \<times> 's"
  First :: "'s \<Rightarrow> ('row \<Rightarrow> bool) \<Rightarrow> (db_error, 'row) result"
  Find :: "'s \<Rightarrow> ('row \<Rightarrow> bool) \<Rightarrow> (db_error, 'row list) result"

text \<open>The pattern \<^verbatim>\<open>tx := db.Begin(); defer tx.Rollback()\<close> around a method body.\<close>

definition with_tx :: "('s, 'row) gorm \<Rightarrow> 's \<Rightarrow> ('s \<Rightarrow> 'r \<times> 's) \<Rightarrow> 'r \<times> 's" where
  "with_tx G db body = (let (r, tx) = body (Begin G db) in (r, Rollback G tx))"

text \<open>Rows are keyed by their primary key. \<open>base\<close> is what the table returns to when the open
  transaction is rolled back, \<open>healthy\<close> that the store answers. A created row gets the
  defaults of its empty columns (\<open>stamp\<close>, from a fresh key and the clock); \<^verbatim>\<open>Updates\<close> with a
  struct assigns its non-zero fields to the rows found (\<open>merge\<close>, with the clock).\<close>

locale gorm_table =
  fixes G :: "('s, 'row) gorm"
    and rows base :: "'s \<Rightarrow> 'k \<rightharpoonup> 'row"
    and healthy :: "'s \<Rightarrow> bool"
    and key :: "'row \<Rightarrow> 'k"
    and stamp :: "'k \<Rightarrow> i64 \<Rightarrow> 'row \<Rightarrow> 'row"
    and merge :: "i64 \<Rightarrow> 'row \<Rightarrow> 'row \<Rightarrow> 'row"
  assumes keyed: "rows s k = Some r \<Longrightarrow> key r = k"
    and begin_rows: "rows (Begin G s) = rows s"
    and begin_base: "base (Begin G s) = rows s"
    and begin_healthy: "healthy s \<Longrightarrow> healthy (Begin G s)"
    and rollback_rows: "rows (Rollback G s) = base s"
    and rollback_healthy: "healthy s \<Longrightarrow> healthy (Rollback G s)"
    and commit_ok: "Commit G s = (None, s') \<Longrightarrow> base s' = rows s"
    and commit_err: "Commit G s = (Some e, s') \<Longrightarrow> base s' = base s"
    and commit_healthy: "healthy s \<Longrightarrow> \<exists>s'. Commit G s = (None, s') \<and> healthy s'"
    and create_base: "CreateRow G s r = (eo, s') \<Longrightarrow> base s' = base s"
    and create_rows: "CreateRow G s r = (None, s') \<Longrightarrow>
      \<exists>k t. let r' = stamp k t r in rows s (key r') = None \<and> rows s' = (rows s)(key r' \<mapsto> r')"
    and updates_base: "Updates G s P r = (eo, s') \<Longrightarrow> base s' = base s"
    and updates_rows: "Updates G s P r = (None, s') \<Longrightarrow>
      \<exists>t. \<forall>k. rows s' k = map_option (\<lambda>old. if P old then merge t r old else old) (rows s k)"
    and delete_base: "DeleteRows G s P = (eo, s') \<Longrightarrow> base s' = base s"
    and delete_rows: "DeleteRows G s P = (None, s') \<Longrightarrow>
      rows s' k = Option.bind (rows s k) (\<lambda>r. if P r then None else Some r)"
    and delete_healthy: "healthy s \<Longrightarrow> \<exists>s'. DeleteRows G s P = (None, s') \<and> healthy s'"
    and first_ok: "First G s P = Inr r \<Longrightarrow> r \<in> ran (rows s) \<and> P r"
    and first_healthy: "healthy s \<Longrightarrow> r \<in> ran (rows s) \<Longrightarrow> P r \<Longrightarrow> \<exists>r'. First G s P = Inr r'"
    and find_ok: "Find G s P = Inr rs \<Longrightarrow> distinct rs \<and> set rs = {r \<in> ran (rows s). P r}"
    and find_healthy: "healthy s \<Longrightarrow> \<exists>rs. Find G s P = Inr rs"

text \<open>A column declared \<^verbatim>\<open>unique\<close>: a write that would give two rows the same value fails.\<close>

locale gorm_unique = gorm_table G rows base healthy key stamp merge
  for G :: "('s, 'row) gorm" and rows base :: "'s \<Rightarrow> 'k \<rightharpoonup> 'row" and healthy key stamp merge +
  fixes col :: "'row \<Rightarrow> 'c"
  assumes create_unique: "CreateRow G s r = (None, s') \<Longrightarrow> col r \<notin> col ` ran (rows s)"
    and updates_unique: "inj_on col (ran (rows s)) \<Longrightarrow> Updates G s P r = (None, s') \<Longrightarrow> inj_on col (ran (rows s'))"

section \<open>Facts on transactions\<close>

context gorm_table
begin

lemma ran_keyed: "r \<in> ran (rows s) \<longleftrightarrow> rows s (key r) = Some r"
  using keyed by (fastforce simp: ran_def)

lemma write_base [simp]:
  "base (snd (CreateRow G s r)) = base s" "base (snd (Updates G s P r)) = base s" "base (snd (DeleteRows G s P)) = base s"
  by (rule create_base [OF prod.collapse [symmetric]], rule updates_base [OF prod.collapse [symmetric]],
      rule delete_base [OF prod.collapse [symmetric]])

lemma with_tx_kept:
  assumes "with_tx G db body = (r, db')" "\<And>tx' r'. body (Begin G db) = (r', tx') \<Longrightarrow> base tx' = rows db"
  shows "rows db' = rows db"
  using assms by (auto simp: with_tx_def rollback_rows split: prod.splits)

end

text \<open>The tail every writing method has: commit, and answer with an internal error when that fails.\<close>

definition commit_tx :: "('s, 'row) gorm \<Rightarrow> 's \<Rightarrow> (status, unit) result \<times> 's" where
  "commit_tx G tx = (case Commit G tx of
      (Some e, tx) \<Rightarrow> (Inl (status_Error codes_Internal ''internal server error''), tx)
    | (None, tx) \<Rightarrow> (Inr (), tx))"

context gorm_table
begin

lemma commit_tx_cases:
  assumes "commit_tx G tx = (r, tx')"
  obtains (committed) "r = Inr ()" "base tx' = rows tx"
    | (failed) e where "r = Inl e" "Code e = codes_Internal" "base tx' = base tx" "\<not> healthy tx"
  using assms commit_ok commit_err commit_healthy [of tx]
  by (fastforce simp: commit_tx_def status_Error_def split: prod.splits option.splits)

text \<open>A write followed by a commit either does both or leaves the table to be restored.\<close>

lemma write_commit:
  assumes "with_tx G db (\<lambda>tx. case w of (Some e, tx) \<Rightarrow> (Inl err, tx) | (None, tx) \<Rightarrow> commit_tx G tx) = (r, db')"
    and "base (snd w) = rows db"
  obtains (ok) tx where "w = (None, tx)" "r = Inr ()" "rows db' = rows tx"
    | (err) e where "r = Inl e" "rows db' = rows db" "e = err \<or> Code e = codes_Internal"
        "fst w = None \<Longrightarrow> \<not> healthy (snd w)"
proof (cases w)
  case (Pair eo tx)
  show ?thesis
  proof (cases eo)
    case None
    obtain tx' where c: "commit_tx G tx = (r, tx')" "db' = Rollback G tx'"
      using assms(1) by (auto simp: with_tx_def Pair None split: prod.splits)
    from c(1) show ?thesis
      by (cases rule: commit_tx_cases) (use assms(2) c(2) Pair None ok err in \<open>auto simp: rollback_rows\<close>)
  next
    case (Some e)
    then show ?thesis using assms Pair by (intro err) (auto simp: with_tx_def rollback_rows)
  qed
qed

lemma commit_tx_healthy: "healthy tx \<Longrightarrow> \<exists>tx'. commit_tx G tx = (Inr (), tx') \<and> healthy tx'"
  using commit_healthy [of tx] by (auto simp: commit_tx_def)

end

section \<open>A reference table\<close>

text \<open>A table kept as a list of rows; a row shadows later ones with its key. It has a counter for
  keys and a clock, and refuses a write that breaks the unique columns (\<open>uniq\<close>).\<close>

record 'row mem =
  tbl :: "'row list"
  saved :: "'row list"
  ticks :: nat

fun canon :: "('row \<Rightarrow> 'k) \<Rightarrow> 'row list \<Rightarrow> 'row list" where
  "canon key [] = []"
| "canon key (r # rs) = r # filter (\<lambda>x. key x \<noteq> key r) (canon key rs)"

definition mem_rows :: "('row \<Rightarrow> 'k) \<Rightarrow> 'row list \<Rightarrow> 'k \<rightharpoonup> 'row" where
  "mem_rows key rs = map_of (map (\<lambda>r. (key r, r)) rs)"

definition mem_gorm :: "(nat \<Rightarrow> 'k) \<Rightarrow> ('row \<Rightarrow> 'k) \<Rightarrow> ('k \<Rightarrow> i64 \<Rightarrow> 'row \<Rightarrow> 'row) \<Rightarrow>
    (i64 \<Rightarrow> 'row \<Rightarrow> 'row \<Rightarrow> 'row) \<Rightarrow> ('row list \<Rightarrow> bool) \<Rightarrow> ('row mem, 'row) gorm" where
  "mem_gorm gen key stamp merge uniq = \<lparr>
     Begin = (\<lambda>s. s\<lparr>saved := tbl s\<rparr>),
     Commit = (\<lambda>s. (None, s\<lparr>saved := tbl s\<rparr>)),
     Rollback = (\<lambda>s. s\<lparr>tbl := saved s\<rparr>),
     CreateRow = (\<lambda>s r. let r' = stamp (gen (ticks s)) (of_nat (Suc (ticks s))) r in
       if key r' \<in> key ` set (tbl s) \<or> \<not> uniq (r' # canon key (tbl s)) then (Some ErrDuplicatedKey, s)
       else (None, s\<lparr>tbl := r' # tbl s, ticks := Suc (ticks s)\<rparr>)),
     Updates = (\<lambda>s P r. let rs = map (\<lambda>old. if P old then merge (of_nat (Suc (ticks s))) r old else old) (canon key (tbl s)) in
       if uniq rs then (None, s\<lparr>tbl := rs, ticks := Suc (ticks s)\<rparr>) else (Some ErrDuplicatedKey, s)),
     DeleteRows = (\<lambda>s P. (None, s\<lparr>tbl := filter (\<lambda>r. \<not> P r) (canon key (tbl s))\<rparr>)),
     First = (\<lambda>s P. case filter P (canon key (tbl s)) of [] \<Rightarrow> Inl ErrRecordNotFound | r # _ \<Rightarrow> Inr r),
     Find = (\<lambda>s P. Inr (filter P (canon key (tbl s))))\<rparr>"

lemma mem_rows_Cons: "mem_rows key (r # rs) = (mem_rows key rs)(key r \<mapsto> r)"
  by (simp add: mem_rows_def)

lemma mem_rows_keyed: "mem_rows key rs k = Some r \<Longrightarrow> key r = k \<and> r \<in> set rs"
  by (auto simp: mem_rows_def dest: map_of_SomeD)

lemma mem_rows_filter:
  "mem_rows key (filter (\<lambda>x. key x \<noteq> k) rs) = (mem_rows key rs)(k := None)"
  by (induction rs) (auto simp: mem_rows_def)

lemma mem_rows_canon [simp]: "mem_rows key (canon key rs) = mem_rows key rs"
  by (induction rs) (simp_all add: mem_rows_Cons mem_rows_filter)

lemma distinct_canon: "distinct (map key (canon key rs))"
  by (induction rs) (auto simp: distinct_map_filter)

lemma mem_rows_distinct:
  "distinct (map key rs) \<Longrightarrow> mem_rows key rs k = Some r \<longleftrightarrow> r \<in> set rs \<and> key r = k"
  by (auto simp: mem_rows_def map_of_eq_Some_iff comp_def image_iff)

lemma ran_mem_rows: "ran (mem_rows key rs) = set (canon key rs)"
proof -
  have "ran (mem_rows key (canon key rs)) = set (canon key rs)"
    using mem_rows_distinct [OF distinct_canon, of key rs] by (auto simp: ran_def)
  then show ?thesis by simp
qed

lemma set_canon_subset: "set (canon key rs) \<subseteq> set rs"
  by (induction rs) auto

lemma mem_rows_None: "mem_rows key rs k = None \<longleftrightarrow> k \<notin> key ` set rs"
  by (auto simp: mem_rows_def map_of_eq_None_iff image_iff)

lemma mem_rows_map:
  assumes "\<And>r. key (f r) = key r"
  shows "mem_rows key (map f rs) k = map_option f (mem_rows key rs k)"
  using assms by (induction rs) (auto simp: mem_rows_def)

lemma mem_rows_delete:
  assumes "distinct (map key rs)"
  shows "mem_rows key (filter (\<lambda>r. \<not> P r) rs) k = Option.bind (mem_rows key rs k) (\<lambda>r. if P r then None else Some r)"
  using assms
proof (induction rs)
  case (Cons r rs)
  then show ?case by (auto simp: mem_rows_Cons mem_rows_None)
qed (simp add: mem_rows_def)

text \<open>The reference table has the laws of the interface.\<close>

lemma mem_gorm_laws:
  fixes key :: "'row \<Rightarrow> 'k"
  assumes merge_key: "\<And>t r old. key (merge t r old) = key old"
  shows "gorm_table (mem_gorm gen key stamp merge uniq) (\<lambda>s. mem_rows key (tbl s)) (\<lambda>s. mem_rows key (saved s))
    (\<lambda>s. True) key stamp merge"
proof unfold_locales
  fix s s' :: "'row mem" and P r eo
  let ?G = "mem_gorm gen key stamp merge uniq"
  have key_if: "key (if P old then merge t r old else old) = key old" for old t by (simp add: merge_key)
  show "\<exists>t. \<forall>k. mem_rows key (tbl s') k = map_option (\<lambda>old. if P old then merge t r old else old) (mem_rows key (tbl s) k)"
    if "Updates ?G s P r = (None, s')"
    using that mem_rows_map [of key "\<lambda>old. if P old then merge t r old else old" for t, OF key_if]
    by (auto simp: mem_gorm_def Let_def split: if_splits)
  show "\<exists>k t. let r' = stamp k t r in mem_rows key (tbl s) (key r') = None \<and>
      mem_rows key (tbl s') = (mem_rows key (tbl s))(key r' \<mapsto> r')" if "CreateRow ?G s r = (None, s')"
    using that by (intro exI [of _ "gen (ticks s)"] exI [of _ "of_nat (Suc (ticks s))"])
      (auto simp: mem_gorm_def Let_def mem_rows_Cons mem_rows_None split: if_splits)
  show "r \<in> ran (mem_rows key (tbl s)) \<and> P r" if "First ?G s P = Inr r"
    using that by (auto simp: mem_gorm_def ran_mem_rows Cons_eq_filter_iff dest!: sym [of "filter _ _"] split: list.splits)
  show "\<exists>r'. First ?G s P = Inr r'" if "r \<in> ran (mem_rows key (tbl s))" "P r"
    using that filter_empty_conv [of P "canon key (tbl s)"]
    by (auto simp: mem_gorm_def ran_mem_rows split: list.splits)
  show "distinct rs \<and> set rs = {r \<in> ran (mem_rows key (tbl s)). P r}" if "Find ?G s P = Inr rs" for rs
    using that distinct_canon [of key "tbl s"] by (auto simp: mem_gorm_def ran_mem_rows distinct_map)
qed (auto simp: mem_gorm_def Let_def mem_rows_Cons mem_rows_None ran_mem_rows mem_rows_delete [OF distinct_canon]
       dest: mem_rows_keyed set_canon_subset [THEN subsetD] split: if_splits list.splits)


lemma mem_gorm_unique_laws:
  fixes key :: "'row \<Rightarrow> 'k"
  assumes merge_key: "\<And>t r old. key (merge t r old) = key old"
    and stamp_col: "\<And>k t r. col (stamp k t r) = col r"
  shows "gorm_unique (mem_gorm gen key stamp merge (\<lambda>rs. distinct (map col rs))) (\<lambda>s. mem_rows key (tbl s))
    (\<lambda>s. mem_rows key (saved s)) (\<lambda>s. True) key stamp merge col"
proof (intro gorm_unique.intro gorm_unique_axioms.intro mem_gorm_laws merge_key)
  fix s s' :: "'row mem" and P r
  let ?G = "mem_gorm gen key stamp merge (\<lambda>rs. distinct (map col rs))"
  show "col r \<notin> col ` ran (mem_rows key (tbl s))" if "CreateRow ?G s r = (None, s')"
    using that by (auto simp: mem_gorm_def Let_def ran_mem_rows stamp_col split: if_splits)
  show "inj_on col (ran (mem_rows key (tbl s')))" if "Updates ?G s P r = (None, s')"
    using that set_canon_subset [of key "tbl s'"]
    by (auto simp: mem_gorm_def Let_def ran_mem_rows distinct_map intro: inj_on_subset split: if_splits)
qed

end
