(* ===== verification/Base64.thy ===== *)
theory Base64
  imports Prelude
begin

text \<open>
  Segments of a token: base64url without padding as \<^verbatim>\<open>encoding/base64\<close> implements it, with the two
  options the parser has (\<^verbatim>\<open>token.go\<close> \<^verbatim>\<open>EncodeSegment\<close>, \<^verbatim>\<open>parser.go\<close> \<^verbatim>\<open>DecodeSegment\<close>).
  Byte strings are character lists; a character is a byte.
\<close>

section \<open>The encoding\<close>

abbreviation byte :: "char \<Rightarrow> nat" where "byte c \<equiv> of_char c"

abbreviation chr :: "nat \<Rightarrow> char" where "chr n \<equiv> char_of n"

definition b64_char :: "nat \<Rightarrow> char" where
  "b64_char n = (if n < 26 then chr (65 + n) else if n < 52 then chr (71 + n) else if n < 62 then chr (n - 4)
     else if n = 62 then CHR ''-'' else CHR ''_'')"

definition b64_val :: "char \<Rightarrow> nat option" where
  "b64_val c = (let n = byte c in
     if 65 \<le> n \<and> n \<le> 90 then Some (n - 65) else if 97 \<le> n \<and> n \<le> 122 then Some (n - 71)
     else if 48 \<le> n \<and> n \<le> 57 then Some (n + 4) else if c = CHR ''-'' then Some 62
     else if c = CHR ''_'' then Some 63 else None)"

text \<open>\<^verbatim>\<open>base64.RawURLEncoding.EncodeToString\<close>.\<close>

fun EncodeSegment :: "string \<Rightarrow> string" where
  "EncodeSegment [] = []"
| "EncodeSegment [a] = [b64_char (byte a div 4), b64_char (byte a mod 4 * 16)]"
| "EncodeSegment [a, b] = [b64_char (byte a div 4), b64_char (byte a mod 4 * 16 + byte b div 16), b64_char (byte b mod 16 * 4)]"
| "EncodeSegment (a # b # c # rest) =
     b64_char (byte a div 4) # b64_char (byte a mod 4 * 16 + byte b div 16) #
     b64_char (byte b mod 16 * 4 + byte c div 64) # b64_char (byte c mod 64) # EncodeSegment rest"

text \<open>One quantum of the decoder yields one to three bytes; a strict decoder refuses unused bits.\<close>

definition quantum1 :: "bool \<Rightarrow> char \<Rightarrow> char \<Rightarrow> string option" where
  "quantum1 strict a b = (case (b64_val a, b64_val b) of
      (Some x, Some y) \<Rightarrow> if strict \<and> y mod 16 \<noteq> 0 then None else Some [chr (x * 4 + y div 16)]
    | _ \<Rightarrow> None)"

definition quantum2 :: "bool \<Rightarrow> char \<Rightarrow> char \<Rightarrow> char \<Rightarrow> string option" where
  "quantum2 strict a b c = (case (b64_val a, b64_val b, b64_val c) of
      (Some x, Some y, Some z) \<Rightarrow> if strict \<and> z mod 4 \<noteq> 0 then None
        else Some [chr (x * 4 + y div 16), chr (y mod 16 * 16 + z div 4)]
    | _ \<Rightarrow> None)"

definition quantum3 :: "char \<Rightarrow> char \<Rightarrow> char \<Rightarrow> char \<Rightarrow> string option" where
  "quantum3 a b c d = (case (b64_val a, b64_val b, b64_val c, b64_val d) of
      (Some x, Some y, Some z, Some w) \<Rightarrow>
        Some [chr (x * 4 + y div 16), chr (y mod 16 * 16 + z div 4), chr (z mod 4 * 64 + w)]
    | _ \<Rightarrow> None)"

fun decode_quanta :: "bool \<Rightarrow> bool \<Rightarrow> string \<Rightarrow> string option" where
  "decode_quanta strict padded [] = Some []"
| "decode_quanta strict padded [a] = None"
| "decode_quanta strict padded [a, b] = (if padded then None else quantum1 strict a b)"
| "decode_quanta strict padded [a, b, c] = (if padded then None else quantum2 strict a b c)"
| "decode_quanta strict padded (a # b # c # d # rest) =
     (if padded \<and> c = CHR ''='' then if d = CHR ''='' \<and> rest = [] then quantum1 strict a b else None
      else if padded \<and> d = CHR ''='' then if rest = [] then quantum2 strict a b c else None
      else case quantum3 a b c d of None \<Rightarrow> None
        | Some bs \<Rightarrow> map_option (append bs) (decode_quanta strict padded rest))"

text \<open>\<^verbatim>\<open>DecodeString\<close> passes over carriage returns and newlines wherever they are.\<close>

definition DecodeString :: "bool \<Rightarrow> bool \<Rightarrow> string \<Rightarrow> string option" where
  "DecodeString strict padded s = decode_quanta strict padded (filter (\<lambda>c. c \<noteq> CHR 0x0A \<and> c \<noteq> CHR 0x0D) s)"

definition DecodeSegment :: "bool \<Rightarrow> bool \<Rightarrow> string \<Rightarrow> string option" where
  "DecodeSegment decodeStrict decodePaddingAllowed seg =
     (let seg = (if decodePaddingAllowed then (let l = length seg mod 4 in
              if l > 0 then seg @ replicate (4 - l) CHR ''='' else seg) else seg)
      in DecodeString decodeStrict decodePaddingAllowed seg)"

section \<open>Round trip\<close>

lemma b64_val_char [simp]: "n < 64 \<Longrightarrow> b64_val (b64_char n) = Some n"
  by (simp add: b64_val_def b64_char_def Let_def; linarith?)

lemma byte_lt [simp]: "byte c < 256"
  by (cases c) simp

lemma chr_byte: "chr (byte c) = c"
  by simp

lemma b64_val_SomeD: "b64_val c = Some n \<Longrightarrow> n < 64 \<and> c = b64_char n"
proof -
  assume "b64_val c = Some n"
  moreover have "c = chr (byte c)" by simp
  ultimately show ?thesis
    by (auto simp: b64_val_def b64_char_def Let_def split: if_splits)
qed

lemma b64_char_alphabet [simp]:
  "b64_char n \<noteq> CHR ''=''" "b64_char n \<noteq> CHR 0x0A" "b64_char n \<noteq> CHR 0x0D" "b64_char n \<noteq> CHR ''.''"
proof -
  have "byte (b64_char n) \<notin> {byte CHR ''='', byte CHR 0x0A, byte CHR 0x0D, byte CHR ''.''}"
    by (simp add: b64_char_def) linarith
  then show "b64_char n \<noteq> CHR ''=''" "b64_char n \<noteq> CHR 0x0A" "b64_char n \<noteq> CHR 0x0D" "b64_char n \<noteq> CHR ''.''"
    by auto
qed

text \<open>Splitting bytes into groups of six bits and back.\<close>

lemma sextets:
  fixes x y z :: nat
  assumes "x < 256" "y < 256" "z < 256"
  shows "x div 4 < 64" "x mod 4 * 16 < 64" "x mod 4 * 16 + y div 16 < 64" "y mod 16 * 4 < 64"
    "y mod 16 * 4 + z div 64 < 64" "z mod 64 < 64"
    "x div 4 * 4 + x mod 4 * 16 div 16 = x" "x mod 4 * 16 mod 16 = 0"
    "x div 4 * 4 + (x mod 4 * 16 + y div 16) div 16 = x"
    "(x mod 4 * 16 + y div 16) mod 16 * 16 + y mod 16 * 4 div 4 = y" "y mod 16 * 4 mod 4 = 0"
    "(x mod 4 * 16 + y div 16) mod 16 * 16 + (y mod 16 * 4 + z div 64) div 4 = y"
    "(y mod 16 * 4 + z div 64) mod 4 * 64 + z mod 64 = z"
proof -
  have q: "x div 4 < 64" "y div 16 < 16" "z div 64 < 4" using assms by (auto simp: less_mult_imp_div_less)
  show "x div 4 < 64" by (fact q)
  show "x mod 4 * 16 < 64" "y mod 16 * 4 < 64" "z mod 64 < 64"
    using mod_less_divisor [of 4 x] mod_less_divisor [of 16 y] by simp_all
  show "x mod 4 * 16 + y div 16 < 64" "y mod 16 * 4 + z div 64 < 64"
    using mod_less_divisor [of 4 x] mod_less_divisor [of 16 y] q by linarith+
  show "x mod 4 * 16 mod 16 = 0" "y mod 16 * 4 mod 4 = 0" by simp_all
  show "x div 4 * 4 + x mod 4 * 16 div 16 = x" by simp
  have d: "(x mod 4 * 16 + y div 16) div 16 = x mod 4" "(x mod 4 * 16 + y div 16) mod 16 = y div 16"
    "(y mod 16 * 4 + z div 64) div 4 = y mod 16" "(y mod 16 * 4 + z div 64) mod 4 = z div 64"
    using q by simp_all
  show "x div 4 * 4 + (x mod 4 * 16 + y div 16) div 16 = x"
    "(x mod 4 * 16 + y div 16) mod 16 * 16 + y mod 16 * 4 div 4 = y"
    "(x mod 4 * 16 + y div 16) mod 16 * 16 + (y mod 16 * 4 + z div 64) div 4 = y"
    "(y mod 16 * 4 + z div 64) mod 4 * 64 + z mod 64 = z"
    unfolding d by simp_all
qed

lemma quantum_encode [simp]:
  "quantum1 strict (b64_char (byte a div 4)) (b64_char (byte a mod 4 * 16)) = Some [a]"
  "quantum2 strict (b64_char (byte a div 4)) (b64_char (byte a mod 4 * 16 + byte b div 16)) (b64_char (byte b mod 16 * 4)) = Some [a, b]"
  "quantum3 (b64_char (byte a div 4)) (b64_char (byte a mod 4 * 16 + byte b div 16))
     (b64_char (byte b mod 16 * 4 + byte c div 64)) (b64_char (byte c mod 64)) = Some [a, b, c]"
proof -
  note S = sextets [of "byte a" "byte b" "byte c", OF byte_lt byte_lt byte_lt]
  note V = S(1-6) [THEN b64_val_char]
  show "quantum1 strict (b64_char (byte a div 4)) (b64_char (byte a mod 4 * 16)) = Some [a]"
    unfolding quantum1_def V prod.case option.case S(7,8) chr_byte by simp
  show "quantum2 strict (b64_char (byte a div 4)) (b64_char (byte a mod 4 * 16 + byte b div 16)) (b64_char (byte b mod 16 * 4)) = Some [a, b]"
    unfolding quantum2_def V prod.case option.case S(9,10,11) chr_byte by simp
  show "quantum3 (b64_char (byte a div 4)) (b64_char (byte a mod 4 * 16 + byte b div 16))
     (b64_char (byte b mod 16 * 4 + byte c div 64)) (b64_char (byte c mod 64)) = Some [a, b, c]"
    unfolding quantum3_def V prod.case option.case S(9,12,13) chr_byte ..
qed

lemma decode_encode: "decode_quanta strict False (EncodeSegment s) = Some s"
  by (induction s rule: EncodeSegment.induct) simp_all

definition b64_pad :: "string \<Rightarrow> string" where
  "b64_pad s = (if length s mod 4 = 0 then [] else replicate (4 - length s mod 4) CHR ''='')"

lemma decode_encode_padded: "decode_quanta strict True (EncodeSegment s @ b64_pad (EncodeSegment s)) = Some s"
proof (induction s rule: EncodeSegment.induct)
  case (4 a b c rest)
  have "b64_pad (EncodeSegment (a # b # c # rest)) = b64_pad (EncodeSegment rest)"
  proof -
    have "length (EncodeSegment (a # b # c # rest)) = 4 + length (EncodeSegment rest)" by simp
    then show ?thesis by (simp only: b64_pad_def mod_add_self1)
  qed
  with 4 show ?case by simp
qed (simp_all add: b64_pad_def numeral_2_eq_2)

lemma filter_EncodeSegment: "filter (\<lambda>c. c \<noteq> CHR 0x0A \<and> c \<noteq> CHR 0x0D) (EncodeSegment s) = EncodeSegment s"
  by (induction s rule: EncodeSegment.induct) simp_all

lemma EncodeSegment_no_dot: "CHR ''.'' \<notin> set (EncodeSegment s)"
  by (induction s rule: EncodeSegment.induct) (auto dest: sym [of "CHR ''.''"])

lemma DecodeSegment_EncodeSegment: "DecodeSegment strict padded (EncodeSegment s) = Some s"
proof (cases padded)
  case True
  have "filter (\<lambda>c. c \<noteq> CHR 0x0A \<and> c \<noteq> CHR 0x0D) (EncodeSegment s @ b64_pad (EncodeSegment s))
      = EncodeSegment s @ b64_pad (EncodeSegment s)"
    by (simp add: filter_EncodeSegment b64_pad_def)
  moreover have "DecodeSegment strict True (EncodeSegment s) = DecodeString strict True (EncodeSegment s @ b64_pad (EncodeSegment s))"
    by (auto simp: DecodeSegment_def b64_pad_def Let_def)
  ultimately show ?thesis using True decode_encode_padded by (simp add: DecodeString_def)
qed (simp add: DecodeSegment_def DecodeString_def filter_EncodeSegment decode_encode)

text \<open>A strict decoder accepts one spelling of each byte string.\<close>

lemma quantum_strictD:
  "quantum1 True a b = Some t \<Longrightarrow> EncodeSegment t = [a, b]"
  "quantum2 True a b c = Some t \<Longrightarrow> EncodeSegment t = [a, b, c]"
  "quantum3 a b c d = Some t \<Longrightarrow> \<exists>x y z. t = [x, y, z] \<and> EncodeSegment t = [a, b, c, d]"
proof -
  have arith: "(x * 4 + y div 16) div 4 = x" "(x * 4 + y div 16) mod 4 = y div 16"
      "(y mod 16 * 16 + z div 4) div 16 = y mod 16" "(y mod 16 * 16 + z div 4) mod 16 = z div 4"
      "(z mod 4 * 64 + w) div 64 = z mod 4" "(z mod 4 * 64 + w) mod 64 = w"
      "x * 4 + y div 16 < 256" "y mod 16 * 16 + z div 4 < 256" "z mod 4 * 64 + w < 256"
    if "x < 64" "y < 64" "z < 64" "w < 64" for x y z w :: nat
  proof -
    have "y div 16 < 4" "z div 4 < 16" "y mod 16 < 16" "z mod 4 < 4" using that by auto
    then show "(x * 4 + y div 16) div 4 = x" "(x * 4 + y div 16) mod 4 = y div 16"
      "(y mod 16 * 16 + z div 4) div 16 = y mod 16" "(y mod 16 * 16 + z div 4) mod 16 = z div 4"
      "(z mod 4 * 64 + w) div 64 = z mod 4" "(z mod 4 * 64 + w) mod 64 = w"
      "x * 4 + y div 16 < 256" "y mod 16 * 16 + z div 4 < 256" "z mod 4 * 64 + w < 256"
      using that by simp_all
  qed
  show "EncodeSegment t = [a, b]" if "quantum1 True a b = Some t"
    using that arith [of _ _ 0 0]
    by (auto simp: quantum1_def of_char_of dest!: b64_val_SomeD split: option.splits if_splits)
  show "EncodeSegment t = [a, b, c]" if "quantum2 True a b c = Some t"
    using that arith [of _ _ _ 0]
    by (auto simp: quantum2_def of_char_of dest!: b64_val_SomeD split: option.splits if_splits)
  show "\<exists>x y z. t = [x, y, z] \<and> EncodeSegment t = [a, b, c, d]" if "quantum3 a b c d = Some t"
    using that arith
    by (auto simp: quantum3_def of_char_of dest!: b64_val_SomeD split: option.splits if_splits)
qed

lemma decode_quanta_strictD: "decode_quanta True False s = Some t \<Longrightarrow> EncodeSegment t = s"
proof (induction True False s arbitrary: t rule: decode_quanta.induct)
  case (5 a b c d rest)
  then obtain bs t' where q: "quantum3 a b c d = Some bs" and t': "decode_quanta True False rest = Some t'" "t = bs @ t'"
    by (auto split: option.splits)
  from quantum_strictD(3) [OF q] obtain x y z where "bs = [x, y, z]" "EncodeSegment [x, y, z] = [a, b, c, d]" by auto
  with t' 5(1) [OF _ _ q t'(1)] show ?case by simp
qed (auto dest: quantum_strictD)

text \<open>Token segments round-trip under every parser option, and a strict parser accepts a single
  spelling of a byte string: what it decodes without padding, line breaks aside, is the encoding
  of the result.\<close>

theorem segment_roundtrip:
  "DecodeSegment strict padded (EncodeSegment s) = Some s \<and>
   (DecodeSegment True False seg = Some t \<longrightarrow> filter (\<lambda>c. c \<noteq> CHR 0x0A \<and> c \<noteq> CHR 0x0D) seg = EncodeSegment t)"
  using DecodeSegment_EncodeSegment decode_quanta_strictD by (auto simp: DecodeSegment_def DecodeString_def)

theorem segment_roundtrip_witness:
  "DecodeSegment True False ''aGk'' = Some ''hi'' \<and> EncodeSegment ''hi'' = ''aGk''"
proof -
  have e: "EncodeSegment ''hi'' = ''aGk''" by code_simp
  then show ?thesis using segment_roundtrip [of True False "''hi''" "''aGk''" "''hi''"] by simp
qed

end
