(* ===== verification/Json.thy ===== *)
theory Json
  imports Base64
begin

text \<open>
  The part of \<^verbatim>\<open>encoding/json\<close> the tokens go through: the text format with Go's escaping and
  repair of invalid UTF-8, as a parser and a printer on byte strings. Objects keep their members in
  order, with repetitions; numbers keep their literal.
\<close>

datatype json =
    JNull
  | JBool bool
  | JNum string
  | JStr string
  | JArr "json list"
  | JObj "(string \<times> json) list"

section \<open>Characters\<close>

abbreviation bsl :: char where "bsl \<equiv> CHR 0x5C"

abbreviation quo :: char where "quo \<equiv> CHR 0x22"

text \<open>The length of the UTF-8 sequence a byte string starts with, 0 when there is none.\<close>

definition cont :: "char \<Rightarrow> bool" where
  "cont c \<longleftrightarrow> 0x80 \<le> byte c \<and> byte c \<le> 0xBF"

definition utf8_len :: "string \<Rightarrow> nat" where
  "utf8_len s = (case s of [] \<Rightarrow> 0 | a # s \<Rightarrow>
     if byte a < 0x80 then 1
     else case s of [] \<Rightarrow> 0 | b # s \<Rightarrow>
     if 0xC2 \<le> byte a \<and> byte a \<le> 0xDF then of_bool (cont b) * 2
     else case s of [] \<Rightarrow> 0 | c # s \<Rightarrow>
     if 0xE0 \<le> byte a \<and> byte a \<le> 0xEF then
       of_bool (cont b \<and> cont c \<and> (byte a = 0xE0 \<longrightarrow> 0xA0 \<le> byte b) \<and> (byte a = 0xED \<longrightarrow> byte b \<le> 0x9F)) * 3
     else case s of [] \<Rightarrow> 0 | d # s \<Rightarrow>
     if 0xF0 \<le> byte a \<and> byte a \<le> 0xF4 then
       of_bool (cont b \<and> cont c \<and> cont d \<and> (byte a = 0xF0 \<longrightarrow> 0x90 \<le> byte b) \<and> (byte a = 0xF4 \<longrightarrow> byte b \<le> 0x8F)) * 4
     else 0)"

definition utf8_encode :: "nat \<Rightarrow> string" where
  "utf8_encode r =
     (if r < 0x80 then [chr r]
      else if r < 0x800 then [chr (0xC0 + r div 64), chr (0x80 + r mod 64)]
      else if r < 0x10000 then [chr (0xE0 + r div 4096), chr (0x80 + r div 64 mod 64), chr (0x80 + r mod 64)]
      else [chr (0xF0 + r div 262144), chr (0x80 + r div 4096 mod 64), chr (0x80 + r div 64 mod 64), chr (0x80 + r mod 64)])"

definition replacement :: string where "replacement = utf8_encode 0xFFFD"

function utf8_valid :: "string \<Rightarrow> bool" where
  "utf8_valid s = (case s of [] \<Rightarrow> True | c # _ \<Rightarrow> if utf8_len s = 0 then False else utf8_valid (drop (utf8_len s) s))"
  by pat_completeness auto
termination by (relation "measure length") auto

definition hex_val :: "char \<Rightarrow> nat option" where
  "hex_val c = (let n = byte c in if 48 \<le> n \<and> n \<le> 57 then Some (n - 48)
     else if 97 \<le> n \<and> n \<le> 102 then Some (n - 87) else if 65 \<le> n \<and> n \<le> 70 then Some (n - 55) else None)"

definition hex_char :: "nat \<Rightarrow> char" where
  "hex_char n = (if n < 10 then chr (48 + n) else chr (87 + n))"

definition hex4 :: "string \<Rightarrow> (nat \<times> string) option" where
  "hex4 s = (if length s < 4 then None else
     (case (hex_val (s ! 0), hex_val (s ! 1), hex_val (s ! 2), hex_val (s ! 3)) of
        (Some a, Some b, Some c, Some d) \<Rightarrow> Some (a * 4096 + b * 256 + c * 16 + d, drop 4 s)
      | _ \<Rightarrow> None))"

lemma hex4_shorter: "hex4 s = Some (r, s') \<Longrightarrow> length s = length s' + 4"
  by (auto simp: hex4_def split: if_splits option.splits)

text \<open>The escape that completes a surrogate pair, when the one that follows does.\<close>

definition low_half :: "nat \<Rightarrow> string \<Rightarrow> (nat \<times> string) option" where
  "low_half r s = (if r < 0xDC00 \<and> take 2 s = [bsl, CHR ''u''] then
     case hex4 (drop 2 s) of None \<Rightarrow> None
     | Some (r2, s') \<Rightarrow> if 0xDC00 \<le> r2 \<and> r2 < 0xE000
         then Some (0x10000 + (r - 0xD800) * 1024 + (r2 - 0xDC00), s') else None
   else None)"

lemma low_half_shorter: "low_half r s = Some (r', s') \<Longrightarrow> length s' < length s"
  by (auto simp: low_half_def dest!: hex4_shorter split: if_splits option.splits)

definition simple_escape :: "char \<Rightarrow> char option" where
  "simple_escape e = (if e \<in> {quo, bsl, CHR ''/''} then Some e
     else if e = CHR ''b'' then Some (chr 8) else if e = CHR ''f'' then Some (chr 12)
     else if e = CHR ''n'' then Some (chr 10) else if e = CHR ''r'' then Some (chr 13)
     else if e = CHR ''t'' then Some (chr 9) else None)"

section \<open>The parser\<close>

text \<open>The body of a string, after its opening quote: the decoded bytes and what follows the closing quote.\<close>

abbreviation put :: "string \<Rightarrow> (string \<times> string) option \<Rightarrow> (string \<times> string) option" where
  "put u \<equiv> map_option (apfst (append u))"

function p_str :: "string \<Rightarrow> (string \<times> string) option" where
  "p_str s = (case s of [] \<Rightarrow> None | c # s1 \<Rightarrow>
     if c = quo then Some ([], s1)
     else if c = bsl then
       (case s1 of [] \<Rightarrow> None | e # s2 \<Rightarrow>
          if e = CHR ''u'' then
            (case hex4 s2 of None \<Rightarrow> None
             | Some (r, s3) \<Rightarrow>
               if 0xD800 \<le> r \<and> r < 0xE000 then
                 (case low_half r s3 of None \<Rightarrow> put replacement (p_str s3)
                  | Some (r', s4) \<Rightarrow> put (utf8_encode r') (p_str s4))
               else put (utf8_encode r) (p_str s3))
          else (case simple_escape e of None \<Rightarrow> None | Some x \<Rightarrow> put [x] (p_str s2)))
     else if byte c < 0x20 then None
     else if utf8_len s = 0 then put replacement (p_str s1)
     else put (take (utf8_len s) s) (p_str (drop (utf8_len s) s)))"
  by pat_completeness auto
termination
  by (relation "measure length") (auto dest!: hex4_shorter low_half_shorter)

declare p_str.simps [simp del]
declare utf8_valid.simps [simp del]

definition digit :: "char \<Rightarrow> bool" where "digit c \<longleftrightarrow> 48 \<le> byte c \<and> byte c \<le> 57"

text \<open>Parts of a number literal; each returns what it read and the rest.\<close>

definition p_digits :: "string \<Rightarrow> (string \<times> string) option" where
  "p_digits s = (if takeWhile digit s = [] then None else Some (takeWhile digit s, dropWhile digit s))"

definition p_int :: "string \<Rightarrow> (string \<times> string) option" where
  "p_int s = (case s of [] \<Rightarrow> None | c # s' \<Rightarrow> if c = CHR ''0'' then Some ([c], s') else p_digits s)"

definition p_frac :: "string \<Rightarrow> (string \<times> string) option" where
  "p_frac s = (case s of [] \<Rightarrow> Some ([], []) | c # s' \<Rightarrow>
     if c = CHR ''.'' then put [c] (p_digits s') else Some ([], s))"

definition p_exp :: "string \<Rightarrow> (string \<times> string) option" where
  "p_exp s = (case s of [] \<Rightarrow> Some ([], []) | c # s' \<Rightarrow>
     if c = CHR ''e'' \<or> c = CHR ''E'' then
       (case s' of [] \<Rightarrow> None | d # s'' \<Rightarrow>
          if d = CHR ''+'' \<or> d = CHR ''-'' then put [c, d] (p_digits s'') else put [c] (p_digits s'))
     else Some ([], s))"

definition p_num :: "string \<Rightarrow> (string \<times> string) option" where
  "p_num s = (let (sign, s) = (if take 1 s = ''-'' then (''-'', drop 1 s) else ([], s)) in
     case p_int s of None \<Rightarrow> None | Some (i, s) \<Rightarrow>
     case p_frac s of None \<Rightarrow> None | Some (f, s) \<Rightarrow>
     map_option (\<lambda>(e, s). (sign @ i @ f @ e, s)) (p_exp s))"

definition space :: "char \<Rightarrow> bool" where
  "space c \<longleftrightarrow> byte c \<in> {32, 9, 10, 13}"

text \<open>The next significant character and what follows it.\<close>

definition next_tok :: "string \<Rightarrow> (char \<times> string) option" where
  "next_tok s = (case dropWhile space s of [] \<Rightarrow> None | c # r \<Rightarrow> Some (c, r))"

definition maxNestingDepth :: nat where "maxNestingDepth = 10000"

text \<open>Values. The first argument bounds the steps (the length of the text is enough), the second is
  the nesting that is left.\<close>

fun p_val :: "nat \<Rightarrow> nat \<Rightarrow> string \<Rightarrow> (json \<times> string) option"
  and p_elems :: "nat \<Rightarrow> nat \<Rightarrow> string \<Rightarrow> (json list \<times> string) option"
  and p_members :: "nat \<Rightarrow> nat \<Rightarrow> string \<Rightarrow> ((string \<times> json) list \<times> string) option" where
  "p_val 0 d s = None"
| "p_val (Suc f) d s = (case next_tok s of None \<Rightarrow> None | Some (c, r) \<Rightarrow>
     if c = CHR 0x7B then
       if d = 0 then None
       else (case next_tok r of None \<Rightarrow> None | Some (c', r') \<Rightarrow>
         if c' = CHR 0x7D then Some (JObj [], r') else map_option (apfst JObj) (p_members f (d - 1) r))
     else if c = CHR ''['' then
       if d = 0 then None
       else (case next_tok r of None \<Rightarrow> None | Some (c', r') \<Rightarrow>
         if c' = CHR '']'' then Some (JArr [], r') else map_option (apfst JArr) (p_elems f (d - 1) r))
     else if c = quo then map_option (apfst JStr) (p_str r)
     else if c = CHR ''-'' \<or> digit c then map_option (apfst JNum) (p_num (c # r))
     else if take 4 (c # r) = ''true'' then Some (JBool True, drop 3 r)
     else if take 5 (c # r) = ''false'' then Some (JBool False, drop 4 r)
     else if take 4 (c # r) = ''null'' then Some (JNull, drop 3 r)
     else None)"
| "p_elems 0 d s = None"
| "p_elems (Suc f) d s = (case p_val f d s of None \<Rightarrow> None | Some (v, r) \<Rightarrow>
     (case next_tok r of None \<Rightarrow> None | Some (c, r') \<Rightarrow>
       if c = CHR '','' then map_option (apfst (Cons v)) (p_elems f d r')
       else if c = CHR '']'' then Some ([v], r') else None))"
| "p_members 0 d s = None"
| "p_members (Suc f) d s = (case next_tok s of None \<Rightarrow> None | Some (c, r) \<Rightarrow>
     if c \<noteq> quo then None
     else (case p_str r of None \<Rightarrow> None | Some (k, r) \<Rightarrow>
       (case next_tok r of None \<Rightarrow> None | Some (c, r) \<Rightarrow>
         if c \<noteq> CHR '':'' then None
         else (case p_val f d r of None \<Rightarrow> None | Some (v, r) \<Rightarrow>
           (case next_tok r of None \<Rightarrow> None | Some (c, r') \<Rightarrow>
             if c = CHR '','' then map_option (apfst (Cons (k, v))) (p_members f d r')
             else if c = CHR 0x7D then Some ([(k, v)], r') else None)))))"

text \<open>The first value of a text, and a text that is one value.\<close>

definition json_first :: "string \<Rightarrow> (json \<times> string) option" where
  "json_first s = p_val (Suc (2 * length s)) maxNestingDepth s"

definition json_parse :: "string \<Rightarrow> json option" where
  "json_parse s = (case json_first s of None \<Rightarrow> None
     | Some (v, r) \<Rightarrow> if dropWhile space r = [] then Some v else None)"

section \<open>The printer\<close>

definition q_char :: "char \<Rightarrow> string" where
  "q_char c = (if c = quo \<or> c = bsl then [bsl, c]
     else if byte c = 8 then [bsl, CHR ''b''] else if byte c = 12 then [bsl, CHR ''f'']
     else if byte c = 10 then [bsl, CHR ''n''] else if byte c = 13 then [bsl, CHR ''r'']
     else if byte c = 9 then [bsl, CHR ''t'']
     else if byte c < 0x20 \<or> c \<in> {CHR ''<'', CHR ''>'', CHR ''&''}
       then [bsl, CHR ''u'', CHR ''0'', CHR ''0'', hex_char (byte c div 16), hex_char (byte c mod 16)]
     else [c])"

function q_str :: "string \<Rightarrow> string" where
  "q_str s = (case s of [] \<Rightarrow> [] | c # s' \<Rightarrow>
     if byte c < 0x80 then q_char c @ q_str s'
     else if utf8_len s = 0 then [bsl] @ ''ufffd'' @ q_str s'
     else if take 3 s = utf8_encode 0x2028 then [bsl] @ ''u2028'' @ q_str (drop 3 s)
     else if take 3 s = utf8_encode 0x2029 then [bsl] @ ''u2029'' @ q_str (drop 3 s)
     else take (utf8_len s) s @ q_str (drop (utf8_len s) s))"
  by pat_completeness auto
termination by (relation "measure length") auto

declare q_str.simps [simp del]

definition q_string :: "string \<Rightarrow> string" where
  "q_string s = [quo] @ q_str s @ [quo]"

fun sep :: "string list \<Rightarrow> string" where
  "sep [] = []"
| "sep [x] = x"
| "sep (x # y # ys) = x @ [CHR '',''] @ sep (y # ys)"

fun json_print :: "json \<Rightarrow> string" where
  "json_print JNull = ''null''"
| "json_print (JBool b) = (if b then ''true'' else ''false'')"
| "json_print (JNum l) = l"
| "json_print (JStr s) = q_string s"
| "json_print (JArr vs) = [CHR ''[''] @ sep (map json_print vs) @ [CHR '']'']"
| "json_print (JObj ms) = [CHR 0x7B] @ sep (map (\<lambda>(k, v). q_string k @ [CHR '':''] @ json_print v) ms) @ [CHR 0x7D]"

section \<open>Strings round-trip\<close>

lemma utf8_len_le: "utf8_len s \<le> length s"
  by (auto simp: utf8_len_def split: list.splits)

lemma utf8_len_ascii: "byte c < 0x80 \<Longrightarrow> utf8_len (c # s) = 1"
  by (simp add: utf8_len_def)

lemma utf8_len_eqs:
  "utf8_len [] = 0"
  "byte a < 0x80 \<Longrightarrow> utf8_len (a # s) = 1"
  "0x80 \<le> byte a \<Longrightarrow> utf8_len [a] = 0"
  "0x80 \<le> byte a \<Longrightarrow> byte a \<le> 0xDF \<Longrightarrow> utf8_len (a # b # s) = of_bool (0xC2 \<le> byte a \<and> cont b) * 2"
  "0xE0 \<le> byte a \<Longrightarrow> utf8_len [a, b] = 0"
  "0xE0 \<le> byte a \<Longrightarrow> byte a \<le> 0xEF \<Longrightarrow> utf8_len (a # b # c # s) =
     of_bool (cont b \<and> cont c \<and> (byte a = 0xE0 \<longrightarrow> 0xA0 \<le> byte b) \<and> (byte a = 0xED \<longrightarrow> byte b \<le> 0x9F)) * 3"
  "0xF0 \<le> byte a \<Longrightarrow> utf8_len [a, b, c] = 0"
  "0xF0 \<le> byte a \<Longrightarrow> utf8_len (a # b # c # d # s) = of_bool (byte a \<le> 0xF4 \<and>
     cont b \<and> cont c \<and> cont d \<and> (byte a = 0xF0 \<longrightarrow> 0x90 \<le> byte b) \<and> (byte a = 0xF4 \<longrightarrow> byte b \<le> 0x8F)) * 4"
  by (simp_all add: utf8_len_def split: list.split)

lemma utf8_len_take:
  assumes "0 < utf8_len s"
  shows "utf8_len (take (utf8_len s) s @ t) = utf8_len s"
proof -
  obtain a r where s: "s = a # r" using assms by (cases s) (simp_all add: utf8_len_eqs)
  consider "byte a < 0x80" | "0x80 \<le> byte a" "byte a \<le> 0xDF" | "0xE0 \<le> byte a" "byte a \<le> 0xEF" | "0xF0 \<le> byte a" by linarith
  then show ?thesis
  proof cases
    case 2
    with assms s obtain b q where "r = b # q" by (cases r) (simp_all add: utf8_len_eqs)
    with 2 assms s show ?thesis by (simp add: utf8_len_eqs)
  next
    case 3
    with assms s obtain b c q where "r = b # c # q" by (cases r; cases "tl r") (auto simp: utf8_len_eqs)
    with 3 assms s show ?thesis by (simp add: utf8_len_eqs)
  next
    case 4
    with assms s obtain b c d q where "r = b # c # d # q" by (cases r; cases "tl r"; cases "tl (tl r)") (auto simp: utf8_len_eqs)
    with 4 assms s show ?thesis by (simp add: utf8_len_eqs)
  qed (simp add: s utf8_len_eqs)
qed

lemma byte_eq_iff: "byte a = byte b \<longleftrightarrow> a = b"
  by (metis of_char_eq_iff)

lemma hex_val_char [simp]: "n < 16 \<Longrightarrow> hex_val (hex_char n) = Some n"
  by (auto simp: hex_val_def hex_char_def Let_def)

lemma hex4_byte: "n < 256 \<Longrightarrow> hex4 (CHR ''0'' # CHR ''0'' # hex_char (n div 16) # hex_char (n mod 16) # s) = Some (n, s)"
proof -
  assume "n < 256"
  then have "n div 16 < 16" by auto
  moreover have "hex_val CHR ''0'' = Some 0" by (simp add: hex_val_def)
  ultimately show ?thesis by (simp add: hex4_def)
qed

lemma p_str_q_char:
  assumes "byte c < 0x80"
  shows "p_str (q_char c @ t) = put [c] (p_str t)"
proof -
  consider (esc) "c = quo \<or> c = bsl"
    | (short) x where "\<not> (c = quo \<or> c = bsl)" "q_char c = [bsl, x]" "x \<noteq> CHR ''u''" "simple_escape x = Some c"
    | (hex) "byte c < 0x20 \<or> c \<in> {CHR ''<'', CHR ''>'', CHR ''&''}"
        "q_char c = [bsl, CHR ''u'', CHR ''0'', CHR ''0'', hex_char (byte c div 16), hex_char (byte c mod 16)]"
    | (plain) "q_char c = [c]" "c \<noteq> quo" "c \<noteq> bsl" "0x20 \<le> byte c"
  proof -
    have "\<exists>x. q_char c = [bsl, x] \<and> x \<noteq> CHR ''u'' \<and> simple_escape x = Some c"
      if "byte c \<in> {8, 12, 10, 13, 9}" "\<not> (c = quo \<or> c = bsl)"
    proof -
      have eq: "byte c = n \<Longrightarrow> chr n = c" for n by auto
      from that show ?thesis by (auto simp: q_char_def simple_escape_def intro: eq)
    qed
    moreover have "byte c \<notin> {8, 12, 10, 13, 9} \<Longrightarrow> \<not> (c = quo \<or> c = bsl) \<Longrightarrow>
        q_char c = (if byte c < 0x20 \<or> c \<in> {CHR ''<'', CHR ''>'', CHR ''&''}
       then [bsl, CHR ''u'', CHR ''0'', CHR ''0'', hex_char (byte c div 16), hex_char (byte c mod 16)]
     else [c])" by (simp add: q_char_def)
    ultimately show ?thesis using that
      by (cases "c = quo \<or> c = bsl"; cases "byte c \<in> {8, 12, 10, 13, 9}";
          cases "byte c < 0x20 \<or> c \<in> {CHR ''<'', CHR ''>'', CHR ''&''}") (simp_all, fastforce+)
  qed
  then show ?thesis
  proof cases
    case esc
    then have "q_char c = [bsl, c]" "simple_escape c = Some c" "c \<noteq> CHR ''u''" by (auto simp: q_char_def simple_escape_def)
    then show ?thesis by (subst p_str.simps) simp
  next
    case short
    then show ?thesis by (subst p_str.simps) simp
  next
    case hex
    have "hex4 (CHR ''0'' # CHR ''0'' # hex_char (byte c div 16) # hex_char (byte c mod 16) # t) = Some (byte c, t)"
      by (rule hex4_byte) simp
    then show ?thesis using assms unfolding hex(2) by (subst p_str.simps) (simp add: utf8_encode_def)
  next
    case plain
    then show ?thesis using assms by (subst p_str.simps) (simp add: utf8_len_ascii)
  qed
qed

lemma utf8_validD:
  assumes "utf8_valid (c # s)"
  shows "0 < utf8_len (c # s)" "utf8_valid (drop (utf8_len (c # s)) (c # s))"
  using assms by (subst (asm) utf8_valid.simps, simp split: if_splits)+

lemma p_str_utf8:
  assumes "0 < utf8_len (c # s)" "0x80 \<le> byte c"
  shows "p_str (take (utf8_len (c # s)) (c # s) @ t) = put (take (utf8_len (c # s)) (c # s)) (p_str t)"
proof -
  let ?n = "utf8_len (c # s)" and ?u = "take (utf8_len (c # s)) (c # s)"
  obtain u' where u: "?u = c # u'" using assms(1) by (cases ?n) simp_all
  have len: "length ?u = ?n" using utf8_len_le [of "c # s"] by simp
  have n: "?n = length (c # u')" using len unfolding u by simp
  have l: "utf8_len (c # u' @ t) = ?n" using utf8_len_take [OF assms(1), of t] unfolding u by simp
  have "take ?n (c # u' @ t) = c # u'" "drop ?n (c # u' @ t) = t" by (subst n, simp)+
  moreover have "c \<noteq> quo" "c \<noteq> bsl" using assms(2) by auto
  ultimately show ?thesis unfolding u using assms l by (subst p_str.simps) simp
qed

lemma hex4_lit:
  "hex4 (CHR ''2'' # CHR ''0'' # CHR ''2'' # CHR ''8'' # s) = Some (0x2028, s)"
  "hex4 (CHR ''2'' # CHR ''0'' # CHR ''2'' # CHR ''9'' # s) = Some (0x2029, s)"
  by (simp_all add: hex4_def hex_val_def)

lemma p_str_line_sep:
  "p_str ([bsl] @ ''u2028'' @ t) = put (utf8_encode 0x2028) (p_str t)"
  "p_str ([bsl] @ ''u2029'' @ t) = put (utf8_encode 0x2029) (p_str t)"
  by (subst p_str.simps, simp add: hex4_lit)+

lemma p_str_q_str: "utf8_valid s \<Longrightarrow> p_str (q_str s @ quo # rest) = Some (s, rest)"
proof (induction s rule: q_str.induct)
  case (1 s)
  show ?case
  proof (cases s)
    case Nil
    then show ?thesis by (subst q_str.simps, subst p_str.simps) simp
  next
    case (Cons c s')
    note v = utf8_validD [OF "1.prems" [unfolded Cons]]
    consider (ascii) "byte c < 0x80"
      | (ls) "\<not> byte c < 0x80" "take 3 s = utf8_encode 0x2028"
      | (ps) "\<not> byte c < 0x80" "take 3 s \<noteq> utf8_encode 0x2028" "take 3 s = utf8_encode 0x2029"
      | (other) "\<not> byte c < 0x80" "take 3 s \<noteq> utf8_encode 0x2028" "take 3 s \<noteq> utf8_encode 0x2029"
      by blast
    then show ?thesis
    proof cases
      case ascii
      then have "q_str s = q_char c @ q_str s'" by (subst q_str.simps) (simp add: Cons)
      moreover have "utf8_valid s'" using v ascii by (simp add: utf8_len_ascii)
      ultimately show ?thesis using p_str_q_char [OF ascii] "1.IH"(1) [OF Cons ascii] by (simp add: Cons)
    next
      case ls
      have e: "utf8_encode 0x2028 = [chr 0xE2, chr 0x80, chr 0xA8]" by (simp add: utf8_encode_def)
      obtain r where s: "s = utf8_encode 0x2028 @ r" using ls(2) by (metis append_take_drop_id)
      have r: "drop 3 s = r" unfolding s e by simp
      have "utf8_len s = 3" unfolding s e by (simp add: utf8_len_eqs cont_def)
      then have "utf8_valid (drop 3 s)" "q_str s = [bsl] @ ''u2028'' @ q_str (drop 3 s)" "utf8_len s \<noteq> 0"
        using v ls by (simp_all add: Cons q_str.simps [of "c # s'"])
      then show ?thesis using "1.IH"(3) [OF Cons ls(1) _ ls(2)] s p_str_line_sep(1) [of "q_str r @ quo # rest"]
        unfolding r by (simp add: s)
    next
      case ps
      have e: "utf8_encode 0x2029 = [chr 0xE2, chr 0x80, chr 0xA9]" by (simp add: utf8_encode_def)
      obtain r where s: "s = utf8_encode 0x2029 @ r" using ps(3) by (metis append_take_drop_id)
      have r: "drop 3 s = r" unfolding s e by simp
      have "utf8_len s = 3" unfolding s e by (simp add: utf8_len_eqs cont_def)
      then have "utf8_valid (drop 3 s)" "q_str s = [bsl] @ ''u2029'' @ q_str (drop 3 s)" "utf8_len s \<noteq> 0"
        using v ps by (simp_all add: Cons q_str.simps [of "c # s'"])
      then show ?thesis using "1.IH"(4) [OF Cons ps(1) _ ps(2,3)] s p_str_line_sep(2) [of "q_str r @ quo # rest"]
        unfolding r by (simp add: s)
    next
      case other
      then have "q_str s = take (utf8_len s) s @ q_str (drop (utf8_len s) s)" using v by (subst q_str.simps) (simp add: Cons)
      then show ?thesis using v other "1.IH"(5) [OF Cons other(1) _ other(2,3)]
          p_str_utf8 [of c s' "q_str (drop (utf8_len s) s) @ quo # rest"] by (simp add: Cons)
    qed
  qed
qed

section \<open>Decimal literals\<close>

fun dec_nat :: "nat \<Rightarrow> string" where
  "dec_nat n = (if n < 10 then [chr (48 + n)] else dec_nat (n div 10) @ [chr (48 + n mod 10)])"

declare dec_nat.simps [simp del]

text \<open>\<^verbatim>\<open>strconv.FormatInt\<close>.\<close>

definition dec_int :: "int \<Rightarrow> string" where
  "dec_int i = (if i < 0 then [CHR ''-''] else []) @ dec_nat (nat \<bar>i\<bar>)"

text \<open>What may follow a number without being read as part of it.\<close>

definition num_end :: "string \<Rightarrow> bool" where
  "num_end s = (case s of [] \<Rightarrow> True | c # _ \<Rightarrow> \<not> digit c \<and> c \<notin> {CHR ''.'', CHR ''e'', CHR ''E''})"

definition num_ok :: "string \<Rightarrow> bool" where
  "num_ok l \<longleftrightarrow> l \<noteq> [] \<and> (hd l = CHR ''-'' \<or> digit (hd l)) \<and> (\<forall>rest. num_end rest \<longrightarrow> p_num (l @ rest) = Some (l, rest))"

lemma digit_chr [simp]: "n < 10 \<Longrightarrow> digit (chr (48 + n))"
  by (simp add: digit_def)

lemma dec_nat_digits: "dec_nat n \<noteq> []" "\<forall>c \<in> set (dec_nat n). digit c"
  by (induction n rule: dec_nat.induct; subst dec_nat.simps; simp)+

lemma dec_nat_hd: "n \<noteq> 0 \<Longrightarrow> hd (dec_nat n) \<noteq> CHR ''0''"
proof (induction n rule: dec_nat.induct)
  case (1 n)
  show ?case
  proof (cases "n < 10")
    case True
    then have "byte (chr (48 + n)) \<noteq> byte CHR ''0''" using "1.prems" by simp
    then have "chr (48 + n) \<noteq> CHR ''0''" by metis
    then show ?thesis using True by (subst dec_nat.simps) simp
  next
    case False
    then have "n div 10 \<noteq> 0" by simp
    with 1 False show ?thesis by (subst dec_nat.simps) (simp add: dec_nat_digits(1))
  qed
qed

lemma p_digits_append: "ds \<noteq> [] \<Longrightarrow> \<forall>c \<in> set ds. digit c \<Longrightarrow> num_end rest \<Longrightarrow> p_digits (ds @ rest) = Some (ds, rest)"
  by (cases rest) (simp_all add: p_digits_def num_end_def takeWhile_append dropWhile_append takeWhile_eq_all_conv [THEN iffD2])

lemma p_int_dec_nat:
  assumes "num_end rest"
  shows "p_int (dec_nat n @ rest) = Some (dec_nat n, rest)"
proof (cases "n = 0")
  case True
  have "dec_nat 0 = [CHR ''0'']" by code_simp
  with True show ?thesis by (simp add: p_int_def)
next
  case False
  with dec_nat_hd [OF this] dec_nat_digits [of n] p_digits_append [OF dec_nat_digits assms, of n]
  show ?thesis by (cases "dec_nat n") (auto simp: p_int_def)
qed

lemma num_end_tail: "num_end rest \<Longrightarrow> p_frac rest = Some ([], rest)" "num_end rest \<Longrightarrow> p_exp rest = Some ([], rest)"
  by (auto simp: num_end_def p_frac_def p_exp_def split: list.splits)

lemma num_ok_dec_int: "num_ok (dec_int i)"
proof -
  let ?n = "nat \<bar>i\<bar>"
  have hd: "digit (hd (dec_nat ?n))" using dec_nat_digits [of ?n] by simp
  then have m: "hd (dec_nat ?n) \<noteq> CHR ''-''" by (auto simp: digit_def)
  have "p_num (dec_int i @ rest) = Some (dec_int i, rest)" if "num_end rest" for rest
    using p_int_dec_nat [OF that, of ?n] num_end_tail [OF that] m dec_nat_digits(1) [of ?n]
    by (cases "dec_nat ?n") (auto simp: dec_int_def p_num_def)
  then show ?thesis using hd dec_nat_digits(1) [of ?n] by (cases "i < 0") (simp_all add: num_ok_def dec_int_def)
qed

end
