(* ===== verification/JsonRound.thy ===== *)
theory JsonRound
  imports Json
begin

text \<open>
  The JSON parser reads back what the printer writes, the step bound of the parser is never reached,
  and a parsed value is as long as it looks: the facts on \<^verbatim>\<open>Json\<close> the token theories use.
\<close>

section \<open>Values round-trip\<close>

fun json_wf :: "nat \<Rightarrow> json \<Rightarrow> bool" where
  "json_wf d JNull = True"
| "json_wf d (JBool b) = True"
| "json_wf d (JNum l) = num_ok l"
| "json_wf d (JStr s) = utf8_valid s"
| "json_wf d (JArr vs) = (d \<noteq> 0 \<and> (\<forall>v \<in> set vs. json_wf (d - 1) v))"
| "json_wf d (JObj ms) = (d \<noteq> 0 \<and> (\<forall>(k, v) \<in> set ms. utf8_valid k \<and> json_wf (d - 1) v))"

lemma next_tok_Cons: "\<not> space c \<Longrightarrow> next_tok (c # s) = Some (c, s)"
  by (simp add: next_tok_def)

lemma spaces [simp]: "\<not> space quo" "\<not> space CHR 0x7B" "\<not> space CHR 0x7D" "\<not> space CHR ''[''" "\<not> space CHR '']''"
  "\<not> space CHR '',''" "\<not> space CHR '':''" "\<not> space CHR ''t''" "\<not> space CHR ''f''" "\<not> space CHR ''n''" "\<not> space CHR ''-''"
  by (simp_all add: space_def)

lemma digit_not: "digit c \<Longrightarrow> \<not> space c \<and> c \<notin> {quo, CHR 0x7B, CHR 0x7D, CHR ''['', CHR '']'', CHR '',''}"
  by (auto simp: digit_def space_def)

text \<open>What the first character of a printed value can be.\<close>

lemma json_print_hd:
  assumes "json_wf d v"
  obtains c s where "json_print v = c # s" "\<not> space c" "c \<noteq> CHR '']''"
proof (cases v)
  case (JNum l)
  then have "num_ok l" using assms by simp
  then obtain c s where "l = c # s" "c = CHR ''-'' \<or> digit c" by (cases l) (auto simp: num_ok_def)
  then show ?thesis using JNum that [of c s] digit_not [of c] by auto
next
  case (JBool b)
  then show ?thesis by (cases b) (auto intro: that)
qed (use that in \<open>auto simp: q_string_def\<close>)

lemma num_end_sep [simp]: "num_end []" "num_end (CHR '','' # t)" "num_end (CHR '']'' # t)" "num_end (CHR 0x7D # t)"
  by (simp_all add: num_end_def digit_def)

lemma p_elems_print:
  assumes "\<And>v f rest. v \<in> set vs \<Longrightarrow> 2 * length (json_print v) < f \<Longrightarrow> num_end rest \<Longrightarrow>
      p_val f d (json_print v @ rest) = Some (v, rest)"
    and "vs \<noteq> []" "2 * length (sep (map json_print vs)) + 2 \<le> f"
  shows "p_elems f d (sep (map json_print vs) @ [CHR '']''] @ rest) = Some (vs, rest)"
  using assms
proof (induction vs arbitrary: f)
  case (Cons v vs)
  obtain g where f: "f = Suc g" using Cons.prems by (cases f) simp_all
  show ?case
  proof (cases vs)
    case Nil
    then have "p_val g d (json_print v @ [CHR '']''] @ rest) = Some (v, [CHR '']''] @ rest)"
      using Cons.prems f by (intro Cons.prems(1)) simp_all
    then show ?thesis by (simp add: f Nil next_tok_Cons)
  next
    case (Cons w ws)
    have s: "sep (map json_print (v # vs)) = json_print v @ [CHR '',''] @ sep (map json_print vs)" by (simp add: Cons)
    have "p_val g d (json_print v @ [CHR '',''] @ sep (map json_print vs) @ [CHR '']''] @ rest)
        = Some (v, [CHR '',''] @ sep (map json_print vs) @ [CHR '']''] @ rest)"
      using Cons.prems(3) unfolding f s by (intro Cons.prems(1)) simp_all
    moreover have "p_elems g d (sep (map json_print vs) @ [CHR '']''] @ rest) = Some (vs, rest)"
      using Cons.prems(3) unfolding f s by (intro Cons.IH Cons.prems(1)) (simp_all add: Cons)
    ultimately show ?thesis unfolding s by (simp add: f next_tok_Cons)
  qed
qed simp

lemma p_members_print:
  assumes "\<And>k v f rest. (k, v) \<in> set ms \<Longrightarrow> utf8_valid k \<and> (2 * length (json_print v) < f \<longrightarrow> num_end rest \<longrightarrow>
      p_val f d (json_print v @ rest) = Some (v, rest))"
    and "ms \<noteq> []" "2 * length (sep (map (\<lambda>(k, v). q_string k @ [CHR '':''] @ json_print v) ms)) + 2 \<le> f"
  shows "p_members f d (sep (map (\<lambda>(k, v). q_string k @ [CHR '':''] @ json_print v) ms) @ [CHR 0x7D] @ rest) = Some (ms, rest)"
  using assms
proof (induction ms arbitrary: f)
  case (Cons m ms)
  let ?pr = "\<lambda>(k, v). q_string k @ [CHR '':''] @ json_print v"
  obtain k v where m: "m = (k, v)" by (cases m)
  obtain g where f: "f = Suc g" using Cons.prems by (cases f) simp_all
  have k: "p_str (q_str k @ quo # t) = Some (k, t)" for t using Cons.prems(1) [of k v] m by (intro p_str_q_str) simp
  show ?case
  proof (cases ms)
    case Nil
    then have "p_val g d (json_print v @ [CHR 0x7D] @ rest) = Some (v, [CHR 0x7D] @ rest)"
      using Cons.prems(1) [of k v g "[CHR 0x7D] @ rest"] Cons.prems(3) f m by simp
    then show ?thesis by (simp add: f Nil m q_string_def next_tok_Cons k)
  next
    case (Cons w ws)
    have s: "sep (map ?pr (m # ms)) = ?pr m @ [CHR '',''] @ sep (map ?pr ms)" by (simp add: Cons)
    have len: "2 * length (json_print v) < g" using Cons.prems(3) unfolding f s by (simp add: m)
    have "p_val g d (json_print v @ [CHR '',''] @ sep (map ?pr ms) @ [CHR 0x7D] @ rest)
        = Some (v, [CHR '',''] @ sep (map ?pr ms) @ [CHR 0x7D] @ rest)"
      using Cons.prems(1) [of k v g "[CHR '',''] @ sep (map ?pr ms) @ [CHR 0x7D] @ rest"] len by (simp add: m)
    moreover have "p_members g d (sep (map ?pr ms) @ [CHR 0x7D] @ rest) = Some (ms, rest)"
      using Cons.prems(3) unfolding f s by (intro Cons.IH Cons.prems(1)) (simp_all add: Cons)
    ultimately show ?thesis unfolding s by (simp add: f m q_string_def next_tok_Cons k)
  qed
qed simp

lemma sep_hd: "xs \<noteq> [] \<Longrightarrow> hd xs \<noteq> [] \<Longrightarrow> \<exists>t. sep xs = hd (hd xs) # t"
  by (cases xs rule: sep.cases) (auto simp: neq_Nil_conv)

lemma p_val_print:
  "json_wf d v \<Longrightarrow> 2 * length (json_print v) < f \<Longrightarrow> num_end rest \<Longrightarrow> p_val f d (json_print v @ rest) = Some (v, rest)"
proof (induction v arbitrary: d f rest)
  case (JNum l)
  obtain g where f: "f = Suc g" using JNum.prems by (cases f) simp_all
  obtain c s where l: "l = c # s" "c = CHR ''-'' \<or> digit c" "p_num (l @ rest) = Some (l, rest)"
    using JNum.prems by (cases l) (auto simp: num_ok_def)
  then have "\<not> space c" "c \<notin> {quo, CHR 0x7B, CHR 0x7D, CHR ''['', CHR '']'', CHR '',''}" using digit_not [of c] by auto
  then show ?case using l by (simp add: f next_tok_Cons)
next
  case (JStr s)
  then obtain g where f: "f = Suc g" by (cases f) simp_all
  show ?case using JStr by (simp add: f q_string_def next_tok_Cons p_str_q_str)
next
  case (JArr vs)
  then obtain g where f: "f = Suc g" by (cases f) simp_all
  show ?case
  proof (cases "vs = []")
    case True
    then show ?thesis using JArr by (simp add: f next_tok_Cons)
  next
    case False
    then obtain v ws where vs: "vs = v # ws" by (cases vs) auto
    obtain c t where c: "json_print v = c # t" "\<not> space c" "c \<noteq> CHR '']''"
      using JArr.prems(1) vs by (auto elim: json_print_hd)
    then obtain t' where t': "sep (map json_print vs) = c # t'" using sep_hd [of "map json_print vs"] vs by auto
    have "p_elems g (d - 1) (sep (map json_print vs) @ [CHR '']''] @ rest) = Some (vs, rest)"
      using JArr f False by (intro p_elems_print) auto
    then show ?thesis using JArr.prems(1) c t' by (simp add: f next_tok_Cons)
  qed
next
  case (JObj ms)
  then obtain g where f: "f = Suc g" by (cases f) simp_all
  let ?pr = "\<lambda>(k, v). q_string k @ [CHR '':''] @ json_print v"
  show ?case
  proof (cases "ms = []")
    case True
    then show ?thesis using JObj by (simp add: f next_tok_Cons)
  next
    case False
    then obtain k v ws where ms: "ms = (k, v) # ws" by (cases ms) auto
    obtain t' where t': "sep (map ?pr ms) = quo # t'" using sep_hd [of "map ?pr ms"] ms by (auto simp: q_string_def)
    have "p_members g (d - 1) (sep (map ?pr ms) @ [CHR 0x7D] @ rest) = Some (ms, rest)"
      using JObj f False by (intro p_members_print) (force simp: snds.simps)+
    then show ?thesis using JObj.prems(1) t' by (simp add: f next_tok_Cons)
  qed
next
  case JNull
  then obtain g where f: "f = Suc g" by (cases f) simp_all
  show ?case by (simp add: f next_tok_Cons digit_def)
next
  case (JBool b)
  then obtain g where f: "f = Suc g" by (cases f) simp_all
  show ?case by (cases b) (simp_all add: f next_tok_Cons digit_def)
qed

lemma json_parse_print: "json_wf maxNestingDepth v \<Longrightarrow> json_parse (json_print v) = Some v"
  using p_val_print [of maxNestingDepth v "Suc (2 * length (json_print v))" "[]"]
  by (simp add: json_parse_def json_first_def num_end_def)

section \<open>The step bound is enough\<close>

lemma next_tok_shorter: "next_tok s = Some (c, r) \<Longrightarrow> length r < length s"
proof -
  assume "next_tok s = Some (c, r)"
  then have "dropWhile space s = c # r" by (auto simp: next_tok_def split: list.splits)
  then have "length (c # r) \<le> length s" by (metis length_dropWhile_le)
  then show ?thesis by simp
qed

lemma p_str_shorter: "p_str s = Some (t, r) \<Longrightarrow> length r < length s"
proof (induction "length s" arbitrary: s t rule: less_induct)
  case less
  have "(\<exists>u t'. p_str u = Some (t', r) \<and> length u < length s) \<or> length r < length s"
    using less.prems
    by (subst (asm) p_str.simps)
      (fastforce split: if_splits option.splits list.splits dest!: hex4_shorter low_half_shorter)
  then show ?case using less.hyps by fastforce
qed

lemma p_digits_shorter: "p_digits s = Some (t, r) \<Longrightarrow> length r < length s"
proof -
  assume "p_digits s = Some (t, r)"
  then have "takeWhile digit s \<noteq> []" "r = dropWhile digit s" by (auto simp: p_digits_def split: if_splits)
  moreover have "length s = length (takeWhile digit s) + length (dropWhile digit s)"
    by (metis length_append takeWhile_dropWhile_id)
  ultimately show ?thesis by simp
qed

lemma p_num_shorter: "p_num s = Some (t, r) \<Longrightarrow> length r < length s"
proof -
  assume a: "p_num s = Some (t, r)"
  have i: "length b < length a" if "p_int a = Some (u, b)" for a u b
    using that by (auto simp: p_int_def dest: p_digits_shorter split: list.splits if_splits)
  have f: "length b \<le> length a" if "p_frac a = Some (u, b)" for a u b
    using that by (auto simp: p_frac_def dest!: p_digits_shorter split: list.splits if_splits)
  have e: "length b \<le> length a" if "p_exp a = Some (u, b)" for a u b
    using that by (auto simp: p_exp_def dest!: p_digits_shorter split: list.splits if_splits)
  have d: "length (drop 1 s) \<le> length s" by simp
  from a show ?thesis
    by (auto simp: p_num_def split: if_splits option.splits dest!: i f e)
qed

lemma p_val_shorter:
  "p_val f d s = Some (v, r) \<Longrightarrow> length r < length s"
  "p_elems f d s = Some (vs, r) \<Longrightarrow> length r < length s"
  "p_members f d s = Some (ms, r) \<Longrightarrow> length r < length s"
proof (induction f d s and f d s and f d s arbitrary: v r and vs r and ms r rule: p_val_p_elems_p_members.induct)
  case (2 f d s)
  obtain c u where n: "next_tok s = Some (c, u)" using 2 by (auto split: option.splits)
  note m = next_tok_shorter [OF n]
  have "length r \<le> length u"
  proof -
    consider "c = CHR 0x7B" | "c = CHR ''[''" | "c = quo" | "c = CHR ''-'' \<or> digit c" 
      | "c \<noteq> CHR 0x7B" "c \<noteq> CHR ''[''" "c \<noteq> quo" "\<not> (c = CHR ''-'' \<or> digit c)" by blast
    then show ?thesis
    proof cases
      case 1
      then obtain c' w where w: "next_tok u = Some (c', w)" "d \<noteq> 0" using "2.prems" n by (auto split: option.splits if_splits)
      have "c' \<noteq> CHR 0x7D \<Longrightarrow> p_members f (d - 1) u = Some (ms, r) \<Longrightarrow> length r < length u" for ms
        using "2.IH"(1) [OF n refl 1 w(2,1) refl] by simp
      with "2.prems" n 1 w next_tok_shorter [OF w(1)] show ?thesis by (auto split: if_splits intro: less_imp_le)
    next
      case 2
      then have ne: "c \<noteq> CHR 0x7B" by simp
      obtain c' w where w: "next_tok u = Some (c', w)" "d \<noteq> 0" using "2.prems" n 2 by (auto split: option.splits if_splits)
      have "c' \<noteq> CHR '']'' \<Longrightarrow> p_elems f (d - 1) u = Some (vs, r) \<Longrightarrow> length r < length u" for vs
        using "2.IH"(2) [OF n refl ne 2 w(2,1) refl] by simp
      with "2.prems" n 2 w next_tok_shorter [OF w(1)] show ?thesis by (auto split: if_splits intro: less_imp_le)
    next
      case 3
      with "2.prems" n show ?thesis by (auto dest!: p_str_shorter)
    next
      case 4
      then have "c \<notin> {CHR 0x7B, CHR ''['', quo}" using digit_not [of c] by auto
      with "2.prems" n 4 show ?thesis by (auto dest!: p_num_shorter)
    next
      case 5
      with "2.prems" n show ?thesis by (auto split: if_splits)
    qed
  qed
  with m show ?case by simp
next
  case (4 f d s)
  then show ?case by (auto split: option.splits if_splits dest!: next_tok_shorter) fastforce+
next
  case (6 f d s)
  then show ?case by (auto split: option.splits if_splits dest!: next_tok_shorter p_str_shorter) fastforce+
qed simp_all

lemma p_val_fuel:
  "2 * length s < f \<Longrightarrow> 2 * length s < g \<Longrightarrow> p_val f d s = p_val g d s"
  "2 * length s + 1 < f \<Longrightarrow> 2 * length s + 1 < g \<Longrightarrow> p_elems f d s = p_elems g d s"
  "2 * length s + 1 < f \<Longrightarrow> 2 * length s + 1 < g \<Longrightarrow> p_members f d s = p_members g d s"
proof (induction f d s and f d s and f d s arbitrary: g and g and g rule: p_val_p_elems_p_members.induct)
  case (2 f d s)
  obtain g' where g: "g = Suc g'" using "2.prems" by (cases g) auto
  show ?case
  proof (cases "next_tok s")
    case (Some cu)
    obtain c u where n: "next_tok s = Some (c, u)" using Some by (cases cu) auto
    have "2 * length u + 1 < f" "2 * length u + 1 < g'" using next_tok_shorter [OF n] "2.prems" g by linarith+
    note len = this
    have m: "p_members f (d - 1) u = p_members g' (d - 1) u"
      if "c = CHR 0x7B" "d \<noteq> 0" "next_tok u = Some (c', w)" "c' \<noteq> CHR 0x7D" for c' w
      using "2.IH"(1) [OF n refl that(1,2,3) refl that(4) len] .
    have e: "p_elems f (d - 1) u = p_elems g' (d - 1) u"
      if "c = CHR ''[''" "d \<noteq> 0" "next_tok u = Some (c', w)" "c' \<noteq> CHR '']''" for c' w
      using "2.IH"(2) [OF n refl _ that(1,2,3) refl that(4) len] that(1) by simp
    show ?thesis
    proof (cases "c = CHR 0x7B \<or> c = CHR ''[''")
      case True
      then show ?thesis using n m e by (cases "next_tok u") (auto simp: g split: if_splits)
    next
      case False
      then show ?thesis by (simp add: g n)
    qed
  qed (simp add: g)
next
  case (4 f d s)
  obtain g' where g: "g = Suc g'" using "4.prems" by (cases g) auto
  have v: "p_val f d s = p_val g' d s" using "4.prems" g by (intro "4.IH") auto
  show ?case
  proof (cases "p_val f d s")
    case (Some vr)
    obtain x u where n: "p_val f d s = Some (x, u)" using Some by (cases vr) auto
    have "p_elems f d w = p_elems g' d w" if "next_tok u = Some (CHR '','', w)" for w
      using "4.IH"(2) [OF n refl that refl] p_val_shorter(1) [OF n] next_tok_shorter [OF that] "4.prems" g by simp
    then show ?thesis using n v by (auto simp: g split: option.split)
  qed (use v g in simp)
next
  case (6 f d s)
  obtain g' where g: "g = Suc g'" using "6.prems" by (cases g) auto
  show ?case
  proof (cases "next_tok s")
    case (Some cu)
    obtain c u where n: "next_tok s = Some (c, u)" using Some by (cases cu) auto
    show ?thesis
    proof (cases "c = quo")
      case True
      show ?thesis
      proof (cases "p_str u")
        case (Some kw)
        obtain k w where k: "p_str u = Some (k, w)" using Some by (cases kw) auto
        show ?thesis
        proof (cases "next_tok w")
          case (Some ex)
          obtain e x where e: "next_tok w = Some (e, x)" using Some by (cases ex) auto
          have len: "length x + 3 \<le> length s"
            using next_tok_shorter [OF n] p_str_shorter [OF k] next_tok_shorter [OF e] by simp
          have v: "p_val f d x = p_val g' d x" if "e = CHR '':''"
            using "6.IH"(1) [OF n refl _ k refl e refl] True that len "6.prems" g by simp
          have m: "p_members f d y = p_members g' d y"
            if "e = CHR '':''" "p_val f d x = Some (z, t)" "next_tok t = Some (CHR '','', y)" for z t y
            using "6.IH"(2) [OF n refl _ k refl e refl _ that(2) refl that(3) refl] True that(1) len
              p_val_shorter(1) [OF that(2)] next_tok_shorter [OF that(3)] "6.prems" g by simp
          show ?thesis using n True k e v m by (auto simp: g split: option.split)
        qed (simp add: g n k)
      qed (simp add: g n)
    qed (simp add: g n)
  qed (simp add: g)
qed simp_all

text \<open>A larger bound gives the same result.\<close>

lemma json_first_fuel: "2 * length s < f \<Longrightarrow> p_val f maxNestingDepth s = json_first s"
  unfolding json_first_def by (intro p_val_fuel) simp_all

end
