(* ===== verification/JwtTypes.thy ===== *)
theory JwtTypes
  imports Complex_Main Store JsonRound
begin

text \<open>
  The small types of the token library: its errors (\<^verbatim>\<open>errors.go\<close>), numeric dates and string lists with
  their JSON forms (\<^verbatim>\<open>types.go\<close>), the claims interface and its two implementations in the
  package (\<^verbatim>\<open>claims.go\<close>, \<^verbatim>\<open>registered_claims.go\<close>, \<^verbatim>\<open>map_claims.go\<close>).
\<close>

section \<open>Errors\<close>

datatype err =
    ErrInvalidKey | ErrInvalidKeyType | ErrHashUnavailable | ErrTokenMalformed | ErrTokenUnverifiable
  | ErrTokenSignatureInvalid | ErrTokenRequiredClaimMissing | ErrTokenInvalidAudience | ErrTokenExpired
  | ErrTokenUsedBeforeIssued | ErrTokenInvalidIssuer | ErrTokenInvalidSubject | ErrTokenNotValidYet
  | ErrTokenInvalidId | ErrTokenInvalidClaims | ErrInvalidType
  | ErrSignatureInvalid | ErrFNDSASignatureInvalid
  | ErrText string
  | newError string err "err list"
  | joinErrors "err list"

text \<open>The last three are \<^verbatim>\<open>errors.New\<close> outside the package's own list, and the two constructor
  functions of the package, whose result keeps what it was made from. The message of an error:\<close>

fun join :: "string \<Rightarrow> string list \<Rightarrow> string" where
  "join s [] = []"
| "join s [x] = x"
| "join s (x # xs) = x @ s @ join s xs"

fun Error :: "err \<Rightarrow> string" where
  "Error ErrInvalidKey = ''key is invalid''"
| "Error ErrInvalidKeyType = ''key is of invalid type''"
| "Error ErrHashUnavailable = ''the requested hash function is unavailable''"
| "Error ErrTokenMalformed = ''token is malformed''"
| "Error ErrTokenUnverifiable = ''token is unverifiable''"
| "Error ErrTokenSignatureInvalid = ''token signature is invalid''"
| "Error ErrTokenRequiredClaimMissing = ''token is missing required claim''"
| "Error ErrTokenInvalidAudience = ''token has invalid audience''"
| "Error ErrTokenExpired = ''token is expired''"
| "Error ErrTokenUsedBeforeIssued = ''token used before issued''"
| "Error ErrTokenInvalidIssuer = ''token has invalid issuer''"
| "Error ErrTokenInvalidSubject = ''token has invalid subject''"
| "Error ErrTokenNotValidYet = ''token is not valid yet''"
| "Error ErrTokenInvalidId = ''token has invalid id''"
| "Error ErrTokenInvalidClaims = ''token has invalid claims''"
| "Error ErrInvalidType = ''invalid type for claim''"
| "Error ErrSignatureInvalid = ''signature is invalid''"
| "Error ErrFNDSASignatureInvalid = ''falcon signature is invalid''"
| "Error (ErrText s) = s"
| "Error (newError message e ws) =
     Error e @ (if message \<noteq> [] then '': '' @ message else []) @ concat (map (\<lambda>m. '': '' @ Error m) ws)"
| "Error (joinErrors errs) = join '', '' (map Error errs)"

text \<open>\<^verbatim>\<open>errors.Is\<close>: the error itself or one it wraps.\<close>

fun errors_Is :: "err \<Rightarrow> err \<Rightarrow> bool" where
  "errors_Is (newError message e ws) t =
     (newError message e ws = t \<or> errors_Is e t \<or> (\<exists>m \<in> set ws. errors_Is m t))"
| "errors_Is (joinErrors errs) t = (joinErrors errs = t \<or> (\<exists>e \<in> set errs. errors_Is e t))"
| "errors_Is e t = (e = t)"

section \<open>Floating-point numbers\<close>

text \<open>A finite \<^verbatim>\<open>float64\<close> is the rational it denotes. \<open>round64\<close> rounds to nearest, ties to even,
  with 53 bits of precision down to the subnormal spacing; it has no result past the largest number.\<close>

definition rne :: "rat \<Rightarrow> int" where
  "rne x = (let f = \<lfloor>x\<rfloor>; r = x - of_int f in
     if r < 1 / 2 \<or> r = 1 / 2 \<and> even f then f else f + 1)"

text \<open>The exponent of the leading bit of a positive rational.\<close>

fun bitlen :: "nat \<Rightarrow> nat" where
  "bitlen n = (if n = 0 then 0 else Suc (bitlen (n div 2)))"

declare bitlen.simps [simp del]

definition ilog2 :: "rat \<Rightarrow> int" where
  "ilog2 x = (let (n, d) = quotient_of x; e = int (bitlen (nat n)) - int (bitlen (nat d)) in
     if 2 powi e \<le> x then e else e - 1)"

definition round64 :: "rat \<Rightarrow> rat option" where
  "round64 x = (if x = 0 then Some 0 else
     (let ulp = max (ilog2 \<bar>x\<bar> - 52) (- 1074); y = of_int (rne (x / 2 powi ulp)) * 2 powi ulp in
      if \<bar>y\<bar> < 2 ^ 1024 then Some y else None))"

definition trunc :: "rat \<Rightarrow> int" where
  "trunc x = (if x < 0 then - \<lfloor>- x\<rfloor> else \<lfloor>x\<rfloor>)"

text \<open>The conversion \<^verbatim>\<open>int64(x)\<close>. Outside the range of \<^verbatim>\<open>int64\<close> Go leaves the result to the
  implementation: it is an argument, also asked (with \<^term>\<open>None\<close>) for infinities and for what is no number.\<close>

definition f64_int64 :: "(rat option \<Rightarrow> i64) \<Rightarrow> rat \<Rightarrow> i64" where
  "f64_int64 ovf x = (if - (2 ^ 63) \<le> trunc x \<and> trunc x < 2 ^ 63 then word_of_int (trunc x) else ovf (Some x))"

text \<open>The value of a number literal.\<close>

definition digits_val :: "string \<Rightarrow> nat" where
  "digits_val ds = foldl (\<lambda>a c. 10 * a + (byte c - 48)) 0 ds"

definition lit_val :: "string \<Rightarrow> rat" where
  "lit_val l = (let neg = (take 1 l = ''-''); l = (if neg then drop 1 l else l);
      i = takeWhile digit l; l = dropWhile digit l;
      f = (if take 1 l = ''.'' then takeWhile digit (drop 1 l) else []);
      l = (if take 1 l = ''.'' then dropWhile digit (drop 1 l) else l);
      e = drop 1 l; eneg = (take 1 e = ''-''); e = (if eneg \<or> take 1 e = ''+'' then drop 1 e else e);
      ex = (if eneg then - int (digits_val e) else int (digits_val e)) - int (length f);
      v = of_nat (digits_val (i @ f)) * 10 powi ex
    in if neg then - v else v)"

text \<open>\<^verbatim>\<open>json.Number.Float64\<close>; out of range is an error.\<close>

definition Float64 :: "string \<Rightarrow> rat option" where
  "Float64 l = round64 (lit_val l)"

section \<open>Times\<close>

text \<open>\<^verbatim>\<open>time.Time\<close> counts its seconds from year 1 in an \<^verbatim>\<open>int64\<close>, which wraps.\<close>

definition unixToInternal :: i64 where "unixToInternal = 62135596800"

definition internal_sec :: "go_time \<Rightarrow> int" where
  "internal_sec t = sint (unix t + unixToInternal)"

text \<open>The methods \<^verbatim>\<open>Before\<close>, \<^verbatim>\<open>Add\<close> (which saturates) and \<^verbatim>\<open>Truncate\<close> to the second.\<close>

definition Before :: "go_time \<Rightarrow> go_time \<Rightarrow> bool" where
  "Before t u \<longleftrightarrow> internal_sec t < internal_sec u \<or> internal_sec t = internal_sec u \<and> nsec t < nsec u"

definition time_Add :: "go_time \<Rightarrow> i64 \<Rightarrow> go_time" where
  "time_Add t d = (let ns = nsec t + sint d; s = internal_sec t + ns div 10 ^ 9;
      s = (if s < - (2 ^ 63) then - (2 ^ 63 - 1) else if 2 ^ 63 \<le> s then 2 ^ 63 - 1 else s)
    in \<lparr>unix = word_of_int s - unixToInternal, nsec = ns mod 10 ^ 9\<rparr>)"

lemma time_Add_0 [simp]: "0 \<le> nsec t \<Longrightarrow> nsec t < 10 ^ 9 \<Longrightarrow> time_Add t 0 = t"
  using sint_greater_eq [of "unix t + unixToInternal"] sint_less [of "unix t + unixToInternal"]
  by (cases t) (simp add: time_Add_def internal_sec_def Let_def)

definition Truncate_second :: "go_time \<Rightarrow> go_time" where
  "Truncate_second t = t\<lparr>nsec := 0\<rparr>"

section \<open>Numeric dates and string lists\<close>

type_synonym NumericDate = go_time

definition NewNumericDate :: "go_time \<Rightarrow> NumericDate" where
  "NewNumericDate t = Truncate_second t"

text \<open>\<^verbatim>\<open>math.Modf\<close> splits off the fraction exactly; the product with \<open>10^9\<close> is rounded.\<close>

definition newNumericDateFromSeconds :: "(rat option \<Rightarrow> i64) \<Rightarrow> rat \<Rightarrow> NumericDate" where
  "newNumericDateFromSeconds ovf f = (let r = of_int (trunc f); frac = f - r in
     NewNumericDate (time_Unix (f64_int64 ovf r) (trunc (case round64 (frac * 10 ^ 9) of Some x \<Rightarrow> x | None \<Rightarrow> 0))))"

text \<open>Marshalling: at the package's precision of a second the text is the number of seconds.\<close>

definition NumericDate_MarshalJSON :: "NumericDate \<Rightarrow> json" where
  "NumericDate_MarshalJSON date = JNum (dec_int (sint (unix (Truncate_second date))))"

text \<open>Unmarshalling a value that is not \<^verbatim>\<open>null\<close>: a number, or a string that is a number literal.\<close>

definition is_number :: "string \<Rightarrow> bool" where
  "is_number l \<longleftrightarrow> (case p_num l of Some (_, []) \<Rightarrow> True | _ \<Rightarrow> False)"

definition NumericDate_UnmarshalJSON :: "(rat option \<Rightarrow> i64) \<Rightarrow> json \<Rightarrow> (err, NumericDate) result" where
  "NumericDate_UnmarshalJSON ovf v =
     (let number = (case v of JNum l \<Rightarrow> Some l | JStr l \<Rightarrow> if is_number l then Some l else None | _ \<Rightarrow> None) in
      case number of None \<Rightarrow> Inl (ErrText ''could not parse NumericData'')
      | Some l \<Rightarrow> (case Float64 l of None \<Rightarrow> Inl (ErrText ''could not convert json number value to float'')
         | Some f \<Rightarrow> Inr (newNumericDateFromSeconds ovf f)))"

type_synonym ClaimStrings = "string list"

text \<open>The loop over an array of values, which must all be strings.\<close>

fun all_strings :: "json list \<Rightarrow> string list option" where
  "all_strings [] = Some []"
| "all_strings (JStr s # vs) = map_option (Cons s) (all_strings vs)"
| "all_strings (_ # vs) = None"

definition ClaimStrings_UnmarshalJSON :: "ClaimStrings \<Rightarrow> json \<Rightarrow> (err, ClaimStrings) result" where
  "ClaimStrings_UnmarshalJSON s v = (case v of
      JStr a \<Rightarrow> Inr [a]
    | JArr vs \<Rightarrow> (case all_strings vs of None \<Rightarrow> Inl ErrInvalidType | Some aud \<Rightarrow> Inr aud)
    | JNull \<Rightarrow> Inr s
    | _ \<Rightarrow> Inl ErrInvalidType)"

text \<open>\<^verbatim>\<open>MarshalSingleStringAsArray\<close> is a variable of the package, true unless set.\<close>

definition ClaimStrings_MarshalJSON :: "bool \<Rightarrow> ClaimStrings \<Rightarrow> json" where
  "ClaimStrings_MarshalJSON MarshalSingleStringAsArray s =
     (if length s = 1 \<and> \<not> MarshalSingleStringAsArray then JStr (s ! 0) else JArr (map JStr s))"

section \<open>Claims\<close>

text \<open>The interface \<^verbatim>\<open>Claims\<close>, with the optional method of \<^verbatim>\<open>ClaimsValidator\<close> (absent: \<^term>\<open>None\<close>).\<close>

record Claims =
  GetExpirationTime :: "(err, NumericDate option) result"
  GetIssuedAt :: "(err, NumericDate option) result"
  GetNotBefore :: "(err, NumericDate option) result"
  GetIssuer :: "(err, string) result"
  GetSubject :: "(err, string) result"
  GetAudience :: "(err, ClaimStrings) result"
  Validate_hook :: "err option option"

record RegisteredClaims =
  Issuer :: string
  Subject :: string
  Audience :: ClaimStrings
  ExpiresAt :: "NumericDate option"
  NotBefore :: "NumericDate option"
  IssuedAt :: "NumericDate option"
  ID :: string

definition RegisteredClaims_iface :: "'a RegisteredClaims_scheme \<Rightarrow> Claims" where
  "RegisteredClaims_iface c = \<lparr>GetExpirationTime = Inr (ExpiresAt c), GetIssuedAt = Inr (IssuedAt c),
     GetNotBefore = Inr (NotBefore c), GetIssuer = Inr (Issuer c), GetSubject = Inr (Subject c),
     GetAudience = Inr (Audience c), Validate_hook = None\<rparr>"

text \<open>A value of type \<^verbatim>\<open>any\<close> as \<^verbatim>\<open>encoding/json\<close> produces it, or as a caller may put it in a map.\<close>

datatype any =
    Nil_any
  | Bool_any bool
  | Float_any rat
  | Number_any string
  | String_any string
  | Strings_any "string list"
  | Array_any "any list"
  | Map_any "(string \<times> any) list"
  | Other_any

type_synonym MapClaims = "string \<Rightarrow> any option"

definition parseNumericDate :: "(rat option \<Rightarrow> i64) \<Rightarrow> MapClaims \<Rightarrow> string \<Rightarrow> (err, NumericDate option) result" where
  "parseNumericDate ovf m key = (case m key of
      None \<Rightarrow> Inr None
    | Some v \<Rightarrow> (case v of
        Float_any e \<Rightarrow> if e = 0 then Inr None else Inr (Some (newNumericDateFromSeconds ovf e))
      | Number_any l \<Rightarrow> Inr (Some (case Float64 l of Some f \<Rightarrow> newNumericDateFromSeconds ovf f
          | None \<Rightarrow> NewNumericDate (time_Unix (ovf None) (sint (ovf None)))))
      | _ \<Rightarrow> Inl (newError (key @ '' is invalid'') ErrInvalidType [])))"

fun any_strings :: "any list \<Rightarrow> string list option" where
  "any_strings [] = Some []"
| "any_strings (String_any s # vs) = map_option (Cons s) (any_strings vs)"
| "any_strings (_ # vs) = None"

definition parseClaimsString :: "MapClaims \<Rightarrow> string \<Rightarrow> (err, ClaimStrings) result" where
  "parseClaimsString m key = (case m key of
      Some (String_any v) \<Rightarrow> Inr [v]
    | Some (Strings_any v) \<Rightarrow> Inr v
    | Some (Array_any v) \<Rightarrow> (case any_strings v of
        None \<Rightarrow> Inl (newError (key @ '' is invalid'') ErrInvalidType []) | Some cs \<Rightarrow> Inr cs)
    | _ \<Rightarrow> Inr [])"

definition parseString :: "MapClaims \<Rightarrow> string \<Rightarrow> (err, string) result" where
  "parseString m key = (case m key of
      None \<Rightarrow> Inr []
    | Some (String_any iss) \<Rightarrow> Inr iss
    | Some _ \<Rightarrow> Inl (newError (key @ '' is invalid'') ErrInvalidType []))"

definition MapClaims_iface :: "(rat option \<Rightarrow> i64) \<Rightarrow> MapClaims \<Rightarrow> Claims" where
  "MapClaims_iface ovf m = \<lparr>GetExpirationTime = parseNumericDate ovf m ''exp'', GetIssuedAt = parseNumericDate ovf m ''iat'',
     GetNotBefore = parseNumericDate ovf m ''nbf'', GetIssuer = parseString m ''iss'',
     GetSubject = parseString m ''sub'', GetAudience = parseClaimsString m ''aud'', Validate_hook = None\<rparr>"

section \<open>Whole seconds are exact\<close>

lemma bitlen_le: "n < 2 ^ k \<Longrightarrow> bitlen n \<le> k"
proof (induction k arbitrary: n)
  case (Suc k)
  then have "n div 2 < 2 ^ k" by (simp add: less_mult_imp_div_less)
  from Suc.IH [OF this] show ?case by (subst bitlen.simps) simp
qed (simp add: bitlen.simps)

lemma ilog2_int_le:
  assumes "0 < i" "i < 2 ^ 53"
  shows "ilog2 (of_int i) \<le> 52"
proof -
  have "nat i < 2 ^ 53" using assms by (simp add: nat_less_iff)
  from bitlen_le [OF this] have b: "bitlen (nat i) \<le> 53" .
  have "bitlen (Suc 0) = 1" by (simp add: bitlen.simps)
  then show ?thesis using b by (simp add: ilog2_def Let_def)
qed

lemma rne_int [simp]: "rne (of_int i) = i"
  by (simp add: rne_def Let_def)

lemma round64_int:
  assumes "\<bar>i\<bar> < 2 ^ 53"
  shows "round64 (of_int i) = Some (of_int i)"
proof (cases "i = 0")
  case False
  define k where "k = nat (- max (ilog2 (of_int \<bar>i\<bar>) - 52) (- 1074))"
  have "ilog2 (of_int \<bar>i\<bar>) \<le> 52" using assms False by (intro ilog2_int_le) auto
  then have u: "max (ilog2 (of_int \<bar>i\<bar>) - 52) (- 1074) = - int k" by (simp add: k_def)
  have p: "of_int i / (2 :: rat) powi (- int k) = of_int (i * 2 ^ k)" by (simp add: power_int_minus field_simps)
  have y: "of_int (rne (of_int i / 2 powi (- int k))) * (2 :: rat) powi (- int k) = of_int i"
    unfolding p rne_int by (simp add: power_int_minus)
  have "\<bar>of_int i :: rat\<bar> < 2 ^ 53" using assms by (metis of_int_abs of_int_less_iff of_int_numeral of_int_power)
  also have "\<dots> < 2 ^ 1024" by (rule power_strict_increasing) simp_all
  finally have "\<bar>of_int i :: rat\<bar> < 2 ^ 1024" .
  then show ?thesis using False u y by (simp add: round64_def Let_def)
qed (simp add: round64_def)

lemma digits_val_snoc: "digits_val (ds @ [c]) = 10 * digits_val ds + (byte c - 48)"
  by (simp add: digits_val_def)

lemma digits_val_dec_nat: "digits_val (dec_nat n) = n"
proof (induction n rule: dec_nat.induct)
  case (1 n)
  have b: "byte (chr (48 + m)) - 48 = m" if "m < 10" for m using that by simp
  show ?case
  proof (cases "n < 10")
    case True
    then show ?thesis using b [of n] by (subst dec_nat.simps) (simp add: digits_val_def)
  next
    case False
    with 1 show ?thesis using b [of "n mod 10"] by (subst dec_nat.simps) (simp add: digits_val_snoc)
  qed
qed

lemma lit_val_digits:
  assumes "\<forall>c \<in> set ds. digit c"
  shows "lit_val (CHR ''-'' # ds) = - of_nat (digits_val ds)" "take 1 ds \<noteq> ''-'' \<Longrightarrow> lit_val ds = of_nat (digits_val ds)"
proof -
  have d: "takeWhile digit ds = ds" "dropWhile digit ds = []" using assms by (auto simp: takeWhile_eq_all_conv)
  have z: "digits_val [] = 0" by (simp add: digits_val_def)
  show "lit_val (CHR ''-'' # ds) = - of_nat (digits_val ds)" by (simp add: lit_val_def Let_def d z)
  show "lit_val ds = of_nat (digits_val ds)" if "take 1 ds \<noteq> ''-''" using that by (simp add: lit_val_def Let_def d z)
qed

lemma lit_val_dec_int: "lit_val (dec_int i) = of_int i"
proof -
  define n where "n = nat \<bar>i\<bar>"
  have "hd (dec_nat n) \<noteq> CHR ''-''" using dec_nat_digits [of n] by (cases "dec_nat n") (auto simp: digit_def)
  then have m: "take 1 (dec_nat n) \<noteq> ''-''" using dec_nat_digits(1) [of n] by (cases "dec_nat n") auto
  note v = lit_val_digits [OF dec_nat_digits(2) [of n], unfolded digits_val_dec_nat]
  show ?thesis
  proof (cases "i < 0")
    case True
    then have "dec_int i = CHR ''-'' # dec_nat n" "- of_nat n = (of_int i :: rat)" by (simp_all add: dec_int_def n_def)
    then show ?thesis using v(1) by simp
  next
    case False
    then have "dec_int i = dec_nat n" "of_nat n = (of_int i :: rat)" by (simp_all add: dec_int_def n_def)
    then show ?thesis using v(2) [OF m] by simp
  qed
qed

lemma newNumericDateFromSeconds_int:
  assumes "- (2 ^ 63) \<le> i" "i < 2 ^ 63"
  shows "newNumericDateFromSeconds ovf (of_int i) = \<lparr>unix = word_of_int i, nsec = 0\<rparr>"
proof -
  have t: "trunc (of_int i) = i" by (simp add: trunc_def)
  have "f64_int64 ovf (of_int i) = word_of_int i" using assms unfolding f64_int64_def t by (simp only: if_True HOL.simp_thms)
  moreover have "round64 0 = Some 0" by (simp add: round64_def)
  moreover have "trunc 0 = 0" by (simp add: trunc_def)
  ultimately show ?thesis
    unfolding newNumericDateFromSeconds_def Let_def t diff_self mult_zero_left
    by (simp add: NewNumericDate_def Truncate_second_def time_Unix_def)
qed

text \<open>A date keeps its second through the token. Marshalling a date and reading the number back
  gives the date truncated to the second, for every second a \<^verbatim>\<open>float64\<close> can hold exactly, that is
  for a quarter of a billion years around the epoch.\<close>

theorem numeric_date_roundtrip:
  assumes "\<bar>sint (unix d)\<bar> < 2 ^ 53"
  shows "NumericDate_UnmarshalJSON ovf (NumericDate_MarshalJSON d) = Inr (NewNumericDate d) \<and>
    json_parse (json_print (NumericDate_MarshalJSON d)) = Some (NumericDate_MarshalJSON d)"
proof -
  have "newNumericDateFromSeconds ovf (of_int (sint (unix d))) = NewNumericDate d"
    using assms by (subst newNumericDateFromSeconds_int) (auto simp: NewNumericDate_def Truncate_second_def)
  moreover have "json_parse (json_print (NumericDate_MarshalJSON d)) = Some (NumericDate_MarshalJSON d)"
    by (rule json_parse_print) (simp add: NumericDate_MarshalJSON_def num_ok_dec_int)
  ultimately show ?thesis using round64_int [OF assms]
    by (simp add: NumericDate_UnmarshalJSON_def NumericDate_MarshalJSON_def Float64_def lit_val_dec_int Truncate_second_def)
qed

theorem numeric_date_roundtrip_witness:
  "NumericDate_UnmarshalJSON (\<lambda>_. 0) (NumericDate_MarshalJSON \<lparr>unix = 1779970000, nsec = 123\<rparr>)
   = Inr \<lparr>unix = 1779970000, nsec = 0\<rparr>"
proof -
  have "sint (1779970000 :: i64) = 1779970000" by (rule sint_of_int_eqI) simp_all
  then show ?thesis using numeric_date_roundtrip [of "\<lparr>unix = 1779970000, nsec = 123\<rparr>" "\<lambda>_. 0"]
    by (simp add: NewNumericDate_def Truncate_second_def)
qed

end
