(* ===== verification/JwtValidator.thy ===== *)
theory JwtValidator
  imports JwtTypes
begin

text \<open>
  Claims validation (\<^verbatim>\<open>validator.go\<close>) and the parser's options (\<^verbatim>\<open>parser_option.go\<close>). The
  validator collects every failed check; the theorems say exactly when it accepts and that each
  failed check can be found in the error it returns.
\<close>

section \<open>Validator and parser\<close>

text \<open>Durations are \<^verbatim>\<open>int64\<close> nanoseconds. A time function is represented by the time it gives.\<close>

record Validator =
  leeway :: i64
  timeFunc :: "go_time option"
  requireExp :: bool
  requireNbf :: bool
  verifyIat :: bool
  expectedAud :: "string list"
  expectAllAud :: bool
  expectedIss :: string
  expectedSub :: string

text \<open>\<^verbatim>\<open>validMethods\<close> is a slice that may be nil.\<close>

record Parser =
  validMethods :: "string list option"
  useJSONNumber :: bool
  skipClaimsValidation :: bool
  validator :: Validator
  decodeStrict :: bool
  decodePaddingAllowed :: bool

type_synonym ParserOption = "Parser \<Rightarrow> Parser"

definition zero_validator :: Validator where
  "zero_validator = \<lparr>leeway = 0, timeFunc = None, requireExp = False, requireNbf = False, verifyIat = False,
     expectedAud = [], expectAllAud = False, expectedIss = [], expectedSub = []\<rparr>"

definition NewParser :: "ParserOption list \<Rightarrow> Parser" where
  "NewParser options = fold (\<lambda>option p. option p) options
     \<lparr>validMethods = None, useJSONNumber = False, skipClaimsValidation = False, validator = zero_validator,
      decodeStrict = False, decodePaddingAllowed = False\<rparr>"

definition NewValidator :: "ParserOption list \<Rightarrow> Validator" where
  "NewValidator opts = validator (NewParser opts)"

abbreviation upd_validator :: "(Validator \<Rightarrow> Validator) \<Rightarrow> ParserOption" where
  "upd_validator f p \<equiv> p\<lparr>validator := f (validator p)\<rparr>"

text \<open>The list of the allowed methods. \<^verbatim>\<open>None\<close> is the nil slice of a parser without this option; the callers pass slices
  made with \<^verbatim>\<open>make\<close>, which are not nil even when empty.\<close>

definition WithValidMethods :: "string list \<Rightarrow> ParserOption" where
  "WithValidMethods methods p = p\<lparr>validMethods := Some methods\<rparr>"

definition WithJSONNumber :: ParserOption where
  "WithJSONNumber p = p\<lparr>useJSONNumber := True\<rparr>"

definition WithoutClaimsValidation :: ParserOption where
  "WithoutClaimsValidation p = p\<lparr>skipClaimsValidation := True\<rparr>"

definition WithLeeway :: "i64 \<Rightarrow> ParserOption" where
  "WithLeeway l p = upd_validator (\<lambda>v. v\<lparr>leeway := l\<rparr>) p"

definition WithTimeFunc :: "go_time \<Rightarrow> ParserOption" where
  "WithTimeFunc f p = upd_validator (\<lambda>v. v\<lparr>timeFunc := Some f\<rparr>) p"

definition WithIssuedAt :: ParserOption where
  "WithIssuedAt p = upd_validator (\<lambda>v. v\<lparr>verifyIat := True\<rparr>) p"

definition WithExpirationRequired :: ParserOption where
  "WithExpirationRequired p = upd_validator (\<lambda>v. v\<lparr>requireExp := True\<rparr>) p"

definition WithNotBeforeRequired :: ParserOption where
  "WithNotBeforeRequired p = upd_validator (\<lambda>v. v\<lparr>requireNbf := True\<rparr>) p"

definition WithAudience :: "string list \<Rightarrow> ParserOption" where
  "WithAudience aud p = upd_validator (\<lambda>v. v\<lparr>expectedAud := aud\<rparr>) p"

definition WithAllAudiences :: "string list \<Rightarrow> ParserOption" where
  "WithAllAudiences aud p = upd_validator (\<lambda>v. v\<lparr>expectedAud := aud, expectAllAud := True\<rparr>) p"

definition WithIssuer :: "string \<Rightarrow> ParserOption" where
  "WithIssuer iss p = upd_validator (\<lambda>v. v\<lparr>expectedIss := iss\<rparr>) p"

definition WithSubject :: "string \<Rightarrow> ParserOption" where
  "WithSubject sub p = upd_validator (\<lambda>v. v\<lparr>expectedSub := sub\<rparr>) p"

definition WithPaddingAllowed :: ParserOption where
  "WithPaddingAllowed p = p\<lparr>decodePaddingAllowed := True\<rparr>"

definition WithStrictDecoding :: ParserOption where
  "WithStrictDecoding p = p\<lparr>decodeStrict := True\<rparr>"

section \<open>The checks\<close>

definition errorIfFalse :: "bool \<Rightarrow> err \<Rightarrow> err option" where
  "errorIfFalse v e = (if v then None else Some e)"

definition errorIfRequired :: "bool \<Rightarrow> string \<Rightarrow> err option" where
  "errorIfRequired required claim =
     (if required then Some (newError (claim @ '' claim is required'') ErrTokenRequiredClaimMissing []) else None)"

definition verifyExpiresAt :: "Validator \<Rightarrow> Claims \<Rightarrow> go_time \<Rightarrow> bool \<Rightarrow> err option" where
  "verifyExpiresAt v claims cmp required = (case GetExpirationTime claims of Inl e \<Rightarrow> Some e
     | Inr None \<Rightarrow> errorIfRequired required ''exp''
     | Inr (Some t) \<Rightarrow> errorIfFalse (Before cmp (time_Add t (leeway v))) ErrTokenExpired)"

definition verifyIssuedAt :: "Validator \<Rightarrow> Claims \<Rightarrow> go_time \<Rightarrow> bool \<Rightarrow> err option" where
  "verifyIssuedAt v claims cmp required = (case GetIssuedAt claims of Inl e \<Rightarrow> Some e
     | Inr None \<Rightarrow> errorIfRequired required ''iat''
     | Inr (Some iat) \<Rightarrow> errorIfFalse (\<not> Before cmp (time_Add iat (- leeway v))) ErrTokenUsedBeforeIssued)"

definition verifyNotBefore :: "Validator \<Rightarrow> Claims \<Rightarrow> go_time \<Rightarrow> bool \<Rightarrow> err option" where
  "verifyNotBefore v claims cmp required = (case GetNotBefore claims of Inl e \<Rightarrow> Some e
     | Inr None \<Rightarrow> errorIfRequired required ''nbf''
     | Inr (Some nbf) \<Rightarrow> errorIfFalse (\<not> Before cmp (time_Add nbf (- leeway v))) ErrTokenNotValidYet)"

definition verifyAudience :: "Validator \<Rightarrow> Claims \<Rightarrow> string list \<Rightarrow> bool \<Rightarrow> err option" where
  "verifyAudience v claims cmp expectAll = (case GetAudience claims of Inl e \<Rightarrow> Some e
     | Inr aud \<Rightarrow>
       if length aud = 0 \<or> length aud = 1 \<and> aud ! 0 = [] then
         (let required = 0 < length (expectedAud v) in errorIfRequired required ''aud'')
       else if \<not> expectAll then
         (if list_ex (\<lambda>a. a \<in> set cmp) aud then None else Some ErrTokenInvalidAudience)
       else (if list_all (\<lambda>a. a \<in> set aud) cmp then None else Some ErrTokenInvalidAudience))"

definition verifyIssuer :: "Validator \<Rightarrow> Claims \<Rightarrow> string \<Rightarrow> bool \<Rightarrow> err option" where
  "verifyIssuer v claims cmp required = (case GetIssuer claims of Inl e \<Rightarrow> Some e
     | Inr iss \<Rightarrow> if iss = [] then errorIfRequired required ''iss'' else errorIfFalse (iss = cmp) ErrTokenInvalidIssuer)"

definition verifySubject :: "Validator \<Rightarrow> Claims \<Rightarrow> string \<Rightarrow> bool \<Rightarrow> err option" where
  "verifySubject v claims cmp required = (case GetSubject claims of Inl e \<Rightarrow> Some e
     | Inr sub \<Rightarrow> if sub = [] then errorIfRequired required ''sub'' else errorIfFalse (sub = cmp) ErrTokenInvalidSubject)"

text \<open>\<^verbatim>\<open>errs = append(errs, err)\<close> when there is an error.\<close>

definition add_err :: "err option \<Rightarrow> err list \<Rightarrow> err list" where
  "add_err e errs = (case e of None \<Rightarrow> errs | Some e \<Rightarrow> errs @ [e])"

text \<open>The clock is read once, at the start, when no time function is set.\<close>

definition Validate :: "Validator \<Rightarrow> go_time \<Rightarrow> Claims \<Rightarrow> err option" where
  "Validate v clock claims =
     (let now = (case timeFunc v of Some t \<Rightarrow> t | None \<Rightarrow> clock);
          errs = [];
          errs = add_err (verifyExpiresAt v claims now (requireExp v)) errs;
          errs = add_err (verifyNotBefore v claims now (requireNbf v)) errs;
          errs = (if verifyIat v then add_err (verifyIssuedAt v claims now False) errs else errs);
          errs = (if 0 < length (expectedAud v) then add_err (verifyAudience v claims (expectedAud v) (expectAllAud v)) errs else errs);
          errs = (if expectedIss v \<noteq> [] then add_err (verifyIssuer v claims (expectedIss v) True) errs else errs);
          errs = (if expectedSub v \<noteq> [] then add_err (verifySubject v claims (expectedSub v) True) errs else errs);
          errs = (case Validate_hook claims of None \<Rightarrow> errs | Some e \<Rightarrow> add_err e errs)
      in if length errs = 0 then None else Some (joinErrors errs))"

section \<open>Acceptance\<close>

text \<open>What each option asks of the claims, at time \<open>now\<close> and with \<open>l\<close> of leeway.\<close>

definition exp_ok :: "Validator \<Rightarrow> Claims \<Rightarrow> go_time \<Rightarrow> bool" where
  "exp_ok v c now = (case GetExpirationTime c of Inl _ \<Rightarrow> False | Inr None \<Rightarrow> \<not> requireExp v
     | Inr (Some t) \<Rightarrow> Before now (time_Add t (leeway v)))"

definition nbf_ok :: "Validator \<Rightarrow> Claims \<Rightarrow> go_time \<Rightarrow> bool" where
  "nbf_ok v c now = (case GetNotBefore c of Inl _ \<Rightarrow> False | Inr None \<Rightarrow> \<not> requireNbf v
     | Inr (Some t) \<Rightarrow> \<not> Before now (time_Add t (- leeway v)))"

definition iat_ok :: "Validator \<Rightarrow> Claims \<Rightarrow> go_time \<Rightarrow> bool" where
  "iat_ok v c now = (verifyIat v \<longrightarrow> (case GetIssuedAt c of Inl _ \<Rightarrow> False | Inr None \<Rightarrow> True
     | Inr (Some t) \<Rightarrow> \<not> Before now (time_Add t (- leeway v))))"

definition aud_ok :: "Validator \<Rightarrow> Claims \<Rightarrow> bool" where
  "aud_ok v c = (expectedAud v \<noteq> [] \<longrightarrow> (case GetAudience c of Inl _ \<Rightarrow> False
     | Inr aud \<Rightarrow> aud \<noteq> [] \<and> aud \<noteq> [[]] \<and>
         (if expectAllAud v then set (expectedAud v) \<subseteq> set aud else set aud \<inter> set (expectedAud v) \<noteq> {})))"

definition string_ok :: "string \<Rightarrow> (err, string) result \<Rightarrow> bool" where
  "string_ok s c = (s \<noteq> [] \<longrightarrow> c = Inr s)"

definition hook_ok :: "Claims \<Rightarrow> bool" where
  "hook_ok c = (Validate_hook c \<in> {None, Some None})"

definition validator_now :: "Validator \<Rightarrow> go_time \<Rightarrow> go_time" where
  "validator_now v clock = (case timeFunc v of Some t \<Rightarrow> t | None \<Rightarrow> clock)"

lemma verify_iff:
  "verifyExpiresAt v c now (requireExp v) = None \<longleftrightarrow> exp_ok v c now"
  "verifyNotBefore v c now (requireNbf v) = None \<longleftrightarrow> nbf_ok v c now"
  "verifyIat v \<Longrightarrow> verifyIssuedAt v c now False = None \<longleftrightarrow> iat_ok v c now"
  "s \<noteq> [] \<Longrightarrow> verifyIssuer v c s True = None \<longleftrightarrow> string_ok s (GetIssuer c)"
  "s \<noteq> [] \<Longrightarrow> verifySubject v c s True = None \<longleftrightarrow> string_ok s (GetSubject c)"
  by (auto simp: verifyExpiresAt_def verifyNotBefore_def verifyIssuedAt_def verifyIssuer_def verifySubject_def
      exp_ok_def nbf_ok_def iat_ok_def string_ok_def errorIfFalse_def errorIfRequired_def
      split: sum.splits option.splits)

lemma verifyAudience_iff:
  assumes "expectedAud v \<noteq> []"
  shows "verifyAudience v c (expectedAud v) (expectAllAud v) = None \<longleftrightarrow> aud_ok v c"
proof (cases "GetAudience c")
  case (Inr aud)
  have "(length aud = 0 \<or> length aud = 1 \<and> aud ! 0 = []) \<longleftrightarrow> aud = [] \<or> aud = [[]]"
    by (cases aud) auto
  then show ?thesis using assms Inr
    by (auto simp: verifyAudience_def aud_ok_def errorIfRequired_def list_ex_iff list_all_iff)
qed (simp add: verifyAudience_def aud_ok_def assms)

definition claims_ok :: "Validator \<Rightarrow> Claims \<Rightarrow> go_time \<Rightarrow> bool" where
  "claims_ok v c now \<longleftrightarrow> exp_ok v c now \<and> nbf_ok v c now \<and> iat_ok v c now \<and> aud_ok v c \<and>
     string_ok (expectedIss v) (GetIssuer c) \<and> string_ok (expectedSub v) (GetSubject c) \<and> hook_ok c"

text \<open>The checks in order, each with its error if it fails.\<close>

definition checks :: "Validator \<Rightarrow> Claims \<Rightarrow> go_time \<Rightarrow> err option list" where
  "checks v c now = [verifyExpiresAt v c now (requireExp v), verifyNotBefore v c now (requireNbf v),
     if verifyIat v then verifyIssuedAt v c now False else None,
     if 0 < length (expectedAud v) then verifyAudience v c (expectedAud v) (expectAllAud v) else None,
     if expectedIss v \<noteq> [] then verifyIssuer v c (expectedIss v) True else None,
     if expectedSub v \<noteq> [] then verifySubject v c (expectedSub v) True else None,
     case Validate_hook c of None \<Rightarrow> None | Some e \<Rightarrow> e]"

lemma Validate_checks:
  "Validate v clock c = (let errs = concat (map (case_option [] (\<lambda>e. [e])) (checks v c (validator_now v clock))) in
     if errs = [] then None else Some (joinErrors errs))"
proof -
  have add: "add_err e errs = errs @ case_option [] (\<lambda>e. [e]) e" for e errs by (cases e) (simp_all add: add_err_def)
  have ite: "(if b then errs @ case_option [] (\<lambda>e. [e]) e else errs) = errs @ case_option [] (\<lambda>e. [e]) (if b then e else None)"
    for b errs and e :: "err option" by simp
  have cas: "(case x of None \<Rightarrow> errs | Some e \<Rightarrow> errs @ case_option [] (\<lambda>e. [e]) e)
      = errs @ case_option [] (\<lambda>e. [e]) (case x of None \<Rightarrow> None | Some e \<Rightarrow> e)"
    for errs and x :: "err option option" by (cases x) simp_all
  show ?thesis
    unfolding Validate_def checks_def Let_def add ite cas validator_now_def [symmetric] length_0_conv by simp
qed

lemma errors_Is_refl [simp]: "errors_Is e e"
  by (cases e) simp_all

lemma Validate_None: "Validate v clock c = None \<longleftrightarrow> (\<forall>e \<in> set (checks v c (validator_now v clock)). e = None)"
  by (auto simp: Validate_checks Let_def split: option.splits)

lemma Validate_Some:
  "Validate v clock c = Some e \<Longrightarrow> Some e' \<in> set (checks v c (validator_now v clock)) \<Longrightarrow> errors_Is e e'"
  by (force simp: Validate_checks Let_def errors_Is_refl split: if_splits)

lemma Validate_iff: "Validate v clock c = None \<longleftrightarrow> claims_ok v c (validator_now v clock)"
proof -
  have "iat_ok v c now" if "\<not> verifyIat v" for now using that by (simp add: iat_ok_def)
  moreover have "aud_ok v c" if "expectedAud v = []" using that by (simp add: aud_ok_def)
  moreover have "string_ok [] r" for r by (simp add: string_ok_def)
  moreover have "hook_ok c \<longleftrightarrow> (case Validate_hook c of None \<Rightarrow> None | Some e \<Rightarrow> e) = None"
    by (auto simp: hook_ok_def split: option.splits)
  ultimately show ?thesis
    unfolding Validate_None checks_def by (auto simp: claims_ok_def verify_iff verifyAudience_iff)
qed

section \<open>Properties\<close>

text \<open>C22: the validator accepts exactly the claims that meet every enabled condition: not
  expired, not before their time, issued in the past when that is checked, for an expected audience, from
  the expected issuer, about the expected subject, and accepted by the claims' own method. The time is
  the injected one, or the clock.\<close>

theorem Validate_accepts_iff:
  "Validate v clock c = None \<longleftrightarrow>
    exp_ok v c (validator_now v clock) \<and> nbf_ok v c (validator_now v clock) \<and> iat_ok v c (validator_now v clock) \<and>
    aud_ok v c \<and> (expectedIss v = [] \<or> GetIssuer c = Inr (expectedIss v)) \<and>
    (expectedSub v = [] \<or> GetSubject c = Inr (expectedSub v)) \<and> Validate_hook c \<in> {None, Some None}"
  unfolding Validate_iff claims_ok_def string_ok_def hook_ok_def by blast

theorem Validate_accepts_iff_witness:
  "Validate (NewValidator [WithIssuer ''a'']) \<lparr>unix = 0, nsec = 0\<rparr>
     (RegisteredClaims_iface \<lparr>Issuer = ''b'', Subject = [], Audience = [], ExpiresAt = None, NotBefore = None, IssuedAt = None, ID = []\<rparr>)
   \<noteq> None"
  unfolding Validate_accepts_iff
  by (simp add: NewValidator_def NewParser_def WithIssuer_def RegisteredClaims_iface_def zero_validator_def)

text \<open>No failure is hidden by another. The error returned for rejected claims wraps the error
  of each check that failed, so \<^verbatim>\<open>errors.Is\<close> finds it.\<close>

theorem Validate_reports_every_failure:
  assumes "Validate v clock c = Some e"
  defines "now \<equiv> validator_now v clock"
  shows "(\<forall>t. GetExpirationTime c = Inr (Some t) \<longrightarrow> \<not> Before now (time_Add t (leeway v)) \<longrightarrow> errors_Is e ErrTokenExpired) \<and>
    (\<forall>t. GetNotBefore c = Inr (Some t) \<longrightarrow> Before now (time_Add t (- leeway v)) \<longrightarrow> errors_Is e ErrTokenNotValidYet) \<and>
    (\<forall>t. verifyIat v \<longrightarrow> GetIssuedAt c = Inr (Some t) \<longrightarrow> Before now (time_Add t (- leeway v)) \<longrightarrow> errors_Is e ErrTokenUsedBeforeIssued) \<and>
    (\<forall>s. expectedIss v \<noteq> [] \<longrightarrow> GetIssuer c = Inr s \<longrightarrow> s \<noteq> [] \<longrightarrow> s \<noteq> expectedIss v \<longrightarrow> errors_Is e ErrTokenInvalidIssuer) \<and>
    (\<forall>s. expectedSub v \<noteq> [] \<longrightarrow> GetSubject c = Inr s \<longrightarrow> s \<noteq> [] \<longrightarrow> s \<noteq> expectedSub v \<longrightarrow> errors_Is e ErrTokenInvalidSubject) \<and>
    (\<forall>e'. Validate_hook c = Some (Some e') \<longrightarrow> errors_Is e e')"
  using Validate_Some [OF assms(1)]
  by (auto simp: checks_def now_def verifyExpiresAt_def verifyNotBefore_def verifyIssuedAt_def verifyIssuer_def verifySubject_def
      errorIfFalse_def)

theorem Validate_reports_every_failure_witness:
  "errors_Is (joinErrors [ErrTokenExpired, ErrTokenNotValidYet]) ErrTokenNotValidYet"
proof -
  let ?c = "RegisteredClaims_iface \<lparr>Issuer = [], Subject = [], Audience = [], ExpiresAt = Some \<lparr>unix = 1, nsec = 0\<rparr>,
    NotBefore = Some \<lparr>unix = 9, nsec = 0\<rparr>, IssuedAt = None, ID = []\<rparr>"
  let ?now = "\<lparr>unix = 5, nsec = 0\<rparr> :: go_time"
  have sec: "internal_sec \<lparr>unix = of_int k, nsec = 0\<rparr> = k + 62135596800" if "0 \<le> k" "k < 100" for k
    unfolding internal_sec_def by (rule sint_of_int_eqI) (use that in \<open>simp_all add: unixToInternal_def\<close>)
  have add: "internal_sec (time_Add \<lparr>unix = of_int k, nsec = 0\<rparr> 0) = k + 62135596800" if "0 \<le> k" "k < 100" for k
    using sec [OF that] by simp
  have b: "\<not> Before ?now (time_Add \<lparr>unix = 1, nsec = 0\<rparr> 0)" "Before ?now (time_Add \<lparr>unix = 9, nsec = 0\<rparr> 0)"
    using sec [of 5] add [of 1] add [of 9] by (simp_all add: Before_def)
  then have "Validate zero_validator ?now ?c = Some (joinErrors [ErrTokenExpired, ErrTokenNotValidYet])"
    by (simp add: Validate_def zero_validator_def RegisteredClaims_iface_def verifyExpiresAt_def verifyNotBefore_def
        errorIfFalse_def add_err_def)
  from Validate_reports_every_failure [OF this] b show ?thesis
    by (simp add: RegisteredClaims_iface_def zero_validator_def validator_now_def)
qed

end
