(* ===== verification/ModArith.thy ===== *)
theory ModArith
  imports Complex_Main
begin

text \<open>
  Elementary number theory over \<^typ>\<open>int\<close>: Fermat's little theorem for a modulus
  that is coprime to every smaller positive integer, and the trial-division
  criterion that establishes it for a concrete number. The arithmetic modulo
  12289 and modulo the 31-bit primes rests on it.
\<close>

section \<open>Remainders\<close>

lemma mod_eqI: "a = b + m * k \<Longrightarrow> a mod m = b mod m" for a b m k :: int
  by simp

lemma mod_mult_mods [simp]: "(a mod m) * (b mod m) mod m = a * b mod m" for a b m :: int
  by (rule mod_mult_eq)

lemma mod_mult_mods3: "(a mod m) * (b mod m) * c mod m = a * b * c mod m" for a b c m :: int
  by (metis mod_mult_eq mod_mult_left_eq)

lemma sum_mod_cong:
  fixes f g :: "'a \<Rightarrow> int"
  assumes "\<And>i. i \<in> A \<Longrightarrow> f i mod m = g i mod m"
  shows "sum f A mod m = sum g A mod m"
proof -
  have "(\<Sum>i\<in>A. f i mod m) = (\<Sum>i\<in>A. g i mod m)" using assms by (intro sum.cong) simp_all
  then show ?thesis using mod_sum_eq [of f m A] mod_sum_eq [of g m A] by simp
qed

lemma mod_mult_mid: "x * (b mod m) * c mod m = x * b * c mod m" for b c m x :: int
  by (metis mod_mult_left_eq mod_mult_right_eq)

section \<open>Fermat's little theorem\<close>

definition coprime_below :: "nat \<Rightarrow> bool" where
  "coprime_below p \<longleftrightarrow> 1 < p \<and> (\<forall>k. 0 < k \<longrightarrow> k < p \<longrightarrow> coprime k p)"

lemma coprime_below_trial:
  assumes p: "1 < p" and s: "p < s * s"
    and trial: "list_all (\<lambda>d. p mod d \<noteq> 0) [2..<s]"
  shows "coprime_below p"
  unfolding coprime_below_def
proof (intro conjI allI impI p)
  fix k assume k: "0 < k" "k < p"
  let ?d = "gcd k p"
  have dp: "?d dvd p" and dk: "?d \<le> k" using k by (auto simp: gcd_le1_nat)
  show "coprime k p"
  proof (rule ccontr)
    assume "\<not> coprime k p"
    then have d1: "?d \<noteq> 1" by (simp add: coprime_iff_gcd_eq_1)
    obtain e where e: "p = ?d * e" using dp by (elim dvdE)
    have "0 < ?d" using k by simp
    with d1 have d2: "2 \<le> ?d" by linarith
    have e2: "2 \<le> e"
    proof (rule ccontr)
      assume "\<not> 2 \<le> e"
      then have "e = 0 \<or> e = 1" by auto
      then show False
      proof
        assume "e = 0" with e p show False by simp
      next
        assume "e = 1" with e dk k show False by simp
      qed
    qed
    have less: "?d < s \<or> e < s"
      using e s by (metis mult_le_mono not_le)
    have dvds: "p mod ?d = 0" "p mod e = 0" using dp e by (auto, metis mod_mult_self2_is_0)
    have no_div: "p mod d \<noteq> 0" if "2 \<le> d" "d < s" for d
      using trial that by (auto simp: list_all_iff)
    show False using less no_div [OF d2] no_div [OF e2] dvds by auto
  qed
qed

lemma prime_dvd_binomial:
  assumes "coprime_below p" and "0 < k" and "k < p"
  shows "p dvd p choose k"
proof -
  have "k * (p choose k) = p * ((p - 1) choose (k - 1))"
    using Suc_times_binomial_eq [of "p - 1" "k - 1"] assms by (simp add: mult.commute)
  then have "p dvd k * (p choose k)" by simp
  moreover have "coprime p k" using assms by (simp add: coprime_below_def coprime_commute)
  ultimately show ?thesis by (simp add: coprime_dvd_mult_right_iff)
qed

lemma freshman_power:
  assumes p: "coprime_below p"
  shows "(1 + a) ^ p mod int p = (1 + a ^ p) mod int p"
proof -
  have p0: "0 < p" using p by (simp add: coprime_below_def)
  have "(a + 1) ^ p = (\<Sum>k\<le>p. of_nat (p choose k) * a ^ k)"
    by (simp add: binomial_ring)
  also have "{..p} = insert 0 (insert p {0<..<p})" using p0 by auto
  also have "(\<Sum>k\<in>insert 0 (insert p {0<..<p}). of_nat (p choose k) * a ^ k)
      = 1 + a ^ p + (\<Sum>k\<in>{0<..<p}. of_nat (p choose k) * a ^ k)"
    using p0 by simp
  finally have eq: "(1 + a) ^ p = 1 + a ^ p + (\<Sum>k\<in>{0<..<p}. of_nat (p choose k) * a ^ k)"
    by (simp add: add.commute)
  have "int p dvd (\<Sum>k\<in>{0<..<p}. of_nat (p choose k) * a ^ k)"
    by (intro dvd_sum dvd_mult2) (auto intro: prime_dvd_binomial [OF p] simp: int_dvd_int_iff)
  then show ?thesis unfolding eq by (metis dvd_add_right_iff mod_eq_dvd_iff add_diff_cancel_left')
qed

lemma fermat_power:
  assumes p: "coprime_below p"
  shows "(int a) ^ p mod int p = int a mod int p"
proof (induction a)
  case 0
  show ?case using p by (simp add: coprime_below_def zero_power)
next
  case (Suc a)
  have "int (Suc a) ^ p mod int p = (1 + int a ^ p) mod int p"
    using freshman_power [OF p, of "int a"] by simp
  also have "\<dots> = (1 + int a) mod int p" using Suc by (metis mod_add_right_eq)
  finally show ?case by simp
qed

lemma fermat_little:
  assumes p: "coprime_below p" and a: "a mod int p \<noteq> 0"
  shows "a ^ (p - 1) mod int p = 1"
proof -
  define m where "m = nat (a mod int p)"
  have p0: "1 < p" using p by (simp add: coprime_below_def)
  have nn: "0 \<le> a mod int p" "a mod int p < int p" using p0 by simp_all
  then have m: "int m = a mod int p" "0 < m" "m < p"
    using a unfolding m_def by linarith+
  have cop: "coprime (int p) (int m)" 
    using p m(2,3) by (simp add: coprime_below_def coprime_commute)
  have "int p dvd int m ^ p - int m"
    using fermat_power [OF p, of m] by (simp only: mod_eq_dvd_iff)
  also have "int m ^ p - int m = int m * (int m ^ (p - 1) - 1)"
    using p0 by (cases p) (auto simp: algebra_simps)
  finally have "int p dvd int m ^ (p - 1) - 1"
    using cop by (simp add: coprime_dvd_mult_right_iff)
  then have "int m ^ (p - 1) mod int p = 1 mod int p" by (simp only: mod_eq_dvd_iff)
  then show ?thesis unfolding m(1) power_mod using p0 by simp
qed

end
