(* ===== verification/MqArith.thy ===== *)
theory MqArith
  imports Prelude ModArith
begin

unbundle bit_operations_syntax

text \<open>
  Arithmetic modulo \<open>q = 12289\<close> (\<^verbatim>\<open>backend/pkg/fndsa/mq.go\<close>): addition, subtraction,
  halving, Montgomery reduction and multiplication, division by an addition chain. Values
  are in the \<^emph>\<open>internal\<close> representation of the source, the integers 1 to \<open>q\<close>, with
  \<open>q\<close> standing for zero. Every operation is shown to keep that range and to compute the
  field operation it is named after.
\<close>

section \<open>The operations\<close>

definition q :: u32 where
  "q = 12289"

definition q1i :: u32 where
  "q1i = 4143984639"

definition r2 :: u32 where
  "r2 = 5664"

definition mq_add :: "u32 \<Rightarrow> u32 \<Rightarrow> u32" where
  "mq_add x y =
     (let a = q - (x + y);
          b = a + (q AND drop_bit 16 a)
      in q - b)"

definition mq_sub :: "u32 \<Rightarrow> u32 \<Rightarrow> u32" where
  "mq_sub x y =
     (let a = y - x;
          b = a + (q AND drop_bit 16 a)
      in q - b)"

definition mq_half :: "u32 \<Rightarrow> u32" where
  "mq_half x = drop_bit 1 (x + (q AND - (x AND 1)))"

definition mq_mred :: "u32 \<Rightarrow> u32" where
  "mq_mred x =
     (let b = x * q1i;
          c = drop_bit 16 b * q
      in drop_bit 16 c + 1)"

definition mq_mmul :: "u32 \<Rightarrow> u32 \<Rightarrow> u32" where
  "mq_mmul x y = mq_mred (x * y)"

definition mq_div :: "u32 \<Rightarrow> u32 \<Rightarrow> u32" where
  "mq_div x y =
     (let y = mq_mmul y r2;
          y2 = mq_mmul y y;
          y3 = mq_mmul y2 y;
          y5 = mq_mmul y3 y2;
          y10 = mq_mmul y5 y5;
          y20 = mq_mmul y10 y10;
          y40 = mq_mmul y20 y20;
          y80 = mq_mmul y40 y40;
          y160 = mq_mmul y80 y80;
          y163 = mq_mmul y160 y3;
          y323 = mq_mmul y163 y160;
          y646 = mq_mmul y323 y323;
          y1292 = mq_mmul y646 y646;
          y1455 = mq_mmul y1292 y163;
          y2910 = mq_mmul y1455 y1455;
          y5820 = mq_mmul y2910 y2910;
          y6143 = mq_mmul y5820 y323;
          y12286 = mq_mmul y6143 y6143;
          iy = mq_mmul y12286 y
      in mq_mmul x iy)"

section \<open>Ranges and values\<close>

text \<open>The internal representation and the residue it stands for.\<close>

definition mq_ok :: "u32 \<Rightarrow> bool" where
  "mq_ok x \<longleftrightarrow> 1 \<le> uint x \<and> uint x \<le> 12289"

definition mq_val :: "u32 \<Rightarrow> int" where
  "mq_val x = uint x mod 12289"

lemma mq_val_inj: "mq_ok x \<Longrightarrow> mq_ok y \<Longrightarrow> mq_val x = mq_val y \<Longrightarrow> x = y"
proof -
  assume ok: "mq_ok x" "mq_ok y" and v: "mq_val x = mq_val y"
  have "uint x mod 12289 = (if uint x = 12289 then 0 else uint x)"
    "uint y mod 12289 = (if uint y = 12289 then 0 else uint y)"
    using ok by (auto simp: mq_ok_def)
  with ok v have "uint x = uint y" by (auto simp: mq_ok_def mq_val_def split: if_splits)
  then show "x = y" by (simp only: word_uint_eq_iff)
qed

text \<open>
  The source turns a sign into a mask with \<^verbatim>\<open>q & (a >> 16)\<close>: for a small difference
  \<open>k\<close> the shifted word is 0, or all ones on 16 bits when \<open>k\<close> is negative.
\<close>

lemma sign_mask16:
  fixes a :: u32
  assumes a: "a = word_of_int k" and k: "- 65536 \<le> k" "k < 65536"
  shows "q AND drop_bit 16 a = (if k < 0 then q else 0)"
proof (cases "k < 0")
  case True
  have "word_of_int k = (word_of_int (k + 2 ^ 32) :: u32)" by simp
  then have "uint a = k + 2 ^ 32"
    using a k True by (intro uint_of_int_eqI) auto
  then have "uint a div 2 ^ 16 = 2 ^ 16 - 1" using k True by (simp add: int_div_pos_eq)
  then have "uint (drop_bit 16 a) = uint (65535 :: u32)" by (simp add: word_vals)
  then have "drop_bit 16 a = 65535" by (simp only: word_uint_eq_iff)
  with True show ?thesis by (simp add: q_def)
next
  case False
  have "uint a = k" using a k False by (intro uint_of_int_eqI) auto
  then have "uint (drop_bit 16 a) = 0" using k False by (simp add: word_vals)
  then have "drop_bit 16 a = 0" by (simp add: uint_0_iff)
  with False show ?thesis by simp
qed

text \<open>The correction step shared by addition, subtraction and the representation changes.\<close>

lemma q_minus_corrected:
  fixes a :: u32
  assumes a: "a = word_of_int k" and k: "- 12289 \<le> k" "k \<le> 12289 - 1"
  shows "uint (q - (a + (q AND drop_bit 16 a))) = (if k < 0 then - k else 12289 - k)"
proof -
  have m: "q AND drop_bit 16 a = (if k < 0 then q else 0)"
    using k by (intro sign_mask16 [OF a]) auto
  have "q - (a + (q AND drop_bit 16 a)) = word_of_int (if k < 0 then - k else 12289 - k)"
    unfolding m using a by (simp add: q_def)
  then show ?thesis using k by (intro uint_of_int_eqI) auto
qed

lemma mq_add_uint:
  assumes "mq_ok x" "mq_ok y"
  shows "uint (mq_add x y) = (if uint x + uint y \<le> 12289 then uint x + uint y
           else uint x + uint y - 12289)"
proof -
  have w: "q - (x + y) = word_of_int (12289 - (uint x + uint y))"
    by (simp add: q_def)
  show ?thesis
    using q_minus_corrected [OF w] assms by (simp add: mq_add_def Let_def mq_ok_def split: if_splits)
qed

lemma mq_sub_uint:
  assumes "mq_ok x" "mq_ok y"
  shows "uint (mq_sub x y) = (if uint y < uint x then uint x - uint y
           else uint x - uint y + 12289)"
proof -
  have w: "y - x = word_of_int (uint y - uint x)" by simp
  show ?thesis
    using q_minus_corrected [OF w] assms by (simp add: mq_sub_def Let_def mq_ok_def split: if_splits)
qed

lemma mq_add_ok [simp, intro]: "mq_ok x \<Longrightarrow> mq_ok y \<Longrightarrow> mq_ok (mq_add x y)"
  by (frule (1) mq_add_uint) (auto simp: mq_ok_def)

lemma mq_sub_ok [simp, intro]: "mq_ok x \<Longrightarrow> mq_ok y \<Longrightarrow> mq_ok (mq_sub x y)"
  by (frule (1) mq_sub_uint) (auto simp: mq_ok_def)

lemma mq_add_val [simp]:
  assumes "mq_ok x" "mq_ok y"
  shows "mq_val (mq_add x y) = (mq_val x + mq_val y) mod 12289"
  unfolding mq_val_def mq_add_uint [OF assms] by (simp add: mod_simps)

lemma mq_sub_val [simp]:
  assumes "mq_ok x" "mq_ok y"
  shows "mq_val (mq_sub x y) = (mq_val x - mq_val y) mod 12289"
  unfolding mq_val_def mq_sub_uint [OF assms] by (simp add: mod_simps)

lemma mq_half_uint:
  assumes "mq_ok x"
  shows "uint (mq_half x) = (if even (uint x) then uint x div 2 else (uint x + 12289) div 2)"
proof (cases "even (uint x)")
  case True
  then have "x AND 1 = 0" by (simp add: word_and_one)
  with True show ?thesis by (simp add: mq_half_def word_vals)
next
  case False
  then have "x AND 1 = 1" by (simp add: word_and_one)
  then have "mq_half x = drop_bit 1 (x + q)" by (simp add: mq_half_def)
  moreover have "uint (x + q) = uint x + 12289"
    using assms by (intro uint_of_int_eqI) (auto simp: q_def mq_ok_def)
  ultimately show ?thesis using False by (simp add: word_vals)
qed

lemma mont_reduce_int:
  fixes b x :: int
  assumes b: "0 \<le> b" "b < 2 ^ 32" and x: "1 \<le> x" "x \<le> 3489673216"
    and dv: "(b * 12289 + x) mod 2 ^ 32 = 0"
  shows "b div 2 ^ 16 * 12289 div 2 ^ 16 + 1 = (b * 12289 + x) div 2 ^ 32"
proof -
  define bh bl ch cl where defs: "bh = b div 2 ^ 16" "bl = b mod 2 ^ 16"
    "ch = bh * 12289 div 2 ^ 16" "cl = bh * 12289 mod 2 ^ 16"
  have b_eq: "b = bh * 2 ^ 16 + bl" and c_eq: "bh * 12289 = ch * 2 ^ 16 + cl"
    by (simp_all add: defs)
  have bnd: "0 \<le> bl" "bl < 2 ^ 16" "0 \<le> cl" "cl < 2 ^ 16" by (simp_all add: defs)
  obtain N where N: "b * 12289 + x = N * 2 ^ 32" using dv by (metis mod_0_imp_dvd dvd_div_mult_self)
  have "N * 2 ^ 32 = ch * 2 ^ 32 + (cl * 2 ^ 16 + bl * 12289 + x)"
    using N b_eq c_eq by (simp add: algebra_simps)
  then have "(N - ch) * 2 ^ 32 = cl * 2 ^ 16 + bl * 12289 + x" by (simp add: algebra_simps)
  with bnd x have "N - ch = 1" by (simp; presburger)
  moreover have "(b * 12289 + x) div 2 ^ 32 = N" using N by simp
  ultimately show ?thesis by (simp add: defs)
qed

lemma mq_mred_uint:
  assumes "1 \<le> uint x" "uint x \<le> 3489673216"
  shows "uint (mq_mred x) = (uint (x * q1i) * 12289 + uint x) div 2 ^ 32"
    and "(uint (x * q1i) * 12289 + uint x) mod 2 ^ 32 = 0"
proof -
  let ?b = "uint (x * q1i)"
  have b: "0 \<le> ?b" "?b < 2 ^ 32" using uint_lt2p [of "x * q1i"] by simp_all
  have "?b = (uint x * 4143984639) mod 2 ^ 32" by (simp add: q1i_def uint_word_ariths)
  then have "(?b * 12289 + uint x) mod 2 ^ 32 = (uint x * 4143984639 * 12289 + uint x) mod 2 ^ 32"
    by (metis mod_add_left_eq mod_mult_left_eq)
  also have "uint x * 4143984639 * 12289 + uint x = 2 ^ 32 * (11857 * uint x)" by simp
  finally show z: "(?b * 12289 + uint x) mod 2 ^ 32 = 0" by simp
  have hi: "?b div 2 ^ 16 < 2 ^ 16" using b by simp
  have c: "uint (drop_bit 16 (x * q1i) * q) = ?b div 2 ^ 16 * 12289"
    using hi by (subst uint_mult_lt) (simp_all add: q_def word_vals)
  have "uint (mq_mred x) = ?b div 2 ^ 16 * 12289 div 2 ^ 16 + 1"
    unfolding mq_mred_def Let_def using hi b
    by (subst uint_add_lt) (simp_all only: word_vals c; simp)+
  then show "uint (mq_mred x) = (?b * 12289 + uint x) div 2 ^ 32"
    by (simp only: mont_reduce_int [OF b assms z])
qed

lemma mq_mred_spec:
  assumes "1 \<le> uint x" "uint x \<le> 3489673216"
  shows "mq_ok (mq_mred x)" and "mq_val (mq_mred x) = (uint x * 11857) mod 12289"
proof -
  let ?b = "uint (x * q1i)"
  define N where "N = uint (mq_mred x)"
  have b: "0 \<le> ?b" "?b < 2 ^ 32" using uint_lt2p [of "x * q1i"] by simp_all
  have N: "?b * 12289 + uint x = N * 2 ^ 32"
    unfolding N_def mq_mred_uint(1) [OF assms]
    using mq_mred_uint(2) [OF assms] by (metis dvd_div_mult_self mod_0_imp_dvd)
  show "mq_ok (mq_mred x)"
    unfolding mq_ok_def N_def [symmetric]
  proof
    have N': "?b * 12289 + uint x = N * 4294967296" using N by simp
    show "1 \<le> N" using N' b(1) assms(1) by linarith
    show "N \<le> 12289" using N b(2) assms(2) by simp
  qed
  have "uint x mod 12289 = (N * 2 ^ 32) mod 12289"
    using N by (metis mod_mult_self3)
  also have "\<dots> = (N * 10952) mod 12289"
  proof -
    have "N * 2 ^ 32 = N * 10952 + 12289 * (N * 349496)" by simp
    then show ?thesis by (metis mod_mult_self2)
  qed
  finally have "(uint x * 11857) mod 12289 = (N * 10952 * 11857) mod 12289"
    by (metis mod_mult_left_eq)
  also have "\<dots> = N mod 12289"
  proof -
    have "N * 10952 * 11857 = N + 12289 * (N * 10567)" by simp
    then show ?thesis by (metis mod_mult_self2)
  qed
  finally show "mq_val (mq_mred x) = (uint x * 11857) mod 12289"
    by (simp add: mq_val_def N_def)
qed

lemma mq_mmul_arg:
  assumes "mq_ok x" "mq_ok y"
  shows "uint (x * y) = uint x * uint y" "1 \<le> uint x * uint y" "uint x * uint y \<le> 3489673216"
proof -
  have "uint x * uint y \<le> 12289 * 12289"
    using assms by (intro mult_mono) (auto simp: mq_ok_def)
  then show "uint x * uint y \<le> 3489673216" and "uint (x * y) = uint x * uint y"
    by (auto intro: uint_mult_lt)
  show "1 \<le> uint x * uint y"
    using assms by (simp add: mq_ok_def int_one_le_iff_zero_less)
qed

lemma mq_mmul_ok [simp, intro]: "mq_ok x \<Longrightarrow> mq_ok y \<Longrightarrow> mq_ok (mq_mmul x y)"
  unfolding mq_mmul_def by (rule mq_mred_spec(1)) (simp_all add: mq_mmul_arg)

lemma mq_mmul_val:
  assumes "mq_ok x" "mq_ok y"
  shows "mq_val (mq_mmul x y) = (mq_val x * mq_val y * 11857) mod 12289"
proof -
  have "mq_val (mq_mmul x y) = (uint x * uint y * 11857) mod 12289"
    unfolding mq_mmul_def using mq_mmul_arg [OF assms] by (simp add: mq_mred_spec(2))
  then show ?thesis by (simp only: mq_val_def mod_mult_mods3)
qed

lemma mq_half_ok [simp, intro]: "mq_ok x \<Longrightarrow> mq_ok (mq_half x)"
  by (frule mq_half_uint) (auto simp: mq_ok_def elim!: evenE oddE)

lemma mq_half_val:
  assumes "mq_ok x"
  shows "mq_val (mq_half x) = (mq_val x * 6145) mod 12289"
proof -
  have "2 * uint (mq_half x) mod 12289 = uint x mod 12289"
    using mq_half_uint [OF assms] by (auto elim!: evenE oddE)
  then have "(2 * uint (mq_half x)) mod 12289 * 6145 mod 12289 = uint x mod 12289 * 6145 mod 12289"
    by simp
  moreover have "(2 * uint (mq_half x)) * 6145 mod 12289 = uint (mq_half x) mod 12289"
  proof -
    have "(2 * uint (mq_half x)) * 6145 = uint (mq_half x) + 12289 * uint (mq_half x)" by simp
    then show ?thesis by (metis mod_mult_self2)
  qed
  ultimately show ?thesis by (simp add: mq_val_def mod_simps)
qed

section \<open>Division\<close>

text \<open>A power of \<open>y\<close> in Montgomery form; the addition chain multiplies such powers.\<close>

definition mq_mont_pow :: "int \<Rightarrow> nat \<Rightarrow> u32 \<Rightarrow> bool" where
  "mq_mont_pow y e a \<longleftrightarrow> mq_ok a \<and> mq_val a = (y ^ e * 10952) mod 12289"

lemma mq_mont_pow_mmul:
  assumes "mq_mont_pow y i a" "mq_mont_pow y j b" "e = i + j"
  shows "mq_mont_pow y e (mq_mmul a b)"
proof -
  have "mq_val (mq_mmul a b) = (y ^ i * 10952) mod 12289 * ((y ^ j * 10952) mod 12289) * 11857 mod 12289"
    using assms by (simp add: mq_mont_pow_def mq_mmul_val)
  also have "\<dots> = (y ^ i * 10952) * (y ^ j * 10952) * 11857 mod 12289"
    by (rule mod_mult_mods3)
  also have "\<dots> = (y ^ e * 10952) mod 12289"
    by (rule mod_eqI [where k = "y ^ e * 115729784"]) (simp add: assms(3) power_add)
  finally show ?thesis using assms(1,2) by (simp add: mq_mont_pow_def)
qed

lemma mq_mont_pow_1:
  assumes "mq_ok y"
  shows "mq_mont_pow (mq_val y) 1 (mq_mmul y r2)"
proof -
  have "mq_ok r2" and "mq_val r2 = 5664" by (simp_all add: mq_ok_def mq_val_def r2_def)
  then show ?thesis
    using assms mod_eqI [of "mq_val y * 5664 * 11857" "mq_val y * 10952" 12289 "mq_val y * 5464"]
    by (simp add: mq_mont_pow_def mq_mmul_val)
qed

lemma mq_mont_pow_let:
  assumes "mq_mont_pow y i a" "mq_mont_pow y j b" "\<And>v. mq_mont_pow y (i + j) v \<Longrightarrow> Q (f v)"
  shows "Q (Let (mq_mmul a b) f)"
  unfolding Let_def using assms by (blast intro: mq_mont_pow_mmul)

lemma mq_div_power:
  assumes y: "mq_ok y"
  shows "\<exists>iy. mq_div x y = mq_mmul x iy \<and> mq_mont_pow (mq_val y) 12287 iy"
proof -
  define Q where "Q r \<longleftrightarrow> (\<exists>iy. r = mq_mmul x iy \<and> mq_mont_pow (mq_val y) 12287 iy)" for r
  have "Q (mq_div x y)"
    unfolding mq_div_def
    apply (subst Let_def)
    apply (insert mq_mont_pow_1 [OF y])
    apply (rule mq_mont_pow_let [where Q = Q], assumption, assumption,
        simp only: arith_simps one_add_one one_plus_numeral numeral_plus_one)+
    apply (unfold Q_def)
    apply (blast intro: refl)
    done
  then show ?thesis by (simp add: Q_def)
qed

lemma mq_div_spec:
  assumes x: "mq_ok x" and y: "mq_ok y"
  shows "mq_ok (mq_div x y)" and "mq_val (mq_div x y) = (mq_val x * mq_val y ^ 12287) mod 12289"
proof -
  obtain iy where iy: "mq_div x y = mq_mmul x iy" "mq_mont_pow (mq_val y) 12287 iy"
    using mq_div_power [OF y] by blast
  show "mq_ok (mq_div x y)" using x iy by (simp add: mq_mont_pow_def)
  have "mq_val (mq_div x y) = mq_val x * ((mq_val y ^ 12287 * 10952) mod 12289) * 11857 mod 12289"
    using x iy by (simp add: mq_mont_pow_def mq_mmul_val)
  also have "\<dots> = mq_val x * (mq_val y ^ 12287 * 10952) * 11857 mod 12289"
    by (rule mod_mult_mid)
  also have "\<dots> = (mq_val x * mq_val y ^ 12287) mod 12289"
    by (rule mod_eqI [where k = "mq_val x * mq_val y ^ 12287 * 10567"]) simp
  finally show "mq_val (mq_div x y) = (mq_val x * mq_val y ^ 12287) mod 12289" .
qed

lemma q_coprime_below: "coprime_below 12289"
proof (rule coprime_below_trial [where s = 111])
  show "list_all (\<lambda>d. 12289 mod d \<noteq> 0) [2..<111::nat]" by simp
qed simp_all

lemma mq_div_times:
  assumes "mq_ok x" "mq_ok y" "mq_val y \<noteq> 0"
  shows "mq_val (mq_div x y) * mq_val y mod 12289 = mq_val x"
proof -
  have "mq_val y mod int 12289 \<noteq> 0" using assms by (simp add: mq_val_def)
  from fermat_little [OF q_coprime_below this] have f: "mq_val y ^ 12288 mod 12289 = 1" by simp
  have "mq_val (mq_div x y) * mq_val y mod 12289 = mq_val x * (mq_val y ^ 12287 * mq_val y) mod 12289"
    unfolding mq_div_spec(2) [OF assms(1,2)] by (metis mod_mult_left_eq mult.assoc)
  also have "mq_val y ^ 12287 * mq_val y = mq_val y ^ 12288"
    using power_add [of "mq_val y" 12287 1] by (simp del: power_numeral)
  also have "mq_val x * mq_val y ^ 12288 mod 12289 = mq_val x * 1 mod 12289"
    using f by (metis mod_mult_right_eq)
  finally show ?thesis by (simp add: mq_val_def)
qed

end
