(* ===== verification/Bits.thy ===== *)
theory Bits
  imports Prelude
begin

unbundle bit_operations_syntax

text \<open>
  Bit sequences, most significant bit first: the common language in which the shift-and-mask
  accumulators of the codecs are specified. A word's low bits are read with \<open>bits_msb\<close>, a
  byte slice is the concatenation of its bytes, and appending to an accumulator or taking its
  leading bits away is appending or splitting lists.
\<close>

definition bits_msb :: "nat \<Rightarrow> 'a::semiring_bits \<Rightarrow> bool list" where
  "bits_msb n w = map (bit w) (rev [0..<n])"

definition bits_val :: "bool list \<Rightarrow> nat" where
  "bits_val bs = horner_sum of_bool 2 (rev bs)"

definition bytes_bits :: "u8 list \<Rightarrow> bool list" where
  "bytes_bits bs = concat (map (bits_msb 8) bs)"

lemma bits_msb_length [simp]: "length (bits_msb n w) = n"
  by (simp add: bits_msb_def)

lemma bits_msb_0 [simp]: "bits_msb 0 w = []"
  by (simp add: bits_msb_def)

lemma bits_msb_Suc: "bits_msb (Suc n) w = bit w n # bits_msb n w"
  by (simp add: bits_msb_def)

lemma bits_msb_cong: "(\<And>i. i < n \<Longrightarrow> bit v i = bit w i) \<Longrightarrow> bits_msb n v = bits_msb n w"
  by (simp add: bits_msb_def)

lemma bits_msb_eqD: "bits_msb n v = bits_msb n w \<Longrightarrow> i < n \<Longrightarrow> bit v i = bit w i"
  by (simp add: bits_msb_def)

lemma bits_msb_split:
  "bits_msb (k + n) w = bits_msb k (drop_bit n w) @ bits_msb n w"
  for w :: "'a::semiring_bit_operations"
proof (induction k)
  case (Suc k)
  have "bits_msb (Suc k + n) w = bit w (k + n) # bits_msb (k + n) w" by (simp add: bits_msb_Suc)
  with Suc show ?case by (simp add: bits_msb_Suc bit_drop_bit_eq add.commute)
qed simp

text \<open>Shifting an accumulator left by \<open>k\<close> and storing a \<open>k\<close>-bit value below.\<close>

lemma bits_msb_append:
  fixes w v :: "'a::len word"
  assumes "n + k \<le> LENGTH('a)" "\<And>i. bit v i \<Longrightarrow> i < k"
  shows "bits_msb (n + k) (push_bit k w OR v) = bits_msb n w @ bits_msb k v"
proof -
  have "bits_msb n (drop_bit k (push_bit k w OR v)) = bits_msb n w"
    using assms by (intro bits_msb_cong) (auto simp: bit_drop_bit_eq bit_or_iff bit_push_bit_iff)
  moreover have "bits_msb k (push_bit k w OR v) = bits_msb k v"
    by (intro bits_msb_cong) (auto simp: bit_or_iff bit_push_bit_iff)
  ultimately show ?thesis by (simp add: bits_msb_split)
qed

lemma bits_msb_ucast: "n \<le> LENGTH('b) \<Longrightarrow> bits_msb n (ucast w :: 'b::len word) = bits_msb n w"
  for w :: "'a::len word"
  by (intro bits_msb_cong) (auto simp: bit_ucast_iff dest: bit_imp_le_length)

lemma bits_msb_unat: "bits_msb n (unat w) = bits_msb n w" for w :: "'a::len word"
  by (intro bits_msb_cong) (auto simp: bit_unsigned_iff dest: bit_imp_le_length)

lemma bits_msb_zero [simp]: "bits_msb n 0 = replicate n False"
  by (induction n) (simp_all add: bits_msb_Suc)

lemma bits_msb_one: "bits_msb (Suc n) (1 :: 'a::semiring_bit_operations) = replicate n False @ [True]"
proof (induction n)
  case (Suc n)
  have "bits_msb (Suc (Suc n)) (1::'a) = bit (1::'a) (Suc n) # bits_msb (Suc n) (1::'a)"
    by (rule bits_msb_Suc)
  with Suc show ?case by (simp add: bit_1_iff)
qed (simp add: bits_msb_Suc bit_1_iff)

subsection \<open>Values\<close>

lemma bits_val_msb: "bits_val (bits_msb n (v::nat)) = take_bit n v"
  unfolding bits_val_def bits_msb_def
  by (simp add: rev_map horner_sum_bit_eq_take_bit)

lemma bits_val_word: "bits_val (bits_msb n w) = unat (take_bit n w)" for w :: "'a::len word"
  using bits_val_msb [of n "unat w"] by (simp add: bits_msb_unat unsigned_take_bit_eq)

lemma bits_msb_val: "bits_msb (length bs) (bits_val bs) = bs"
proof (rule nth_equalityI)
  fix i assume "i < length (bits_msb (length bs) (bits_val bs))"
  then have "length bs - Suc i < length bs" and "i < length bs" by auto
  then show "bits_msb (length bs) (bits_val bs) ! i = bs ! i"
    by (simp add: bits_msb_def bits_val_def bit_horner_sum_bit_iff rev_nth)
qed simp

lemma bits_val_bound: "bits_val bs < 2 ^ length bs"
  using horner_sum_of_bool_2_less [of "rev bs"] by (simp add: bits_val_def)

lemma bits_val_inj: "length bs = length cs \<Longrightarrow> bits_val bs = bits_val cs \<Longrightarrow> bs = cs"
  by (metis bits_msb_val)

lemma word_eq_bits: "bits_msb LENGTH('a) v = bits_msb LENGTH('a) w \<Longrightarrow> v = w" for v w :: "'a::len word"
  using bits_msb_eqD by (intro bit_word_eqI) blast

subsection \<open>Byte slices\<close>

lemma bytes_bits_length [simp]: "length (bytes_bits bs) = 8 * length bs"
  by (induction bs) (simp_all add: bytes_bits_def)

lemma bytes_bits_Nil [simp]: "bytes_bits [] = []"
  and bytes_bits_Cons [simp]: "bytes_bits (b # bs) = bits_msb 8 b @ bytes_bits bs"
  and bytes_bits_append [simp]: "bytes_bits (bs @ cs) = bytes_bits bs @ bytes_bits cs"
  by (simp_all add: bytes_bits_def)

lemma bytes_bits_inj: "bytes_bits bs = bytes_bits cs \<Longrightarrow> bs = cs"
proof (induction bs arbitrary: cs)
  case Nil
  then have "length (bytes_bits cs) = 0" by (metis bytes_bits_Nil list.size(3))
  then show ?case by simp
next
  case (Cons b bs)
  have "length cs = Suc (length bs)" using arg_cong [OF Cons.prems, of length] by simp
  then obtain c cs' where cs: "cs = c # cs'" by (cases cs) auto
  with Cons.prems have "bits_msb 8 b = bits_msb 8 c" "bytes_bits bs = bytes_bits cs'" by simp_all
  with Cons.IH cs show ?case using word_eq_bits [of b c] by simp
qed

lemma bytes_bits_zeros: "list_all (\<lambda>b. b = 0) bs \<longleftrightarrow> list_all Not (bytes_bits bs)"
proof -
  have "b = 0 \<longleftrightarrow> list_all Not (bits_msb 8 b)" for b :: u8
  proof -
    have "list_all Not (bits_msb 8 b) \<longleftrightarrow> (\<forall>i<8. \<not> bit b i)" by (auto simp: bits_msb_def list_all_iff)
    also have "\<dots> \<longleftrightarrow> b = 0" by (auto intro: bit_word_eqI)
    finally show ?thesis by simp
  qed
  then show ?thesis by (induction bs) simp_all
qed

end
