(* ===== verification/Codec.thy ===== *)
theory Codec
  imports MqArith Bits
begin

unbundle bit_operations_syntax

text \<open>
  The encodings of \<^verbatim>\<open>codec.go\<close>: fixed-width small polynomials (signing keys), 14-bit
  residues (verifying keys) and the Golomb-Rice format of signatures. Each routine is the
  source's accumulator loop over bytes; each is refined against a specification on bit
  sequences, from which round trips and uniqueness of encodings follow.
\<close>

datatype codec_error =
    Truncated_source | Truncated_input | Invalid_coefficient_value | Nonzero_padding_bits
  | Out_of_range_coefficient | Invalid_minus_zero_encoding

section \<open>Small polynomials, fixed width\<close>

fun trim_emit :: "u32 \<Rightarrow> nat \<Rightarrow> nat \<Rightarrow> u8 list \<Rightarrow> nat \<times> nat \<times> u8 list" where
  "trim_emit acc acc_len j dst =
     (if 8 \<le> acc_len
      then let acc_len = acc_len - 8
           in trim_emit acc acc_len (j + 1) (dst[j := ucast (drop_bit acc_len acc)])
      else (acc_len, j, dst))"

declare trim_emit.simps [simp del]

definition trim_i8_encode :: "nat \<Rightarrow> i8 list \<Rightarrow> nat \<Rightarrow> u8 list \<Rightarrow> nat \<times> u8 list" where
  "trim_i8_encode logn f nbits dst =
     (let n = 2 ^ logn;
          msk = push_bit nbits 1 - (1 :: u32);
          (acc, acc_len, j, dst) =
            fold (\<lambda>i (acc, acc_len, j, dst).
                    let acc = push_bit nbits acc OR (scast (f ! i) AND msk);
                        (acc_len, j, dst) = trim_emit acc (acc_len + nbits) j dst
                    in (acc, acc_len, j, dst))
              [0..<n] (0 :: u32, 0 :: nat, 0 :: nat, dst)
      in (j, dst))"

text \<open>The inner loop of the decoder, which is left by \<^verbatim>\<open>break\<close> once \<open>n\<close> values are read.\<close>

function trim_take :: "nat \<Rightarrow> nat \<Rightarrow> u32 \<Rightarrow> nat \<Rightarrow> nat \<Rightarrow> i8 list \<Rightarrow> (codec_error, nat \<times> nat \<times> i8 list) result" where
  "trim_take nbits n acc acc_len j f =
     (if nbits \<le> acc_len \<and> 0 < nbits
      then let acc_len = acc_len - nbits;
               mask1 = push_bit nbits 1 - (1 :: u32);
               mask2 = push_bit (nbits - 1) (1 :: u32);
               w = drop_bit acc_len acc AND mask1;
               w = w OR - (w AND mask2)
           in if w = - mask2 then Inl Invalid_coefficient_value
              else let f = f[j := ucast w]; j = j + 1
                   in if n \<le> j then Inr (acc_len, j, f)
                      else trim_take nbits n acc acc_len j f
      else Inr (acc_len, j, f))"
  by pat_completeness auto
termination by (relation "measure (\<lambda>(nbits, n, acc, acc_len, j, f). acc_len)") auto

declare trim_take.simps [simp del]

fun trim_bytes ::
  "nat \<Rightarrow> nat \<Rightarrow> u8 list \<Rightarrow> u32 \<Rightarrow> nat \<Rightarrow> nat \<Rightarrow> i8 list \<Rightarrow> (codec_error, u32 \<times> nat \<times> nat \<times> i8 list) result" where
  "trim_bytes nbits n [] acc acc_len j f = Inr (acc, acc_len, j, f)"
| "trim_bytes nbits n (b # bs) acc acc_len j f =
     (let acc = push_bit 8 acc OR ucast b
      in case trim_take nbits n acc (acc_len + 8) j f of
           Inl e \<Rightarrow> Inl e
         | Inr (acc_len, j, f) \<Rightarrow> trim_bytes nbits n bs acc acc_len j f)"

definition trim_i8_decode :: "nat \<Rightarrow> u8 list \<Rightarrow> i8 list \<Rightarrow> nat \<Rightarrow> (codec_error, nat \<times> i8 list) result" where
  "trim_i8_decode logn src f nbits =
     (let needed = (nbits * 2 ^ logn + 7) div 8
      in if length src < needed then Inl Truncated_source
         else case trim_bytes nbits (2 ^ logn) (take needed src) 0 0 0 f of
                Inl e \<Rightarrow> Inl e
              | Inr (acc, acc_len, j, f) \<Rightarrow>
                  if acc AND (push_bit acc_len 1 - 1) \<noteq> 0 then Inl Nonzero_padding_bits
                  else Inr (needed, f))"

section \<open>Polynomials modulo q, 14 bits per value\<close>

definition modq_encode :: "nat \<Rightarrow> u16 list \<Rightarrow> u8 list \<Rightarrow> nat \<times> u8 list" where
  "modq_encode logn h dst =
     fold (\<lambda>g (j, dst).
             let i = 4 * g;
                 x0 = ucast (h ! (i + 0)); x1 = ucast (h ! (i + 1));
                 x2 = ucast (h ! (i + 2)); x3 = ucast (h ! (i + 3));
                 x = push_bit 42 x0 OR push_bit 28 x1 OR push_bit 14 x2 OR (x3 :: u64)
             in fold (\<lambda>k (j, dst). (j + 1, dst[j := ucast (drop_bit k x)]))
                  [48, 40, 32, 24, 16, 8, 0] (j, dst))
       [0..<(2 ^ logn + 3) div 4] (0, dst)"

fun modq_groups :: "nat \<Rightarrow> nat \<Rightarrow> nat \<Rightarrow> u8 list \<Rightarrow> u16 list \<Rightarrow> (codec_error, u16 list) result" where
  "modq_groups 0 i j src h = Inr h"
| "modq_groups (Suc g) i j src h =
     (let x = fold (\<lambda>k x. push_bit 8 x OR ucast (src ! (i + k))) [0..<7] (0 :: u64);
          h0 = ucast (drop_bit 42 x AND 0x3FFF); h1 = ucast (drop_bit 28 x AND 0x3FFF);
          h2 = ucast (drop_bit 14 x AND 0x3FFF); h3 = ucast (x AND 0x3FFF)
      in if q \<le> h0 \<or> q \<le> h1 \<or> q \<le> h2 \<or> q \<le> h3 then Inl Invalid_coefficient_value
         else modq_groups g (i + 7) (j + 4) src
                (h[j + 0 := ucast h0, j + 1 := ucast h1, j + 2 := ucast h2, j + 3 := ucast h3]))"

definition modq_decode :: "nat \<Rightarrow> u8 list \<Rightarrow> u16 list \<Rightarrow> (codec_error, nat \<times> u16 list) result" where
  "modq_decode logn src h =
     (let needed = (if logn < 2 then 0 else 7 * 2 ^ (logn - 2))
      in if length src < needed then Inl Truncated_input
         else case modq_groups ((2 ^ logn + 3) div 4) 0 0 src h of
                Inl e \<Rightarrow> Inl e
              | Inr h \<Rightarrow> Inr (needed, h))"

section \<open>Signed polynomials, compressed\<close>

fun comp_emit :: "u32 \<Rightarrow> nat \<Rightarrow> nat \<Rightarrow> u8 list \<Rightarrow> (nat \<times> nat \<times> u8 list) option" where
  "comp_emit acc acc_len j dst =
     (if 8 \<le> acc_len
      then let acc_len = acc_len - 8
           in if length dst \<le> j then None
              else comp_emit acc acc_len (j + 1) (dst[j := ucast (drop_bit acc_len acc)])
      else Some (acc_len, j, dst))"

declare comp_emit.simps [simp del]

fun comp_coefs :: "i16 list \<Rightarrow> u32 \<Rightarrow> nat \<Rightarrow> nat \<Rightarrow> u8 list \<Rightarrow> (u32 \<times> nat \<times> nat \<times> u8 list) option" where
  "comp_coefs [] acc acc_len j dst = Some (acc, acc_len, j, dst)"
| "comp_coefs (si # s) acc acc_len j dst =
     (let x = (scast si :: i32)
      in if sint x < - 2047 \<or> 2047 < sint x then None
         else let sw = signed_drop_bit 16 x;
                  w = (x XOR sw) - sw;
                  acc = push_bit 8 acc;
                  acc = acc OR (sw AND 0x80);
                  acc = acc OR (w AND 0x7F);
                  acc_len = acc_len + 8;
                  w = drop_bit 7 w + 1;
                  acc = push_bit (unat w) acc OR 1;
                  acc_len = acc_len + unat w
              in case comp_emit acc acc_len j dst of
                   None \<Rightarrow> None
                 | Some (acc_len, j, dst) \<Rightarrow> comp_coefs s acc acc_len j dst)"

definition zero_from :: "nat \<Rightarrow> u8 list \<Rightarrow> u8 list" where
  "zero_from j dst = fold (\<lambda>j dst. dst[j := 0]) [j..<length dst] dst"

definition comp_encode :: "nat \<Rightarrow> i16 list \<Rightarrow> u8 list \<Rightarrow> u8 list option" where
  "comp_encode logn s dst =
     (case comp_coefs (take (2 ^ logn) s) 0 0 0 dst of
        None \<Rightarrow> None
      | Some (acc, acc_len, j, dst) \<Rightarrow>
          if 0 < acc_len
          then if length dst \<le> j then None
               else Some (zero_from (j + 1) (dst[j := ucast (push_bit (8 - acc_len) acc)]))
          else Some (zero_from j dst))"

text \<open>What decreases while the high bits are read: at most sixteen steps of 128 fit.\<close>

definition comp_measure :: "u32 \<Rightarrow> nat" where
  "comp_measure m = (if m \<le> 2047 then 2048 - unat m else 4096)"

lemma comp_measure_decreases: "\<not> 2047 < m + 0x80 \<Longrightarrow> comp_measure (m + 0x80) < comp_measure m"
proof -
  assume "\<not> 2047 < m + 0x80"
  then have m: "m + 0x80 \<le> 2047" by simp
  show ?thesis
  proof (cases "m \<le> 2047")
    case True
    then have "unat m \<le> 2047" by (simp add: word_le_nat_alt)
    then have "unat (m + 0x80) = unat m + 128" by (simp add: unat_word_ariths)
    with m True show ?thesis by (simp add: comp_measure_def word_le_nat_alt)
  next
    case False
    with m show ?thesis by (simp add: comp_measure_def)
  qed
qed

text \<open>The loop that reads the high bits of a coefficient, up to the next bit of value 1.\<close>

function comp_high ::
  "u8 list \<Rightarrow> nat \<Rightarrow> u32 \<Rightarrow> nat \<Rightarrow> u32 \<Rightarrow> (codec_error, nat \<times> u32 \<times> nat \<times> u32) result" where
  "comp_high src i acc acc_len m =
     (if acc_len = 0 \<and> length src \<le> i then Inl Truncated_input
      else let (i, acc, acc_len) = (if acc_len = 0 then (i + 1, push_bit 8 acc OR ucast (src ! i), 8)
                                    else (i, acc, acc_len));
               acc_len = acc_len - 1
           in if drop_bit acc_len acc AND 1 \<noteq> 0 then Inr (i, acc, acc_len, m)
              else let m = m + 0x80
                   in if 2047 < m then Inl Out_of_range_coefficient
                      else comp_high src i acc acc_len m)"
  by pat_completeness auto
termination
  by (relation "measure (\<lambda>(src, i, acc, acc_len, m). comp_measure m)") (simp_all add: comp_measure_decreases)

declare comp_high.simps [simp del]

fun comp_values ::
  "nat \<Rightarrow> nat \<Rightarrow> u8 list \<Rightarrow> nat \<Rightarrow> u32 \<Rightarrow> nat \<Rightarrow> i16 list \<Rightarrow> (codec_error, nat \<times> u32 \<times> nat \<times> i16 list) result" where
  "comp_values 0 j src i acc acc_len f = Inr (i, acc, acc_len, f)"
| "comp_values (Suc c) j src i acc acc_len f =
     (if length src \<le> i then Inl Truncated_input
      else let acc = push_bit 8 acc OR ucast (src ! i);
               i = i + 1;
               s = drop_bit (acc_len + 7) acc AND 1;
               m = drop_bit acc_len acc AND 0x7F
           in case comp_high src i acc acc_len m of
                Inl e \<Rightarrow> Inl e
              | Inr (i, acc, acc_len, m) \<Rightarrow>
                  if s AND drop_bit 31 (m - 1) \<noteq> 0 then Inl Invalid_minus_zero_encoding
                  else comp_values c (j + 1) src i acc acc_len (f[j := ucast ((m XOR - s) + s)]))"

definition comp_decode :: "nat \<Rightarrow> u8 list \<Rightarrow> i16 list \<Rightarrow> (codec_error, i16 list) result" where
  "comp_decode logn src f =
     (case comp_values (2 ^ logn) 0 src 0 0 0 f of
        Inl e \<Rightarrow> Inl e
      | Inr (i, acc, acc_len, f) \<Rightarrow>
          if 0 < acc_len \<and> acc AND (push_bit acc_len 1 - 1) \<noteq> 0 then Inl Nonzero_padding_bits
          else if \<exists>k \<in> set [i..<length src]. src ! k \<noteq> 0 then Inl Nonzero_padding_bits
          else Inr f)"

end
