(* ===== verification/CodecComp.thy ===== *)
theory CodecComp
  imports Codec
begin

unbundle bit_operations_syntax

text \<open>
  Correctness of the Golomb-Rice codec of signatures. The specification reads and writes bit
  sequences coefficient by coefficient; the byte-wise decoder refines it error for error, and
  the encoder writes exactly the specified bits followed by zeros.
\<close>

section \<open>Specification on bits\<close>

definition comp_bits :: "int \<Rightarrow> bool list" where
  "comp_bits x = (x < 0) # bits_msb 7 (nat \<bar>x\<bar>) @ replicate (nat \<bar>x\<bar> div 128) False @ [True]"

fun get_high :: "nat \<Rightarrow> bool list \<Rightarrow> (codec_error, nat \<times> bool list) result" where
  "get_high m [] = Inl Truncated_input"
| "get_high m (b # bs) =
     (if b then Inr (m, bs)
      else if 2047 < m + 128 then Inl Out_of_range_coefficient else get_high (m + 128) bs)"

definition get_coef :: "bool list \<Rightarrow> (codec_error, int \<times> bool list) result" where
  "get_coef bs =
     (if length bs < 8 then Inl Truncated_input
      else case get_high (bits_val (take 7 (tl bs))) (drop 8 bs) of
             Inl e \<Rightarrow> Inl e
           | Inr (m, bs') \<Rightarrow>
               if hd bs \<and> m = 0 then Inl Invalid_minus_zero_encoding
               else Inr (if hd bs then - int m else int m, bs'))"

fun get_coefs :: "nat \<Rightarrow> bool list \<Rightarrow> (codec_error, int list \<times> bool list) result" where
  "get_coefs 0 bs = Inr ([], bs)"
| "get_coefs (Suc c) bs =
     (case get_coef bs of
        Inl e \<Rightarrow> Inl e
      | Inr (x, bs') \<Rightarrow>
          (case get_coefs c bs' of Inl e \<Rightarrow> Inl e | Inr (xs, bs'') \<Rightarrow> Inr (x # xs, bs'')))"

definition get_poly :: "nat \<Rightarrow> bool list \<Rightarrow> (codec_error, int list) result" where
  "get_poly n bs =
     (case get_coefs n bs of
        Inl e \<Rightarrow> Inl e
      | Inr (xs, bs') \<Rightarrow> if list_all Not bs' then Inr xs else Inl Nonzero_padding_bits)"

subsection \<open>The specification decodes exactly the encodings\<close>

lemma get_high_iff:
  "m \<le> 2047 \<Longrightarrow> get_high m bs = Inr (m', bs') \<longleftrightarrow>
     (\<exists>k. m' = m + 128 * k \<and> m' \<le> 2047 \<and> bs = replicate k False @ True # bs')"
proof (induction m bs rule: get_high.induct)
  case (2 m b bs)
  show ?case
  proof (cases b)
    case True
    have "k = 0" if "b # bs = replicate k False @ True # bs'" for k using that True by (cases k) auto
    with True show ?thesis using 2(2) by auto
  next
    case False
    have "(\<exists>k. m' = m + 128 * k \<and> m' \<le> 2047 \<and> b # bs = replicate k False @ True # bs') \<longleftrightarrow>
        (\<exists>k. m' = m + 128 + 128 * k \<and> m' \<le> 2047 \<and> bs = replicate k False @ True # bs')"
    proof
      assume "\<exists>k. m' = m + 128 * k \<and> m' \<le> 2047 \<and> b # bs = replicate k False @ True # bs'"
      then obtain k where k: "m' = m + 128 * k" "m' \<le> 2047" "b # bs = replicate k False @ True # bs'" by blast
      with False obtain k' where "k = Suc k'" by (cases k) auto
      with k show "\<exists>k. m' = m + 128 + 128 * k \<and> m' \<le> 2047 \<and> bs = replicate k False @ True # bs'"
        by (intro exI [of _ k']) simp
    next
      assume "\<exists>k. m' = m + 128 + 128 * k \<and> m' \<le> 2047 \<and> bs = replicate k False @ True # bs'"
      then obtain k where "m' = m + 128 + 128 * k" "m' \<le> 2047" "bs = replicate k False @ True # bs'" by blast
      with False show "\<exists>k. m' = m + 128 * k \<and> m' \<le> 2047 \<and> b # bs = replicate k False @ True # bs'"
        by (intro exI [of _ "Suc k"]) simp
    qed
    then show ?thesis using 2 False by auto
  qed
qed simp

lemma drop_8: "drop 8 xs = drop 7 (tl xs)"
  using drop_Suc [of 7 xs] by simp

lemma comp_bits_length: "8 \<le> length (comp_bits x)"
  by (simp add: comp_bits_def)

lemma get_coef_encoded:
  assumes "\<bar>x\<bar> \<le> 2047"
  shows "get_coef (comp_bits x @ bs) = Inr (x, bs)"
proof -
  let ?a = "nat \<bar>x\<bar>"
  have l: "\<not> length (comp_bits x @ bs) < 8" using comp_bits_length [of x] by simp
  have low: "bits_val (take 7 (tl (comp_bits x @ bs))) = ?a mod 128"
    by (simp add: comp_bits_def bits_val_msb take_bit_eq_mod)
  have rest: "drop 8 (comp_bits x @ bs) = replicate (?a div 128) False @ True # bs"
    unfolding drop_8 by (simp add: comp_bits_def)
  have "get_high (?a mod 128) (replicate (?a div 128) False @ True # bs) = Inr (?a, bs)"
    using assms by (subst get_high_iff) (auto intro!: exI [of _ "?a div 128"])
  moreover have "hd (comp_bits x @ bs) \<longleftrightarrow> x < 0" by (simp add: comp_bits_def)
  ultimately show ?thesis unfolding get_coef_def low rest using l by auto
qed

lemma get_coef_decoded:
  assumes "get_coef bs = Inr (x, bs')"
  shows "bs = comp_bits x @ bs' \<and> \<bar>x\<bar> \<le> 2047"
proof -
  have len: "8 \<le> length bs" using assms by (auto simp: get_coef_def split: if_splits)
  let ?v = "bits_val (take 7 (tl bs))"
  obtain m where m: "get_high ?v (drop 8 bs) = Inr (m, bs')" "\<not> (hd bs \<and> m = 0)"
    "x = (if hd bs then - int m else int m)"
    using assms len by (auto simp: get_coef_def split: sum.splits prod.splits if_splits)
  have tl7: "length (take 7 (tl bs)) = 7" using len by simp
  have v: "?v < 128" using bits_val_bound [of "take 7 (tl bs)"] tl7 by simp
  then obtain k where k: "m = ?v + 128 * k" "m \<le> 2047" "drop 8 bs = replicate k False @ True # bs'"
    using m(1) by (subst (asm) get_high_iff) auto
  have x: "nat \<bar>x\<bar> = m" "x < 0 \<longleftrightarrow> hd bs" using m by auto
  have "m mod 128 = ?v" "m div 128 = k" using k v by auto
  then have "bits_msb 7 m = bits_msb 7 ?v"
    using v by (intro bits_val_inj) (simp_all add: bits_val_msb take_bit_eq_mod)
  also have "\<dots> = take 7 (tl bs)" using bits_msb_val [of "take 7 (tl bs)"] tl7 by simp
  finally have "comp_bits x @ bs' = hd bs # take 7 (tl bs) @ drop 8 bs"
    unfolding comp_bits_def x using \<open>m div 128 = k\<close> k(3) by simp
  also have "\<dots> = bs" unfolding drop_8 using len by (cases bs) simp_all
  finally show ?thesis using x k by (auto simp: split: if_splits)
qed

lemma get_coefs_iff:
  "get_coefs c bs = Inr (xs, bs') \<longleftrightarrow>
     length xs = c \<and> list_all (\<lambda>x. \<bar>x\<bar> \<le> 2047) xs \<and> bs = concat (map comp_bits xs) @ bs'"
proof (induction c arbitrary: bs xs)
  case 0
  then show ?case by auto
next
  case (Suc c)
  show ?case
  proof
    assume "get_coefs (Suc c) bs = Inr (xs, bs')"
    then obtain x b2 ys where "get_coef bs = Inr (x, b2)" "get_coefs c b2 = Inr (ys, bs')" "xs = x # ys"
      by (auto split: sum.splits prod.splits)
    then show "length xs = Suc c \<and> list_all (\<lambda>x. \<bar>x\<bar> \<le> 2047) xs \<and> bs = concat (map comp_bits xs) @ bs'"
      using get_coef_decoded Suc by fastforce
  next
    assume r: "length xs = Suc c \<and> list_all (\<lambda>x. \<bar>x\<bar> \<le> 2047) xs \<and> bs = concat (map comp_bits xs) @ bs'"
    then obtain x ys where xs: "xs = x # ys" by (cases xs) auto
    with r have "get_coef bs = Inr (x, concat (map comp_bits ys) @ bs')" by (simp add: get_coef_encoded)
    moreover have "get_coefs c (concat (map comp_bits ys) @ bs') = Inr (ys, bs')" using r xs by (simp add: Suc)
    ultimately show "get_coefs (Suc c) bs = Inr (xs, bs')" using xs by simp
  qed
qed

section \<open>The decoder refines the specification\<close>

text \<open>The bits still to be read: the accumulator's low bits, then the unread bytes.\<close>

definition dec_bits :: "u8 list \<Rightarrow> nat \<Rightarrow> u32 \<Rightarrow> nat \<Rightarrow> bool list" where
  "dec_bits src i acc acc_len = bits_msb acc_len acc @ bytes_bits (drop i src)"

lemma byte_bits_high: "bit (ucast b :: u32) i \<Longrightarrow> i < 8" for b :: u8
  by (auto simp: bit_ucast_iff dest: bit_imp_le_length)

lemma dec_bits_load:
  assumes "i < length src" "acc_len + 8 \<le> 32"
  shows "dec_bits src (i + 1) (push_bit 8 acc OR ucast (src ! i)) (acc_len + 8) = dec_bits src i acc acc_len"
proof -
  have "bits_msb (acc_len + 8) (push_bit 8 acc OR ucast (src ! i)) = bits_msb acc_len acc @ bits_msb 8 (src ! i)"
    using assms by (subst bits_msb_append) (auto dest: byte_bits_high simp: bits_msb_ucast)
  moreover have "drop i src = src ! i # drop (i + 1) src" using assms by (simp add: Cons_nth_drop_Suc)
  ultimately show ?thesis by (simp add: dec_bits_def)
qed

lemma dec_bits_Suc: "dec_bits src i acc (Suc n) = bit acc n # dec_bits src i acc n"
  by (simp add: dec_bits_def bits_msb_Suc)

lemma drop_bit_and_1: "drop_bit n w AND 1 \<noteq> 0 \<longleftrightarrow> bit w n" for w :: u32
  by (simp add: bit_iff_odd_drop_bit and_one_eq odd_iff_mod_2_eq_one)

lemma comp_high_step:
  assumes "acc_len \<le> 7"
  shows "case dec_bits src i acc acc_len of
      [] \<Rightarrow> comp_high src i acc acc_len m = Inl Truncated_input
    | b # R \<Rightarrow> \<exists>i' acc' n. n \<le> 7 \<and> dec_bits src i' acc' n = R \<and> comp_high src i acc acc_len m =
        (if b then Inr (i', acc', n, m)
         else if 2047 < m + 0x80 then Inl Out_of_range_coefficient
         else comp_high src i' acc' n (m + 0x80))"
proof (cases acc_len)
  case (Suc n)
  then have d: "dec_bits src i acc acc_len = bit acc n # dec_bits src i acc n" by (simp add: dec_bits_Suc)
  moreover have "comp_high src i acc acc_len m =
        (if bit acc n then Inr (i, acc, n, m)
         else if 2047 < m + 0x80 then Inl Out_of_range_coefficient
         else comp_high src i acc n (m + 0x80))"
    using Suc drop_bit_and_1 [of n acc] by (subst comp_high.simps) (simp add: Let_def)
  ultimately show ?thesis unfolding d list.case using assms Suc
    by (intro exI [of _ i] exI [of _ acc] exI [of _ n]) simp
next
  case 0
  show ?thesis
  proof (cases "i < length src")
    case True
    let ?acc = "push_bit 8 acc OR ucast (src ! i) :: u32"
    have "dec_bits src i acc acc_len = dec_bits src (i + 1) ?acc (Suc 7)"
      using dec_bits_load [OF True, of 0 acc] 0 by simp
    then have d: "dec_bits src i acc acc_len = bit ?acc 7 # dec_bits src (i + 1) ?acc 7"
      by (simp only: dec_bits_Suc)
    have "comp_high src i acc acc_len m =
        (if bit ?acc 7 then Inr (i + 1, ?acc, 7, m)
         else if 2047 < m + 0x80 then Inl Out_of_range_coefficient
         else comp_high src (i + 1) ?acc 7 (m + 0x80))"
      using 0 True drop_bit_and_1 [of 7 ?acc] by (subst comp_high.simps) (simp add: Let_def)
    then show ?thesis unfolding d list.case by (intro exI [of _ "i + 1"] exI [of _ ?acc] exI [of _ 7]) simp
  next
    case False
    then have "dec_bits src i acc acc_len = []" using 0 by (simp add: dec_bits_def)
    then show ?thesis using 0 False by (simp add: comp_high.simps)
  qed
qed

text \<open>Agreement of a state of the byte-wise decoder with a state of the specification.\<close>

fun dec_agrees :: "u8 list \<Rightarrow> (codec_error, nat \<times> u32 \<times> nat \<times> 'a) result \<Rightarrow> ('a \<Rightarrow> 'b) \<Rightarrow>
    (codec_error, 'b \<times> bool list) result \<Rightarrow> bool" where
  "dec_agrees src (Inl e) g (Inl e') \<longleftrightarrow> e = e'"
| "dec_agrees src (Inr (i, acc, n, v)) g (Inr (v', bs)) \<longleftrightarrow>
     v' = g v \<and> n \<le> 7 \<and> dec_bits src i acc n = bs"
| "dec_agrees src r g r' \<longleftrightarrow> False"

lemma comp_high_refines:
  assumes "acc_len \<le> 7" "m \<le> 2047" "dec_bits src i acc acc_len = bs"
  shows "dec_agrees src (comp_high src i acc acc_len m) unat (get_high (unat m) bs)"
  using assms
proof (induction bs arbitrary: i acc acc_len m)
  case Nil
  then show ?case using comp_high_step [OF Nil(1), of src i acc m] by simp
next
  case (Cons b R)
  obtain i' acc' n where st: "n \<le> 7" "dec_bits src i' acc' n = R" "comp_high src i acc acc_len m =
        (if b then Inr (i', acc', n, m)
         else if 2047 < m + 0x80 then Inl Out_of_range_coefficient
         else comp_high src i' acc' n (m + 0x80))"
    using comp_high_step [OF Cons.prems(1), of src i acc m] Cons.prems(3) by auto
  have um: "unat m \<le> 2047" using Cons.prems(2) by (simp add: word_le_nat_alt)
  then have u: "unat (m + 0x80) = unat m + 128" by (simp add: unat_word_ariths)
  then have lt: "2047 < m + 0x80 \<longleftrightarrow> 2047 < unat m + 128" by (simp add: word_less_nat_alt)
  show ?case
  proof (cases "b \<or> 2047 < m + 0x80")
    case True
    then show ?thesis using st lt by auto
  next
    case False
    then have "m + 0x80 \<le> 2047" by (simp add: not_less)
    from Cons.IH [OF st(1) this st(2)] False show ?thesis using st(3) lt unfolding u by simp
  qed
qed

lemma comp_values_keeps:
  "comp_values c j src i acc n f = Inr (i', acc', n', f') \<Longrightarrow>
     length f' = length f \<and> take j f' = take j f \<and> drop (j + c) f' = drop (j + c) f"
proof (induction c arbitrary: j i acc n f)
  case (Suc c)
  then obtain i1 acc1 n1 v where "comp_values c (j + 1) src i1 acc1 n1 (f[j := v]) = Inr (i', acc', n', f')"
    by (auto simp: Let_def split: if_splits sum.splits prod.splits)
  from Suc.IH [OF this] have IH: "length f' = length f" "take (j + 1) f' = take (j + 1) (f[j := v])"
    "drop (j + 1 + c) f' = drop (j + 1 + c) f" by auto
  have "take j f' = take j (take (j + 1) f')" by simp
  also have "\<dots> = take j f" unfolding IH(2) by simp
  finally show ?case using IH(1,3) by simp
qed simp

text \<open>The sign and the absolute value of a coefficient as the source reads and recombines them.\<close>

lemma comp_sign:
  fixes acc :: u32
  shows "drop_bit n acc AND 1 = (if bit acc n then 1 else 0)"
  using drop_bit_and_1 [of n acc] by (auto simp: and_one_eq)

lemma minus_zero_test:
  fixes m :: u32
  assumes "m \<le> 2047"
  shows "drop_bit 31 (m - 1) = (if m = 0 then 1 else 0)"
proof (cases "m = 0")
  case False
  then have "unat (m - 1) = unat m - 1" by (simp add: unat_minus_one)
  moreover have "unat m \<le> 2047" using assms by (simp add: word_le_nat_alt)
  ultimately have "uint (m - 1) < 2 ^ 31" by (simp add: uint_nat)
  then have "uint (drop_bit 31 (m - 1)) = 0" by (simp add: word_vals)
  with False show ?thesis by (simp add: uint_0_iff)
next
  case True
  have "uint (drop_bit 31 (- 1 :: u32)) = 1"
    by (simp add: word_vals unsigned_minus_1_eq_mask mask_eq_exp_minus_1)
  then have "drop_bit 31 (- 1 :: u32) = 1" by (simp add: word_uint_eq_iff)
  with True show ?thesis by simp
qed

lemma comp_value_sint:
  fixes m :: u32
  assumes "m \<le> 2047"
  shows "sint (ucast ((m XOR - (if b then 1 else 0)) + (if b then 1 else 0)) :: i16)
       = (if b then - int (unat m) else int (unat m))"
proof -
  have um: "unat m \<le> 2047" using assms by (simp add: word_le_nat_alt)
  have "m XOR - 1 = NOT m" by simp
  then have v: "(m XOR - (if b then 1 else 0)) + (if b then 1 else 0) = word_of_int (if b then - uint m else uint m)"
    by (simp flip: minus_eq_not_plus_1)
  have w: "ucast (word_of_int (if b then - uint m else uint m) :: u32) = (word_of_int (if b then - uint m else uint m) :: i16)"
    by (rule ucast_down_wi) (simp add: is_down)
  have u: "uint m = int (unat m)" by (rule uint_nat)
  have "uint m \<le> 2047" using um u by linarith
  moreover have e: "(2::int) ^ (LENGTH(16) - 1) = 32768" by simp
  ultimately have "- (2 ^ (LENGTH(16) - 1)) \<le> (if b then - uint m else uint m)"
    "(if b then - uint m else uint m) < 2 ^ (LENGTH(16) - 1)"
    unfolding e using uint_ge_0 [of m] by (cases b; simp only: if_True if_False; linarith)+
  from sint_of_int_eqI [OF w this] show ?thesis unfolding v u .
qed

lemma comp_values_refines:
  assumes "acc_len \<le> 7" "dec_bits src i acc acc_len = bs" "j + c \<le> length f"
  shows "dec_agrees src (comp_values c j src i acc acc_len f) (\<lambda>f'. map sint (take c (drop j f'))) (get_coefs c bs)"
  using assms
proof (induction c arbitrary: j i acc acc_len f bs)
  case (Suc c)
  show ?case
  proof (cases "i < length src")
    case False
    then have "length bs = acc_len" using Suc.prems(2) by (auto simp: dec_bits_def)
    with False Suc.prems(1) show ?thesis by (simp add: get_coef_def)
  next
    case True
    let ?acc = "push_bit 8 acc OR ucast (src ! i) :: u32"
    have bs: "bs = dec_bits src (i + 1) ?acc (8 + acc_len)"
      using dec_bits_load [OF True, of acc_len acc] Suc.prems(1,2) by (simp add: add.commute)
    let ?m = "drop_bit acc_len ?acc AND 0x7F" and ?b = "bit ?acc (acc_len + 7)"
    have split: "bits_msb (8 + acc_len) ?acc = ?b # bits_msb 7 (drop_bit acc_len ?acc) @ bits_msb acc_len ?acc"
      using bits_msb_Suc [of "7 + acc_len" ?acc] bits_msb_split [of 7 acc_len ?acc] by (simp add: add.commute)
    have "unat ?m = bits_val (bits_msb 7 (drop_bit acc_len ?acc))"
      by (simp add: bits_val_word take_bit_eq_mask mask_eq_exp_minus_1)
    then have m: "unat ?m = bits_val (take 7 (tl bs))" unfolding bs dec_bits_def split by simp
    have len: "\<not> length bs < 8" unfolding bs by (simp add: dec_bits_def)
    have hd: "hd bs = ?b" unfolding bs dec_bits_def split by simp
    have rest: "dec_bits src (i + 1) ?acc acc_len = drop 8 bs"
      unfolding bs dec_bits_def split drop_8 by simp
    have "unat ?m \<le> 2047" unfolding m using bits_val_bound [of "take 7 (tl bs)"] len by simp
    then have "?m \<le> 2047" by (simp add: word_le_nat_alt)
    note high = comp_high_refines [OF Suc.prems(1) this rest, unfolded m]
    show ?thesis
    proof (cases "comp_high src (i + 1) ?acc acc_len ?m")
      case (Inl e)
      then obtain "get_high (bits_val (take 7 (tl bs))) (drop 8 bs) = Inl e"
        using high by (cases "get_high (bits_val (take 7 (tl bs))) (drop 8 bs)") auto
      with Inl True len show ?thesis by (simp add: Let_def get_coef_def)
    next
      case (Inr r)
      obtain i2 acc2 n2 m2 where r: "r = (i2, acc2, n2, m2)" by (cases r)
      then obtain bs2 where gh: "get_high (bits_val (take 7 (tl bs))) (drop 8 bs) = Inr (unat m2, bs2)"
        and st: "n2 \<le> 7" "dec_bits src i2 acc2 n2 = bs2"
        using high Inr by (cases "get_high (bits_val (take 7 (tl bs))) (drop 8 bs)") auto
      have "unat m2 \<le> 2047"
        using gh \<open>unat ?m \<le> 2047\<close> unfolding m by (subst (asm) get_high_iff) auto
      then have m2: "m2 \<le> 2047" by (simp add: word_le_nat_alt)
      let ?s = "if ?b then 1 else 0 :: u32" and ?x = "if ?b then - int (unat m2) else int (unat m2)"
      let ?v = "ucast ((m2 XOR - ?s) + ?s) :: i16"
      have gc: "get_coef bs = (if ?b \<and> unat m2 = 0 then Inl Invalid_minus_zero_encoding else Inr (?x, bs2))"
        unfolding get_coef_def hd gh using len by simp
      have test: "?s AND drop_bit 31 (m2 - 1) \<noteq> 0 \<longleftrightarrow> ?b \<and> unat m2 = 0"
        using minus_zero_test [OF m2] by (simp add: unat_eq_0)
      have cv: "comp_values (Suc c) j src i acc acc_len f
          = (if ?b \<and> unat m2 = 0 then Inl Invalid_minus_zero_encoding
             else comp_values c (j + 1) src i2 acc2 n2 (f[j := ?v]))"
        using True Inr test unfolding r by (simp add: Let_def comp_sign)
      show ?thesis
      proof (cases "?b \<and> unat m2 = 0")
        case True
        have "get_coef bs = Inl Invalid_minus_zero_encoding"
          "comp_values (Suc c) j src i acc acc_len f = Inl Invalid_minus_zero_encoding"
          unfolding gc cv using True by (rule if_P)+
        then show ?thesis by simp
      next
        case False
        have gc': "get_coef bs = Inr (?x, bs2)" unfolding gc using False by (rule if_not_P)
        have cv': "comp_values (Suc c) j src i acc acc_len f = comp_values c (j + 1) src i2 acc2 n2 (f[j := ?v])"
          unfolding cv using False by (rule if_not_P)
        have lf: "j + 1 + c \<le> length (f[j := ?v])" using Suc.prems(3) by simp
        note IH = Suc.IH [OF st lf]
        show ?thesis
        proof (cases "comp_values c (j + 1) src i2 acc2 n2 (f[j := ?v])")
          case (Inl e)
          with IH have "get_coefs c bs2 = Inl e" by (cases "get_coefs c bs2") auto
          with Inl show ?thesis unfolding cv' by (simp add: gc')
        next
          case (Inr r3)
          obtain i3 acc3 n3 f3 where r3: "r3 = (i3, acc3, n3, f3)" by (cases r3)
          with IH Inr obtain bs3 where g3: "get_coefs c bs2 = Inr (map sint (take c (drop (j + 1) f3)), bs3)"
            "n3 \<le> 7" "dec_bits src i3 acc3 n3 = bs3" by (cases "get_coefs c bs2") auto
          have k: "length f3 = length f" "take (j + 1) f3 = take (j + 1) (f[j := ?v])"
            using comp_values_keeps [OF Inr [unfolded r3]] by auto
          have "f3 ! j = f[j := ?v] ! j" using arg_cong [OF k(2), of "\<lambda>l. l ! j"] by simp
          then have "f3 ! j = ?v" using Suc.prems(3) by simp
          then have "map sint (take (Suc c) (drop j f3)) = ?x # map sint (take c (drop (j + 1) f3))"
            using Suc.prems(3) k(1) comp_value_sint [OF m2, of ?b] Cons_nth_drop_Suc [of j f3, symmetric] by simp
          with Inr r3 g3 show ?thesis unfolding cv' by (simp add: gc')
        qed
      qed
    qed
  qed
qed simp

lemma mask_test: "acc AND (push_bit n 1 - 1) = 0 \<longleftrightarrow> list_all Not (bits_msb n acc)" for acc :: u32
proof -
  have "acc AND (push_bit n 1 - 1) = take_bit n acc"
    by (simp add: take_bit_eq_mask mask_eq_exp_minus_1 push_bit_eq_mult)
  moreover have "take_bit n acc = 0 \<longleftrightarrow> (\<forall>i<n. \<not> bit acc i)"
    using bit_imp_le_length [of acc] by (auto simp: bit_eq_iff bit_take_bit_iff)
  ultimately show ?thesis by (auto simp: bits_msb_def list_all_iff)
qed

lemma padding_test:
  "(0 < n \<and> acc AND (push_bit n 1 - 1) \<noteq> 0) \<or> (\<exists>k \<in> set [i..<length src]. src ! k \<noteq> 0) \<longleftrightarrow>
    \<not> list_all Not (dec_bits src i acc n)"
proof -
  have "list_all (\<lambda>b. b = 0) (drop i src) \<longleftrightarrow> (\<forall>k \<in> set [i..<length src]. src ! k = 0)"
    by (auto simp: list_all_length) (metis add.commute le_add_diff_inverse2 less_diff_conv)
  then have "list_all Not (dec_bits src i acc n) \<longleftrightarrow>
      acc AND (push_bit n 1 - 1) = 0 \<and> (\<forall>k \<in> set [i..<length src]. src ! k = 0)"
    unfolding dec_bits_def list_all_append mask_test bytes_bits_zeros by blast
  moreover have "n = 0 \<Longrightarrow> acc AND (push_bit n 1 - 1) = 0" by simp
  ultimately show ?thesis by blast
qed

lemma comp_decode_refines:
  assumes "length f = 2 ^ logn"
  shows "(case comp_decode logn src f of Inl e \<Rightarrow> Inl e | Inr f' \<Rightarrow> Inr (map sint f'))
    = get_poly (2 ^ logn) (bytes_bits src)"
    and "comp_decode logn src f = Inr f' \<Longrightarrow> length f' = 2 ^ logn"
proof -
  have "dec_agrees src (comp_values (2 ^ logn) 0 src 0 0 0 f) (\<lambda>f'. map sint (take (2 ^ logn) (drop 0 f')))
      (get_coefs (2 ^ logn) (bytes_bits src))"
    using assms by (intro comp_values_refines) (simp_all add: dec_bits_def)
  then show "(case comp_decode logn src f of Inl e \<Rightarrow> Inl e | Inr f' \<Rightarrow> Inr (map sint f'))
    = get_poly (2 ^ logn) (bytes_bits src)"
  proof (cases "comp_values (2 ^ logn) 0 src 0 0 0 f")
    case (Inl e)
    with \<open>dec_agrees _ _ _ _\<close> have "get_coefs (2 ^ logn) (bytes_bits src) = Inl e"
      by (cases "get_coefs (2 ^ logn) (bytes_bits src)") auto
    with Inl show ?thesis by (simp add: comp_decode_def get_poly_def)
  next
    case (Inr r)
    obtain i acc n f1 where r: "r = (i, acc, n, f1)" by (cases r)
    have l: "length f1 = 2 ^ logn" using comp_values_keeps [OF Inr [unfolded r]] assms by simp
    with \<open>dec_agrees _ _ _ _\<close> Inr r have "get_coefs (2 ^ logn) (bytes_bits src) = Inr (map sint f1, dec_bits src i acc n)"
      by (cases "get_coefs (2 ^ logn) (bytes_bits src)") auto
    with Inr r show ?thesis using padding_test [of n acc i src]
      by (auto simp: comp_decode_def get_poly_def)
  qed
  show "comp_decode logn src f = Inr f' \<Longrightarrow> length f' = 2 ^ logn"
    using comp_values_keeps assms by (auto simp: comp_decode_def split: sum.splits prod.splits if_splits)
qed

lemma zeros_replicate: "list_all Not bs \<longleftrightarrow> (\<exists>k. bs = replicate k False)"
proof
  show "list_all Not bs \<Longrightarrow> \<exists>k. bs = replicate k False"
    by (induction bs) (auto intro: exI [of _ "Suc _"])
qed (auto simp: list_all_iff)

lemma comp_decode_iff:
  assumes "length f = 2 ^ logn"
  shows "comp_decode logn src f = Inr f' \<longleftrightarrow>
    length f' = 2 ^ logn \<and> list_all (\<lambda>x. \<bar>sint x\<bar> \<le> 2047) f' \<and>
    (\<exists>k. bytes_bits src = concat (map (\<lambda>x. comp_bits (sint x)) f') @ replicate k False)"
proof -
  have "inj (sint :: i16 \<Rightarrow> int)" by (rule inj_on_inverseI [where g = of_int]) simp
  then have inj: "map sint v = map sint w \<Longrightarrow> v = w" for v w :: "i16 list"
    using inj_map_eq_map by blast
  have "comp_decode logn src f = Inr f' \<longleftrightarrow> length f' = 2 ^ logn \<and> get_poly (2 ^ logn) (bytes_bits src) = Inr (map sint f')"
    using comp_decode_refines [OF assms, of src] inj by (auto split: sum.splits)
  also have "\<dots> \<longleftrightarrow> length f' = 2 ^ logn \<and> (\<exists>bs. get_coefs (2 ^ logn) (bytes_bits src) = Inr (map sint f', bs) \<and> list_all Not bs)"
    by (auto simp: get_poly_def split: sum.splits prod.splits if_splits)
  also have "\<dots> \<longleftrightarrow> length f' = 2 ^ logn \<and> list_all (\<lambda>x. \<bar>sint x\<bar> \<le> 2047) f' \<and>
      (\<exists>k. bytes_bits src = concat (map (\<lambda>x. comp_bits (sint x)) f') @ replicate k False)"
    unfolding get_coefs_iff zeros_replicate list.pred_map map_map comp_def length_map by blast
  finally show ?thesis .
qed

section \<open>The encoder writes the specified bits\<close>

text \<open>What the encoder holds before each coefficient: full bytes written, fewer than eight
  pending bits, together the bits \<open>B\<close> produced so far.\<close>

definition enc_inv :: "nat \<Rightarrow> u8 list \<Rightarrow> u32 \<Rightarrow> nat \<Rightarrow> bool list \<Rightarrow> bool" where
  "enc_inv j dst acc acc_len B \<longleftrightarrow>
     j \<le> length dst \<and> acc_len \<le> 7 \<and> bytes_bits (take j dst) @ bits_msb acc_len acc = B"

lemma enc_inv_length: "enc_inv j dst acc acc_len B \<Longrightarrow> length B = 8 * j + acc_len"
  by (auto simp: enc_inv_def)

lemma bytes_take_update:
  assumes "j < length dst"
  shows "bytes_bits (take (j + 1) (dst[j := b])) = bytes_bits (take j dst) @ bits_msb 8 b"
  using assms by (simp add: take_Suc_conv_app_nth)

lemma comp_emit_spec:
  assumes "acc_len \<le> 32" "j \<le> length dst"
  shows "case comp_emit acc acc_len j dst of
      None \<Rightarrow> length dst < j + acc_len div 8
    | Some (n, j', dst') \<Rightarrow> length dst' = length dst \<and>
        enc_inv j' dst' acc n (bytes_bits (take j dst) @ bits_msb acc_len acc)"
  using assms
proof (induction acc acc_len j dst rule: comp_emit.induct)
  case (1 acc acc_len j dst)
  show ?case
  proof (cases "8 \<le> acc_len")
    case True
    then obtain r where r: "acc_len = 8 + r" by (auto simp: le_iff_add)
    then have rr: "acc_len - 8 = r" "r \<le> 32" using "1.prems"(1) by simp_all
    show ?thesis
    proof (cases "length dst \<le> j")
      case True
      with r have "comp_emit acc acc_len j dst = None" by (subst comp_emit.simps) simp
      with r True show ?thesis by simp
    next
      case False
      let ?b = "ucast (drop_bit r acc) :: u8"
      have "bits_msb acc_len acc = bits_msb 8 ?b @ bits_msb r acc"
        unfolding r bits_msb_split by (simp add: bits_msb_ucast)
      moreover have "bytes_bits (take (j + 1) (dst[j := ?b])) = bytes_bits (take j dst) @ bits_msb 8 ?b"
        using False by (intro bytes_take_update) simp
      moreover have "comp_emit acc acc_len j dst = comp_emit acc r (j + 1) (dst[j := ?b])"
        using r False by (subst comp_emit.simps) simp
      moreover have "case comp_emit acc r (j + 1) (dst[j := ?b]) of
          None \<Rightarrow> length dst < j + 1 + r div 8
        | Some (n, j', dst') \<Rightarrow> length dst' = length dst \<and>
            enc_inv j' dst' acc n (bytes_bits (take (j + 1) (dst[j := ?b])) @ bits_msb r acc)"
        using "1.IH" [OF True refl False] "1.prems" False unfolding rr(1) length_list_update using rr(2) by simp
      ultimately show ?thesis using r by (auto split: option.splits)
    qed
  next
    case False
    with "1.prems" show ?thesis by (simp add: comp_emit.simps [of acc acc_len] enc_inv_def)
  qed
qed

lemma comp_word_value:
  fixes si :: i16
  assumes "\<bar>sint si\<bar> \<le> 2047"
  defines "x \<equiv> (scast si :: i32)"
  defines "sw \<equiv> signed_drop_bit 16 x"
  shows "sint x = sint si" and "sw = (if sint si < 0 then - 1 else 0)" and "unat ((x XOR sw) - sw) = nat \<bar>sint si\<bar>"
proof -
  have x: "x = word_of_int (sint si)" by (simp add: x_def)
  show sx: "sint x = sint si" using assms(1) by (intro sint_of_int_eqI [OF x]) auto
  have "sint sw = sint si div 65536" unfolding sw_def sint_signed_drop_bit_eq sx by (simp add: drop_bit_eq_div)
  also have "\<dots> = (if sint si < 0 then - 1 else 0)" using assms(1) by auto
  finally have "of_int (sint sw) = (of_int (if sint si < 0 then - 1 else 0) :: i32)" by simp
  then show sw: "sw = (if sint si < 0 then - 1 else 0)" by (simp split: if_splits)
  have "(x XOR sw) - sw = word_of_int \<bar>sint si\<bar>"
    unfolding sw x by (simp flip: minus_eq_not_plus_1)
  then have "uint ((x XOR sw) - sw) = \<bar>sint si\<bar>" using assms(1) by (intro uint_of_int_eqI) auto
  then show "unat ((x XOR sw) - sw) = nat \<bar>sint si\<bar>" by (simp add: unat_eq_nat_uint)
qed

text \<open>The bits one coefficient adds to the accumulator.\<close>

lemma comp_word_bits:
  fixes si :: i16 and acc :: u32
  assumes "\<bar>sint si\<bar> \<le> 2047" "acc_len \<le> 7"
  defines "x \<equiv> (scast si :: i32)"
  defines "sw \<equiv> signed_drop_bit 16 x"
  defines "w \<equiv> (x XOR sw) - sw"
  defines "k \<equiv> unat (drop_bit 7 w + 1)"
  defines "acc' \<equiv> push_bit k ((push_bit 8 acc OR (sw AND 0x80)) OR (w AND 0x7F)) OR 1"
  shows "acc_len + 8 + k \<le> 32"
    and "bits_msb (acc_len + 8 + k) acc' = bits_msb acc_len acc @ comp_bits (sint si)"
proof -
  have sw: "sw = (if sint si < 0 then - 1 else 0)" and w: "unat w = nat \<bar>sint si\<bar>"
    using comp_word_value [OF assms(1)] by (simp_all add: sw_def w_def x_def)
  let ?a = "nat \<bar>sint si\<bar>" and ?v = "(sw AND 0x80) OR (w AND 0x7F)"
  have a: "?a \<le> 2047" using assms(1) by simp
  have "unat (drop_bit 7 w) = ?a div 128" using w by (simp add: drop_bit_eq_div unat_div)
  moreover have "?a div 128 < 16" using a by auto
  ultimately have k: "k = Suc (?a div 128)" unfolding k_def by (subst unat_add_lem [THEN iffD1]) simp_all
  show len: "acc_len + 8 + k \<le> 32" using \<open>?a div 128 < 16\<close> assms(2) k by simp
  have hi: "bit (0x80 :: u32) i \<longleftrightarrow> i = 7" "bit (0x7F :: u32) i \<longleftrightarrow> i < 7" for i
  proof -
    have "(0x80 :: u32) = 2 ^ 7" "(0x7F :: u32) = mask 7" by (simp_all add: mask_eq_exp_minus_1)
    then show "bit (0x80 :: u32) i \<longleftrightarrow> i = 7" "bit (0x7F :: u32) i \<longleftrightarrow> i < 7"
      by (simp_all only: bit_exp_iff bit_mask_iff possible_bit_word) auto
  qed
  have bv: "bit ?v i \<longleftrightarrow> (i = 7 \<and> sint si < 0) \<or> (i < 7 \<and> bit w i)" for i
    unfolding bit_or_iff bit_and_iff hi sw by auto
  have "bits_msb 8 ?v = bit ?v 7 # bits_msb 7 ?v" using bits_msb_Suc [of 7 ?v] by simp
  also have "bits_msb 7 ?v = bits_msb 7 w" by (intro bits_msb_cong) (simp add: bv)
  also have "\<dots> = bits_msb 7 ?a" using bits_msb_unat [of 7 w] w by simp
  finally have v: "bits_msb 8 ?v = (sint si < 0) # bits_msb 7 ?a" using bv [of 7] by simp
  have "bits_msb (acc_len + 8) (push_bit 8 acc OR ?v) = bits_msb acc_len acc @ bits_msb 8 ?v"
    using assms(2) bv by (intro bits_msb_append) auto
  moreover have "bits_msb (acc_len + 8 + k) acc' = bits_msb (acc_len + 8) (push_bit 8 acc OR ?v) @ bits_msb k (1 :: u32)"
    unfolding acc'_def or.assoc using len k by (intro bits_msb_append) (auto simp: bit_1_iff)
  moreover have "bits_msb k (1 :: u32) = replicate (?a div 128) False @ [True]" unfolding k by (rule bits_msb_one)
  ultimately show "bits_msb (acc_len + 8 + k) acc' = bits_msb acc_len acc @ comp_bits (sint si)"
    by (simp add: v comp_bits_def)
qed

lemma comp_coefs_spec:
  assumes "enc_inv j dst acc acc_len B"
  shows "case comp_coefs s acc acc_len j dst of
      None \<Rightarrow> list_all (\<lambda>x. \<bar>sint x\<bar> \<le> 2047) s \<longrightarrow>
        length dst < length (B @ concat (map (\<lambda>x. comp_bits (sint x)) s)) div 8
    | Some (acc', n, j', dst') \<Rightarrow> list_all (\<lambda>x. \<bar>sint x\<bar> \<le> 2047) s \<and> length dst' = length dst \<and>
        enc_inv j' dst' acc' n (B @ concat (map (\<lambda>x. comp_bits (sint x)) s))"
  using assms
proof (induction s arbitrary: acc acc_len j dst B)
  case (Cons si s)
  let ?x = "scast si :: i32"
  have sx: "sint ?x = sint si" by (rule sint_of_int_eqI) (use sint_range_size [of si] in \<open>simp_all add: word_size\<close>)
  show ?case
  proof (cases "\<bar>sint si\<bar> \<le> 2047")
    case False
    then have "comp_coefs (si # s) acc acc_len j dst = None" by (auto simp: Let_def sx)
    with False show ?thesis by simp
  next
    case True
    let ?sw = "signed_drop_bit 16 ?x"
    let ?w = "(?x XOR ?sw) - ?sw"
    let ?k = "unat (drop_bit 7 ?w + 1)"
    let ?acc = "push_bit ?k ((push_bit 8 acc OR (?sw AND 0x80)) OR (?w AND 0x7F)) OR 1 :: u32"
    have inv: "j \<le> length dst" "acc_len \<le> 7" "bytes_bits (take j dst) @ bits_msb acc_len acc = B"
      using Cons.prems by (auto simp: enc_inv_def)
    note bits = comp_word_bits(1) [OF True inv(2)] comp_word_bits(2) [OF True inv(2), of acc]
    let ?B = "B @ comp_bits (sint si)"
    have B: "bytes_bits (take j dst) @ bits_msb (acc_len + 8 + ?k) ?acc = ?B" using bits(2) inv(3) by simp
    have lB: "length ?B = 8 * j + (acc_len + 8 + ?k)" using arg_cong [OF B, of length] inv(1) by simp
    have cc: "comp_coefs (si # s) acc acc_len j dst =
        (case comp_emit ?acc (acc_len + 8 + ?k) j dst of
           None \<Rightarrow> None | Some (acc_len, j, dst) \<Rightarrow> comp_coefs s ?acc acc_len j dst)"
    proof -
      have "\<not> (sint ?x < - 2047 \<or> 2047 < sint ?x)" unfolding sx using True by arith
      then show ?thesis by (simp only: comp_coefs.simps Let_def if_False)
    qed
    note emit = comp_emit_spec [OF bits(1) inv(1), of ?acc, unfolded B]
    show ?thesis
    proof (cases "comp_emit ?acc (acc_len + 8 + ?k) j dst")
      case None
      then have "length dst < length ?B div 8" using emit unfolding lB by simp
      also have "\<dots> \<le> length (?B @ concat (map (\<lambda>x. comp_bits (sint x)) s)) div 8" by (intro div_le_mono) simp
      finally show ?thesis unfolding cc None by simp
    next
      case (Some r)
      obtain n j' dst' where r: "r = (n, j', dst')" by (cases r)
      then have e: "length dst' = length dst" "enc_inv j' dst' ?acc n ?B" using emit Some by auto
      show ?thesis unfolding cc Some r using Cons.IH [OF e(2)] e(1) True by (auto split: option.splits)
    qed
  qed
qed simp

lemma zero_from_spec:
  "j \<le> length dst \<Longrightarrow> zero_from j dst = take j dst @ replicate (length dst - j) 0"
proof -
  assume j: "j \<le> length dst"
  have "fold (\<lambda>j dst. dst[j := 0]) [j..<j + c] dst = take j dst @ replicate c 0 @ drop (j + c) dst"
    if "j + c \<le> length dst" for c
    using that
  proof (induction c)
    case (Suc c)
    then have "drop (j + c) dst = dst ! (j + c) # drop (j + Suc c) dst" by (simp add: Cons_nth_drop_Suc)
    with Suc show ?case by (simp add: list_update_append replicate_append_same)
  qed simp
  from this [of "length dst - j"] j show ?thesis by (simp add: zero_from_def)
qed

lemma bytes_bits_surj:
  assumes "length bs = 8 * n"
  shows "\<exists>out. length out = n \<and> bytes_bits out = bs"
  using assms
proof (induction n arbitrary: bs)
  case (Suc n)
  from Suc.prems have "length (drop 8 bs) = 8 * n" by simp
  then obtain out where o: "length out = n" "bytes_bits out = drop 8 bs" using Suc.IH by blast
  let ?b = "of_nat (bits_val (take 8 bs)) :: u8"
  have "bits_msb 8 ?b = bits_msb 8 (bits_val (take 8 bs))"
    by (intro bits_msb_cong) (simp add: bit_of_nat_iff)
  also have "\<dots> = take 8 bs" using bits_msb_val [of "take 8 bs"] Suc.prems by simp
  finally have "bytes_bits (?b # out) = bs" using o by simp
  with o show ?case by (intro exI [of _ "?b # out"]) simp
qed simp

lemma comp_encode_iff:
  assumes "length s = 2 ^ logn"
  defines "E \<equiv> concat (map (\<lambda>x. comp_bits (sint x)) s)"
  shows "comp_encode logn s dst = Some dst' \<longleftrightarrow>
    list_all (\<lambda>x. \<bar>sint x\<bar> \<le> 2047) s \<and> length E \<le> 8 * length dst \<and>
    length dst' = length dst \<and> bytes_bits dst' = E @ replicate (8 * length dst - length E) False"
proof -
  have tk: "take (2 ^ logn) s = s" using assms by simp
  have inv0: "enc_inv 0 dst 0 0 []" by (simp add: enc_inv_def)
  note spec = comp_coefs_spec [OF inv0, of s, simplified, folded E_def]
  have uniq: "bytes_bits d1 = bytes_bits d2 \<Longrightarrow> d1 = d2" for d1 d2 by (rule bytes_bits_inj)
  show ?thesis
  proof (cases "comp_coefs s 0 0 0 dst")
    case None
    with spec have "list_all (\<lambda>x. \<bar>sint x\<bar> \<le> 2047) s \<longrightarrow> length dst < length E div 8" by simp
    with None show ?thesis by (auto simp: comp_encode_def tk)
  next
    case (Some r)
    obtain acc n j d where r: "r = (acc, n, j, d)" by (cases r)
    with spec Some have ok: "list_all (\<lambda>x. \<bar>sint x\<bar> \<le> 2047) s" "length d = length dst" "enc_inv j d acc n E" by auto
    then have d: "j \<le> length d" "n \<le> 7" "bytes_bits (take j d) @ bits_msb n acc = E" by (auto simp: enc_inv_def)
    have lE: "length E = 8 * j + n" using ok(3) by (rule enc_inv_length)
    have zb: "bytes_bits (replicate m 0) = replicate (8 * m) False" for m
      by (induction m) (simp_all add: bytes_bits_def replicate_add)
    show ?thesis
    proof (cases "0 < n \<and> length d \<le> j")
      case True
      then have "comp_encode logn s dst = None" using Some r by (simp add: comp_encode_def tk)
      moreover have "8 * length dst < length E" using True lE ok(2) d(1) by simp
      ultimately show ?thesis by simp
    next
      case False
      define out where "out = (if 0 < n then zero_from (j + 1) (d[j := ucast (push_bit (8 - n) acc)]) else zero_from j d)"
      have ce: "comp_encode logn s dst = Some out"
        using Some r False by (auto simp: comp_encode_def tk out_def)
      have fit: "length E \<le> 8 * length dst" using False lE ok(2) d by (cases "n = 0") auto
      have "length out = length dst \<and> bytes_bits out = E @ replicate (8 * length dst - length E) False"
      proof (cases "n = 0")
        case True
        then show ?thesis using d lE ok(2) by (simp add: out_def zero_from_spec zb diff_mult_distrib2)
      next
        case n: False
        then have j: "j < length d" using False by simp
        let ?b = "ucast (push_bit (8 - n) acc) :: u8"
        have "bits_msb 8 ?b = bits_msb (n + (8 - n)) (push_bit (8 - n) acc OR 0)"
          using d(2) by (simp add: bits_msb_ucast)
        also have "\<dots> = bits_msb n acc @ replicate (8 - n) False"
          using d(2) by (subst bits_msb_append) simp_all
        finally have b: "bits_msb 8 ?b = bits_msb n acc @ replicate (8 - n) False" .
        have "bytes_bits (take (j + 1) (d[j := ?b])) = E @ replicate (8 - n) False"
          unfolding bytes_take_update [OF j] b using d(3) by simp
        then have "bytes_bits out = E @ replicate (8 - n) False @ replicate (8 * (length d - Suc j)) False"
          using n j by (simp add: out_def zero_from_spec zb)
        also have "\<dots> = E @ replicate (8 * length dst - length E) False"
        proof -
          have "8 - n + 8 * (length d - Suc j) = 8 * length dst - length E"
            using d(2) j lE ok(2) by (simp add: diff_mult_distrib2)
          then show ?thesis by (simp flip: replicate_add)
        qed
        finally show ?thesis using n j ok(2) by (simp add: out_def zero_from_spec)
      qed
      with ce ok(1) fit show ?thesis using uniq by (metis option.inject)
    qed
  qed
qed

section \<open>Round trip and uniqueness\<close>

text \<open>C32: the compressed encoding of a signature polynomial round-trips: when
  \<^verbatim>\<open>comp_encode\<close> succeeds, \<^verbatim>\<open>comp_decode\<close> of its output gives the polynomial back; and it
  succeeds exactly when all coefficients are in \<open>[-2047, +2047]\<close> and the encoding fits.\<close>

theorem comp_encode_decode:
  assumes "length s = 2 ^ logn" "length f = 2 ^ logn"
  shows "(comp_encode logn s dst \<noteq> None \<longleftrightarrow>
      list_all (\<lambda>x. \<bar>sint x\<bar> \<le> 2047) s \<and>
      length (concat (map (\<lambda>x. comp_bits (sint x)) s)) \<le> 8 * length dst) \<and>
    (\<forall>out. comp_encode logn s dst = Some out \<longrightarrow> comp_decode logn out f = Inr s)"
proof -
  let ?E = "concat (map (\<lambda>x. comp_bits (sint x)) s)"
  have "comp_encode logn s dst = Some out \<Longrightarrow> comp_decode logn out f = Inr s" for out
    unfolding comp_encode_iff [OF assms(1)] comp_decode_iff [OF assms(2)] using assms(1) by auto
  moreover have "comp_encode logn s dst \<noteq> None"
    if "list_all (\<lambda>x. \<bar>sint x\<bar> \<le> 2047) s" "length ?E \<le> 8 * length dst"
  proof
    note fits = that
    assume "comp_encode logn s dst = None"
    let ?B = "?E @ replicate (8 * length dst - length ?E) False"
    obtain out where "length out = length dst" "bytes_bits out = ?B"
      using bytes_bits_surj [of ?B "length dst"] fits(2) by auto
    then have "comp_encode logn s dst = Some out" using comp_encode_iff [OF assms(1), of dst out] fits by blast
    with \<open>comp_encode logn s dst = None\<close> show False by simp
  qed
  ultimately show ?thesis using comp_encode_iff [OF assms(1), of dst] by blast
qed

theorem comp_encode_decode_witness:
  "comp_encode 0 [- 300] [7, 7, 7] = Some [0xAC, 0x20, 0] \<and> comp_decode 0 [0xAC, 0x20, 0] [0] = Inr [- 300]"
proof -
  have "bytes_bits [0xAC, 0x20, 0] = comp_bits (- 300) @ replicate 13 False" by code_simp
  moreover have "length (comp_bits (- 300)) = 11" by code_simp
  ultimately have "comp_encode 0 [- 300] [7, 7, 7] = Some [0xAC, 0x20, 0]"
    by (subst comp_encode_iff) simp_all
  then show ?thesis using comp_encode_decode [of "[- 300]" 0 "[0]" "[7, 7, 7]"] by simp
qed

text \<open>C8: signature encodings are unique: \<^verbatim>\<open>comp_decode\<close> accepts a byte string only if
  \<^verbatim>\<open>comp_encode\<close> of the decoded polynomial, into a slice of the same length, writes that very
  string; two strings of one length that decode to the same polynomial are equal.\<close>

theorem comp_decode_canonical:
  assumes "length f = 2 ^ logn" "comp_decode logn src f = Inr s" "length dst = length src"
  shows "comp_encode logn s dst = Some src \<and> length s = 2 ^ logn \<and> list_all (\<lambda>x. \<bar>sint x\<bar> \<le> 2047) s"
proof -
  let ?E = "concat (map (\<lambda>x. comp_bits (sint x)) s)"
  obtain k where s: "length s = 2 ^ logn" "list_all (\<lambda>x. \<bar>sint x\<bar> \<le> 2047) s"
    "bytes_bits src = ?E @ replicate k False"
    using assms(2) unfolding comp_decode_iff [OF assms(1)] by auto
  have "8 * length src = length ?E + k" using arg_cong [OF s(3), of length] by simp
  then have "comp_encode logn s dst = Some src"
    unfolding comp_encode_iff [OF s(1)] using s assms(3) by auto
  with s show ?thesis by blast
qed

theorem comp_decode_canonical_witness:
  "comp_decode 0 [0xAC, 0x20, 0] [0] = Inr [- 300] \<and> comp_encode 0 [- 300] [0, 0, 0] = Some [0xAC, 0x20, 0]"
proof -
  have "bytes_bits [0xAC, 0x20, 0] = comp_bits (- 300) @ replicate 13 False" by code_simp
  then have d: "comp_decode 0 [0xAC, 0x20, 0] [0] = Inr [- 300]"
    by (subst comp_decode_iff) auto
  then show ?thesis using comp_decode_canonical [of "[0]" 0 "[0xAC, 0x20, 0]" "[- 300]" "[0, 0, 0]"] by simp
qed

end
