(* ===== verification/CodecModq.thy ===== *)
theory CodecModq
  imports CodecComp
begin

unbundle bit_operations_syntax

text \<open>
  Correctness of the 14-bit encoding of verifying keys: four values share seven bytes. The
  decoder accepts exactly the byte strings that the encoder writes for values below \<open>q\<close>.
\<close>

section \<open>Groups of four values\<close>

lemma word14_inj:
  fixes v w :: u16
  assumes "bits_msb 14 v = bits_msb 14 w" "uint v < 2 ^ 14" "uint w < 2 ^ 14"
  shows "v = w"
proof -
  have u: "uint (take_bit 14 x) = uint x" if "uint x < 2 ^ 14" for x :: u16
    unfolding unsigned_take_bit_eq using that by (simp add: take_bit_int_eq_self)
  have "unat (take_bit 14 v) = unat (take_bit 14 w)"
    using arg_cong [OF assms(1), of bits_val] unfolding bits_val_word .
  then have "uint (take_bit 14 v) = uint (take_bit 14 w)" by (simp only: uint_nat)
  then show ?thesis unfolding u [OF assms(2)] u [OF assms(3)] by (simp only: word_uint_eq_iff)
qed

lemma concat14_inj:
  fixes xs ys :: "u16 list"
  assumes "length xs = length ys" "concat (map (bits_msb 14) xs) = concat (map (bits_msb 14) ys)"
    "list_all (\<lambda>v. uint v < 2 ^ 14) xs" "list_all (\<lambda>v. uint v < 2 ^ 14) ys"
  shows "xs = ys"
  using assms
proof (induction xs ys rule: list_induct2)
  case (Cons x xs y ys)
  then have "bits_msb 14 x = bits_msb 14 y" "concat (map (bits_msb 14) xs) = concat (map (bits_msb 14) ys)" by simp_all
  with Cons show ?case using word14_inj by simp
qed simp

definition modq_word :: "u16 list \<Rightarrow> u64" where
  "modq_word xs = push_bit 42 (ucast (xs ! 0)) OR push_bit 28 (ucast (xs ! 1)) OR
     push_bit 14 (ucast (xs ! 2)) OR ucast (xs ! 3)"

lemma low14: "uint v < 2 ^ 14 \<Longrightarrow> bit (ucast v :: u64) i \<Longrightarrow> i < 14" for v :: u16
proof -
  assume v: "uint v < 2 ^ 14" and b: "bit (ucast v :: u64) i"
  then have "bit (uint v) i" by (auto simp: bit_ucast_iff bit_uint_iff dest: bit_imp_le_length)
  moreover have "take_bit 14 (uint v) = uint v" using v by (simp add: take_bit_int_eq_self)
  ultimately show "i < 14" by (metis bit_take_bit_iff)
qed

lemma modq_word_bits:
  assumes "length xs = 4" "list_all (\<lambda>v :: u16. uint v < 12289) xs"
  shows "bits_msb 56 (modq_word xs) = concat (map (bits_msb 14) xs)"
proof -
  obtain a b c d where xs: "xs = [a, b, c, d]" using assms(1) by (auto simp: numeral_eq_Suc length_Suc_conv)
  have lt: "uint a < 2 ^ 14" "uint b < 2 ^ 14" "uint c < 2 ^ 14" "uint d < 2 ^ 14" using assms(2) by (simp_all add: xs)
  let ?w3 = "push_bit 14 (ucast c) OR ucast d :: u64"
  let ?w2 = "push_bit 28 (ucast b) OR ?w3"
  have w3: "bits_msb (14 + 14) ?w3 = bits_msb 14 c @ bits_msb 14 d"
    by (subst bits_msb_append) (auto simp: bits_msb_ucast dest: low14 [OF lt(4)])
  have l3: "bit ?w3 i \<Longrightarrow> i < 28" for i
    by (auto simp: bit_or_iff bit_push_bit_iff dest: low14 [OF lt(4)] low14 [OF lt(3)])
  have w2: "bits_msb (14 + 28) ?w2 = bits_msb 14 b @ bits_msb 14 c @ bits_msb 14 d"
    using w3 by (subst bits_msb_append) (auto simp: bits_msb_ucast dest: l3)
  have l2: "bit ?w2 i \<Longrightarrow> i < 42" for i
    by (subst (asm) bit_or_iff, erule disjE) (auto simp: bit_push_bit_iff dest: low14 [OF lt(2)] l3)
  have "bits_msb (14 + 42) (push_bit 42 (ucast a) OR ?w2) = bits_msb 14 a @ bits_msb 14 b @ bits_msb 14 c @ bits_msb 14 d"
    using w2 by (subst bits_msb_append) (auto simp: bits_msb_ucast dest: l2)
  then show ?thesis by (simp add: modq_word_def xs)
qed

lemma seven_bytes: "bits_msb 56 x = bytes_bits (map (\<lambda>k. ucast (drop_bit k x)) [48, 40, 32, 24, 16, 8, 0])"
  for x :: u64
proof -
  have s: "bits_msb (8 + n) x = bits_msb 8 (ucast (drop_bit n x) :: u8) @ bits_msb n x" for n
    by (simp add: bits_msb_split bits_msb_ucast)
  show ?thesis using s [of 48] s [of 40] s [of 32] s [of 24] s [of 16] s [of 8] s [of 0] by simp
qed

lemma four_values: "bits_msb 56 x = bits_msb 14 (drop_bit 42 x) @ bits_msb 14 (drop_bit 28 x) @
    bits_msb 14 (drop_bit 14 x) @ bits_msb 14 x" for x :: u64
  using bits_msb_split [of 14 42 x] bits_msb_split [of 14 28 x] bits_msb_split [of 14 14 x] by simp

lemma load_bytes:
  assumes "i + n \<le> length src" "n \<le> 8"
  shows "bits_msb (8 * n) (fold (\<lambda>k x. push_bit 8 x OR ucast (src ! (i + k))) [0..<n] (0 :: u64))
    = bytes_bits (take n (drop i src))"
  using assms
proof (induction n)
  case (Suc n)
  let ?x = "fold (\<lambda>k x. push_bit 8 x OR ucast (src ! (i + k))) [0..<n] (0 :: u64)"
  have "bits_msb (8 * n + 8) (push_bit 8 ?x OR ucast (src ! (i + n))) = bits_msb (8 * n) ?x @ bits_msb 8 (src ! (i + n))"
    using Suc.prems by (subst bits_msb_append) (auto simp: bits_msb_ucast bit_ucast_iff dest: bit_imp_le_length)
  moreover have "take (Suc n) (drop i src) = take n (drop i src) @ [src ! (i + n)]"
    using Suc.prems by (simp add: take_Suc_conv_app_nth)
  ultimately show ?case using Suc by (simp add: add.commute)
qed simp

section \<open>The encoder\<close>

lemma modq_store:
  assumes "j + length ks \<le> length dst"
  shows "fold (\<lambda>k (j, dst). (j + 1, dst[j := g k])) ks (j, dst)
    = (j + length ks, take j dst @ map g ks @ drop (j + length ks) dst)"
  using assms
proof (induction ks arbitrary: j dst)
  case (Cons k ks)
  have "take (Suc j) (dst[j := g k]) = take j dst @ [g k]" using Cons.prems by (simp add: take_Suc_conv_app_nth)
  moreover have "drop (Suc j + length ks) (dst[j := g k]) = drop (Suc j + length ks) dst" by simp
  ultimately show ?case using Cons.IH [of "j + 1" "dst[j := g k]"] Cons.prems by simp
qed simp

lemma pow_quarter: "2 \<le> logn \<Longrightarrow> (2::nat) ^ logn = 4 * 2 ^ (logn - 2)"
proof -
  assume "2 \<le> logn"
  then obtain k where "logn = k + 2" by (metis add.commute le_iff_add)
  then show ?thesis by (simp add: power_add)
qed

lemma modq_encode_spec:
  assumes "2 \<le> logn" "length h = 2 ^ logn" "list_all (\<lambda>v :: u16. uint v < 12289) h" "7 * 2 ^ (logn - 2) \<le> length dst"
  shows "\<exists>out. modq_encode logn h dst = (7 * 2 ^ (logn - 2), out @ drop (7 * 2 ^ (logn - 2)) dst) \<and>
    length out = 7 * 2 ^ (logn - 2) \<and> bytes_bits out = concat (map (bits_msb 14) h)"
proof -
  let ?f = "\<lambda>g (j, dst). let i = 4 * g;
                 x0 = ucast (h ! (i + 0)); x1 = ucast (h ! (i + 1));
                 x2 = ucast (h ! (i + 2)); x3 = ucast (h ! (i + 3));
                 x = push_bit 42 x0 OR push_bit 28 x1 OR push_bit 14 x2 OR (x3 :: u64)
             in fold (\<lambda>k (j, dst). (j + 1, dst[j := ucast (drop_bit k x)])) [48, 40, 32, 24, 16, 8, 0] (j, dst)"
  let ?G = "2 ^ (logn - 2) :: nat"
  have G: "(2::nat) ^ logn = 4 * ?G" using assms(1) by (rule pow_quarter)
  then have count: "(2 ^ logn + 3) div 4 = ?G" by simp
  have "\<exists>out. fold ?f [0..<g] (0, dst) = (7 * g, out @ drop (7 * g) dst) \<and> length out = 7 * g \<and>
      bytes_bits out = concat (map (bits_msb 14) (take (4 * g) h))" if "g \<le> ?G" for g
    using that
  proof (induction g)
    case (Suc g)
    then obtain out where o: "fold ?f [0..<g] (0, dst) = (7 * g, out @ drop (7 * g) dst)" "length out = 7 * g"
      "bytes_bits out = concat (map (bits_msb 14) (take (4 * g) h))" by auto
    let ?xs = "take 4 (drop (4 * g) h)"
    have lh: "4 * g + 4 \<le> length h" using Suc.prems assms(2) G by simp
    then have xs: "length ?xs = 4" "list_all (\<lambda>v :: u16. uint v < 12289) ?xs"
      using assms(3) by (auto simp: list_all_iff dest!: in_set_takeD in_set_dropD)
    let ?b = "map (\<lambda>k. ucast (drop_bit k (modq_word ?xs)) :: u8) [48, 40, 32, 24, 16, 8, 0]"
    have nx: "?xs ! k = h ! (4 * g + k)" if "k < 4" for k using lh that by simp
    have "7 * g + 7 \<le> length dst" using Suc.prems assms(4) by simp
    then have "fold (\<lambda>k (j, dst). (j + 1, dst[j := ucast (drop_bit k (modq_word ?xs))])) [48, 40, 32, 24, 16, 8, 0]
        (7 * g, out @ drop (7 * g) dst) = (7 * g + 7, out @ ?b @ drop (7 * g + 7) dst)"
      using o(2) by (subst modq_store) (simp_all add: add.commute)
    then have "fold ?f [0..<Suc g] (0, dst) = (7 * Suc g, (out @ ?b) @ drop (7 * Suc g) dst)"
    proof -
      assume stored: ?this
      have w: "push_bit 42 (ucast (h ! (4 * g + 0))) OR push_bit 28 (ucast (h ! (4 * g + 1))) OR
          push_bit 14 (ucast (h ! (4 * g + 2))) OR ucast (h ! (4 * g + 3)) = modq_word ?xs"
        using nx [of 0] nx [of 1] nx [of 2] nx [of 3] by (simp add: modq_word_def)
      have "fold ?f [0..<Suc g] (0, dst) = ?f g (fold ?f [0..<g] (0, dst))" by simp
      also have "\<dots> = (7 * g + 7, out @ ?b @ drop (7 * g + 7) dst)"
        unfolding o(1) unfolding Let_def split w stored ..
      also have "\<dots> = (7 * Suc g, (out @ ?b) @ drop (7 * Suc g) dst)"
        unfolding mult_Suc_right append_assoc by (simp only: add.commute)
      finally show ?thesis .
    qed
    moreover have "bytes_bits (out @ ?b) = concat (map (bits_msb 14) (take (4 * Suc g) h))"
      unfolding bytes_bits_append o(3) seven_bytes [symmetric] modq_word_bits [OF xs]
      by (simp add: take_add [of "4 * g" 4, simplified add.commute] flip: concat_append map_append)
    ultimately show ?case using o(2) by (intro exI [of _ "out @ ?b"]) simp
  qed simp
  from this [of ?G] show ?thesis using assms(2) G unfolding modq_encode_def count by simp
qed

section \<open>The decoder\<close>

lemma uint_ucast_small: "uint w < 2 ^ LENGTH('b) \<Longrightarrow> uint (ucast w :: 'b::len word) = uint w"
  for w :: "'a::len word"
  by (rule uint_of_int_eqI) simp_all

lemma value14:
  fixes x :: u64
  shows "bits_msb 14 (ucast (ucast (x AND 0x3FFF) :: u32) :: u16) = bits_msb 14 x"
    and "uint (ucast (ucast (x AND 0x3FFF) :: u32) :: u16) = uint (ucast (x AND 0x3FFF) :: u32)"
    and "uint (ucast (x AND 0x3FFF) :: u32) < 2 ^ 14"
proof -
  have m: "x AND 0x3FFF = take_bit 14 x" by (simp add: take_bit_eq_mask mask_eq_exp_minus_1)
  have "uint (take_bit 14 x) = uint x mod 2 ^ 14" unfolding unsigned_take_bit_eq by (rule take_bit_eq_mod)
  then have v: "uint (take_bit 14 x) < 2 ^ 14" "0 \<le> uint (take_bit 14 x)" by simp_all
  then have u: "uint (ucast (take_bit 14 x) :: u32) = uint (take_bit 14 x)"
    by (intro uint_ucast_small) simp
  then show "uint (ucast (x AND 0x3FFF) :: u32) < 2 ^ 14" unfolding m using v by simp
  show "uint (ucast (ucast (x AND 0x3FFF) :: u32) :: u16) = uint (ucast (x AND 0x3FFF) :: u32)"
    unfolding m using v u by (intro uint_ucast_small) simp
  show "bits_msb 14 (ucast (ucast (x AND 0x3FFF) :: u32) :: u16) = bits_msb 14 x"
    unfolding m by (simp add: bits_msb_ucast) (intro bits_msb_cong, simp add: bit_take_bit_iff)
qed

lemma q_le_iff: "q \<le> h \<longleftrightarrow> \<not> uint h < 12289" for h :: u32
  by (simp add: q_def word_le_def not_less)

text \<open>One group: the four values the source extracts from seven bytes.\<close>

definition modq_vals :: "nat \<Rightarrow> u8 list \<Rightarrow> u16 list" where
  "modq_vals i src =
     (let x = fold (\<lambda>k x. push_bit 8 x OR ucast (src ! (i + k))) [0..<7] (0 :: u64)
      in map (\<lambda>k. ucast (ucast (drop_bit k x AND 0x3FFF) :: u32)) [42, 28, 14, 0])"

lemma modq_vals_bits:
  assumes "i + 7 \<le> length src"
  shows "concat (map (bits_msb 14) (modq_vals i src)) = bytes_bits (take 7 (drop i src))"
    and "list_all (\<lambda>v. uint v < 2 ^ 14) (modq_vals i src)" and "length (modq_vals i src) = 4"
  using load_bytes [OF assms] four_values value14 by (simp_all add: modq_vals_def Let_def)

lemma upd4: "j + 4 \<le> length h \<Longrightarrow>
  h[j + 0 := a, j + 1 := b, j + 2 := c, j + 3 := d] = take j h @ [a, b, c, d] @ drop (j + 4) h"
  by (rule nth_equalityI) (auto simp: nth_append nth_list_update nth_Cons' )

lemma modq_groups_Suc:
  assumes "j + 4 \<le> length h"
  shows "modq_groups (Suc g) i j src h =
    (if list_all (\<lambda>v :: u16. uint v < 12289) (modq_vals i src)
     then modq_groups g (i + 7) (j + 4) src (take j h @ modq_vals i src @ drop (j + 4) h)
     else Inl Invalid_coefficient_value)"
  unfolding modq_groups.simps Let_def q_le_iff upd4 [OF assms]
  by (simp add: modq_vals_def Let_def value14(2))

lemma modq_groups_spec:
  assumes "i + 7 * g \<le> length src" "j + 4 * g \<le> length h"
  shows "case modq_groups g i j src h of
      Inl e \<Rightarrow> e = Invalid_coefficient_value \<and>
        \<not> (\<exists>vs. list_all (\<lambda>v :: u16. uint v < 12289) vs \<and> concat (map (bits_msb 14) vs) = bytes_bits (take (7 * g) (drop i src)))
    | Inr h' \<Rightarrow> \<exists>vs. h' = take j h @ vs @ drop (j + 4 * g) h \<and> length vs = 4 * g \<and> list_all (\<lambda>v :: u16. uint v < 12289) vs \<and>
        concat (map (bits_msb 14) vs) = bytes_bits (take (7 * g) (drop i src))"
  using assms
proof (induction g arbitrary: i j h)
  case (Suc g)
  let ?w = "modq_vals i src" and ?rest = "bytes_bits (take (7 * g) (drop (i + 7) src))"
  have fit: "i + 7 \<le> length src" "j + 4 \<le> length h" "i + 7 + 7 * g \<le> length src" using Suc.prems by simp_all
  note w = modq_vals_bits [OF fit(1)]
  have bits: "bytes_bits (take (7 * Suc g) (drop i src)) = concat (map (bits_msb 14) ?w) @ ?rest"
    unfolding w(1) by (simp add: take_add add.commute flip: bytes_bits_append)
  have bad: "list_all (\<lambda>v :: u16. uint v < 12289) ?w \<and> concat (map (bits_msb 14) (drop 4 vs)) = ?rest"
    if vs: "list_all (\<lambda>v :: u16. uint v < 12289) vs" "concat (map (bits_msb 14) vs) = concat (map (bits_msb 14) ?w) @ ?rest" for vs
  proof -
    have len: "length (concat (map (bits_msb 14) xs)) = 14 * length xs" for xs :: "u16 list" by (induction xs) simp_all
    have "14 * length vs = 14 * 4 + length ?rest" using arg_cong [OF vs(2), of length] unfolding length_append len w(3) .
    then have l4: "length (take 4 vs) = length ?w" using w(3) by auto
    have "concat (map (bits_msb 14) (take 4 vs)) @ concat (map (bits_msb 14) (drop 4 vs)) = concat (map (bits_msb 14) ?w) @ ?rest"
      using vs(2) by (metis append_take_drop_id concat_append map_append)
    then have e: "concat (map (bits_msb 14) (take 4 vs)) = concat (map (bits_msb 14) ?w)"
      "concat (map (bits_msb 14) (drop 4 vs)) = ?rest"
      using l4 by (simp_all add: append_eq_append_conv len)
    have small: "list_all (\<lambda>v :: u16. uint v < 12289) (take 4 vs)" using vs(1) by (auto simp: list_all_iff dest: in_set_takeD)
    have "take 4 vs = ?w" using l4 e(1)
    proof (rule concat14_inj)
      show "list_all (\<lambda>v. uint v < 2 ^ 14) (take 4 vs)" using small by (auto simp: list_all_iff)
    qed (rule w(2))
    with small e show ?thesis by simp
  qed
  show ?case
  proof (cases "list_all (\<lambda>v :: u16. uint v < 12289) ?w")
    case False
    then have m: "modq_groups (Suc g) i j src h = Inl Invalid_coefficient_value" using modq_groups_Suc [OF fit(2)] by simp
    show ?thesis unfolding m bits using bad False by auto
  next
    case True
    let ?h = "take j h @ ?w @ drop (j + 4) h"
    have m: "modq_groups (Suc g) i j src h = modq_groups g (i + 7) (j + 4) src ?h"
      using True modq_groups_Suc [OF fit(2)] by simp
    have "length ?h = length h" using w(3) fit(2) by simp
    then have "j + 4 + 4 * g \<le> length ?h" using Suc.prems(2) by simp
    note IH = Suc.IH [OF fit(3) this]
    have eq4: "j + 4 + 4 * g = 4 * g + (j + 4)" "j + 4 * Suc g = 4 * g + (j + 4)" by simp_all
    have tk: "take (j + 4) ?h = take j h @ ?w" "drop (j + 4 + 4 * g) ?h = drop (j + 4 * Suc g) h"
      unfolding eq4 using w(3) fit(2) by simp_all
    show ?thesis
    proof (cases "modq_groups g (i + 7) (j + 4) src ?h")
      case (Inl e)
      with IH have e: "e = Invalid_coefficient_value"
        and none: "\<And>vs. list_all (\<lambda>v :: u16. uint v < 12289) vs \<Longrightarrow> concat (map (bits_msb 14) vs) \<noteq> ?rest" by auto
      have "list_all (\<lambda>v :: u16. uint v < 12289) (drop 4 vs)" if "list_all (\<lambda>v :: u16. uint v < 12289) vs" for vs
        using that by (auto simp: list_all_iff dest: in_set_dropD)
      then show ?thesis unfolding m bits Inl sum.case using e none bad by blast
    next
      case (Inr h')
      then obtain vs where vs: "h' = take (j + 4) ?h @ vs @ drop (j + 4 + 4 * g) ?h" "length vs = 4 * g"
        "list_all (\<lambda>v :: u16. uint v < 12289) vs" "concat (map (bits_msb 14) vs) = ?rest"
        using IH by auto
      show ?thesis unfolding m bits Inr sum.case
        by (intro exI [of _ "?w @ vs"]) (use vs tk w(3) True in simp)
    qed
  qed
qed simp

section \<open>Round trip and uniqueness\<close>

lemma modq_decode_iff:
  assumes "2 \<le> logn" "length h = 2 ^ logn"
  defines "N \<equiv> 7 * 2 ^ (logn - 2) :: nat"
  shows "modq_decode logn src h = Inr (m, h') \<longleftrightarrow>
    m = N \<and> N \<le> length src \<and> length h' = 2 ^ logn \<and> list_all (\<lambda>v :: u16. uint v < 12289) h' \<and>
    concat (map (bits_msb 14) h') = bytes_bits (take N src)"
proof -
  let ?G = "2 ^ (logn - 2) :: nat"
  have G: "(2::nat) ^ logn = 4 * ?G" using assms(1) by (rule pow_quarter)
  have md: "modq_decode logn src h = (if length src < N then Inl Truncated_input
      else case modq_groups ?G 0 0 src h of Inl e \<Rightarrow> Inl e | Inr h \<Rightarrow> Inr (N, h))"
    unfolding N_def using assms(1) G by (simp add: modq_decode_def Let_def)
  have uniq: "xs = ys" if "concat (map (bits_msb 14) xs) = concat (map (bits_msb 14) ys)" "length xs = length ys"
    "list_all (\<lambda>v. uint v < 12289) xs" "list_all (\<lambda>v. uint v < 12289) ys" for xs ys :: "u16 list"
    using that by (intro concat14_inj) (auto simp: list_all_iff)
  show ?thesis
  proof (cases "length src < N")
    case True
    then show ?thesis by (auto simp: md)
  next
    case False
    then have sp: "case modq_groups ?G 0 0 src h of
      Inl e \<Rightarrow> e = Invalid_coefficient_value \<and>
        \<not> (\<exists>vs. list_all (\<lambda>v :: u16. uint v < 12289) vs \<and> concat (map (bits_msb 14) vs) = bytes_bits (take N src))
    | Inr h' \<Rightarrow> \<exists>vs. h' = vs \<and> length vs = 4 * ?G \<and> list_all (\<lambda>v :: u16. uint v < 12289) vs \<and>
        concat (map (bits_msb 14) vs) = bytes_bits (take N src)"
      using modq_groups_spec [of 0 ?G src 0 h] assms(2) G
      by (simp only: N_def) (auto split: sum.splits)
    show ?thesis
    proof (cases "modq_groups ?G 0 0 src h")
      case (Inl e)
      with sp False show ?thesis by (auto simp: md)
    next
      case (Inr v)
      with sp have v: "length v = 4 * ?G" "list_all (\<lambda>v :: u16. uint v < 12289) v"
        "concat (map (bits_msb 14) v) = bytes_bits (take N src)" by auto
      have "modq_decode logn src h = Inr (N, v)" using False Inr by (simp add: md)
      then show ?thesis using v uniq [of v h'] False G by auto
    qed
  qed
qed

text \<open>C33: the encoding of verifying keys round-trips, and is unique: encoding values below
  \<open>q\<close> and decoding gives them back, and a byte string decodes only if it is, on the bytes it
  uses, what \<^verbatim>\<open>modq_encode\<close> writes for the decoded values.\<close>

theorem modq_roundtrip:
  assumes "2 \<le> logn" "length h = 2 ^ logn" "7 * 2 ^ (logn - 2) \<le> length dst"
  shows "(list_all (\<lambda>v. uint v < 12289) h \<longrightarrow>
      modq_decode logn (snd (modq_encode logn h dst)) (replicate (2 ^ logn) 0) = Inr (7 * 2 ^ (logn - 2), h)) \<and>
    (\<forall>m h'. modq_decode logn dst h = Inr (m, h') \<longrightarrow>
      list_all (\<lambda>v. uint v < 12289) h' \<and> modq_encode logn h' dst = (m, dst))"
proof (intro conjI impI allI)
  let ?N = "7 * 2 ^ (logn - 2) :: nat"
  assume "list_all (\<lambda>v. uint v < 12289) h"
  then obtain out where "modq_encode logn h dst = (?N, out @ drop ?N dst)" "length out = ?N"
    "bytes_bits out = concat (map (bits_msb 14) h)" using modq_encode_spec [OF assms(1,2) _ assms(3)] by blast
  then show "modq_decode logn (snd (modq_encode logn h dst)) (replicate (2 ^ logn) 0) = Inr (?N, h)"
    using assms \<open>list_all _ h\<close> by (subst modq_decode_iff) simp_all
next
  let ?N = "7 * 2 ^ (logn - 2) :: nat"
  fix m h' assume "modq_decode logn dst h = Inr (m, h')"
  then have d: "m = ?N" "length h' = 2 ^ logn" "list_all (\<lambda>v. uint v < 12289) h'"
    "concat (map (bits_msb 14) h') = bytes_bits (take ?N dst)"
    using modq_decode_iff [OF assms(1,2)] by auto
  then show "list_all (\<lambda>v. uint v < 12289) h'" by simp
  obtain out where o: "modq_encode logn h' dst = (?N, out @ drop ?N dst)" "length out = ?N"
    "bytes_bits out = concat (map (bits_msb 14) h')" using modq_encode_spec [OF assms(1) d(2,3) assms(3)] by blast
  have "out = take ?N dst" using bytes_bits_inj o(3) d(4) by simp
  with o(1) d(1) show "modq_encode logn h' dst = (m, dst)" by simp
qed

theorem modq_roundtrip_witness:
  "modq_decode 2 (snd (modq_encode 2 [1, 12288, 0, 77] [9, 9, 9, 9, 9, 9, 9])) (replicate 4 0) = Inr (7, [1, 12288, 0, 77])"
  using modq_roundtrip [of 2 "[1, 12288, 0, 77]" "[9, 9, 9, 9, 9, 9, 9]"] by simp

end
