(* ===== verification/Ntt.thy ===== *)
theory Ntt
  imports ModArith
begin

text \<open>
  The in-place butterfly loops of the number-theoretic transforms. The sources hold the
  same loop nest twice, over 16-bit values modulo 12289 (\<^verbatim>\<open>mq.go\<close>) and over 32-bit values
  modulo a 31-bit prime (\<^verbatim>\<open>kgen_mp31.go\<close>); the nest is defined once here, over an arbitrary
  butterfly on array elements. The locale \<open>butterfly\<close> states what such an arithmetic
  promises, and the transform's correctness is proved from those laws alone: the inverse
  loop undoes the forward loop, the forward loop evaluates the polynomial at the roots of
  \<open>X^n + 1\<close>, and pointwise products become negacyclic convolutions.
\<close>

section \<open>The loop nest\<close>

definition bf_inner :: "('s \<Rightarrow> 'w \<Rightarrow> 'w \<Rightarrow> 'w \<times> 'w) \<Rightarrow> 's \<Rightarrow> nat \<Rightarrow> nat \<Rightarrow> 'w list \<Rightarrow> 'w list" where
  "bf_inner bf s j0 h a =
     fold (\<lambda>j a. let j1 = j0 + j; j2 = j1 + h; (y1, y2) = bf s (a ! j1) (a ! j2)
                 in a[j1 := y1, j2 := y2]) [0..<h] a"

definition bf_layer ::
  "('s \<Rightarrow> 'w \<Rightarrow> 'w \<Rightarrow> 'w \<times> 'w) \<Rightarrow> 's list \<Rightarrow> nat \<Rightarrow> nat \<Rightarrow> nat \<Rightarrow> 'w list \<Rightarrow> 'w list" where
  "bf_layer bf gm m t h a =
     snd (fold (\<lambda>i (j0, a). (j0 + t, bf_inner bf (gm ! (i + m)) j0 h a)) [0..<m] (0, a))"

definition ntt_fwd :: "('s \<Rightarrow> 'w \<Rightarrow> 'w \<Rightarrow> 'w \<times> 'w) \<Rightarrow> 's list \<Rightarrow> nat \<Rightarrow> 'w list \<Rightarrow> 'w list" where
  "ntt_fwd bf gm logn a =
     snd (fold (\<lambda>lm (t, a). let m = 2 ^ lm; ht = t div 2 in (ht, bf_layer bf gm m t ht a))
            [0..<logn] (2 ^ logn, a))"

definition ntt_inv :: "('s \<Rightarrow> 'w \<Rightarrow> 'w \<Rightarrow> 'w \<times> 'w) \<Rightarrow> 's list \<Rightarrow> nat \<Rightarrow> 'w list \<Rightarrow> 'w list" where
  "ntt_inv ibf igm logn a =
     snd (fold (\<lambda>lm (t, a). let hm = 2 ^ (logn - 1 - lm); dt = t * 2
                            in (dt, bf_layer ibf igm hm dt t a))
            [0..<logn] (1, a))"

section \<open>What one layer does\<close>

lemma bf_inner_upto:
  fixes bf :: "'s \<Rightarrow> 'w \<Rightarrow> 'w \<Rightarrow> 'w \<times> 'w" and s :: 's and a :: "'w list"
  assumes "c \<le> h" "j0 + 2 * h \<le> length a"
  defines "f \<equiv> \<lambda>j a. let j1 = j0 + j; j2 = j1 + h; (y1, y2) = bf s (a ! j1) (a ! j2)
                 in a[j1 := y1, j2 := y2]"
  shows "length (fold f [0..<c] a) = length a \<and>
    (\<forall>p < length a. fold f [0..<c] a ! p =
       (if j0 \<le> p \<and> p < j0 + c then fst (bf s (a ! p) (a ! (p + h)))
        else if j0 + h \<le> p \<and> p < j0 + h + c then snd (bf s (a ! (p - h)) (a ! p))
        else a ! p))"
  using assms(1)
proof (induction c)
  case 0
  show ?case by auto
next
  case (Suc c)
  let ?r = "fold f [0..<c] a"
  from Suc have len: "length ?r = length a"
    and nth: "\<And>p. p < length a \<Longrightarrow> ?r ! p =
       (if j0 \<le> p \<and> p < j0 + c then fst (bf s (a ! p) (a ! (p + h)))
        else if j0 + h \<le> p \<and> p < j0 + h + c then snd (bf s (a ! (p - h)) (a ! p))
        else a ! p)" by simp_all
  have at: "?r ! (j0 + c) = a ! (j0 + c)" "?r ! (j0 + c + h) = a ! (j0 + c + h)"
    using nth [of "j0 + c"] nth [of "j0 + c + h"] Suc.prems assms(2) by simp_all
  have step: "fold f [0..<Suc c] a
      = ?r[j0 + c := fst (bf s (a ! (j0 + c)) (a ! (j0 + c + h))),
           j0 + c + h := snd (bf s (a ! (j0 + c)) (a ! (j0 + c + h)))]"
    using at by (simp add: f_def Let_def split_beta)
  have "fold f [0..<Suc c] a ! p =
       (if j0 \<le> p \<and> p < j0 + Suc c then fst (bf s (a ! p) (a ! (p + h)))
        else if j0 + h \<le> p \<and> p < j0 + h + Suc c then snd (bf s (a ! (p - h)) (a ! p))
        else a ! p)" if p: "p < length a" for p
  proof -
    consider "p = j0 + c" | "p = j0 + c + h" | "p \<noteq> j0 + c" "p \<noteq> j0 + c + h" by blast
    then show ?thesis
    proof cases
      case 1 then show ?thesis unfolding step using len Suc.prems assms(2) by simp
    next
      case 2 then show ?thesis unfolding step using len Suc.prems assms(2) by simp
    next
      case 3
      then have "fold f [0..<Suc c] a ! p = ?r ! p" unfolding step by simp
      with 3 show ?thesis using nth [OF p] by auto
    qed
  qed
  moreover have "length (fold f [0..<Suc c] a) = length a" unfolding step using len by simp
  ultimately show ?case by blast
qed

lemma bf_inner_length [simp]: "j0 + 2 * h \<le> length a \<Longrightarrow> length (bf_inner bf s j0 h a) = length a"
  unfolding bf_inner_def by (rule bf_inner_upto [OF le_refl, THEN conjunct1])

lemma bf_inner_nth:
  assumes "j0 + 2 * h \<le> length a" "p < length a"
  shows "bf_inner bf s j0 h a ! p =
       (if j0 \<le> p \<and> p < j0 + h then fst (bf s (a ! p) (a ! (p + h)))
        else if j0 + h \<le> p \<and> p < j0 + 2 * h then snd (bf s (a ! (p - h)) (a ! p))
        else a ! p)"
proof -
  have "j0 + 2 * h = j0 + h + h" by simp
  then show ?thesis
    using bf_inner_upto [OF le_refl assms(1), THEN conjunct2, rule_format, OF assms(2),
      folded bf_inner_def, of bf s] by simp
qed

text \<open>The element at \<open>p\<close> after a layer, from the elements before it.\<close>

definition bf_at :: "('s \<Rightarrow> 'w \<Rightarrow> 'w \<Rightarrow> 'w \<times> 'w) \<Rightarrow> 's list \<Rightarrow> nat \<Rightarrow> nat \<Rightarrow> 'w list \<Rightarrow> nat \<Rightarrow> 'w" where
  "bf_at bf gm m h a p =
     (let s = gm ! (p div (2 * h) + m) in
      if p mod (2 * h) < h then fst (bf s (a ! p) (a ! (p + h)))
      else snd (bf s (a ! (p - h)) (a ! p)))"

lemma bf_layer_upto:
  fixes bf :: "'s \<Rightarrow> 'w \<Rightarrow> 'w \<Rightarrow> 'w \<times> 'w" and gm :: "'s list" and a :: "'w list"
  assumes "c \<le> m" "m * (2 * h) \<le> length a" "0 < h"
  defines "f \<equiv> \<lambda>i (j0, a). (j0 + 2 * h, bf_inner bf (gm ! (i + m)) j0 h a)"
  shows "fst (fold f [0..<c] (0, a)) = c * (2 * h) \<and> length (snd (fold f [0..<c] (0, a))) = length a \<and>
    (\<forall>p < length a. snd (fold f [0..<c] (0, a)) ! p = (if p < c * (2 * h) then bf_at bf gm m h a p else a ! p))"
  using assms(1)
proof (induction c)
  case 0
  show ?case by simp
next
  case (Suc c)
  obtain j0 b where b: "fold f [0..<c] (0, a) = (j0, b)" by fastforce
  with Suc have j0: "j0 = c * (2 * h)" and lb: "length b = length a"
    and nb: "\<And>p. p < length a \<Longrightarrow> b ! p = (if p < c * (2 * h) then bf_at bf gm m h a p else a ! p)"
    by auto
  have "Suc c * (2 * h) \<le> m * (2 * h)" using Suc.prems by (intro mult_right_mono) auto
  with assms(2) have fits: "j0 + 2 * h \<le> length b" by (simp add: j0 lb)
  have "bf_inner bf (gm ! (c + m)) j0 h b ! p
      = (if p < Suc c * (2 * h) then bf_at bf gm m h a p else a ! p)" if p: "p < length a" for p
  proof (cases "j0 \<le> p \<and> p < j0 + 2 * h")
    case True
    have dv: "p div (2 * h) = c"
      using True assms(3) by (intro div_nat_eqI) (auto simp: j0 algebra_simps)
    have md: "p mod (2 * h) = p - j0"
      unfolding modulo_nat_def dv j0 by simp
    note inner = bf_inner_nth [OF fits, of p bf "gm ! (c + m)"]
    show ?thesis
    proof (cases "p < j0 + h")
      case low: True
      then have "b ! p = a ! p" "b ! (p + h) = a ! (p + h)"
        using nb [of p] nb [of "p + h"] True p fits lb by (auto simp: j0)
      with low True p inner show ?thesis by (auto simp: lb j0 bf_at_def Let_def dv md)
    next
      case high: False
      then have "b ! p = a ! p" "b ! (p - h) = a ! (p - h)"
        using nb [of p] nb [of "p - h"] True p fits lb by (auto simp: j0)
      with high True p inner show ?thesis by (auto simp: lb j0 bf_at_def Let_def dv md)
    qed
  next
    case False
    then show ?thesis
      using bf_inner_nth [OF fits, of p] p nb [of p] by (auto simp: lb j0)
  qed
  then show ?case using b fits lb by (simp add: j0 f_def)
qed

lemma bf_layer_length [simp]:
  "m * (2 * h) \<le> length a \<Longrightarrow> 0 < h \<Longrightarrow> length (bf_layer bf gm m (2 * h) h a) = length a"
  unfolding bf_layer_def using bf_layer_upto [of m m h a bf gm] by simp

lemma bf_layer_nth:
  assumes "length a = m * (2 * h)" "0 < h" "p < length a"
  shows "bf_layer bf gm m (2 * h) h a ! p = bf_at bf gm m h a p"
  unfolding bf_layer_def using bf_layer_upto [of m m h a bf gm] assms by simp

lemma half_block_upper:
  assumes "length a = m * (2 * h)" "p < length a" "p mod (2 * h) < (h::nat)"
  shows "p + h < length a"
proof -
  have "p div (2 * h) < m" using assms by (simp add: less_mult_imp_div_less)
  then have "Suc (p div (2 * h)) * (2 * h) \<le> m * (2 * h)" by (intro mult_right_mono) auto
  then have "p div (2 * h) * (2 * h) + 2 * h \<le> length a" using assms(1) by (simp only: mult_Suc add.commute)
  moreover have "p = p div (2 * h) * (2 * h) + p mod (2 * h)" by (rule div_mult_mod_eq [symmetric])
  ultimately show ?thesis using assms(3) by linarith
qed

lemma block_start: "2 * h * d = d * (2 * (h::nat))"
  by (rule mult.commute)

lemma block_end: "2 * h * Suc d = d * (2 * (h::nat)) + 2 * h"
  by (simp add: algebra_simps)

lemma half_block_shift:
  assumes "p mod (2 * h) < (h::nat)" "0 < h"
  shows "(p + h) div (2 * h) = p div (2 * h)" and "\<not> (p + h) mod (2 * h) < h"
proof -
  have p: "p = p div (2 * h) * (2 * h) + p mod (2 * h)" by (rule div_mult_mod_eq [symmetric])
  show dv: "(p + h) div (2 * h) = p div (2 * h)"
  proof (rule div_nat_eqI)
    show "2 * h * (p div (2 * h)) \<le> p + h" unfolding block_start using p by linarith
    show "p + h < 2 * h * Suc (p div (2 * h))" unfolding block_end using p assms by linarith
  qed
  show "\<not> (p + h) mod (2 * h) < h"
    unfolding modulo_nat_def dv using p by linarith
qed

lemma half_block_unshift:
  assumes "\<not> p mod (2 * h) < (h::nat)" "0 < h"
  shows "(p - h) div (2 * h) = p div (2 * h)" and "(p - h) mod (2 * h) < h" and "h \<le> p"
proof -
  have p: "p = p div (2 * h) * (2 * h) + p mod (2 * h)" by (rule div_mult_mod_eq [symmetric])
  have m: "p mod (2 * h) < 2 * h" using assms by simp
  show "h \<le> p" using p assms by linarith
  show dv: "(p - h) div (2 * h) = p div (2 * h)"
  proof (rule div_nat_eqI)
    show "2 * h * (p div (2 * h)) \<le> p - h" unfolding block_start using p assms by linarith
    show "p - h < 2 * h * Suc (p div (2 * h))" unfolding block_end using p m assms by linarith
  qed
  show "(p - h) mod (2 * h) < h"
    unfolding modulo_nat_def dv using p m by linarith
qed

lemmas half_block_lower = half_block_unshift(3)

text \<open>Both transforms as iterated layers: layer \<open>c\<close> has \<open>2^c\<close> blocks of \<open>2^(logn-c)\<close> elements.\<close>

definition fwd_state :: "('s \<Rightarrow> 'w \<Rightarrow> 'w \<Rightarrow> 'w \<times> 'w) \<Rightarrow> 's list \<Rightarrow> nat \<Rightarrow> nat \<Rightarrow> 'w list \<Rightarrow> nat \<times> 'w list" where
  "fwd_state bf gm logn c a =
     fold (\<lambda>lm (t, a). let m = 2 ^ lm; ht = t div 2 in (ht, bf_layer bf gm m t ht a))
       [0..<c] (2 ^ logn, a)"

definition inv_state :: "('s \<Rightarrow> 'w \<Rightarrow> 'w \<Rightarrow> 'w \<times> 'w) \<Rightarrow> 's list \<Rightarrow> nat \<Rightarrow> nat \<Rightarrow> 'w list \<Rightarrow> nat \<times> 'w list" where
  "inv_state ibf igm logn c a =
     fold (\<lambda>lm (t, a). let hm = 2 ^ (logn - 1 - lm); dt = t * 2
                       in (dt, bf_layer ibf igm hm dt t a))
       [0..<c] (1, a)"

lemma fwd_state_fst: "c \<le> logn \<Longrightarrow> fst (fwd_state bf gm logn c a) = 2 ^ (logn - c)"
proof (induction c)
  case (Suc c)
  have "(2::nat) ^ (logn - c) = 2 * 2 ^ (logn - Suc c)"
    using Suc.prems by (simp add: Suc_diff_le flip: power_Suc)
  with Suc show ?case by (simp add: fwd_state_def split_beta Let_def)
qed (simp add: fwd_state_def)

lemma fwd_state_Suc:
  assumes "c < logn"
  shows "snd (fwd_state bf gm logn (Suc c) a) =
    bf_layer bf gm (2 ^ c) (2 * 2 ^ (logn - 1 - c)) (2 ^ (logn - 1 - c)) (snd (fwd_state bf gm logn c a))"
proof -
  have "(2::nat) ^ (logn - c) = 2 * 2 ^ (logn - 1 - c)"
    using assms by (simp add: Suc_diff_Suc flip: power_Suc)
  then show ?thesis
    using fwd_state_fst [of c logn bf gm a] assms by (simp add: fwd_state_def split_beta Let_def)
qed

lemma inv_state_fst: "fst (inv_state ibf igm logn c a) = 2 ^ c"
  by (induction c) (simp_all add: inv_state_def split_beta Let_def)

lemma inv_state_Suc:
  "snd (inv_state ibf igm logn (Suc c) a) =
    bf_layer ibf igm (2 ^ (logn - 1 - c)) (2 * 2 ^ c) (2 ^ c) (snd (inv_state ibf igm logn c a))"
  using inv_state_fst [of ibf igm logn c a]
  by (simp add: inv_state_def split_beta Let_def mult.commute)

lemma ntt_fwd_state: "ntt_fwd bf gm logn a = snd (fwd_state bf gm logn logn a)"
  by (simp add: ntt_fwd_def fwd_state_def)

lemma ntt_inv_state: "ntt_inv ibf igm logn a = snd (inv_state ibf igm logn logn a)"
  by (simp add: ntt_inv_def inv_state_def)

lemma fwd_state_0 [simp]: "snd (fwd_state bf gm logn 0 a) = a"
  by (simp add: fwd_state_def)

lemma inv_state_0 [simp]: "snd (inv_state ibf igm logn 0 a) = a"
  by (simp add: inv_state_def)

lemma layer_size: "c < logn \<Longrightarrow> (2::nat) ^ c * (2 * 2 ^ (logn - 1 - c)) = 2 ^ logn"
  by (simp flip: power_add power_Suc)

section \<open>Negacyclic convolution\<close>

text \<open>The product of two polynomials of degree below \<open>n\<close> modulo \<open>X^n + 1\<close>: coefficient \<open>k\<close>.\<close>

definition negconv :: "nat \<Rightarrow> (nat \<Rightarrow> int) \<Rightarrow> (nat \<Rightarrow> int) \<Rightarrow> nat \<Rightarrow> int" where
  "negconv n f g k = (\<Sum>i<n. if i \<le> k then f i * g (k - i) else - (f i * g (n + k - i)))"

lemma sum_rotate:
  fixes F G :: "nat \<Rightarrow> nat \<Rightarrow> int"
  assumes "i < n"
  shows "(\<Sum>k<n. if i \<le> k then F (k - i) k else G (n + k - i) k)
       = (\<Sum>j<n. if i + j < n then F j (i + j) else G j (i + j - n))"
  using assms
  by (intro sum.reindex_bij_witness
        [where i = "\<lambda>j. if i + j < n then i + j else i + j - n" and j = "\<lambda>k. if i \<le> k then k - i else n + k - i"])
     (auto split: if_splits)

lemma negconv_commute:
  assumes "k < n"
  shows "negconv n f g k = negconv n g f k"
  unfolding negconv_def
  by (rule sum.reindex_bij_witness
        [where i = "\<lambda>i. if i \<le> k then k - i else n + k - i" and j = "\<lambda>i. if i \<le> k then k - i else n + k - i"])
     (use assms in auto)

lemma sum_halves:
  fixes f :: "nat \<Rightarrow> int"
  shows "(\<Sum>j<h + k. f j) = (\<Sum>j<h. f j) + (\<Sum>j<k. f (h + j))"
  by (induction k) (simp_all add: algebra_simps)

lemma negconv_eval:
  assumes "r ^ n mod P = (- 1) mod (P::int)"
  shows "(\<Sum>k<n. negconv n f g k * r ^ k) mod P = ((\<Sum>i<n. f i * r ^ i) * (\<Sum>j<n. g j * r ^ j)) mod P"
proof -
  have wrap: "(- (r ^ (e - n))) mod P = r ^ e mod P" if "n \<le> e" for e
  proof -
    have "r ^ e mod P = r ^ n * r ^ (e - n) mod P" using that by (simp flip: power_add)
    also have "\<dots> = (- 1) * r ^ (e - n) mod P" using assms by (metis mod_mult_left_eq)
    finally show ?thesis by simp
  qed
  have summand: "(if i + j < n then f i * g j * r ^ (i + j) else - (f i * g j) * r ^ (i + j - n)) mod P
      = f i * r ^ i * (g j * r ^ j) mod P" for i j
  proof (cases "i + j < n")
    case True
    then show ?thesis by (simp add: power_add ac_simps)
  next
    case False
    have "- (f i * g j) * r ^ (i + j - n) mod P = f i * g j * (- (r ^ (i + j - n))) mod P" by simp
    also have "\<dots> = f i * g j * r ^ (i + j) mod P" using wrap [of "i + j"] False
      by (metis mod_mult_right_eq not_less)
    finally show ?thesis using False by (simp add: power_add ac_simps)
  qed
  have "(\<Sum>k<n. negconv n f g k * r ^ k)
      = (\<Sum>k<n. \<Sum>i<n. if i \<le> k then f i * g (k - i) * r ^ k else - (f i * g (n + k - i)) * r ^ k)"
    unfolding negconv_def sum_distrib_right by (intro sum.cong refl) simp
  also have "\<dots> = (\<Sum>i<n. \<Sum>k<n. if i \<le> k then f i * g (k - i) * r ^ k else - (f i * g (n + k - i)) * r ^ k)"
    by (rule sum.swap)
  also have "\<dots> = (\<Sum>i<n. \<Sum>j<n. if i + j < n then f i * g j * r ^ (i + j) else - (f i * g j) * r ^ (i + j - n))"
    by (intro sum.cong refl sum_rotate [where F = "\<lambda>j k. f _ * g j * r ^ k" and G = "\<lambda>j k. - (f _ * g j) * r ^ k"]) simp
  also have "\<dots> mod P = (\<Sum>i<n. (\<Sum>j<n. f i * r ^ i * (g j * r ^ j)) mod P) mod P"
    by (subst mod_sum_eq [symmetric], subst mod_sum_eq [symmetric], subst summand) (simp add: mod_sum_eq)
  also have "\<dots> = ((\<Sum>i<n. f i * r ^ i) * (\<Sum>j<n. g j * r ^ j)) mod P"
    by (simp add: mod_sum_eq sum_product)
  finally show ?thesis .
qed

section \<open>The contract of a butterfly arithmetic\<close>

text \<open>
  \<open>ok\<close> are the array elements in range and \<open>val\<close> the residue an element stands for;
  \<open>z s\<close> and \<open>iz s\<close> are the multipliers a table entry encodes for the forward and the
  inverse butterfly. The table laws are those of a binary tree of square roots: node 1 has
  the constant \<open>-1\<close>, the children of node \<open>k\<close> have the two square roots \<open>z\<close> and \<open>-z\<close> of
  the constant of \<open>k\<close>.
\<close>

definition node_const :: "int \<Rightarrow> (nat \<Rightarrow> int) \<Rightarrow> nat \<Rightarrow> int" where
  "node_const P z k =
     (if k = 1 then - 1 else if even k then z (k div 2) else - z (k div 2)) mod P"

locale butterfly =
  fixes P :: int and ok :: "'w \<Rightarrow> bool" and val :: "'w \<Rightarrow> int" and rep :: "int \<Rightarrow> 'w"
    and bf :: "'s \<Rightarrow> 'w \<Rightarrow> 'w \<Rightarrow> 'w \<times> 'w" and ibf :: "'s \<Rightarrow> 'w \<Rightarrow> 'w \<Rightarrow> 'w \<times> 'w"
    and gm :: "'s list" and igm :: "'s list" and z :: "'s \<Rightarrow> int" and iz :: "'s \<Rightarrow> int"
    and half :: int and N :: nat
  assumes P_gt: "1 < P"
    and val_mod: "val x mod P = val x"
    and val_inj: "ok x \<Longrightarrow> ok y \<Longrightarrow> val x = val y \<Longrightarrow> x = y"
    and rep_ok: "ok (rep v)" and val_rep: "val (rep v) = v mod P"
    and bf_ok: "1 \<le> k \<Longrightarrow> k < N \<Longrightarrow> ok x \<Longrightarrow> ok y \<Longrightarrow>
      ok (fst (bf (gm ! k) x y)) \<and> ok (snd (bf (gm ! k) x y))"
    and bf_val: "1 \<le> k \<Longrightarrow> k < N \<Longrightarrow> ok x \<Longrightarrow> ok y \<Longrightarrow>
      val (fst (bf (gm ! k) x y)) = (val x + z (gm ! k) * val y) mod P \<and>
      val (snd (bf (gm ! k) x y)) = (val x - z (gm ! k) * val y) mod P"
    and ibf_ok: "1 \<le> k \<Longrightarrow> k < N \<Longrightarrow> ok x \<Longrightarrow> ok y \<Longrightarrow>
      ok (fst (ibf (igm ! k) x y)) \<and> ok (snd (ibf (igm ! k) x y))"
    and ibf_val: "1 \<le> k \<Longrightarrow> k < N \<Longrightarrow> ok x \<Longrightarrow> ok y \<Longrightarrow>
      val (fst (ibf (igm ! k) x y)) = ((val x + val y) * half) mod P \<and>
      val (snd (ibf (igm ! k) x y)) = ((val x - val y) * iz (igm ! k)) mod P"
    and half: "2 * half mod P = 1"
    and inverse: "1 \<le> k \<Longrightarrow> k < N \<Longrightarrow> 2 * z (gm ! k) * iz (igm ! k) mod P = 1"
    and root: "1 \<le> k \<Longrightarrow> k < N \<Longrightarrow>
      z (gm ! k) * z (gm ! k) mod P = node_const P (\<lambda>i. z (gm ! i)) k"
begin

lemma ibf_bf:
  assumes k: "1 \<le> k" "k < N" and xy: "ok x" "ok y"
  shows "ibf (igm ! k) (fst (bf (gm ! k) x y)) (snd (bf (gm ! k) x y)) = (x, y)"
proof -
  let ?u = "fst (bf (gm ! k) x y)" and ?v = "snd (bf (gm ! k) x y)"
  let ?z = "z (gm ! k)"
  have uv: "ok ?u" "ok ?v" using bf_ok [OF k xy] by auto
  have vals: "val ?u = (val x + ?z * val y) mod P" "val ?v = (val x - ?z * val y) mod P"
    using bf_val [OF k xy] by auto
  have "val (fst (ibf (igm ! k) ?u ?v)) = ((val x + ?z * val y) + (val x - ?z * val y)) * half mod P"
    using ibf_val [OF k uv] unfolding vals by (metis mod_add_eq mod_mult_left_eq)
  also have "\<dots> = val x * (2 * half) mod P" by (simp add: algebra_simps)
  also have "\<dots> = val x" using half val_mod [of x] by (metis mod_mult_right_eq mult.right_neutral)
  finally have 1: "fst (ibf (igm ! k) ?u ?v) = x"
    using val_inj ibf_ok [OF k uv] xy by blast
  have "val (snd (ibf (igm ! k) ?u ?v))
      = ((val x + ?z * val y) - (val x - ?z * val y)) * iz (igm ! k) mod P"
    using ibf_val [OF k uv] unfolding vals by (metis mod_diff_eq mod_mult_left_eq)
  also have "\<dots> = val y * (2 * ?z * iz (igm ! k)) mod P" by (simp add: algebra_simps)
  also have "\<dots> = val y" using inverse [OF k] val_mod [of y]
    by (metis mod_mult_right_eq mult.right_neutral)
  finally have 2: "snd (ibf (igm ! k) ?u ?v) = y"
    using val_inj ibf_ok [OF k uv] xy by blast
  from 1 2 show ?thesis by (metis prod.collapse)
qed

lemma bf_at_ok:
  assumes "length a = m * (2 * h)" "0 < h" "1 \<le> m" "2 * m \<le> N" "\<forall>x \<in> set a. ok x" "p < length a"
  shows "ok (bf_at bf gm m h a p)"
proof -
  let ?k = "p div (2 * h) + m"
  have "p div (2 * h) < m" using assms by (simp add: div_less_iff_less_mult)
  then have k: "1 \<le> ?k" "?k < N" using assms by simp_all
  have ok: "\<And>i. i < length a \<Longrightarrow> ok (a ! i)" using assms by auto
  show ?thesis
  proof (cases "p mod (2 * h) < h")
    case True
    then have "p + h < length a" using half_block_upper assms by blast
    with True k ok assms show ?thesis using bf_ok [OF k] by (simp add: bf_at_def Let_def)
  next
    case False
    with k ok assms show ?thesis using bf_ok [OF k] by (simp add: bf_at_def Let_def)
  qed
qed

lemma layer_ok:
  assumes "length a = m * (2 * h)" "0 < h" "1 \<le> m" "2 * m \<le> N" "\<forall>x \<in> set a. ok x"
  shows "\<forall>x \<in> set (bf_layer bf gm m (2 * h) h a). ok x"
proof -
  have "length (bf_layer bf gm m (2 * h) h a) = length a" using assms by simp
  then show ?thesis
    using bf_at_ok [OF assms] bf_layer_nth [OF assms(1,2), of _ bf gm] by (auto simp: in_set_conv_nth)
qed

text \<open>One inverse layer undoes the forward layer on the same blocks.\<close>

lemma layer_inverse:
  assumes a: "length a = m * (2 * h)" "0 < h" "1 \<le> m" "2 * m \<le> N" "\<forall>x \<in> set a. ok x"
  shows "bf_layer ibf igm m (2 * h) h (bf_layer bf gm m (2 * h) h a) = a"
proof (rule nth_equalityI)
  let ?b = "bf_layer bf gm m (2 * h) h a"
  have lb: "length ?b = m * (2 * h)" using a by simp
  show "length (bf_layer ibf igm m (2 * h) h ?b) = length a" using a lb by simp
  fix p assume "p < length (bf_layer ibf igm m (2 * h) h ?b)"
  then have p: "p < length a" using a lb by simp
  let ?k = "p div (2 * h) + m"
  have "p div (2 * h) < m" using a p by (simp add: less_mult_imp_div_less)
  then have k: "1 \<le> ?k" "?k < N" using a by simp_all
  have ok: "\<And>i. i < length a \<Longrightarrow> ok (a ! i)" using a by auto
  have eq: "bf_layer ibf igm m (2 * h) h ?b ! p = bf_at ibf igm m h ?b p"
    using lb a p by (intro bf_layer_nth) simp_all
  show "bf_layer ibf igm m (2 * h) h ?b ! p = a ! p"
  proof (cases "p mod (2 * h) < h")
    case True
    then have ph: "p + h < length a" using half_block_upper a p by blast
    have "(p + h) div (2 * h) = p div (2 * h)" "\<not> (p + h) mod (2 * h) < h"
      using True half_block_shift a(2) by blast+
    then have "?b ! p = fst (bf (gm ! ?k) (a ! p) (a ! (p + h)))"
      "?b ! (p + h) = snd (bf (gm ! ?k) (a ! p) (a ! (p + h)))"
      using bf_layer_nth [OF a(1,2), of p bf gm] bf_layer_nth [OF a(1,2), of "p + h" bf gm] True p ph
      by (simp_all add: bf_at_def Let_def)
    with True show ?thesis
      using ibf_bf [OF k ok [OF p] ok [OF ph]] by (simp add: eq bf_at_def Let_def)
  next
    case False
    then have ph: "h \<le> p" "p - h < length a" using half_block_lower a p by (blast, simp)
    have "(p - h) div (2 * h) = p div (2 * h)" "(p - h) mod (2 * h) < h"
      using False half_block_unshift a(2) by blast+
    then have "?b ! (p - h) = fst (bf (gm ! ?k) (a ! (p - h)) (a ! p))"
      "?b ! p = snd (bf (gm ! ?k) (a ! (p - h)) (a ! p))"
      using bf_layer_nth [OF a(1,2), of p bf gm] bf_layer_nth [OF a(1,2), of "p - h" bf gm] False p ph
      by (simp_all add: bf_at_def Let_def)
    with False show ?thesis
      using ibf_bf [OF k ok [OF ph(2)] ok [OF p]] by (simp add: eq bf_at_def Let_def)
  qed
qed

lemma fwd_state_inv:
  assumes "2 ^ logn \<le> N" "length a = 2 ^ logn" "\<forall>x \<in> set a. ok x" "c \<le> logn"
  shows "length (snd (fwd_state bf gm logn c a)) = 2 ^ logn \<and>
    (\<forall>x \<in> set (snd (fwd_state bf gm logn c a)). ok x)"
  using assms(4)
proof (induction c)
  case 0
  show ?case using assms by simp
next
  case (Suc c)
  have "2 * 2 ^ c \<le> N" using Suc.prems assms(1) power_increasing [of "Suc c" logn "2::nat"] by simp
  with Suc layer_size [of c logn] show ?case
    using layer_ok [of "snd (fwd_state bf gm logn c a)" "2 ^ c" "2 ^ (logn - 1 - c)"]
    by (simp add: fwd_state_Suc)
qed

theorem ntt_roundtrip:
  assumes "2 ^ logn \<le> N" "length a = 2 ^ logn" "\<forall>x \<in> set a. ok x"
  shows "ntt_inv ibf igm logn (ntt_fwd bf gm logn a) = a"
proof -
  have "snd (inv_state ibf igm logn c (ntt_fwd bf gm logn a)) = snd (fwd_state bf gm logn (logn - c) a)"
    if "c \<le> logn" for c
    using that
  proof (induction c)
    case 0
    show ?case by (simp add: ntt_fwd_state)
  next
    case (Suc c)
    let ?d = "logn - Suc c"
    have d: "?d < logn" "logn - c = Suc ?d" "logn - 1 - ?d = c" "logn - 1 - c = ?d"
      using Suc.prems by auto
    have "2 * 2 ^ ?d \<le> N"
      using d(1) assms(1) power_increasing [of "Suc ?d" logn "2::nat"] by simp
    then have "bf_layer ibf igm (2 ^ ?d) (2 * 2 ^ c) (2 ^ c)
        (bf_layer bf gm (2 ^ ?d) (2 * 2 ^ c) (2 ^ c) (snd (fwd_state bf gm logn ?d a)))
        = snd (fwd_state bf gm logn ?d a)"
      using fwd_state_inv [OF assms, of ?d] layer_size [of ?d logn] d
      by (intro layer_inverse) simp_all
    then show ?case
      using Suc d fwd_state_Suc [OF d(1), of bf gm a] by (simp add: inv_state_Suc)
  qed
  from this [of logn] show ?thesis by (simp add: ntt_inv_state)
qed

subsection \<open>The forward transform evaluates the polynomial\<close>

lemma layer_eval:
  assumes a: "length a = m * (2 * h)" "0 < h" "1 \<le> m" "2 * m \<le> N" "\<forall>x \<in> set a. ok x" "i < m"
    and c: "e \<le> 1" "r ^ h mod P = (if e = 0 then z (gm ! (m + i)) else - z (gm ! (m + i))) mod P"
  shows "(\<Sum>j<h. val (bf_layer bf gm m (2 * h) h a ! ((2 * i + e) * h + j)) * r ^ j) mod P
       = (\<Sum>j<2 * h. val (a ! (i * (2 * h) + j)) * r ^ j) mod P"
proof -
  let ?z = "z (gm ! (m + i))" and ?o = "i * (2 * h)"
  have k: "1 \<le> m + i" "m + i < N" using a by simp_all
  have top: "?o + 2 * h \<le> length a"
    using mult_right_mono [of "Suc i" m "2 * h"] a by simp
  have one: "val (bf_layer bf gm m (2 * h) h a ! ((2 * i + e) * h + j)) * r ^ j mod P
      = (val (a ! (?o + j)) * r ^ j + val (a ! (?o + (h + j))) * r ^ (h + j)) mod P" if j: "j < h" for j
  proof -
    let ?p = "(2 * i + e) * h + j" and ?x = "a ! (?o + j)" and ?y = "a ! (?o + (h + j))"
    have p: "?p = ?o + (e * h + j)" by (simp add: algebra_simps)
    have eh: "e * h + j < 2 * h" using c(1) j by (cases e) simp_all
    have dv: "?p div (2 * h) = i" "?p mod (2 * h) = e * h + j" unfolding p using eh by simp_all
    have lt: "?p < length a" using top eh unfolding p by simp
    have xy: "ok ?x" "ok ?y" using a(5) top j by auto
    have "val (bf_layer bf gm m (2 * h) h a ! ?p) = (val ?x + r ^ h * val ?y) mod P"
    proof (cases "e = 0")
      case True
      then have "bf_layer bf gm m (2 * h) h a ! ?p = fst (bf (gm ! (m + i)) ?x ?y)"
        using bf_layer_nth [OF a(1,2) lt, of bf gm] dv j
        by (simp add: bf_at_def Let_def p ac_simps)
      then have "val (bf_layer bf gm m (2 * h) h a ! ?p) = (val ?x + ?z * val ?y) mod P"
        using bf_val [OF k xy] by simp
      moreover have "r ^ h mod P = ?z mod P" using c(2) True by simp
      ultimately show ?thesis using mod_add_cong [OF refl [of "val ?x mod P"] mod_mult_cong [OF _ refl [of "val ?y mod P"]]]
        by metis
    next
      case False
      then have e: "e = 1" using c(1) by simp
      then have "bf_layer bf gm m (2 * h) h a ! ?p = snd (bf (gm ! (m + i)) ?x ?y)"
        using bf_layer_nth [OF a(1,2) lt, of bf gm] dv j
        by (simp add: bf_at_def Let_def p ac_simps)
      then have "val (bf_layer bf gm m (2 * h) h a ! ?p) = (val ?x + (- ?z) * val ?y) mod P"
        using bf_val [OF k xy] by simp
      moreover have "r ^ h mod P = (- ?z) mod P" using c(2) e by simp
      ultimately show ?thesis using mod_add_cong [OF refl [of "val ?x mod P"] mod_mult_cong [OF _ refl [of "val ?y mod P"]]]
        by metis
    qed
    then have "val (bf_layer bf gm m (2 * h) h a ! ?p) * r ^ j mod P = (val ?x + r ^ h * val ?y) * r ^ j mod P"
      by (metis mod_mult_left_eq)
    also have "(val ?x + r ^ h * val ?y) * r ^ j = val ?x * r ^ j + val ?y * r ^ (h + j)"
      by (simp add: algebra_simps power_add)
    finally show ?thesis .
  qed
  have "(\<Sum>j<h. val (bf_layer bf gm m (2 * h) h a ! ((2 * i + e) * h + j)) * r ^ j) mod P
      = (\<Sum>j<h. val (a ! (?o + j)) * r ^ j + val (a ! (?o + (h + j))) * r ^ (h + j)) mod P"
    by (subst (1 2) mod_sum_eq [symmetric]) (simp add: one)
  also have "\<dots> = (\<Sum>j<h + h. val (a ! (?o + j)) * r ^ j) mod P"
    by (simp only: sum.distrib sum_halves)
  finally show ?thesis by (simp add: mult_2)
qed

lemma child_const:
  assumes "1 \<le> k" "k < N" "e \<le> 1" "w mod P = node_const P (\<lambda>i. z (gm ! i)) (2 * k + e)"
  shows "w mod P = (if e = 0 then z (gm ! k) else - z (gm ! k)) mod P"
    and "w * w mod P = node_const P (\<lambda>i. z (gm ! i)) k"
proof -
  have e: "e = 0 \<or> e = 1" using assms(3) by auto
  show 1: "w mod P = (if e = 0 then z (gm ! k) else - z (gm ! k)) mod P"
    using e assms(1,4) by (auto simp: node_const_def)
  have "w * w mod P = (w mod P) * (w mod P) mod P" by (simp add: mod_mult_eq)
  also have "\<dots> = z (gm ! k) * z (gm ! k) mod P" unfolding 1 using e by (auto simp: mod_mult_eq)
  finally show "w * w mod P = node_const P (\<lambda>i. z (gm ! i)) k" using root assms by simp
qed

lemma fwd_eval:
  assumes a: "2 ^ logn \<le> N" "length a = 2 ^ logn" "\<forall>x \<in> set a. ok x"
    and "c \<le> logn" "i < 2 ^ c"
    and "r ^ (2 ^ (logn - c)) mod P = node_const P (\<lambda>i. z (gm ! i)) (2 ^ c + i)"
  shows "(\<Sum>j<2 ^ (logn - c). val (snd (fwd_state bf gm logn c a) ! (i * 2 ^ (logn - c) + j)) * r ^ j) mod P
       = (\<Sum>j<2 ^ logn. val (a ! j) * r ^ j) mod P"
  using assms(4-6)
proof (induction c arbitrary: i)
  case 0
  then show ?case by simp
next
  case (Suc c)
  obtain i' e where i: "i = 2 * i' + e" "i' < 2 ^ c" "e \<le> 1"
    using Suc.prems(2) by (intro that [of "i div 2" "i mod 2"]) auto
  let ?h = "2 ^ (logn - 1 - c) :: nat"
  let ?s = "snd (fwd_state bf gm logn c a)"
  have h: "(2::nat) ^ (logn - c) = 2 * ?h" "logn - Suc c = logn - 1 - c" "c < logn"
    using Suc.prems by (simp_all add: Suc_diff_Suc flip: power_Suc)
  have "2 * 2 ^ c \<le> N" using h(3) a(1) power_increasing [of "Suc c" logn "2::nat"] by simp
  then have k: "1 \<le> 2 ^ c + i'" "2 ^ c + i' < N" "2 * 2 ^ c \<le> N" using i by simp_all
  have s: "length ?s = 2 ^ c * (2 * ?h)" "\<forall>x \<in> set ?s. ok x"
    using fwd_state_inv [OF a, of c] layer_size h(3) by simp_all
  have node: "2 ^ Suc c + i = 2 * (2 ^ c + i') + e" using i(1) by simp
  have w: "r ^ ?h mod P = node_const P (\<lambda>i. z (gm ! i)) (2 * (2 ^ c + i') + e)"
    using Suc.prems(3) unfolding node h(2) by simp
  note ch = child_const [OF k(1,2) i(3) w]
  have "r ^ (2 ^ (logn - c)) mod P = node_const P (\<lambda>i. z (gm ! i)) (2 ^ c + i')"
    using ch(2) unfolding h(1) mult_2 power_add by simp
  then have IH: "(\<Sum>j<2 * ?h. val (?s ! (i' * (2 * ?h) + j)) * r ^ j) mod P
      = (\<Sum>j<2 ^ logn. val (a ! j) * r ^ j) mod P"
    using Suc.IH [of i'] i(2) h(1,3) by simp
  show ?case
    unfolding h(2) fwd_state_Suc [OF h(3)]
    using layer_eval [OF s(1) _ _ k(3) s(2) i(2) i(3) ch(1)] IH i(1) by simp
qed

lemma leaf_root:
  assumes "2 ^ logn \<le> N" "c \<le> logn" "i < 2 ^ c"
  shows "node_const P (\<lambda>i. z (gm ! i)) (2 ^ c + i) ^ (2 ^ c) mod P = (- 1) mod P"
  using assms(2,3)
proof (induction c arbitrary: i)
  case 0
  then show ?case by (simp add: node_const_def)
next
  case (Suc c)
  obtain i' e where i: "i = 2 * i' + e" "i' < 2 ^ c" "e \<le> 1"
    using Suc.prems(2) by (intro that [of "i div 2" "i mod 2"]) auto
  let ?w = "node_const P (\<lambda>i. z (gm ! i)) (2 ^ Suc c + i)"
  have "2 * 2 ^ c \<le> N" using Suc.prems assms(1) power_increasing [of "Suc c" logn "2::nat"] by simp
  then have k: "1 \<le> 2 ^ c + i'" "2 ^ c + i' < N" using i by simp_all
  have node: "2 ^ Suc c + i = 2 * (2 ^ c + i') + e" using i(1) by simp
  have "?w mod P = node_const P (\<lambda>i. z (gm ! i)) (2 * (2 ^ c + i') + e)"
    unfolding node by (simp add: node_const_def)
  then have sq: "?w * ?w mod P = node_const P (\<lambda>i. z (gm ! i)) (2 ^ c + i')"
    using child_const(2) [OF k i(3)] by blast
  have "?w ^ (2 ^ Suc c) mod P = (?w * ?w) ^ (2 ^ c) mod P" by (simp add: power_mult power2_eq_square)
  also have "\<dots> = (?w * ?w mod P) ^ (2 ^ c) mod P" by (simp only: power_mod)
  also have "\<dots> = (- 1) mod P" unfolding sq using Suc i by simp
  finally show ?case .
qed

theorem ntt_eval:
  assumes "2 ^ logn \<le> N" "length a = 2 ^ logn" "\<forall>x \<in> set a. ok x" "i < 2 ^ logn"
  shows "val (ntt_fwd bf gm logn a ! i)
    = (\<Sum>j<2 ^ logn. val (a ! j) * node_const P (\<lambda>i. z (gm ! i)) (2 ^ logn + i) ^ j) mod P"
  using fwd_eval [OF assms(1-3) order.refl assms(4), of "node_const P (\<lambda>i. z (gm ! i)) (2 ^ logn + i)"] val_mod
  by (simp add: ntt_fwd_state node_const_def)

lemma ntt_fwd_keeps:
  assumes "2 ^ logn \<le> N" "length a = 2 ^ logn" "\<forall>x \<in> set a. ok x"
  shows "length (ntt_fwd bf gm logn a) = 2 ^ logn" and "\<forall>x \<in> set (ntt_fwd bf gm logn a). ok x"
  using fwd_state_inv [OF assms order.refl] by (simp_all add: ntt_fwd_state)

text \<open>The transforms are bijections of the arrays in range, so the forward loop also undoes
  the inverse loop.\<close>

lemma ntt_surj:
  assumes "2 ^ logn \<le> N" "length c = 2 ^ logn" "\<forall>x \<in> set c. ok x"
  shows "\<exists>a. length a = 2 ^ logn \<and> (\<forall>x \<in> set a. ok x) \<and> ntt_fwd bf gm logn a = c"
proof -
  let ?S = "{xs. set xs \<subseteq> {x. ok x} \<and> length xs = 2 ^ logn}"
  have "0 \<le> val x \<and> val x < P" for x
    using val_mod [of x] P_gt pos_mod_bound [of P "val x"] pos_mod_sign [of P "val x"] by simp
  then have "val ` {x. ok x} \<subseteq> {0..<P}" by auto
  then have "finite {x. ok x}"
    using val_inj by (intro finite_imageD [of val] inj_onI) (auto intro: finite_subset)
  then have fin: "finite ?S" by (rule finite_lists_length_eq)
  have mem: "xs \<in> ?S \<longleftrightarrow> length xs = 2 ^ logn \<and> (\<forall>x \<in> set xs. ok x)" for xs by auto
  have "inj_on (ntt_fwd bf gm logn) ?S"
    by (rule inj_on_inverseI [where g = "ntt_inv ibf igm logn"]) (use ntt_roundtrip assms(1) mem in blast)
  moreover have "ntt_fwd bf gm logn ` ?S \<subseteq> ?S"
    using ntt_fwd_keeps [OF assms(1)] mem by blast
  ultimately have "ntt_fwd bf gm logn ` ?S = ?S" using fin by (intro endo_inj_surj)
  then have "c \<in> ntt_fwd bf gm logn ` ?S" using assms mem by simp
  then obtain a where "a \<in> ?S" "ntt_fwd bf gm logn a = c" by blast
  then show ?thesis using mem by blast
qed

theorem ntt_roundtrip_inv:
  assumes "2 ^ logn \<le> N" "length c = 2 ^ logn" "\<forall>x \<in> set c. ok x"
  shows "ntt_fwd bf gm logn (ntt_inv ibf igm logn c) = c"
    and "length (ntt_inv ibf igm logn c) = 2 ^ logn" and "\<forall>x \<in> set (ntt_inv ibf igm logn c). ok x"
  using ntt_surj [OF assms] ntt_roundtrip [OF assms(1)] by auto

theorem ntt_product:
  assumes n: "2 ^ logn \<le> N"
    and a: "length a = 2 ^ logn" "\<forall>x \<in> set a. ok x" and b: "length b = 2 ^ logn" "\<forall>x \<in> set b. ok x"
    and c: "length c = 2 ^ logn" "\<forall>x \<in> set c. ok x"
    and prod: "\<And>i. i < 2 ^ logn \<Longrightarrow>
      val (c ! i) = val (ntt_fwd bf gm logn a ! i) * val (ntt_fwd bf gm logn b ! i) mod P"
    and k: "k < 2 ^ logn"
  shows "val (ntt_inv ibf igm logn c ! k)
    = negconv (2 ^ logn) (\<lambda>i. val (a ! i)) (\<lambda>i. val (b ! i)) k mod P"
proof -
  let ?n = "2 ^ logn :: nat" and ?f = "\<lambda>i. val (a ! i)" and ?g = "\<lambda>i. val (b ! i)"
  let ?d = "map (\<lambda>k. rep (negconv ?n ?f ?g k)) [0..<?n]"
  have d: "length ?d = ?n" "\<forall>x \<in> set ?d. ok x" by (auto simp: rep_ok)
  have "val (ntt_fwd bf gm logn ?d ! i) = val (c ! i)" if i: "i < ?n" for i
  proof -
    let ?r = "node_const P (\<lambda>i. z (gm ! i)) (2 ^ logn + i)"
    have "val (ntt_fwd bf gm logn ?d ! i) = (\<Sum>j<?n. negconv ?n ?f ?g j mod P * ?r ^ j) mod P"
      using ntt_eval [OF n d i] by (simp add: val_rep)
    also have "\<dots> = (\<Sum>j<?n. negconv ?n ?f ?g j * ?r ^ j) mod P"
      by (subst (1 2) mod_sum_eq [symmetric]) (simp add: mod_mult_left_eq)
    also have "\<dots> = ((\<Sum>j<?n. ?f j * ?r ^ j) * (\<Sum>j<?n. ?g j * ?r ^ j)) mod P"
      by (rule negconv_eval) (use leaf_root [OF n order.refl i] in simp)
    also have "\<dots> = val (c ! i)"
      unfolding prod [OF i] ntt_eval [OF n a i] ntt_eval [OF n b i] by (simp add: mod_mult_eq)
    finally show ?thesis .
  qed
  then have "ntt_fwd bf gm logn ?d = c"
    using c ntt_fwd_keeps [OF n d] val_inj by (intro nth_equalityI) (auto simp: all_set_conv_all_nth)
  then have "ntt_inv ibf igm logn c = ?d" using ntt_roundtrip [OF n d] by simp
  then show ?thesis using k by (simp add: val_rep)
qed

end

end
