(* ===== verification/NttRing.thy ===== *)
theory NttRing
  imports Ntt
begin

text \<open>
  The ring \<open>Z_P[X]/(X^n + 1)\<close> seen through the transform: a polynomial is determined modulo \<open>P\<close> by its values at the
  roots the butterflies use, and the product of the ring is the product of these values. Identities of the ring then
  are identities of numbers.
\<close>

definition poly_ev :: "nat \<Rightarrow> (nat \<Rightarrow> int) \<Rightarrow> int \<Rightarrow> int" where
  "poly_ev n f r = (\<Sum>j<n. f j * r ^ j)"

lemma poly_ev_cong: "(\<And>k. k < n \<Longrightarrow> f k mod P = g k mod P) \<Longrightarrow> poly_ev n f r mod P = poly_ev n g r mod P"
  unfolding poly_ev_def by (intro sum_mod_cong mod_mult_cong refl) simp

lemma poly_ev_add: "poly_ev n (\<lambda>k. f k + g k) r = poly_ev n f r + poly_ev n g r"
  by (simp add: poly_ev_def algebra_simps sum.distrib)

lemma poly_ev_minus: "poly_ev n (\<lambda>k. - f k) r = - poly_ev n f r"
  by (simp add: poly_ev_def sum_negf)

lemma poly_ev_diff: "poly_ev n (\<lambda>k. f k - g k) r = poly_ev n f r - poly_ev n g r"
  by (simp add: poly_ev_def algebra_simps sum_subtractf)

lemma poly_ev_const: "0 < n \<Longrightarrow> poly_ev n (\<lambda>k. if k = 0 then c else 0) r = c"
  unfolding poly_ev_def by (subst sum.cong [OF refl, of _ _ "\<lambda>k. if k = 0 then c else 0"]) auto

context butterfly
begin

lemma ev_negconv:
  assumes "2 ^ logn \<le> N" "i < 2 ^ logn"
  defines "r \<equiv> node_const P (\<lambda>i. z (gm ! i)) (2 ^ logn + i)"
  shows "poly_ev (2 ^ logn) (negconv (2 ^ logn) f g) r mod P = poly_ev (2 ^ logn) f r * poly_ev (2 ^ logn) g r mod P"
  unfolding poly_ev_def r_def by (rule negconv_eval) (rule leaf_root [OF assms(1) order.refl assms(2)])

lemma ev_inj:
  assumes n: "2 ^ logn \<le> N"
    and e: "\<And>i. i < 2 ^ logn \<Longrightarrow> poly_ev (2 ^ logn) f (node_const P (\<lambda>i. z (gm ! i)) (2 ^ logn + i)) mod P
      = poly_ev (2 ^ logn) g (node_const P (\<lambda>i. z (gm ! i)) (2 ^ logn + i)) mod P"
    and k: "k < 2 ^ logn"
  shows "f k mod P = g k mod P"
proof -
  define l where "l h = map (\<lambda>k. rep (h k)) [0..<2 ^ logn]" for h
  have l: "length (l h) = 2 ^ logn" "\<forall>x \<in> set (l h). ok x" for h by (auto simp: l_def rep_ok)
  have v: "val (ntt_fwd bf gm logn (l h) ! i) = poly_ev (2 ^ logn) h (node_const P (\<lambda>i. z (gm ! i)) (2 ^ logn + i)) mod P"
    if i: "i < 2 ^ logn" for h i
  proof -
    have "val (ntt_fwd bf gm logn (l h) ! i) =
        poly_ev (2 ^ logn) (\<lambda>j. val (l h ! j)) (node_const P (\<lambda>i. z (gm ! i)) (2 ^ logn + i)) mod P"
      unfolding poly_ev_def by (rule ntt_eval [OF n l i])
    also have "\<dots> = poly_ev (2 ^ logn) h (node_const P (\<lambda>i. z (gm ! i)) (2 ^ logn + i)) mod P"
      by (rule poly_ev_cong) (simp add: l_def val_rep)
    finally show ?thesis .
  qed
  have "ntt_fwd bf gm logn (l f) = ntt_fwd bf gm logn (l g)"
    using ntt_fwd_keeps [OF n l] v e val_inj by (intro nth_equalityI) (auto simp: all_set_conv_all_nth)
  then have "l f = l g" using ntt_roundtrip [OF n l] by metis
  then have "l f ! k = l g ! k" by simp
  from arg_cong [OF this, of val] show ?thesis using k by (simp add: l_def val_rep)
qed

end

end
