(* ===== verification/MqPoly.thy ===== *)
theory MqPoly
  imports MqTables NttRing
begin

unbundle bit_operations_syntax

text \<open>
  Polynomials modulo \<open>X^n + 1\<close> and \<open>q = 12289\<close> (\<^verbatim>\<open>mq.go\<close>): conversions between the small,
  signed, external, internal and transformed representations, the pointwise operations, the
  invertibility test and the norms. A polynomial is the slice the source holds, a list of
  16-bit words; the conversions are shown to keep the residues, the transform pair is an
  instance of the butterfly contract, and pointwise products and quotients are products and
  quotients in the ring.
\<close>

section \<open>The operations\<close>

definition mqpoly_small_to_int :: "nat \<Rightarrow> i8 list \<Rightarrow> u16 list \<Rightarrow> u16 list" where
  "mqpoly_small_to_int logn f d =
     for_upd (2 ^ logn) (\<lambda>i _. let x = - (scast (f ! i) :: u32);
                                    x = x + (q AND drop_bit 16 x)
                                in ucast (q - x)) d"

definition mqpoly_int_to_small :: "nat \<Rightarrow> u16 list \<Rightarrow> i8 list \<Rightarrow> bool \<times> i8 list" where
  "mqpoly_int_to_small logn d f =
     (let (ov, f) = fold (\<lambda>i (ov :: u32, f). let x = mq_add (ucast (d ! i)) 128
                             in (ov OR drop_bit 8 x, f[i := ucast (x - 128)]))
                      [0..<2 ^ logn] (0, f)
      in (ov = 0, f))"

definition mqpoly_signed_to_int :: "nat \<Rightarrow> i16 list \<Rightarrow> u16 list \<Rightarrow> u16 list" where
  "mqpoly_signed_to_int logn f d =
     for_upd (2 ^ logn) (\<lambda>i _. let x = - (scast (f ! i) :: u32);
                                    x = x + (q AND drop_bit 16 x)
                                in ucast (q - x)) d"

definition mqpoly_ext_to_int :: "nat \<Rightarrow> u16 list \<Rightarrow> u16 list" where
  "mqpoly_ext_to_int logn a =
     for_upd (2 ^ logn) (\<lambda>i v. let x = (ucast v :: u32)
                                in ucast (x + (q AND drop_bit 16 (x - 1)))) a"

definition mqpoly_int_to_ext :: "nat \<Rightarrow> u16 list \<Rightarrow> u16 list" where
  "mqpoly_int_to_ext logn a =
     for_upd (2 ^ logn) (\<lambda>i v. let x = (ucast v :: u32) - q
                                in ucast (x + (q AND drop_bit 16 x))) a"

text \<open>The bodies of the two transform loops, on the pair of elements they exchange.\<close>

definition mq_bf :: "u16 \<Rightarrow> u16 \<Rightarrow> u16 \<Rightarrow> u16 \<times> u16" where
  "mq_bf s y1 y2 =
     (let s = ucast s; x1 = ucast y1; x2 = mq_mmul (ucast y2) s
      in (ucast (mq_add x1 x2), ucast (mq_sub x1 x2)))"

definition mq_ibf :: "u16 \<Rightarrow> u16 \<Rightarrow> u16 \<Rightarrow> u16 \<times> u16" where
  "mq_ibf s y1 y2 =
     (let s = ucast s; x1 = ucast y1; x2 = ucast y2
      in (ucast (mq_half (mq_add x1 x2)), ucast (mq_mmul (mq_sub x1 x2) s)))"

definition mqpoly_int_to_ntt :: "nat \<Rightarrow> u16 list \<Rightarrow> u16 list" where
  "mqpoly_int_to_ntt logn a = (if logn = 0 then a else ntt_fwd mq_bf mqgm logn a)"

definition mqpoly_ntt_to_int :: "nat \<Rightarrow> u16 list \<Rightarrow> u16 list" where
  "mqpoly_ntt_to_int logn a = (if logn = 0 then a else ntt_inv mq_ibf mqigm logn a)"

definition mqpoly_mul_ntt :: "nat \<Rightarrow> u16 list \<Rightarrow> u16 list \<Rightarrow> u16 list" where
  "mqpoly_mul_ntt logn a b =
     for_upd (2 ^ logn) (\<lambda>i v. ucast (mq_mmul (mq_mmul (ucast v) (ucast (b ! i))) r2)) a"

definition mqpoly_div_ntt :: "nat \<Rightarrow> u16 list \<Rightarrow> u16 list \<Rightarrow> bool \<times> u16 list" where
  "mqpoly_div_ntt logn a b =
     (let (r, a) = fold (\<lambda>i (r :: u32, a). (r AND (ucast (b ! i) - q),
                                       a[i := ucast (mq_div (ucast (a ! i)) (ucast (b ! i)))]))
                     [0..<2 ^ logn] (0xFFFFFFFF, a)
      in (drop_bit 31 r \<noteq> 0, a))"

definition mqpoly_sub_int :: "nat \<Rightarrow> u16 list \<Rightarrow> u16 list \<Rightarrow> u16 list" where
  "mqpoly_sub_int logn a b =
     for_upd (2 ^ logn) (\<lambda>i v. ucast (mq_sub (ucast v) (ucast (b ! i)))) a"

definition mqpoly_is_invertible :: "nat \<Rightarrow> i8 list \<Rightarrow> u16 list \<Rightarrow> bool \<times> u16 list" where
  "mqpoly_is_invertible logn f tmp =
     (let tmp = mqpoly_small_to_int logn f tmp;
          tmp = mqpoly_int_to_ntt logn tmp;
          r = fold (\<lambda>i r :: u32. r AND (ucast (tmp ! i) - q)) [0..<2 ^ logn] 0xFFFFFFFF
      in (drop_bit 16 r \<noteq> 0, tmp))"

definition mqpoly_sqnorm :: "nat \<Rightarrow> u16 list \<Rightarrow> u32" where
  "mqpoly_sqnorm logn a =
     (let (s, sat) = fold (\<lambda>i (s :: u32, sat :: u32).
                          let x = ucast (a ! i);
                              m = drop_bit 16 (drop_bit 1 (q - 1) - x);
                              y = x - (m AND q);
                              s = s + y * y
                          in (s, sat OR s))
                       [0..<2 ^ logn] (0, 0)
      in s OR - drop_bit 31 sat)"

definition signed_poly_sqnorm :: "nat \<Rightarrow> i16 list \<Rightarrow> u32" where
  "signed_poly_sqnorm logn a =
     fold (\<lambda>i s. let x = scast (a ! i) in s + x * x) [0..<2 ^ logn] 0"

definition sqbeta :: "u32 list" where
  "sqbeta = [0, 101498, 208714, 428865, 892039, 1852696, 3842630, 7959734, 16468416,
    34034726, 70265242]"

text \<open>Indexing the 11-element array panics beyond \<open>logn = 10\<close>.\<close>

definition mqpoly_sqnorm_is_acceptable :: "nat \<Rightarrow> u32 \<Rightarrow> bool" where
  "mqpoly_sqnorm_is_acceptable logn sqn \<longleftrightarrow> sqn \<le> sqbeta ! logn"

section \<open>Residues and ranges of 16-bit elements\<close>

definition mq16_ok :: "u16 \<Rightarrow> bool" where
  "mq16_ok x \<longleftrightarrow> 1 \<le> uint x \<and> uint x \<le> 12289"

definition mq16_val :: "u16 \<Rightarrow> int" where
  "mq16_val x = uint x mod 12289"

definition mq16_rep :: "int \<Rightarrow> u16" where
  "mq16_rep v = word_of_int (if v mod 12289 = 0 then 12289 else v mod 12289)"

lemma uint_ucast_16_32 [simp]: "uint (ucast x :: u32) = uint x" for x :: u16
  by (simp add: unsigned_ucast_eq take_bit_int_eq_self uint_lt2p [of x, THEN order.strict_trans])

lemma uint_ucast_32_16: "uint x < 65536 \<Longrightarrow> uint (ucast x :: u16) = uint x" for x :: u32
  by (simp add: unsigned_ucast_eq take_bit_int_eq_self)

lemma mq16_ok_wide [simp]: "mq_ok (ucast x) \<longleftrightarrow> mq16_ok x"
  by (simp add: mq_ok_def mq16_ok_def)

lemma mq16_val_wide [simp]: "mq_val (ucast x) = mq16_val x"
  by (simp add: mq_val_def mq16_val_def)

lemma mq_narrow [simp]:
  assumes "mq_ok x"
  shows "uint (ucast x :: u16) = uint x" "mq16_ok (ucast x)" "mq16_val (ucast x) = mq_val x"
  using assms uint_ucast_32_16 [of x] by (simp_all add: mq_ok_def mq16_ok_def mq_val_def mq16_val_def)

lemma mq16_val_inj: "mq16_ok x \<Longrightarrow> mq16_ok y \<Longrightarrow> mq16_val x = mq16_val y \<Longrightarrow> x = y"
  using mq_val_inj [of "ucast x" "ucast y"] by (simp add: word_uint_eq_iff)

lemma mq16_rep_uint: "uint (mq16_rep v) = (if v mod 12289 = 0 then 12289 else v mod 12289)"
proof -
  have "0 \<le> v mod 12289" "v mod 12289 < 12289" by simp_all
  then show ?thesis by (simp add: mq16_rep_def uint_word_of_int)
qed

lemma mq16_rep_ok: "mq16_ok (mq16_rep v)" and mq16_rep_val: "mq16_val (mq16_rep v) = v mod 12289"
proof -
  define w where "w = v mod 12289"
  have "0 \<le> w" "w < 12289" by (simp_all add: w_def)
  then show "mq16_ok (mq16_rep v)" unfolding mq16_ok_def mq16_rep_uint w_def [symmetric] by simp
  show "mq16_val (mq16_rep v) = v mod 12289" by (simp add: mq16_val_def mq16_rep_uint)
qed

definition mq_poly :: "nat \<Rightarrow> u16 list \<Rightarrow> bool" where
  "mq_poly logn a \<longleftrightarrow> length a = 2 ^ logn \<and> list_all mq16_ok a"

lemma mq_polyD: "mq_poly logn a \<Longrightarrow> length a = 2 ^ logn" "mq_poly logn a \<Longrightarrow> \<forall>x \<in> set a. mq16_ok x"
  by (simp_all add: mq_poly_def list_all_iff)

lemma mq_poly_nth: "mq_poly logn a \<Longrightarrow> i < 2 ^ logn \<Longrightarrow> mq16_ok (a ! i)"
  by (simp add: mq_poly_def list_all_length)

lemma mq_polyI: "length a = 2 ^ logn \<Longrightarrow> (\<And>i. i < 2 ^ logn \<Longrightarrow> mq16_ok (a ! i)) \<Longrightarrow> mq_poly logn a"
  by (simp add: mq_poly_def list_all_length)

section \<open>The transforms as an instance of the butterfly contract\<close>

definition mq_twiddle :: "u16 \<Rightarrow> int" where
  "mq_twiddle s = uint s * 11857"

lemma mq_bf_spec:
  assumes "mq16_ok s" "mq16_ok x" "mq16_ok y"
  shows "mq16_ok (fst (mq_bf s x y)) \<and> mq16_ok (snd (mq_bf s x y))"
    and "mq16_val (fst (mq_bf s x y)) = (mq16_val x + mq_twiddle s * mq16_val y) mod 12289 \<and>
         mq16_val (snd (mq_bf s x y)) = (mq16_val x - mq_twiddle s * mq16_val y) mod 12289"
proof -
  have "mq_val (mq_mmul (ucast y) (ucast s)) = mq16_val y * (uint s mod 12289) * 11857 mod 12289"
    using assms by (simp add: mq_mmul_val mq16_val_def [of s])
  also have "\<dots> = mq16_val y * uint s * 11857 mod 12289" by (rule mod_mult_mid)
  finally have "mq_val (mq_mmul (ucast y) (ucast s)) = mq_twiddle s * mq16_val y mod 12289"
    by (simp add: mq_twiddle_def ac_simps)
  then show "mq16_ok (fst (mq_bf s x y)) \<and> mq16_ok (snd (mq_bf s x y))"
    and "mq16_val (fst (mq_bf s x y)) = (mq16_val x + mq_twiddle s * mq16_val y) mod 12289 \<and>
         mq16_val (snd (mq_bf s x y)) = (mq16_val x - mq_twiddle s * mq16_val y) mod 12289"
    using assms by (simp_all add: mq_bf_def Let_def mod_add_right_eq mod_diff_right_eq)
qed

lemma mq_ibf_spec:
  assumes "mq16_ok s" "mq16_ok x" "mq16_ok y"
  shows "mq16_ok (fst (mq_ibf s x y)) \<and> mq16_ok (snd (mq_ibf s x y))"
    and "mq16_val (fst (mq_ibf s x y)) = ((mq16_val x + mq16_val y) * 6145) mod 12289 \<and>
         mq16_val (snd (mq_ibf s x y)) = ((mq16_val x - mq16_val y) * mq_twiddle s) mod 12289"
proof -
  show "mq16_ok (fst (mq_ibf s x y)) \<and> mq16_ok (snd (mq_ibf s x y))"
    using assms by (simp add: mq_ibf_def Let_def)
  have "mq16_val (snd (mq_ibf s x y)) = ((mq16_val x - mq16_val y) mod 12289) * (uint s mod 12289) * 11857 mod 12289"
    using assms by (simp add: mq_ibf_def Let_def mq_mmul_val mq16_val_def [of s])
  also have "\<dots> = (mq16_val x - mq16_val y) * uint s * 11857 mod 12289" by (rule mod_mult_mods3)
  finally show "mq16_val (fst (mq_ibf s x y)) = ((mq16_val x + mq16_val y) * 6145) mod 12289 \<and>
         mq16_val (snd (mq_ibf s x y)) = ((mq16_val x - mq16_val y) * mq_twiddle s) mod 12289"
    using assms by (simp add: mq_ibf_def Let_def mq_half_val mod_mult_left_eq mq_twiddle_def mult.assoc)
qed

lemma mq_twiddle_inverse: "k < 1024 \<Longrightarrow> 2 * mq_twiddle (mqgm ! k) * mq_twiddle (mqigm ! k) mod 12289 = 1"
proof -
  assume k: "k < 1024"
  have "2 * mq_twiddle (mqgm ! k) * mq_twiddle (mqigm ! k)
      = uint (mqgm ! k) * uint (mqigm ! k) * (2 * 11857 * 11857)" by (simp add: mq_twiddle_def)
  also have "\<dots> mod 12289 = uint (mqgm ! k) * uint (mqigm ! k) mod 12289 * (2 * 11857 * 11857) mod 12289"
    by (simp only: mod_mult_left_eq)
  finally show ?thesis using mq_tables_nth(5) [OF k] by simp
qed

lemma mq_twiddle_root:
  assumes "1 \<le> k" "k < 1024"
  shows "mq_twiddle (mqgm ! k) * mq_twiddle (mqgm ! k) mod 12289 = node_const 12289 (\<lambda>i. mq_twiddle (mqgm ! i)) k"
proof (cases "k = 1")
  case True
  then show ?thesis using mqgm_first by (simp add: node_const_def mq_twiddle_def)
next
  case False
  let ?g = "uint (mqgm ! k)" and ?p = "if even k then uint (mqgm ! (k div 2)) else - uint (mqgm ! (k div 2))"
  obtain c where c: "?g * ?g - ?p * 10952 = 12289 * c"
    using mqgm_square [of k] assms False by (auto elim: dvdE)
  have "mq_twiddle (mqgm ! k) * mq_twiddle (mqgm ! k) = (?g * ?g) * (11857 * 11857)"
    by (simp add: mq_twiddle_def)
  also have "?g * ?g = ?p * 10952 + 12289 * c" using c by linarith
  finally have "mq_twiddle (mqgm ! k) * mq_twiddle (mqgm ! k)
      = ?p * 11857 + 12289 * (?p * 125292919 + c * (11857 * 11857))" by (simp add: algebra_simps)
  then have "mq_twiddle (mqgm ! k) * mq_twiddle (mqgm ! k) mod 12289 = ?p * 11857 mod 12289"
    by (rule mod_eqI)
  then show ?thesis using False by (simp add: node_const_def mq_twiddle_def)
qed

interpretation mq: butterfly 12289 mq16_ok mq16_val mq16_rep mq_bf mq_ibf mqgm mqigm mq_twiddle mq_twiddle 6145 1024
proof
  fix k :: nat and x y :: u16 and v :: int
  show "mq16_val x mod 12289 = mq16_val x" by (simp add: mq16_val_def)
  show "mq16_ok x \<Longrightarrow> mq16_ok y \<Longrightarrow> mq16_val x = mq16_val y \<Longrightarrow> x = y" by (rule mq16_val_inj)
  show "mq16_ok (mq16_rep v)" by (rule mq16_rep_ok)
  show "mq16_val (mq16_rep v) = v mod 12289" by (rule mq16_rep_val)
  assume k: "1 \<le> k" "k < 1024"
  have s: "mq16_ok (mqgm ! k)" "mq16_ok (mqigm ! k)" using mq_tables_nth [OF k(2)] by (simp_all add: mq16_ok_def)
  show "2 * mq_twiddle (mqgm ! k) * mq_twiddle (mqigm ! k) mod 12289 = 1" using k(2) by (rule mq_twiddle_inverse)
  show "mq_twiddle (mqgm ! k) * mq_twiddle (mqgm ! k) mod 12289 = node_const 12289 (\<lambda>i. mq_twiddle (mqgm ! i)) k"
    using k by (rule mq_twiddle_root)
  assume "mq16_ok x" "mq16_ok y"
  note bf = mq_bf_spec [OF s(1) this] mq_ibf_spec [OF s(2) this]
  show "mq16_ok (fst (mq_bf (mqgm ! k) x y)) \<and> mq16_ok (snd (mq_bf (mqgm ! k) x y))" by (rule bf)
  show "mq16_val (fst (mq_bf (mqgm ! k) x y)) = (mq16_val x + mq_twiddle (mqgm ! k) * mq16_val y) mod 12289 \<and>
    mq16_val (snd (mq_bf (mqgm ! k) x y)) = (mq16_val x - mq_twiddle (mqgm ! k) * mq16_val y) mod 12289" by (rule bf)
  show "mq16_ok (fst (mq_ibf (mqigm ! k) x y)) \<and> mq16_ok (snd (mq_ibf (mqigm ! k) x y))" by (rule bf)
  show "mq16_val (fst (mq_ibf (mqigm ! k) x y)) = (mq16_val x + mq16_val y) * 6145 mod 12289 \<and>
    mq16_val (snd (mq_ibf (mqigm ! k) x y)) = (mq16_val x - mq16_val y) * mq_twiddle (mqigm ! k) mod 12289" by (rule bf)
qed simp_all

lemmas mq_transform_def = mqpoly_int_to_ntt_def mqpoly_ntt_to_int_def

lemma ntt_logn_0: "ntt_fwd bf gm 0 a = a" "ntt_inv ibf igm 0 a = a"
  by (simp_all add: ntt_fwd_def ntt_inv_def)

lemma mqpoly_int_to_ntt_eq: "mqpoly_int_to_ntt logn a = ntt_fwd mq_bf mqgm logn a"
  and mqpoly_ntt_to_int_eq: "mqpoly_ntt_to_int logn a = ntt_inv mq_ibf mqigm logn a"
  by (cases "logn = 0"; simp add: mq_transform_def ntt_logn_0)+

lemma logn_le_1024: "logn \<le> 10 \<Longrightarrow> (2::nat) ^ logn \<le> 1024"
  using power_increasing [of logn 10 "2::nat"] by simp

lemma mq_poly_ntt:
  assumes "logn \<le> 10" "mq_poly logn a"
  shows "mq_poly logn (mqpoly_int_to_ntt logn a)"
  using mq.ntt_fwd_keeps [OF logn_le_1024 [OF assms(1)] mq_polyD [OF assms(2)]]
  by (simp add: mq_poly_def list_all_iff mqpoly_int_to_ntt_eq)

lemma mq_poly_intt:
  assumes "logn \<le> 10" "mq_poly logn a"
  shows "mq_poly logn (mqpoly_ntt_to_int logn a)"
  using mq.ntt_roundtrip_inv(2,3) [OF logn_le_1024 [OF assms(1)] mq_polyD [OF assms(2)]]
  by (simp add: mq_poly_def list_all_iff mqpoly_ntt_to_int_eq)

lemma mq_intt_ntt:
  assumes "logn \<le> 10" "mq_poly logn a"
  shows "mqpoly_ntt_to_int logn (mqpoly_int_to_ntt logn a) = a"
    and "mqpoly_int_to_ntt logn (mqpoly_ntt_to_int logn a) = a"
  using mq.ntt_roundtrip [OF logn_le_1024 [OF assms(1)] mq_polyD [OF assms(2)]]
    mq.ntt_roundtrip_inv(1) [OF logn_le_1024 [OF assms(1)] mq_polyD [OF assms(2)]]
  by (simp_all add: mqpoly_int_to_ntt_eq mqpoly_ntt_to_int_eq)

section \<open>Pointwise operations\<close>

lemma mq_r2: "mq_ok r2" "mq_val r2 = 5664"
  by (simp_all add: mq_ok_def mq_val_def r2_def)

lemma mq_mul_val:
  assumes "mq_ok x" "mq_ok y"
  shows "mq_val (mq_mmul (mq_mmul x y) r2) = mq_val x * mq_val y mod 12289"
proof -
  have "mq_val (mq_mmul (mq_mmul x y) r2) = (mq_val x * mq_val y * 11857) mod 12289 * 5664 * 11857 mod 12289"
    using assms mq_r2 by (simp add: mq_mmul_val)
  also have "\<dots> = (mq_val x * mq_val y * 11857) * (5664 * 11857) mod 12289"
    by (simp only: mult.assoc mod_mult_left_eq)
  also have "\<dots> = mq_val x * mq_val y mod 12289"
    by (rule mod_eqI [where k = "mq_val x * mq_val y * 64797215"]) simp
  finally show ?thesis .
qed

lemma mqpoly_mul_ntt_nth:
  assumes "mq_poly logn a" "mq_poly logn b" "i < 2 ^ logn"
  shows "mq16_ok (mqpoly_mul_ntt logn a b ! i)"
    and "mq16_val (mqpoly_mul_ntt logn a b ! i) = mq16_val (a ! i) * mq16_val (b ! i) mod 12289"
  using assms mq_poly_nth [OF assms(1,3)] mq_poly_nth [OF assms(2,3)] mq_r2
  by (simp_all add: mqpoly_mul_ntt_def mq_polyD mq_mul_val)

lemma mq_poly_mul:
  assumes "mq_poly logn a" "mq_poly logn b"
  shows "mq_poly logn (mqpoly_mul_ntt logn a b)"
  using mqpoly_mul_ntt_nth(1) [OF assms] mq_polyD [OF assms(1)] by (intro mq_polyI) (simp_all add: mqpoly_mul_ntt_def)

lemma mqpoly_sub_int_nth:
  assumes "mq_poly logn a" "mq_poly logn b" "i < 2 ^ logn"
  shows "mq16_ok (mqpoly_sub_int logn a b ! i)"
    and "mq16_val (mqpoly_sub_int logn a b ! i) = (mq16_val (a ! i) - mq16_val (b ! i)) mod 12289"
  using assms mq_poly_nth [OF assms(1,3)] mq_poly_nth [OF assms(2,3)]
  by (simp_all add: mqpoly_sub_int_def mq_polyD)

lemma mq_poly_sub:
  assumes "mq_poly logn a" "mq_poly logn b"
  shows "mq_poly logn (mqpoly_sub_int logn a b)"
  using mqpoly_sub_int_nth(1) [OF assms] mq_polyD [OF assms(1)] by (intro mq_polyI) (simp_all add: mqpoly_sub_int_def)

text \<open>Multiplying in the transformed domain is multiplying modulo \<open>X^n + 1\<close>.\<close>

lemma mq_ring_product:
  assumes "logn \<le> 10" "mq_poly logn a" "mq_poly logn b" "k < 2 ^ logn"
  shows "mq16_val (mqpoly_ntt_to_int logn
      (mqpoly_mul_ntt logn (mqpoly_int_to_ntt logn a) (mqpoly_int_to_ntt logn b)) ! k)
    = negconv (2 ^ logn) (\<lambda>i. mq16_val (a ! i)) (\<lambda>i. mq16_val (b ! i)) k mod 12289"
proof -
  let ?c = "mqpoly_mul_ntt logn (mqpoly_int_to_ntt logn a) (mqpoly_int_to_ntt logn b)"
  note nt = mq_poly_ntt [OF assms(1,2)] mq_poly_ntt [OF assms(1,3)]
  have c: "mq_poly logn ?c" using nt by (rule mq_poly_mul)
  show ?thesis unfolding mqpoly_ntt_to_int_eq
    using mq.ntt_product [OF logn_le_1024 mq_polyD mq_polyD mq_polyD, OF assms(1,2,2,3,3) c c _ assms(4)]
      mqpoly_mul_ntt_nth(2) [OF nt] by (simp add: mqpoly_int_to_ntt_eq)
qed

section \<open>Division and invertibility\<close>

text \<open>The loops clear every bit of \<open>r\<close> exactly when some element is \<open>q\<close>, the zero residue.\<close>

lemma minus_q_high_bits:
  assumes "mq16_ok x" "16 \<le> e" "e < 32"
  shows "bit (ucast x - q :: u32) e \<longleftrightarrow> uint x \<noteq> 12289"
proof (cases "uint x = 12289")
  case True
  then have "(ucast x :: u32) = q" by (simp add: word_uint_eq_iff q_def)
  with True show ?thesis by simp
next
  case False
  have w: "ucast x - q = (word_of_int (uint x - 12289) :: u32)"
    by (simp add: q_def word_uint_eq_iff uint_word_ariths)
  have "uint x - 12289 < 0" "- 65536 \<le> uint x - 12289" using assms False by (auto simp: mq16_ok_def)
  moreover have "(65536::int) \<le> 2 ^ e" using power_increasing [of 16 e "2::int"] assms(2) by simp
  ultimately have "(uint x - 12289) div 2 ^ e = - 1"
    by (intro int_div_pos_eq [where r = "uint x - 12289 + 2 ^ e"]; linarith)
  then have "bit (uint x - 12289) e" by (simp add: bit_iff_odd)
  then show ?thesis unfolding w bit_word_of_int_iff using False assms(3) by simp
qed

lemma and_fold_bit:
  fixes r0 :: "'a::len word"
  shows "bit (fold (\<lambda>i r. r AND g i) [0..<n] r0) e \<longleftrightarrow> bit r0 e \<and> (\<forall>i<n. bit (g i) e)"
  by (induction n) (auto simp: bit_and_iff less_Suc_eq)

lemma mq16_zero: "mq16_ok x \<Longrightarrow> mq16_val x = 0 \<longleftrightarrow> uint x = 12289"
  by (auto simp: mq16_ok_def mq16_val_def)

lemma word_nonzero_bit: "w \<noteq> 0 \<longleftrightarrow> (\<exists>m. bit w m)" for w :: "'a::len word"
proof
  assume "w \<noteq> 0"
  then show "\<exists>m. bit w m" using bit_word_eqI [of w 0] by auto
qed auto

lemma word_drop_nonzero: "drop_bit e w \<noteq> 0 \<longleftrightarrow> (\<exists>m\<ge>e. m < LENGTH('a) \<and> bit w m)" for w :: "'a::len word"
  unfolding word_nonzero_bit bit_drop_bit_eq comp_def
proof
  assume "\<exists>m. bit w (e + m)"
  then obtain m where "bit w (e + m)" ..
  then show "\<exists>m\<ge>e. m < LENGTH('a) \<and> bit w m"
    using bit_imp_le_length by (intro exI [of _ "e + m"]) auto
next
  assume "\<exists>m\<ge>e. m < LENGTH('a) \<and> bit w m"
  then obtain m where "e \<le> m" "bit w m" by blast
  then show "\<exists>m. bit w (e + m)" by (intro exI [of _ "m - e"]) simp
qed

lemma and_loop_nonzero:
  assumes "mq_poly logn b" "16 \<le> e" "e < 32"
  shows "drop_bit e (fold (\<lambda>i r. r AND (ucast (b ! i) - q)) [0..<2 ^ logn] (0xFFFFFFFF :: u32)) \<noteq> 0
    \<longleftrightarrow> (\<forall>i<2 ^ logn. mq16_val (b ! i) \<noteq> 0)"
proof -
  let ?r = "fold (\<lambda>i r. r AND (ucast (b ! i) - q)) [0..<2 ^ logn] (0xFFFFFFFF :: u32)"
  have "(0xFFFFFFFF :: u32) = - 1" by simp
  then have ones: "bit (0xFFFFFFFF :: u32) m" if "m < 32" for m
    using that by (simp only: bit_minus_1_iff possible_bit_word) simp
  have b: "bit ?r m \<longleftrightarrow> (\<forall>i<2 ^ logn. mq16_val (b ! i) \<noteq> 0)" if "16 \<le> m" "m < 32" for m
    using that minus_q_high_bits mq_poly_nth [OF assms(1)] mq16_zero ones by (simp add: and_fold_bit)
  have "drop_bit e ?r \<noteq> 0 \<longleftrightarrow> (\<exists>m\<ge>e. m < 32 \<and> bit ?r m)"
    using word_drop_nonzero [of e ?r] by simp
  moreover have "16 \<le> m" if "e \<le> m" for m using that assms(2) by simp
  ultimately show ?thesis using b assms(2,3) by blast
qed

lemma div_loop_split:
  "fold (\<lambda>i (r, a). (r AND g i, a[i := f i (a ! i)])) [0..<n] (r, a)
   = (fold (\<lambda>i r. r AND g i) [0..<n] r, for_upd n f a)"
  by (induction n) (simp_all add: for_upd_def)

lemma mqpoly_div_ntt_eq:
  "mqpoly_div_ntt logn a b =
    (drop_bit 31 (fold (\<lambda>i r. r AND (ucast (b ! i) - q)) [0..<2 ^ logn] (0xFFFFFFFF :: u32)) \<noteq> 0,
     for_upd (2 ^ logn) (\<lambda>i v. ucast (mq_div (ucast v) (ucast (b ! i)))) a)"
  unfolding mqpoly_div_ntt_def
    div_loop_split [of "\<lambda>i. ucast (b ! i) - q" "\<lambda>i v. ucast (mq_div (ucast v) (ucast (b ! i)))"] by simp

lemma mqpoly_div_ntt_fst:
  "mq_poly logn b \<Longrightarrow> fst (mqpoly_div_ntt logn a b) \<longleftrightarrow> (\<forall>i<2 ^ logn. mq16_val (b ! i) \<noteq> 0)"
  unfolding mqpoly_div_ntt_eq by (simp add: and_loop_nonzero)

lemma mqpoly_div_ntt_nth:
  assumes "mq_poly logn a" "mq_poly logn b" "i < 2 ^ logn"
  shows "mq16_ok (snd (mqpoly_div_ntt logn a b) ! i)"
    and "mq16_val (b ! i) \<noteq> 0 \<Longrightarrow>
      mq16_val (snd (mqpoly_div_ntt logn a b) ! i) * mq16_val (b ! i) mod 12289 = mq16_val (a ! i)"
proof -
  note ok = mq_poly_nth [OF assms(1,3)] mq_poly_nth [OF assms(2,3)]
  have e: "snd (mqpoly_div_ntt logn a b) ! i = ucast (mq_div (ucast (a ! i)) (ucast (b ! i)))"
    using assms mq_polyD by (simp add: mqpoly_div_ntt_eq)
  show "mq16_ok (snd (mqpoly_div_ntt logn a b) ! i)" using ok mq_div_spec by (simp add: e)
  show "mq16_val (b ! i) \<noteq> 0 \<Longrightarrow>
      mq16_val (snd (mqpoly_div_ntt logn a b) ! i) * mq16_val (b ! i) mod 12289 = mq16_val (a ! i)"
    using mq_div_times [of "ucast (a ! i)" "ucast (b ! i)"] mq_div_spec(1) ok by (simp add: e)
qed

lemma mq_poly_div:
  assumes "mq_poly logn a" "mq_poly logn b"
  shows "mq_poly logn (snd (mqpoly_div_ntt logn a b))"
  using mqpoly_div_ntt_nth(1) [OF assms] mq_polyD [OF assms(1)] by (intro mq_polyI) (simp_all add: mqpoly_div_ntt_eq)

text \<open>A successful division gives the quotient in the ring.\<close>

lemma mq_ring_quotient:
  assumes "logn \<le> 10" "mq_poly logn a" "mq_poly logn b" "k < 2 ^ logn"
    and "mqpoly_div_ntt logn (mqpoly_int_to_ntt logn a) (mqpoly_int_to_ntt logn b) = (True, c)"
  shows "negconv (2 ^ logn) (\<lambda>i. mq16_val (mqpoly_ntt_to_int logn c ! i)) (\<lambda>i. mq16_val (b ! i)) k mod 12289
    = mq16_val (a ! k)"
proof -
  note nt = mq_poly_ntt [OF assms(1,2)] mq_poly_ntt [OF assms(1,3)]
  have c: "mq_poly logn c" using mq_poly_div [OF nt] assms(5) by simp
  have nz: "\<And>i. i < 2 ^ logn \<Longrightarrow> mq16_val (mqpoly_int_to_ntt logn b ! i) \<noteq> 0"
    using mqpoly_div_ntt_fst [OF nt(2)] assms(5) by (metis fst_conv)
  have "mqpoly_mul_ntt logn c (mqpoly_int_to_ntt logn b) = mqpoly_int_to_ntt logn a"
  proof (rule nth_equalityI)
    show "length (mqpoly_mul_ntt logn c (mqpoly_int_to_ntt logn b)) = length (mqpoly_int_to_ntt logn a)"
      using c nt by (simp add: mqpoly_mul_ntt_def mq_polyD)
    fix i assume "i < length (mqpoly_mul_ntt logn c (mqpoly_int_to_ntt logn b))"
    then have i: "i < 2 ^ logn" using c by (simp add: mqpoly_mul_ntt_def mq_polyD)
    show "mqpoly_mul_ntt logn c (mqpoly_int_to_ntt logn b) ! i = mqpoly_int_to_ntt logn a ! i"
      using mqpoly_mul_ntt_nth [OF c nt(2) i] mqpoly_div_ntt_nth(2) [OF nt i nz [OF i]] assms(5)
        mq_poly_nth [OF nt(1) i] by (intro mq16_val_inj) simp_all
  qed
  then show ?thesis
    using mq_ring_product [OF assms(1) mq_poly_intt [OF assms(1) c] assms(3,4)]
      mq_intt_ntt [OF assms(1) c] mq_intt_ntt [OF assms(1,2)] by simp
qed

text \<open>A polynomial with an inverse vanishes at no root.\<close>

lemma mq_unit_nonzero:
  assumes "logn \<le> 10" "mq_poly logn a" "mq_poly logn b"
    and "\<And>k. k < 2 ^ logn \<Longrightarrow>
      negconv (2 ^ logn) (\<lambda>i. mq16_val (a ! i)) (\<lambda>i. mq16_val (b ! i)) k mod 12289 = (if k = 0 then 1 else 0)"
    and "i < 2 ^ logn"
  shows "mq16_val (mqpoly_int_to_ntt logn a ! i) \<noteq> 0"
proof
  assume z: "mq16_val (mqpoly_int_to_ntt logn a ! i) = 0"
  let ?r = "node_const 12289 (\<lambda>i. mq_twiddle (mqgm ! i)) (2 ^ logn + i)" and ?n = "2 ^ logn :: nat"
  let ?c = "negconv ?n (\<lambda>i. mq16_val (a ! i)) (\<lambda>i. mq16_val (b ! i))"
  note n = logn_le_1024 [OF assms(1)]
  have "(\<Sum>k<?n. ?c k * ?r ^ k) mod 12289 = (\<Sum>k<?n. (if k = 0 then 1 else 0) * ?r ^ k) mod 12289"
    by (intro sum_mod_cong mod_mult_cong refl) (simp add: assms(4))
  also have "(\<Sum>k<?n. (if k = 0 then 1 else 0) * ?r ^ k) = 1"
    by (subst sum.cong [OF refl, of _ _ "\<lambda>k. if k = 0 then 1 else 0"]) auto
  finally have one: "(\<Sum>k<?n. ?c k * ?r ^ k) mod 12289 = 1" by simp
  have "(\<Sum>k<?n. ?c k * ?r ^ k) mod 12289
      = ((\<Sum>j<?n. mq16_val (a ! j) * ?r ^ j) mod 12289) * (\<Sum>j<?n. mq16_val (b ! j) * ?r ^ j) mod 12289"
    unfolding mod_mult_left_eq by (rule negconv_eval) (use mq.leaf_root [OF n order.refl assms(5)] in simp)
  also have "(\<Sum>j<?n. mq16_val (a ! j) * ?r ^ j) mod 12289 = 0"
    using z mq.ntt_eval [OF n mq_polyD [OF assms(2)] assms(5)] by (simp add: mqpoly_int_to_ntt_eq)
  finally show False using one by simp
qed

section \<open>Changes of representation\<close>

lemma to_int_elem:
  fixes w :: "'a::len word"
  assumes "- 12288 \<le> sint w" "sint w \<le> 12288"
  defines "x \<equiv> - (scast w :: u32)"
  shows "mq_ok (q - (x + (q AND drop_bit 16 x)))"
    and "mq_val (q - (x + (q AND drop_bit 16 x))) = sint w mod 12289"
proof -
  have x: "x = word_of_int (- sint w)" by (simp add: x_def)
  have u: "uint (q - (x + (q AND drop_bit 16 x))) = (if 0 < sint w then sint w else 12289 + sint w)"
    using q_minus_corrected [OF x] assms by simp
  show "mq_ok (q - (x + (q AND drop_bit 16 x)))"
    unfolding mq_ok_def u using assms by auto
  show "mq_val (q - (x + (q AND drop_bit 16 x))) = sint w mod 12289"
    unfolding mq_val_def u by simp
qed

lemma sint_i8_range: "- 128 \<le> sint w" "sint w \<le> 127" for w :: i8
  using sint_range_size [of w] by (simp_all add: word_size)

lemma mqpoly_small_to_int_nth:
  assumes "2 ^ logn \<le> length d" "i < 2 ^ logn"
  shows "mq16_ok (mqpoly_small_to_int logn f d ! i)"
    and "mq16_val (mqpoly_small_to_int logn f d ! i) = sint (f ! i) mod 12289"
  using assms to_int_elem [of "f ! i"] sint_i8_range [of "f ! i"]
  by (simp_all add: mqpoly_small_to_int_def Let_def)

lemma mqpoly_signed_to_int_nth:
  assumes "2 ^ logn \<le> length d" "i < 2 ^ logn" "\<bar>sint (f ! i)\<bar> \<le> 12288"
  shows "mq16_ok (mqpoly_signed_to_int logn f d ! i)"
    and "mq16_val (mqpoly_signed_to_int logn f d ! i) = sint (f ! i) mod 12289"
  using assms to_int_elem [of "f ! i"]
  by (simp_all add: mqpoly_signed_to_int_def Let_def)

lemma ext_to_int_elem:
  fixes v :: u16
  assumes "uint v \<le> 12289"
  defines "x \<equiv> (ucast v :: u32)"
  shows "uint (x + (q AND drop_bit 16 (x - 1))) = (if uint v = 0 then 12289 else uint v)"
proof -
  have x: "x = word_of_int (uint v)" by (simp add: x_def)
  have x1: "x - 1 = word_of_int (uint v - 1)" by (simp add: x)
  have m: "q AND drop_bit 16 (x - 1) = (if uint v - 1 < 0 then q else 0)"
    using assms(1) uint_ge_0 [of v] by (intro sign_mask16 [OF x1]; linarith)
  show ?thesis
  proof (cases "uint v = 0")
    case True
    then have "x = 0" by (simp add: x)
    then show ?thesis unfolding m using True by (simp add: q_def)
  next
    case False
    then have "\<not> uint v - 1 < 0" using uint_ge_0 [of v] by linarith
    then show ?thesis unfolding m using False by (simp add: x_def)
  qed
qed

lemma mqpoly_ext_to_int_nth:
  assumes "2 ^ logn \<le> length a" "i < 2 ^ logn" "uint (a ! i) \<le> 12289"
  shows "mq16_ok (mqpoly_ext_to_int logn a ! i)"
    and "mq16_val (mqpoly_ext_to_int logn a ! i) = mq16_val (a ! i)"
proof -
  let ?x = "ucast (a ! i) + (q AND drop_bit 16 (ucast (a ! i) - 1)) :: u32"
  have e: "mqpoly_ext_to_int logn a ! i = ucast ?x"
    using assms by (simp add: mqpoly_ext_to_int_def Let_def)
  have u: "uint ?x = (if uint (a ! i) = 0 then 12289 else uint (a ! i))"
    using assms(3) by (rule ext_to_int_elem)
  have ok: "mq_ok ?x" unfolding mq_ok_def u using assms(3) uint_ge_0 [of "a ! i"] by (cases "uint (a ! i) = 0"; simp; linarith)
  show "mq16_ok (mqpoly_ext_to_int logn a ! i)" unfolding e using ok by simp
  show "mq16_val (mqpoly_ext_to_int logn a ! i) = mq16_val (a ! i)"
    unfolding e using ok by (simp add: mq_val_def u mq16_val_def)
qed

lemma mqpoly_int_to_ext_nth:
  assumes "2 ^ logn \<le> length a" "i < 2 ^ logn" "uint (a ! i) \<le> 12289"
  shows "uint (mqpoly_int_to_ext logn a ! i) = mq16_val (a ! i)"
proof -
  let ?x = "ucast (a ! i) - q :: u32"
  have e: "mqpoly_int_to_ext logn a ! i = ucast (?x + (q AND drop_bit 16 ?x))"
    using assms by (simp add: mqpoly_int_to_ext_def Let_def)
  have x: "?x = word_of_int (uint (a ! i) - 12289)"
    by (simp add: q_def word_uint_eq_iff uint_word_ariths)
  have m: "q AND drop_bit 16 ?x = (if uint (a ! i) - 12289 < 0 then q else 0)"
    using assms(3) uint_ge_0 [of "a ! i"] by (intro sign_mask16 [OF x]; linarith)
  have "?x + (q AND drop_bit 16 ?x) = word_of_int (mq16_val (a ! i))"
  proof (cases "uint (a ! i) = 12289")
    case True
    then have "(ucast (a ! i) :: u32) = q" by (simp add: word_uint_eq_iff q_def)
    with True show ?thesis by (simp add: mq16_val_def)
  next
    case False
    then have "uint (a ! i) < 12289" using assms(3) by simp
    then show ?thesis unfolding m by (simp add: mq16_val_def)
  qed
  then have "uint (?x + (q AND drop_bit 16 ?x)) = mq16_val (a ! i)"
    by (rule uint_of_int_eqI) (simp_all add: mq16_val_def pos_mod_bound [THEN order.strict_trans])
  then show ?thesis unfolding e by (subst uint_ucast_32_16) (simp_all add: mq16_val_def pos_mod_bound [THEN order.strict_trans])
qed

section \<open>Norms\<close>

text \<open>A residue centred into \<open>[-6144, 6144]\<close>.\<close>

definition mq_center :: "int \<Rightarrow> int" where
  "mq_center v = (if v mod 12289 \<le> 6144 then v mod 12289 else v mod 12289 - 12289)"

lemma mq_center_bound: "\<bar>mq_center v\<bar> \<le> 6144"
proof -
  define w where "w = v mod 12289"
  have "0 \<le> w" "w < 12289" by (simp_all add: w_def)
  then show ?thesis unfolding mq_center_def w_def [symmetric] by simp
qed

lemma mq_center_sq_bound: "0 \<le> mq_center v * mq_center v" "mq_center v * mq_center v \<le> 37748736"
proof -
  have "\<bar>mq_center v\<bar> * \<bar>mq_center v\<bar> \<le> 6144 * 6144"
    using mq_center_bound [of v] by (intro mult_mono) simp_all
  then show "mq_center v * mq_center v \<le> 37748736" by (simp flip: abs_mult)
qed simp

lemma center_elem:
  fixes v :: u16
  assumes "uint v \<le> 12289"
  defines "x \<equiv> (ucast v :: u32)"
  defines "y \<equiv> x - (drop_bit 16 (drop_bit 1 (q - 1) - x) AND q)"
  shows "uint (y * y) = mq_center (uint v) * mq_center (uint v)"
proof -
  have x: "x = word_of_int (uint v)" by (simp add: x_def)
  have c: "drop_bit 1 (q - 1) = (6144 :: u32)"
    by (simp add: q_def word_uint_eq_iff word_vals)
  have d: "6144 - x = word_of_int (6144 - uint v)" by (simp add: x)
  have m: "drop_bit 16 (6144 - x) AND q = (if 6144 - uint v < 0 then q else 0)"
    using sign_mask16 [OF d] assms(1) uint_ge_0 [of v] by (simp add: and.commute)
  have cv: "mq_center (uint v) = (if uint v = 12289 then 0 else if 6144 < uint v then uint v - 12289 else uint v)"
    using assms(1) uint_ge_0 [of v] by (auto simp: mq_center_def)
  have "y = word_of_int (if 6144 < uint v then uint v - 12289 else uint v)"
    unfolding y_def c m using x by (simp add: q_def)
  then have "y = word_of_int (mq_center (uint v))"
    using cv by (auto split: if_splits)
  then have "y * y = word_of_int (mq_center (uint v) * mq_center (uint v))" by simp
  then show ?thesis using mq_center_sq_bound [of "uint v"] by (intro uint_of_int_eqI) simp_all
qed

lemma top_bit_iff: "bit w 31 \<longleftrightarrow> 2 ^ 31 \<le> uint w" for w :: u32
proof -
  have "bit w 31 \<longleftrightarrow> bit (uint w) 31" by (simp add: bit_uint_iff)
  then have "bit w 31 \<longleftrightarrow> odd (uint w div 2 ^ 31)" unfolding bit_iff_odd [of "uint w"] .
  moreover have "uint w div 2 ^ 31 = (if 2 ^ 31 \<le> uint w then 1 else 0)"
    using uint_lt2p [of w] by (auto simp: int_div_pos_eq)
  ultimately show ?thesis by simp
qed

text \<open>
  The accumulator cannot skip the top bit: each square is at most \<open>2^30\<close>, so the first partial
  sum past \<open>2^31 - 1\<close> still fits in 32 bits and is recorded in \<open>sat\<close>.
\<close>

lemma sqnorm_loop:
  fixes g :: "nat \<Rightarrow> u32"
  assumes "\<And>i. i < n \<Longrightarrow> uint (g i) \<le> 2 ^ 30"
  defines "S \<equiv> \<lambda>m. (\<Sum>i<m. uint (g i))"
  shows "case fold (\<lambda>i (s, sat). let s = s + g i in (s, sat OR s)) [0..<n] (0, 0 :: u32) of (s, sat) \<Rightarrow>
    if S n < 2 ^ 31 then uint s = S n \<and> \<not> bit sat 31 else bit sat 31"
  using assms(1)
proof (induction n)
  case 0
  show ?case by (simp add: S_def)
next
  case (Suc n)
  obtain s sat where f: "fold (\<lambda>i (s, sat). let s = s + g i in (s, sat OR s)) [0..<n] (0, 0 :: u32) = (s, sat)"
    by fastforce
  with Suc have IH: "if S n < 2 ^ 31 then uint s = S n \<and> \<not> bit sat 31 else bit sat 31" by simp
  have S: "S (Suc n) = S n + uint (g n)" by (simp add: S_def)
  show ?case
  proof (cases "S n < 2 ^ 31")
    case True
    then have "uint (s + g n) = S n + uint (g n)"
      using IH Suc.prems [of n] by (subst uint_add_lt) simp_all
    moreover have "bit (sat OR (s + g n)) 31 \<longleftrightarrow> bit (s + g n) 31" using True IH by (simp add: bit_or_iff)
    ultimately show ?thesis using f by (simp add: S top_bit_iff Let_def)
  next
    case False
    then have "\<not> S (Suc n) < 2 ^ 31" using uint_ge_0 [of "g n"] unfolding S by linarith
    with False IH show ?thesis using f by (simp add: bit_or_iff Let_def)
  qed
qed

lemma mqpoly_sqnorm_uint:
  assumes "length a = 2 ^ logn" "\<forall>x \<in> set a. uint x \<le> 12289"
  shows "uint (mqpoly_sqnorm logn a) =
    (let S = (\<Sum>i<2 ^ logn. mq_center (uint (a ! i)) * mq_center (uint (a ! i)))
     in if S < 2 ^ 31 then S else 2 ^ 32 - 1)"
proof -
  let ?n = "2 ^ logn :: nat"
  define g where "g i = (let x = ucast (a ! i); y = x - (drop_bit 16 (drop_bit 1 (q - 1) - x) AND q) in y * y)"
    for i
  have ai: "uint (a ! i) \<le> 12289" if "i < ?n" for i using assms that by auto
  then have gi: "uint (g i) = mq_center (uint (a ! i)) * mq_center (uint (a ! i))" if "i < ?n" for i
    unfolding g_def Let_def using that center_elem by blast
  obtain s sat where f: "fold (\<lambda>i (s, sat). let s = s + g i in (s, sat OR s)) [0..<?n] (0, 0 :: u32) = (s, sat)"
    by fastforce
  have loop: "if (\<Sum>i<?n. uint (g i)) < 2 ^ 31 then uint s = (\<Sum>i<?n. uint (g i)) \<and> \<not> bit sat 31 else bit sat 31"
    using sqnorm_loop [of ?n g] gi order.trans [OF mq_center_sq_bound(2), of "2 ^ 30"] f by simp
  have sum: "(\<Sum>i<?n. uint (g i)) = (\<Sum>i<?n. mq_center (uint (a ! i)) * mq_center (uint (a ! i)))"
    using gi by simp
  have r: "mqpoly_sqnorm logn a = s OR - drop_bit 31 sat"
    using f unfolding mqpoly_sqnorm_def g_def Let_def by simp
  have "uint (drop_bit 31 sat) = (if bit sat 31 then 1 else 0)"
    using uint_lt2p [of sat] by (auto simp: word_vals top_bit_iff int_div_pos_eq)
  then have sat: "drop_bit 31 sat = (if bit sat 31 then 1 else 0)"
    by (simp add: word_uint_eq_iff split: if_splits)
  have "uint (- 1 :: u32) = 2 ^ 32 - 1" by (simp add: unsigned_minus_1_eq_mask mask_eq_exp_minus_1)
  then show ?thesis
    using loop unfolding r sat sum [symmetric] by (auto simp: Let_def)
qed

lemma signed_sq_uint: "uint (scast w * scast w :: u32) = sint w * sint w" if "\<bar>sint w\<bar> \<le> 32768" for w :: i16
proof -
  have "\<bar>sint w\<bar> * \<bar>sint w\<bar> \<le> 32768 * 32768" using that by (intro mult_mono) simp_all
  then have "sint w * sint w \<le> 32768 * 32768" by (simp flip: abs_mult)
  then show ?thesis by (intro uint_of_int_eqI) simp_all
qed

lemma signed_poly_sqnorm_uint:
  assumes "logn \<le> 10" "\<And>i. i < 2 ^ logn \<Longrightarrow> \<bar>sint (a ! i)\<bar> \<le> 2047"
  shows "uint (signed_poly_sqnorm logn a) = (\<Sum>i<2 ^ logn. sint (a ! i) * sint (a ! i))"
proof -
  have sq: "sint (a ! i) * sint (a ! i) \<le> 4190209" if "i < 2 ^ logn" for i
  proof -
    have "\<bar>sint (a ! i)\<bar> * \<bar>sint (a ! i)\<bar> \<le> 2047 * 2047" using assms(2) [OF that] by (intro mult_mono) simp_all
    then show ?thesis by (simp flip: abs_mult)
  qed
  have "uint (fold (\<lambda>i s. let x = scast (a ! i) in s + x * x) [0..<n] (0 :: u32)) = (\<Sum>i<n. sint (a ! i) * sint (a ! i))
      \<and> (\<Sum>i<n. sint (a ! i) * sint (a ! i)) \<le> int n * 4190209" if "n \<le> 2 ^ logn" for n
    using that
  proof (induction n)
    case (Suc n)
    let ?s = "fold (\<lambda>i s. let x = scast (a ! i) in s + x * x) [0..<n] (0 :: u32)"
    have IH: "uint ?s = (\<Sum>i<n. sint (a ! i) * sint (a ! i))" "uint ?s \<le> int n * 4190209"
      using Suc by simp_all
    have w: "uint (scast (a ! n) * scast (a ! n) :: u32) = sint (a ! n) * sint (a ! n)"
      using assms(2) [of n] Suc.prems by (intro signed_sq_uint) simp
    have "n < 1024" using Suc.prems logn_le_1024 [OF assms(1)] by simp
    then have "uint ?s + sint (a ! n) * sint (a ! n) < 2 ^ 32" using IH(2) sq [of n] Suc.prems by simp
    then have "uint (?s + scast (a ! n) * scast (a ! n)) = uint ?s + sint (a ! n) * sint (a ! n)"
      using w by (subst uint_add_lt) simp_all
    then show ?case using IH sq [of n] Suc.prems by (simp add: Let_def algebra_simps)
  qed simp
  from this [OF order_refl] show ?thesis unfolding signed_poly_sqnorm_def by blast
qed

section \<open>Back to small polynomials\<close>

lemma small_loop_split:
  "fold (\<lambda>i (ov :: u32, f). let x = g i in (ov OR drop_bit 8 x, f[i := h x])) [0..<n] (ov, f)
   = (fold (\<lambda>i ov. ov OR drop_bit 8 (g i)) [0..<n] ov, for_upd n (\<lambda>i _. h (g i)) f)"
  by (induction n) (simp_all add: for_upd_def Let_def)

lemma or_fold_zero:
  fixes w0 :: "'a::len word"
  shows "fold (\<lambda>i w. w OR g i) [0..<n] w0 = 0 \<longleftrightarrow> w0 = 0 \<and> (\<forall>i<n. g i = 0)"
  by (induction n) (auto simp: or_eq_0_iff less_Suc_eq)

lemma int_to_small_elem:
  assumes "mq16_ok v"
  defines "x \<equiv> mq_add (ucast v) 128"
  shows "drop_bit 8 x = 0 \<longleftrightarrow> \<bar>mq_center (uint v)\<bar> \<le> 127"
    and "drop_bit 8 x = 0 \<Longrightarrow> sint (ucast (x - 128) :: i8) = mq_center (uint v)"
proof -
  have ok: "mq_ok (ucast v)" "mq_ok 128" using assms by (simp_all add: mq_ok_def mq16_ok_def)
  have x: "uint x = (if uint v + 128 \<le> 12289 then uint v + 128 else uint v + 128 - 12289)"
    unfolding x_def mq_add_uint [OF ok] by simp
  have v: "1 \<le> uint v" "uint v \<le> 12289" using assms by (simp_all add: mq16_ok_def)
  have c: "mq_center (uint v) = (if uint v = 12289 then 0 else if uint v \<le> 6144 then uint v else uint v - 12289)"
    using v by (auto simp: mq_center_def)
  have "drop_bit 8 x = 0 \<longleftrightarrow> uint (drop_bit 8 x) = 0" by (simp add: uint_0_iff)
  also have "\<dots> \<longleftrightarrow> uint x < 256" by (auto simp: word_vals zdiv_eq_0_iff)
  finally have z: "drop_bit 8 x = 0 \<longleftrightarrow> uint x < 256" .
  show "drop_bit 8 x = 0 \<longleftrightarrow> \<bar>mq_center (uint v)\<bar> \<le> 127"
    unfolding z x c using v by auto
  assume "drop_bit 8 x = 0"
  then have "uint x < 256" using z by simp
  then have xc: "uint x - 128 = mq_center (uint v)" unfolding x c using v by auto
  have "ucast (x - 128) = (word_of_int (uint x - 128) :: i8)"
    using ucast_down_wi [of "uint x - 128", where 'a = 32 and 'b = 8] by (simp add: is_down)
  then show "sint (ucast (x - 128) :: i8) = mq_center (uint v)"
    unfolding xc [symmetric] using \<open>uint x < 256\<close> by (intro sint_of_int_eqI) simp_all
qed

lemma mqpoly_int_to_small_eq:
  "mqpoly_int_to_small logn d f =
    (fold (\<lambda>i ov. ov OR drop_bit 8 (mq_add (ucast (d ! i)) 128)) [0..<2 ^ logn] (0 :: u32) = 0,
     for_upd (2 ^ logn) (\<lambda>i _. ucast (mq_add (ucast (d ! i)) 128 - 128)) f)"
  unfolding mqpoly_int_to_small_def
    small_loop_split [of "\<lambda>i. mq_add (ucast (d ! i)) 128" "\<lambda>x. ucast (x - 128)"] by simp

section \<open>Correctness of the polynomial operations\<close>

lemma mq_poly_small: "length d = 2 ^ logn \<Longrightarrow> mq_poly logn (mqpoly_small_to_int logn f d)"
  using mqpoly_small_to_int_nth(1) [of logn d _ f]
  by (intro mq_polyI) (simp_all add: mqpoly_small_to_int_def)

lemma negconv_cong_mod:
  assumes "\<And>i. i < n \<Longrightarrow> f i mod m = f' i mod m" "\<And>i. i < n \<Longrightarrow> g i mod m = g' i mod m" "k < n"
  shows "negconv n f g k mod m = negconv n f' g' k mod (m::int)"
proof -
  have "(if i \<le> k then f i * g (k - i) else - (f i * g (n + k - i))) mod m
      = (if i \<le> k then f' i * g' (k - i) else - (f' i * g' (n + k - i))) mod m" if "i < n" for i
  proof (cases "i \<le> k")
    case True
    then show ?thesis using mod_mult_cong [OF assms(1) [OF that] assms(2)] assms(3) by simp
  next
    case False
    then have "n + k - i < n" using that by arith
    then have "f i * g (n + k - i) mod m = f' i * g' (n + k - i) mod m"
      using mod_mult_cong [OF assms(1) [OF that] assms(2)] by simp
    from arg_cong [OF this, of "\<lambda>v. (- v) mod m"] False show ?thesis by (simp add: mod_minus_eq)
  qed
  then show ?thesis unfolding negconv_def by (intro sum_mod_cong) simp
qed

text \<open>C12: multiplying two transformed polynomials pointwise and transforming back is
  multiplication in \<open>Z_q[X]/(X^n + 1)\<close>, for every degree the signature scheme uses.\<close>

theorem mqpoly_mul_correct:
  assumes "logn \<le> 10" "mq_poly logn a" "mq_poly logn b"
  shows "\<forall>k < 2 ^ logn. mq16_val (mqpoly_ntt_to_int logn
      (mqpoly_mul_ntt logn (mqpoly_int_to_ntt logn a) (mqpoly_int_to_ntt logn b)) ! k)
    = negconv (2 ^ logn) (\<lambda>i. mq16_val (a ! i)) (\<lambda>i. mq16_val (b ! i)) k mod 12289"
  using mq_ring_product [OF assms] by blast

theorem mqpoly_mul_correct_witness:
  "mq_poly 1 [3, 4] \<and> mq_poly 1 [5, 6] \<and>
   mq16_val (mqpoly_ntt_to_int 1
      (mqpoly_mul_ntt 1 (mqpoly_int_to_ntt 1 [3, 4]) (mqpoly_int_to_ntt 1 [5, 6])) ! 0) = 12280"
proof -
  have ok: "mq_poly 1 [3, 4]" "mq_poly 1 [5, 6]" by (simp_all add: mq_poly_def mq16_ok_def)
  have "{..<2::nat} = {0, 1}" by auto
  then show ?thesis
    using ok mqpoly_mul_correct [of 1 "[3, 4]" "[5, 6]", rule_format, of 0]
    by (simp add: negconv_def mq16_val_def)
qed

text \<open>The transform pair is a bijection of the polynomials in internal representation.\<close>

theorem mqpoly_ntt_roundtrip:
  assumes "logn \<le> 10" "mq_poly logn a"
  shows "mqpoly_ntt_to_int logn (mqpoly_int_to_ntt logn a) = a \<and>
    mqpoly_int_to_ntt logn (mqpoly_ntt_to_int logn a) = a \<and>
    mq_poly logn (mqpoly_int_to_ntt logn a) \<and> mq_poly logn (mqpoly_ntt_to_int logn a)"
  using mq_intt_ntt [OF assms] mq_poly_ntt [OF assms] mq_poly_intt [OF assms] by blast

theorem mqpoly_ntt_roundtrip_witness:
  "mq_poly 1 [7, 12289] \<and> mqpoly_ntt_to_int 1 (mqpoly_int_to_ntt 1 [7, 12289]) = [7, 12289]"
  using mqpoly_ntt_roundtrip [of 1 "[7, 12289]"] by (simp add: mq_poly_def mq16_ok_def)

text \<open>C29: \<^verbatim>\<open>mqpoly_is_invertible\<close> answers true exactly when the small polynomial has an
  inverse modulo \<open>q\<close> and \<open>X^n + 1\<close>.\<close>

theorem mqpoly_is_invertible_iff:
  assumes "logn \<le> 10" "length tmp = 2 ^ logn"
  shows "fst (mqpoly_is_invertible logn f tmp) \<longleftrightarrow>
    (\<exists>g. \<forall>k < 2 ^ logn. negconv (2 ^ logn) (\<lambda>i. sint (f ! i)) g k mod 12289 = (if k = 0 then 1 else 0))"
proof -
  let ?n = "2 ^ logn :: nat" and ?a = "mqpoly_small_to_int logn f tmp"
  let ?A = "mqpoly_int_to_ntt logn ?a" and ?one = "map (\<lambda>i. mq16_rep (if i = 0 then 1 else 0)) [0..<?n]"
  have a: "mq_poly logn ?a" using assms by (intro mq_poly_small)
  have av: "mq16_val (?a ! i) = sint (f ! i) mod 12289" if "i < ?n" for i
    using that assms by (simp add: mqpoly_small_to_int_nth)
  have one: "mq_poly logn ?one" by (auto intro!: mq_polyI mq16_rep_ok)
  have r: "fst (mqpoly_is_invertible logn f tmp) \<longleftrightarrow> (\<forall>i<?n. mq16_val (?A ! i) \<noteq> 0)"
    unfolding mqpoly_is_invertible_def Let_def fst_conv
    using mq_poly_ntt [OF assms(1) a] by (intro and_loop_nonzero) simp_all
  show ?thesis unfolding r
  proof
    assume nz: "\<forall>i<?n. mq16_val (?A ! i) \<noteq> 0"
    obtain c where c: "mqpoly_div_ntt logn (mqpoly_int_to_ntt logn ?one) ?A = (True, c)"
      using mqpoly_div_ntt_fst [OF mq_poly_ntt [OF assms(1) a], of "mqpoly_int_to_ntt logn ?one"] nz
      by (metis (full_types) prod.collapse)
    let ?g = "\<lambda>i. mq16_val (mqpoly_ntt_to_int logn c ! i)"
    have "negconv ?n (\<lambda>i. sint (f ! i)) ?g k mod 12289 = (if k = 0 then 1 else 0)" if k: "k < ?n" for k
    proof -
      have "negconv ?n (\<lambda>i. sint (f ! i)) ?g k mod 12289 = negconv ?n ?g (\<lambda>i. mq16_val (?a ! i)) k mod 12289"
        unfolding negconv_commute [OF k, of "\<lambda>i. sint (f ! i)"] using k by (intro negconv_cong_mod) (simp_all add: av)
      also have "\<dots> = (if k = 0 then 1 else 0)"
        using mq_ring_quotient [OF assms(1) one a k c] k by (simp add: mq16_rep_val)
      finally show ?thesis .
    qed
    then show "\<exists>g. \<forall>k<?n. negconv ?n (\<lambda>i. sint (f ! i)) g k mod 12289 = (if k = 0 then 1 else 0)" by blast
  next
    assume "\<exists>g. \<forall>k<?n. negconv ?n (\<lambda>i. sint (f ! i)) g k mod 12289 = (if k = 0 then 1 else 0)"
    then obtain g where g: "\<And>k. k < ?n \<Longrightarrow> negconv ?n (\<lambda>i. sint (f ! i)) g k mod 12289 = (if k = 0 then 1 else 0)" by blast
    let ?b = "map (\<lambda>i. mq16_rep (g i)) [0..<?n]"
    have b: "mq_poly logn ?b" by (auto intro!: mq_polyI mq16_rep_ok)
    show "\<forall>i<?n. mq16_val (?A ! i) \<noteq> 0"
      using mq_unit_nonzero [OF assms(1) a b] 
        negconv_cong_mod [of ?n "\<lambda>i. mq16_val (?a ! i)" 12289 "\<lambda>i. sint (f ! i)" "\<lambda>i. mq16_val (?b ! i)" g] g
      by (simp add: av mq16_rep_val)
  qed
qed

theorem mqpoly_is_invertible_iff_witness:
  "fst (mqpoly_is_invertible 1 [1, 1] [0, 0])"
proof -
  have set2: "{..<2::nat} = {0, 1}" by auto
  have "negconv 2 (\<lambda>i. sint ([1, 1 :: i8] ! i)) (\<lambda>i. if i = 0 then 6145 else - 6145) k mod 12289
      = (if k = 0 then 1 else 0)" if "k < 2" for k
    using that by (cases "k = 0") (simp_all add: negconv_def set2 less_2_cases_iff)
  then have "\<exists>g. \<forall>k < 2 ^ 1. negconv (2 ^ 1) (\<lambda>i. sint ([1, 1 :: i8] ! i)) g k mod 12289 = (if k = 0 then 1 else 0)"
    by (intro exI [of _ "\<lambda>i. if i = 0 then 6145 else - 6145"]) simp
  then show ?thesis using mqpoly_is_invertible_iff [of 1 "[0, 0]" "[1, 1]"] by simp
qed

text \<open>C30: when \<^verbatim>\<open>mqpoly_div_ntt\<close> reports success, its result is the quotient in the ring:
  multiplied by the divisor it gives the dividend back; and it succeeds exactly when no value
  of the transformed divisor is zero.\<close>

theorem mqpoly_div_correct:
  assumes "logn \<le> 10" "mq_poly logn a" "mq_poly logn b"
    and "mqpoly_div_ntt logn (mqpoly_int_to_ntt logn a) (mqpoly_int_to_ntt logn b) = (ok, c)"
  shows "(ok \<longleftrightarrow> (\<forall>i < 2 ^ logn. mq16_val (mqpoly_int_to_ntt logn b ! i) \<noteq> 0)) \<and>
    (ok \<longrightarrow> (\<forall>k < 2 ^ logn.
      negconv (2 ^ logn) (\<lambda>i. mq16_val (mqpoly_ntt_to_int logn c ! i)) (\<lambda>i. mq16_val (b ! i)) k mod 12289
      = mq16_val (a ! k)))"
  using mqpoly_div_ntt_fst [OF mq_poly_ntt [OF assms(1,3)], of "mqpoly_int_to_ntt logn a"]
    mq_ring_quotient [OF assms(1-3), of _ c] assms(4) by auto

theorem mqpoly_div_correct_witness:
  "fst (mqpoly_div_ntt 0 (mqpoly_int_to_ntt 0 [6]) (mqpoly_int_to_ntt 0 [3])) \<and>
   negconv 1 (\<lambda>i. mq16_val (mqpoly_ntt_to_int 0
      (snd (mqpoly_div_ntt 0 (mqpoly_int_to_ntt 0 [6]) (mqpoly_int_to_ntt 0 [3]))) ! i))
     (\<lambda>i. mq16_val ([3] ! i)) 0 mod 12289 = 6"
proof -
  have "mq_poly 0 [6]" "mq_poly 0 [3]" by (simp_all add: mq_poly_def mq16_ok_def)
  note d = mqpoly_div_correct [OF _ this surjective_pairing, simplified]
  have "mq16_val (mqpoly_int_to_ntt 0 [3] ! 0) = 3" "mq16_val 6 = 6"
    by (simp_all add: mqpoly_int_to_ntt_def mq16_val_def)
  with d show ?thesis by simp
qed

text \<open>\<^verbatim>\<open>mqpoly_int_to_small\<close> accepts exactly the polynomials whose centred coefficients
  fit in \<open>[-127, +127]\<close>, and then writes those coefficients.\<close>

theorem mqpoly_int_to_small_correct:
  assumes "mq_poly logn d" "length f = 2 ^ logn"
    and "mqpoly_int_to_small logn d f = (ok, f')"
  shows "(ok \<longleftrightarrow> (\<forall>i < 2 ^ logn. \<bar>mq_center (uint (d ! i))\<bar> \<le> 127)) \<and>
    (ok \<longrightarrow> (\<forall>i < 2 ^ logn. sint (f' ! i) = mq_center (uint (d ! i))))"
proof -
  have ok: "ok \<longleftrightarrow> (\<forall>i < 2 ^ logn. drop_bit 8 (mq_add (ucast (d ! i)) 128) = 0)"
    and f': "f' = for_upd (2 ^ logn) (\<lambda>i _. ucast (mq_add (ucast (d ! i)) 128 - 128)) f"
    using assms(3) unfolding mqpoly_int_to_small_eq by (auto simp: or_fold_zero)
  show ?thesis
    using int_to_small_elem [OF mq_poly_nth [OF assms(1)]] assms(2) by (simp add: ok f')
qed

theorem mqpoly_int_to_small_correct_witness:
  "fst (mqpoly_int_to_small 0 [12280] [0]) \<and> sint (snd (mqpoly_int_to_small 0 [12280] [0]) ! 0) = - 9"
proof -
  have "mq_poly 0 [12280]" by (simp add: mq_poly_def mq16_ok_def)
  note d = mqpoly_int_to_small_correct [OF this _ surjective_pairing, of "[0]", simplified]
  have "mq_center (uint (12280 :: u16)) = - 9" by (simp add: mq_center_def)
  with d show ?thesis by simp
qed

text \<open>C31: \<^verbatim>\<open>mqpoly_sqnorm\<close> is the squared norm of the centred polynomial, saturated to
  \<open>2^32 - 1\<close> as soon as it exceeds \<open>2^31 - 1\<close>; no overflow goes unnoticed at any degree.\<close>

theorem mqpoly_sqnorm_correct:
  assumes "length a = 2 ^ logn" "\<forall>x \<in> set a. uint x \<le> 12289"
  shows "uint (mqpoly_sqnorm logn a) =
    (let S = (\<Sum>i<2 ^ logn. mq_center (uint (a ! i)) * mq_center (uint (a ! i)))
     in if S < 2 ^ 31 then S else 2 ^ 32 - 1)"
  using assms by (rule mqpoly_sqnorm_uint)

theorem mqpoly_sqnorm_correct_witness:
  "uint (mqpoly_sqnorm 1 [3, 12285]) = 25"
proof -
  have set2: "{..<2::nat} = {0, 1}" by auto
  show ?thesis using mqpoly_sqnorm_correct [of "[3, 12285]" 1]
    by (simp add: set2 mq_center_def Let_def)
qed

end
