(* ===== verification/FndsaUtil.thy ===== *)
theory FndsaUtil
  imports MqPoly
begin

unbundle bit_operations_syntax

text \<open>
  \<^verbatim>\<open>util.go\<close>: sizes of keys and signatures, hashing a message to a polynomial, and the
  buffered generator over SHAKE256. SHAKE256 itself comes from a package outside the
  repository and is a parameter \<open>shake\<close>: the output stream, byte by byte, as a function of
  the bytes written.
\<close>

section \<open>Sizes\<close>

definition nbits_fg :: "nat \<Rightarrow> nat" where
  "nbits_fg logn =
     (if logn \<in> {2, 3, 4, 5} then 8 else if logn \<in> {6, 7} then 7 else if logn \<in> {8, 9} then 6 else 5)"

text \<open>The shift amounts are unsigned: below \<open>logn = 2\<close> they wrap and the shift gives 0.\<close>

definition shl_minus2 :: "nat \<Rightarrow> nat \<Rightarrow> nat" where
  "shl_minus2 x logn = (if logn < 2 then 0 else x * 2 ^ (logn - 2))"

definition SigningKeySize :: "nat \<Rightarrow> nat" where
  "SigningKeySize logn = 1 + shl_minus2 (nbits_fg logn) logn + 2 ^ logn"

definition VerifyingKeySize :: "nat \<Rightarrow> nat" where
  "VerifyingKeySize logn = 1 + shl_minus2 7 logn"

definition SignatureSize :: "nat \<Rightarrow> int" where
  "SignatureSize logn =
     (let sh = (\<lambda>x. if 10 < logn then 0 else x div 2 ^ (10 - logn))
      in 44 + 3 * sh 256 + 2 * sh 128 + 3 * sh 64 + 2 * sh 16 - 2 * sh 2 - 8 * sh 1)"

section \<open>Hashing a message to a point\<close>

type_synonym xof = "u8 list \<Rightarrow> nat \<Rightarrow> u8"

definition xof_read :: "xof \<Rightarrow> u8 list \<Rightarrow> nat \<Rightarrow> nat \<Rightarrow> u8 list" where
  "xof_read shake input pos k = map (\<lambda>i. shake input (pos + i)) [0..<k]"

datatype hash_error = Oversized_context | Unknown_prehash

text \<open>\<^verbatim>\<open>crypto.Hash\<close> identifiers of the Go standard library.\<close>

definition crypto_SHA256 :: nat where "crypto_SHA256 = 5"
definition crypto_SHA384 :: nat where "crypto_SHA384 = 6"
definition crypto_SHA512 :: nat where "crypto_SHA512 = 7"
definition crypto_SHA3_256 :: nat where "crypto_SHA3_256 = 11"
definition crypto_SHA3_384 :: nat where "crypto_SHA3_384 = 12"
definition crypto_SHA3_512 :: nat where "crypto_SHA3_512 = 13"
definition crypto_SHA512_256 :: nat where "crypto_SHA512_256 = 15"

lemmas crypto_ids = crypto_SHA256_def crypto_SHA384_def crypto_SHA512_def crypto_SHA3_256_def
  crypto_SHA3_384_def crypto_SHA3_512_def crypto_SHA512_256_def

definition oid_NONE :: "u8 list" where "oid_NONE = []"
definition oid_SHA256 :: "u8 list" where
  "oid_SHA256 = [0x06, 0x09, 0x60, 0x86, 0x48, 0x01, 0x65, 0x03, 0x04, 0x02, 0x01]"
definition oid_SHA384 :: "u8 list" where
  "oid_SHA384 = [0x06, 0x09, 0x60, 0x86, 0x48, 0x01, 0x65, 0x03, 0x04, 0x02, 0x02]"
definition oid_SHA512 :: "u8 list" where
  "oid_SHA512 = [0x06, 0x09, 0x60, 0x86, 0x48, 0x01, 0x65, 0x03, 0x04, 0x02, 0x03]"
definition oid_SHA512_256 :: "u8 list" where
  "oid_SHA512_256 = [0x06, 0x09, 0x60, 0x86, 0x48, 0x01, 0x65, 0x03, 0x04, 0x02, 0x06]"
definition oid_SHA3_256 :: "u8 list" where
  "oid_SHA3_256 = [0x06, 0x09, 0x60, 0x86, 0x48, 0x01, 0x65, 0x03, 0x04, 0x02, 0x08]"
definition oid_SHA3_384 :: "u8 list" where
  "oid_SHA3_384 = [0x06, 0x09, 0x60, 0x86, 0x48, 0x01, 0x65, 0x03, 0x04, 0x02, 0x09]"
definition oid_SHA3_512 :: "u8 list" where
  "oid_SHA3_512 = [0x06, 0x09, 0x60, 0x86, 0x48, 0x01, 0x65, 0x03, 0x04, 0x02, 0x0A]"

lemmas oids = oid_NONE_def oid_SHA256_def oid_SHA384_def oid_SHA512_def oid_SHA512_256_def
  oid_SHA3_256_def oid_SHA3_384_def oid_SHA3_512_def

definition hash_oid :: "nat \<Rightarrow> u8 list option" where
  "hash_oid hid =
     (if hid = 0 then Some oid_NONE
      else if hid = crypto_SHA256 then Some oid_SHA256
      else if hid = crypto_SHA384 then Some oid_SHA384
      else if hid = crypto_SHA512 then Some oid_SHA512
      else if hid = crypto_SHA512_256 then Some oid_SHA512_256
      else if hid = crypto_SHA3_256 then Some oid_SHA3_256
      else if hid = crypto_SHA3_384 then Some oid_SHA3_384
      else if hid = crypto_SHA3_512 then Some oid_SHA3_512
      else None)"

text \<open>The bytes written to the hash, or the error the function returns before sampling.\<close>

definition hash_input ::
  "u8 list \<Rightarrow> u8 list \<Rightarrow> u8 list \<Rightarrow> nat \<Rightarrow> u8 list \<Rightarrow> (hash_error, u8 list) result" where
  "hash_input nonce hashed_vrfy_key ctx hid data =
     (if hid = 0xFFFFFFFF then Inr (nonce @ data)
      else if 255 < length ctx then Inl Oversized_context
      else case hash_oid hid of
             None \<Rightarrow> Inl Unknown_prehash
           | Some hash_id \<Rightarrow>
               Inr (nonce @ hashed_vrfy_key @ [if hid = 0 then 0x00 else 0x01, of_nat (length ctx)]
                    @ ctx @ hash_id @ data))"

text \<open>\<^verbatim>\<open>for w >= q { w -= q }\<close>\<close>

function reduce_q :: "u32 \<Rightarrow> u32" where
  "reduce_q w = (if q \<le> w then reduce_q (w - q) else w)"
  by pat_completeness auto
termination
proof (relation "measure unat")
  fix w :: u32 assume "q \<le> w"
  then show "(w - q, w) \<in> measure unat" by (simp add: unat_sub q_def word_le_nat_alt)
qed simp

declare reduce_q.simps [simp del]

text \<open>
  The rejection-sampling loop reads until \<open>n\<close> values are accepted: how long depends on the
  stream, so not returning is the value \<^term>\<open>None\<close>.
\<close>

definition read_pair :: "(nat \<Rightarrow> u8) \<Rightarrow> nat \<Rightarrow> u32" where
  "read_pair rd pos = push_bit 8 (ucast (rd pos)) OR ucast (rd (pos + 1))"

partial_function (option) point_loop ::
  "(nat \<Rightarrow> u8) \<Rightarrow> nat \<Rightarrow> nat \<Rightarrow> nat \<Rightarrow> u16 list \<Rightarrow> u16 list option" where
  [code]: "point_loop rd n pos i c =
     (if i < n
      then let w = read_pair rd pos
           in if w < 61445 then point_loop rd n (pos + 2) (i + 1) (c[i := ucast (reduce_q w)])
              else point_loop rd n (pos + 2) i c
      else Some c)"

text \<open>The error that \<^verbatim>\<open>hash_to_point\<close> returns, if any, and the output slice.\<close>

definition hash_to_point ::
  "xof \<Rightarrow> nat \<Rightarrow> u8 list \<Rightarrow> u8 list \<Rightarrow> u8 list \<Rightarrow> nat \<Rightarrow> u8 list \<Rightarrow> u16 list \<Rightarrow>
    (hash_error option \<times> u16 list) option" where
  "hash_to_point shake logn nonce hashed_vrfy_key ctx hid data c =
     (case hash_input nonce hashed_vrfy_key ctx hid data of
        Inl e \<Rightarrow> Some (Some e, c)
      | Inr input \<Rightarrow> map_option (\<lambda>c. (None, c)) (point_loop (shake input) (2 ^ logn) 0 0 c))"

definition hash_verifying_key :: "xof \<Rightarrow> u8 list \<Rightarrow> u8 list" where
  "hash_verifying_key shake vkey = xof_read shake vkey 0 64"

subsection \<open>What the sampled polynomial is\<close>

lemma reduce_q_uint: "uint (reduce_q w) = uint w mod 12289"
proof (induction w rule: reduce_q.induct)
  case (1 w)
  show ?case
  proof (cases "q \<le> w")
    case True
    then have "12289 \<le> uint w" by (simp add: q_def word_le_def)
    then have "uint (w - q) = uint w - 12289" by (subst uint_sub_le) (simp_all add: q_def)
    moreover have "reduce_q w = reduce_q (w - q)" using True by (subst reduce_q.simps) simp
    ultimately show ?thesis using 1 True by simp
  next
    case False
    then have "uint w < 12289" by (simp add: q_def word_le_def)
    moreover have "reduce_q w = w" using False by (subst reduce_q.simps) simp
    ultimately show ?thesis by simp
  qed
qed

text \<open>The values accepted among the first \<open>m\<close> pairs of the stream, in order.\<close>

definition accepted :: "(nat \<Rightarrow> u8) \<Rightarrow> nat \<Rightarrow> nat \<Rightarrow> u32 list" where
  "accepted rd pos m = filter (\<lambda>w. w < 61445) (map (\<lambda>k. read_pair rd (pos + 2 * k)) [0..<m])"

lemma accepted_Suc:
  "accepted rd pos (Suc m) =
    (if read_pair rd pos < 61445 then [read_pair rd pos] else []) @ accepted rd (pos + 2) m"
proof -
  have "map (\<lambda>k. read_pair rd (pos + 2 * k)) [0..<Suc m]
      = read_pair rd pos # map (\<lambda>k. read_pair rd (pos + 2 + 2 * k)) [0..<m]"
    unfolding upt_conv_Cons [OF zero_less_Suc] by (simp add: map_Suc_upt [symmetric] o_def del: upt_Suc)
  then show ?thesis by (simp add: accepted_def del: upt_Suc)
qed

lemma point_loop_returns:
  assumes "n - i \<le> length (accepted rd pos m)" "i \<le> n" "n \<le> length c"
  shows "point_loop rd n pos i c =
    Some (take i c @ map (\<lambda>w. ucast (reduce_q w)) (take (n - i) (accepted rd pos m)) @ drop n c)"
  using assms
proof (induction m arbitrary: pos i c)
  case 0
  then have "i = n" by (simp add: accepted_def)
  then show ?case by (subst point_loop.simps) simp
next
  case (Suc m)
  show ?case
  proof (cases "i < n")
    case False
    with Suc.prems show ?thesis by (subst point_loop.simps) simp
  next
    case True
    let ?w = "read_pair rd pos"
    show ?thesis
    proof (cases "?w < 61445")
      case acc: True
      have "n - Suc i \<le> length (accepted rd (pos + 2) m)" using Suc.prems acc by (simp add: accepted_Suc)
      moreover have "take (Suc i) (c[i := ucast (reduce_q ?w)]) = take i c @ [ucast (reduce_q ?w)]"
        using True Suc.prems by (simp add: take_Suc_conv_app_nth)
      moreover have "n - i = Suc (n - Suc i)" using True by simp
      ultimately show ?thesis
        using True acc Suc.prems Suc.IH [of "Suc i" "pos + 2" "c[i := ucast (reduce_q ?w)]"]
        by (subst point_loop.simps) (simp add: accepted_Suc Let_def)
    next
      case False
      then show ?thesis
        using True Suc.prems Suc.IH [of i "pos + 2" c] by (subst point_loop.simps) (simp add: accepted_Suc Let_def)
    qed
  qed
qed

section \<open>The buffered generator\<close>

text \<open>The hash object is its input and the number of bytes read from it so far.\<close>

record shake256prng =
  st_input :: "u8 list"
  st_pos :: nat
  buf :: "u8 list"
  ptr :: nat

definition newSHAKE256prng :: "u8 list \<Rightarrow> shake256prng" where
  "newSHAKE256prng seed = \<lparr>st_input = seed, st_pos = 0, buf = replicate 136 0, ptr = 136\<rparr>"

definition next_u8 :: "xof \<Rightarrow> shake256prng \<Rightarrow> u8 \<times> shake256prng" where
  "next_u8 shake r =
     (let p = ptr r;
          (r, p) = (if p = length (buf r)
                    then (r\<lparr>buf := xof_read shake (st_input r) (st_pos r) 136, st_pos := st_pos r + 136\<rparr>, 0)
                    else (r, p));
          r = r\<lparr>ptr := p + 1\<rparr>
      in (buf r ! p, r))"

definition next_u16 :: "xof \<Rightarrow> shake256prng \<Rightarrow> u16 \<times> shake256prng" where
  "next_u16 shake r =
     (let p = ptr r
      in if length (buf r) - 1 \<le> p
         then let (x, r) = next_u8 shake r; (y, r) = next_u8 shake r
              in (ucast x + push_bit 8 (ucast y), r)
         else (ucast (buf r ! p) + push_bit 8 (ucast (buf r ! (p + 1))), r\<lparr>ptr := p + 2\<rparr>))"

definition next_u64 :: "xof \<Rightarrow> shake256prng \<Rightarrow> u64 \<times> shake256prng" where
  "next_u64 shake r =
     (let p = ptr r
      in if length (buf r) - 7 \<le> p
         then fold (\<lambda>i (x, r). let (y, r) = next_u8 shake r in (x + push_bit (8 * i) (ucast y), r)) [0..<8] (0, r)
         else (fold (\<lambda>i x. x + push_bit (8 * i) (ucast (buf r ! (p + i)))) [0..<8] 0, r\<lparr>ptr := p + 8\<rparr>))"

text \<open>The next byte to be delivered is byte \<open>k\<close> of the stream, and the buffer holds the stream.\<close>

definition prng_at :: "xof \<Rightarrow> u8 list \<Rightarrow> shake256prng \<Rightarrow> nat \<Rightarrow> bool" where
  "prng_at shake inp r k \<longleftrightarrow> st_input r = inp \<and> length (buf r) = 136 \<and> ptr r \<le> 136 \<and>
     st_pos r + ptr r = k + 136 \<and> (\<forall>i<136. ptr r \<le> i \<longrightarrow> buf r ! i = shake inp (k + i - ptr r))"

lemma prng_at_new: "prng_at shake seed (newSHAKE256prng seed) 0"
  by (simp add: prng_at_def newSHAKE256prng_def)

lemma next_u8_at:
  assumes "prng_at shake inp r k"
  shows "fst (next_u8 shake r) = shake inp k \<and> prng_at shake inp (snd (next_u8 shake r)) (k + 1)"
proof (cases "ptr r = 136")
  case True
  have "xof_read shake inp k 136 ! i = shake inp (k + i)" if "i < 136" for i
    using that by (simp add: xof_read_def)
  moreover have "length (xof_read shake inp k 136) = 136" by (simp add: xof_read_def)
  ultimately show ?thesis using assms True by (auto simp: prng_at_def next_u8_def)
next
  case False
  then have "ptr r < 136" using assms by (simp add: prng_at_def)
  with assms show ?thesis by (auto simp: prng_at_def next_u8_def)
qed

lemma next_u8_fold:
  assumes "prng_at shake inp r k"
  defines "f \<equiv> \<lambda>i (x :: u64, r). let (y, r) = next_u8 shake r in (x + push_bit (8 * i) (ucast y), r)"
  shows "fst (fold f [0..<m] (0, r)) = fold (\<lambda>i x. x + push_bit (8 * i) (ucast (shake inp (k + i)))) [0..<m] 0 \<and>
    prng_at shake inp (snd (fold f [0..<m] (0, r))) (k + m)"
proof (induction m)
  case (Suc m)
  obtain x r' where xr: "fold f [0..<m] (0, r) = (x, r')" by fastforce
  with Suc have "prng_at shake inp r' (k + m)" by simp
  from next_u8_at [OF this] Suc xr show ?case
    by (cases "next_u8 shake r'") (simp add: f_def)
qed (use assms in simp)

text \<open>C34: whatever mix of calls is made, the generator delivers the bytes of the SHAKE256
  stream of its seed, each once and in order, 16- and 64-bit values being little-endian: the
  fast path inside the buffer and the slow path across its end agree.\<close>

theorem prng_delivers_stream:
  assumes "prng_at shake inp r k"
  shows "fst (next_u8 shake r) = shake inp k \<and> prng_at shake inp (snd (next_u8 shake r)) (k + 1) \<and>
    fst (next_u16 shake r) = ucast (shake inp k) + push_bit 8 (ucast (shake inp (k + 1))) \<and>
    prng_at shake inp (snd (next_u16 shake r)) (k + 2) \<and>
    fst (next_u64 shake r) = fold (\<lambda>i x. x + push_bit (8 * i) (ucast (shake inp (k + i)))) [0..<8] 0 \<and>
    prng_at shake inp (snd (next_u64 shake r)) (k + 8)"
proof -
  have u16: "fst (next_u16 shake r) = ucast (shake inp k) + push_bit 8 (ucast (shake inp (k + 1))) \<and>
    prng_at shake inp (snd (next_u16 shake r)) (k + 2)"
  proof (cases "135 \<le> ptr r")
    case True
    obtain x r1 where 1: "next_u8 shake r = (x, r1)" by fastforce
    obtain y r2 where 2: "next_u8 shake r1 = (y, r2)" by fastforce
    have "prng_at shake inp r1 (k + 1)" "x = shake inp k" using next_u8_at [OF assms] 1 by simp_all
    moreover from next_u8_at [OF this(1)] 2 have "y = shake inp (k + 1)" "prng_at shake inp r2 (k + 2)" by simp_all
    ultimately show ?thesis using True 1 2 assms by (simp add: next_u16_def prng_at_def)
  next
    case False
    with assms show ?thesis by (auto simp: next_u16_def prng_at_def Let_def)
  qed
  have u64: "fst (next_u64 shake r) = fold (\<lambda>i x. x + push_bit (8 * i) (ucast (shake inp (k + i)))) [0..<8] 0 \<and>
    prng_at shake inp (snd (next_u64 shake r)) (k + 8)"
  proof (cases "129 \<le> ptr r")
    case True
    then have "next_u64 shake r = fold (\<lambda>i (x, r). let (y, r) = next_u8 shake r in (x + push_bit (8 * i) (ucast y), r)) [0..<8] (0, r)"
      using assms by (simp only: next_u64_def Let_def prng_at_def) simp
    with next_u8_fold [OF assms, of 8] show ?thesis by simp
  next
    case False
    have "buf r ! (ptr r + i) = shake inp (k + i)" if "i < 8" for i
      using assms False that by (simp add: prng_at_def)
    then have "fold (\<lambda>i x. x + push_bit (8 * i) (ucast (buf r ! (ptr r + i)) :: u64)) [0..<8] 0
        = fold (\<lambda>i x. x + push_bit (8 * i) (ucast (shake inp (k + i)))) [0..<8] 0"
      by (intro fold_cong) auto
    moreover have "next_u64 shake r = (fold (\<lambda>i x. x + push_bit (8 * i) (ucast (buf r ! (ptr r + i)))) [0..<8] 0, r\<lparr>ptr := ptr r + 8\<rparr>)"
      using assms False by (simp only: next_u64_def Let_def prng_at_def) simp
    moreover have "prng_at shake inp (r\<lparr>ptr := ptr r + 8\<rparr>) (k + 8)" using assms False by (simp add: prng_at_def)
    ultimately show ?thesis by simp
  qed
  from u16 u64 next_u8_at [OF assms] show ?thesis by blast
qed

theorem prng_delivers_stream_witness:
  "fst (next_u16 (\<lambda>inp i. of_nat i + 1) (newSHAKE256prng [7])) = 0x0201"
proof -
  have "prng_at (\<lambda>inp i. of_nat i + 1) [7] (newSHAKE256prng [7]) 0"
    by (simp add: prng_at_def newSHAKE256prng_def)
  from prng_delivers_stream [OF this] show ?thesis by (simp add: push_bit_eq_mult)
qed

section \<open>Properties of hashing to a point\<close>

text \<open>C23: when the stream has enough accepted pairs, \<^verbatim>\<open>hash_to_point\<close> returns without error
  the first \<open>n\<close> accepted values reduced modulo \<open>q\<close>, all in \<open>[0, q-1]\<close>; a refused context or
  identifier returns the error and leaves the output slice as it was.\<close>

theorem hash_to_point_correct:
  assumes "length c = 2 ^ logn"
  shows "(\<forall>input m. hash_input nonce hvk ctx hid data = Inr input \<and> 2 ^ logn \<le> length (accepted (shake input) 0 m) \<longrightarrow>
      (\<exists>c'. hash_to_point shake logn nonce hvk ctx hid data c = Some (None, c') \<and> length c' = 2 ^ logn \<and>
        (\<forall>i < 2 ^ logn. uint (c' ! i) = uint (accepted (shake input) 0 m ! i) mod 12289 \<and> uint (c' ! i) < 12289))) \<and>
    (\<forall>e. hash_input nonce hvk ctx hid data = Inl e \<longrightarrow>
      hash_to_point shake logn nonce hvk ctx hid data c = Some (Some e, c))"
proof (intro conjI allI impI)
  fix input m assume h: "hash_input nonce hvk ctx hid data = Inr input \<and> 2 ^ logn \<le> length (accepted (shake input) 0 m)"
  let ?A = "accepted (shake input) 0 m"
  let ?c = "map (\<lambda>w. ucast (reduce_q w) :: u16) (take (2 ^ logn) ?A)"
  have "point_loop (shake input) (2 ^ logn) 0 0 c = Some ?c"
    using point_loop_returns [of "2 ^ logn" 0 "shake input" 0 m c] h assms by simp
  then have r: "hash_to_point shake logn nonce hvk ctx hid data c = Some (None, ?c)"
    using h by (simp add: hash_to_point_def)
  have "uint (?c ! i) = uint (?A ! i) mod 12289" if "i < 2 ^ logn" for i
  proof -
    have "?c ! i = ucast (reduce_q (?A ! i))" using that h by simp
    moreover have "uint (reduce_q (?A ! i)) < 65536" unfolding reduce_q_uint
      by (rule order.strict_trans [OF pos_mod_bound]) simp_all
    ultimately show ?thesis using uint_ucast_32_16 [of "reduce_q (?A ! i)"] by (simp add: reduce_q_uint)
  qed
  then show "\<exists>c'. hash_to_point shake logn nonce hvk ctx hid data c = Some (None, c') \<and> length c' = 2 ^ logn \<and>
        (\<forall>i < 2 ^ logn. uint (c' ! i) = uint (?A ! i) mod 12289 \<and> uint (c' ! i) < 12289)"
    using r h by (intro exI [of _ ?c]) simp
qed (simp add: hash_to_point_def)

theorem hash_to_point_correct_witness:
  "\<exists>c'. hash_to_point (\<lambda>inp i. 1) 0 [] [] [] 0 [] [7] = Some (None, c') \<and> uint (c' ! 0) = 257"
proof -
  have a: "accepted (\<lambda>i. 1) 0 1 = [257]" by (simp add: accepted_def read_pair_def push_bit_eq_mult)
  have "hash_input [] [] [] 0 [] = Inr [0, 0]" by (simp add: hash_input_def hash_oid_def oid_NONE_def)
  then show ?thesis
    using hash_to_point_correct [of "[7]" 0 "[]" "[]" "[]" 0 "[]" "\<lambda>inp i. 1", THEN conjunct1,
      rule_format, of "[0, 0]" 1] a by auto
qed

lemma oid_lengths: "hash_oid hid = Some oid \<Longrightarrow> hid \<noteq> 0 \<Longrightarrow> length oid = 11"
  by (auto simp: hash_oid_def oids split: if_splits)

lemma oid_inj: "hash_oid i = Some oid \<Longrightarrow> hash_oid j = Some oid \<Longrightarrow> i = j"
  by (auto simp: hash_oid_def oids split: if_splits)

text \<open>Domain separation. Under one nonce and one verifying key, the bytes hashed determine
  the context, the pre-hash identifier and the data: messages signed under different contexts
  or pre-hash functions are never hashed from the same input.\<close>

theorem hash_input_injective:
  assumes "hash_input nonce hvk ctx i data = Inr inp" "hash_input nonce hvk ctx' i' data' = Inr inp"
    and "i \<noteq> 0xFFFFFFFF" "i' \<noteq> 0xFFFFFFFF"
  shows "ctx = ctx' \<and> i = i' \<and> data = data'"
proof -
  obtain oid where o: "hash_oid i = Some oid" "length ctx \<le> 255"
    "inp = nonce @ hvk @ [if i = 0 then 0 else 1, of_nat (length ctx)] @ ctx @ oid @ data"
    using assms(1,3) by (auto simp: hash_input_def split: if_splits option.splits)
  obtain oid' where o': "hash_oid i' = Some oid'" "length ctx' \<le> 255"
    "inp = nonce @ hvk @ [if i' = 0 then 0 else 1, of_nat (length ctx')] @ ctx' @ oid' @ data'"
    using assms(2,4) by (auto simp: hash_input_def split: if_splits option.splits)
  have "[if i = 0 then 0 else 1 :: u8, of_nat (length ctx)] @ ctx @ oid @ data
      = [if i' = 0 then 0 else 1, of_nat (length ctx')] @ ctx' @ oid' @ data'"
    using o(3) o'(3) by (simp only: append_same_eq same_append_eq)
  then have e: "(if i = 0 then 0 else 1 :: u8) = (if i' = 0 then 0 else 1)"
    "(of_nat (length ctx) :: u8) = of_nat (length ctx')" "ctx @ oid @ data = ctx' @ oid' @ data'"
    by (simp_all only: append_Cons append_Nil list.inject)
  have u: "unat (of_nat (length ctx) :: u8) = length ctx" "unat (of_nat (length ctx') :: u8) = length ctx'"
    using o(2) o'(2) by (simp_all add: unat_of_nat)
  have "length ctx = length ctx'" using arg_cong [OF e(2), of unat] unfolding u .
  then have c: "ctx = ctx'" "oid @ data = oid' @ data'" using e(3) by simp_all
  have z: "i = 0 \<longleftrightarrow> i' = 0" using e(1) by (auto split: if_splits)
  have "length oid = length oid'"
    using o(1) o'(1) z oid_lengths by (cases "i = 0") (auto simp: hash_oid_def oid_NONE_def)
  then have "oid = oid'" "data = data'" using c(2) by simp_all
  with c(1) oid_inj o(1) o'(1) show ?thesis by blast
qed

theorem hash_input_injective_witness:
  "hash_input [1] [2] [3] 5 [4] = Inr ([1, 2, 1, 1, 3] @ oid_SHA256 @ [4]) \<and>
   hash_input [1] [2] [3] 5 [4] \<noteq> hash_input [1] [2] [] 5 [3, 4]"
proof -
  have "hash_input [1] [2] [3] 5 [4] = Inr ([1, 2, 1, 1, 3] @ oid_SHA256 @ [4])"
    by (simp add: hash_input_def hash_oid_def crypto_ids)
  moreover from hash_input_injective [OF this, of "[]" 5 "[3, 4]"]
  have "hash_input [1] [2] [] 5 [3, 4] \<noteq> Inr ([1, 2, 1, 1, 3] @ oid_SHA256 @ [4])" by auto
  ultimately show ?thesis by metis
qed

end
