(* ===== verification/Verify.thy ===== *)
theory Verify
  imports CodecModq FndsaUtil
begin

unbundle bit_operations_syntax

text \<open>
  Signature verification (\<^verbatim>\<open>vrfy.go\<close>). \<^verbatim>\<open>verify_inner\<close> is modelled with its buffers and in the
  order of the source; the theorem relates it to the mathematical predicate: the decoded
  \<open>s2\<close> and \<open>s1 = c - s2 h\<close> in the ring are short.
\<close>

section \<open>The verification function\<close>

text \<open>\<^term>\<open>None\<close> means that the rejection sampling of the hash never returns.\<close>

definition verify_inner ::
  "xof \<Rightarrow> nat \<Rightarrow> nat \<Rightarrow> u8 list \<Rightarrow> u8 list \<Rightarrow> nat \<Rightarrow> u8 list \<Rightarrow> u8 list \<Rightarrow> bool option" where
  "verify_inner shake logn_min logn_max vkey ctx hid data sig =
     (if length vkey = 0 \<or> length sig = 0 then Some False
      else let head1 = vkey ! 0; head2 = sig ! 0
      in if head1 AND 0xF0 \<noteq> 0x00 \<or> head2 AND 0xF0 \<noteq> 0x30 then Some False
      else let logn = unat (head1 AND 0x0F)
      in if logn \<noteq> unat (head2 AND 0x0F) then Some False
      else if logn < logn_min \<or> logn_max < logn then Some False
      else if length vkey \<noteq> VerifyingKeySize logn \<or> int (length sig) \<noteq> SignatureSize logn then Some False
      else let n = 2 ^ logn; s2 = replicate n 0; t1 = replicate n 0; t2 = replicate n 0
      in case modq_decode logn (drop 1 vkey) t1 of Inl e \<Rightarrow> Some False | Inr (_, t1) \<Rightarrow>
         (case comp_decode logn (drop 41 sig) s2 of Inl e \<Rightarrow> Some False | Inr s2 \<Rightarrow>
           let nonce = take 40 (drop 1 sig);
               norm2 = signed_poly_sqnorm logn s2;
               t1 = mqpoly_ext_to_int logn t1;
               t1 = mqpoly_int_to_ntt logn t1;
               t2 = mqpoly_signed_to_int logn s2 t2;
               t2 = mqpoly_int_to_ntt logn t2;
               t1 = mqpoly_mul_ntt logn t1 t2;
               t1 = mqpoly_ntt_to_int logn t1;
               hvk = hash_verifying_key shake vkey
           in case hash_to_point shake logn nonce hvk ctx hid data t2 of
                None \<Rightarrow> None
              | Some (err, t2) \<Rightarrow>
                  let t2 = mqpoly_ext_to_int logn t2;
                      t2 = mqpoly_sub_int logn t2 t1;
                      norm1 = mqpoly_sqnorm logn t2
                  in Some (norm1 < - norm2 \<and> mqpoly_sqnorm_is_acceptable logn (norm1 + norm2))))"

definition Verify :: "xof \<Rightarrow> u8 list \<Rightarrow> u8 list \<Rightarrow> nat \<Rightarrow> u8 list \<Rightarrow> u8 list \<Rightarrow> bool option" where
  "Verify shake vkey ctx hid data sig = verify_inner shake 9 10 vkey ctx hid data sig"

definition VerifyWeak :: "xof \<Rightarrow> u8 list \<Rightarrow> u8 list \<Rightarrow> nat \<Rightarrow> u8 list \<Rightarrow> u8 list \<Rightarrow> bool option" where
  "VerifyWeak shake vkey ctx hid data sig = verify_inner shake 2 8 vkey ctx hid data sig"

section \<open>Specification\<close>

text \<open>What the signature scheme asks of a decoded key, hashed message and signature.\<close>

definition s1_coef :: "nat \<Rightarrow> u16 list \<Rightarrow> u16 list \<Rightarrow> i16 list \<Rightarrow> nat \<Rightarrow> int" where
  "s1_coef n c h s2 k =
     mq_center (uint (c ! k) - negconv n (\<lambda>i. uint (h ! i)) (\<lambda>i. sint (s2 ! i)) k)"

definition sig_short :: "nat \<Rightarrow> u16 list \<Rightarrow> u16 list \<Rightarrow> i16 list \<Rightarrow> bool" where
  "sig_short logn c h s2 \<longleftrightarrow>
     (let n = 2 ^ logn;
          norm1 = (\<Sum>k<n. s1_coef n c h s2 k * s1_coef n c h s2 k);
          norm2 = (\<Sum>k<n. sint (s2 ! k) * sint (s2 ! k))
      in 0 < norm2 \<and> norm1 + norm2 \<le> uint (sqbeta ! logn))"

definition headers_ok :: "nat \<Rightarrow> nat \<Rightarrow> u8 list \<Rightarrow> u8 list \<Rightarrow> nat \<Rightarrow> bool" where
  "headers_ok logn_min logn_max vkey sig logn \<longleftrightarrow>
     vkey \<noteq> [] \<and> sig \<noteq> [] \<and> vkey ! 0 = of_nat logn \<and> sig ! 0 = 0x30 + of_nat logn \<and>
     logn_min \<le> logn \<and> logn \<le> logn_max \<and>
     length vkey = VerifyingKeySize logn \<and> int (length sig) = SignatureSize logn"

section \<open>Refinement\<close>

lemma mq_center_mod [simp]: "mq_center (v mod 12289) = mq_center v"
  by (simp add: mq_center_def)

lemma mq_center_cong: "v mod 12289 = w mod 12289 \<Longrightarrow> mq_center v = mq_center w"
  by (simp add: mq_center_def)

lemma verify_s1:
  assumes logn: "logn \<le> 10" and h: "length h = 2 ^ logn" "list_all (\<lambda>v. uint v < 12289) h"
    and s2: "length s2 = 2 ^ logn" "list_all (\<lambda>x. \<bar>sint x\<bar> \<le> 2047) s2"
    and c: "length c = 2 ^ logn" "list_all (\<lambda>v. uint v < 12289) c" and t2: "length t2 = 2 ^ logn"
  defines "p \<equiv> mqpoly_ntt_to_int logn (mqpoly_mul_ntt logn
      (mqpoly_int_to_ntt logn (mqpoly_ext_to_int logn h))
      (mqpoly_int_to_ntt logn (mqpoly_signed_to_int logn s2 t2)))"
  shows "mq_poly logn (mqpoly_sub_int logn (mqpoly_ext_to_int logn c) p)"
    and "k < 2 ^ logn \<Longrightarrow>
      mq_center (uint (mqpoly_sub_int logn (mqpoly_ext_to_int logn c) p ! k)) = s1_coef (2 ^ logn) c h s2 k"
proof -
  have ext: "mq_poly logn (mqpoly_ext_to_int logn v) \<and>
      (\<forall>i < 2 ^ logn. mq16_val (mqpoly_ext_to_int logn v ! i) = uint (v ! i))"
    if v: "length v = 2 ^ logn" "list_all (\<lambda>v. uint v < 12289) v" for v
  proof -
    have lt: "uint (v ! i) < 12289" if "i < 2 ^ logn" for i using v that by (simp add: list_all_length)
    then show ?thesis using mqpoly_ext_to_int_nth [of logn v] v(1)
      by (auto intro!: mq_polyI simp: mqpoly_ext_to_int_def mq16_val_def less_imp_le)
  qed
  note hi = ext [OF h] and ci = ext [OF c]
  have sx: "\<bar>sint (s2 ! i)\<bar> \<le> 12288" if "i < 2 ^ logn" for i using s2 that by (auto simp: list_all_length)
  let ?s = "mqpoly_signed_to_int logn s2 t2"
  have si: "mq_poly logn ?s" "\<And>i. i < 2 ^ logn \<Longrightarrow> mq16_val (?s ! i) = sint (s2 ! i) mod 12289"
    using mqpoly_signed_to_int_nth [of logn t2 _ s2] sx t2
    by (auto intro!: mq_polyI simp: mqpoly_signed_to_int_def)
  have p: "mq_poly logn p"
    unfolding p_def by (intro mq_poly_intt mq_poly_mul mq_poly_ntt logn si) (use hi in simp_all)
  have pv: "mq16_val (p ! k) = negconv (2 ^ logn) (\<lambda>i. uint (h ! i)) (\<lambda>i. sint (s2 ! i)) k mod 12289"
    if "k < 2 ^ logn" for k
  proof -
    have "mq16_val (p ! k) = negconv (2 ^ logn) (\<lambda>i. mq16_val (mqpoly_ext_to_int logn h ! i)) (\<lambda>i. mq16_val (?s ! i)) k mod 12289"
      unfolding p_def using hi si(1) that by (intro mq_ring_product logn) simp_all
    also have "\<dots> = negconv (2 ^ logn) (\<lambda>i. uint (h ! i)) (\<lambda>i. sint (s2 ! i)) k mod 12289"
      by (rule negconv_cong_mod) (use hi si(2) that in auto)
    finally show ?thesis .
  qed
  show "mq_poly logn (mqpoly_sub_int logn (mqpoly_ext_to_int logn c) p)"
    using ci p by (intro mq_poly_sub) simp_all
  show "mq_center (uint (mqpoly_sub_int logn (mqpoly_ext_to_int logn c) p ! k)) = s1_coef (2 ^ logn) c h s2 k"
    if k: "k < 2 ^ logn"
  proof -
    have "mq16_val (mqpoly_sub_int logn (mqpoly_ext_to_int logn c) p ! k)
        = (uint (c ! k) - negconv (2 ^ logn) (\<lambda>i. uint (h ! i)) (\<lambda>i. sint (s2 ! i)) k) mod 12289"
      using mqpoly_sub_int_nth(2) [OF conjunct1 [OF ci] p k] ci k pv [OF k] by (simp add: mod_diff_right_eq)
    then show ?thesis unfolding s1_coef_def by (intro mq_center_cong) (simp add: mq16_val_def)
  qed
qed

text \<open>The final comparison, with its guard against overflow of the sum.\<close>

lemma norm_test:
  fixes norm1 norm2 :: u32
  assumes "uint norm1 = (if S1 < 2 ^ 31 then S1 else 2 ^ 32 - 1)" "0 \<le> S1" "uint norm2 = S2" "logn \<le> 10" "1 \<le> logn"
  shows "norm1 < - norm2 \<and> mqpoly_sqnorm_is_acceptable logn (norm1 + norm2) \<longleftrightarrow>
    0 < S2 \<and> S1 + S2 \<le> uint (sqbeta ! logn)"
proof -
  have beta: "uint (sqbeta ! logn) < 2 ^ 31"
  proof -
    have "list_all (\<lambda>b. uint b < 2 ^ 31) sqbeta" by (simp add: sqbeta_def)
    then show ?thesis using assms(4) by (simp add: list_all_length sqbeta_def)
  qed
  have neg: "uint (- norm2) = (if S2 = 0 then 0 else 2 ^ 32 - S2)"
  proof (cases "S2 = 0")
    case True
    then have "norm2 = 0" using assms(3) by (simp add: uint_0_iff)
    with True show ?thesis by simp
  next
    case False
    have "- norm2 = word_of_int (2 ^ 32 - uint norm2)" by simp
    then show ?thesis using False assms(3) uint_lt2p [of norm2] uint_ge_0 [of norm2]
      by (subst uint_of_int_eqI [of "- norm2" "2 ^ 32 - uint norm2"]) simp_all
  qed
  have S2: "0 \<le> S2" "S2 < 2 ^ 32" using assms(3) uint_ge_0 [of norm2] uint_lt2p [of norm2] by simp_all
  have "norm1 < - norm2 \<longleftrightarrow> S2 \<noteq> 0 \<and> uint norm1 < 2 ^ 32 - S2"
    using neg uint_ge_0 [of norm1] by (simp add: word_less_def)
  moreover have "S2 \<noteq> 0 \<longleftrightarrow> 0 < S2" using S2(1) by linarith
  ultimately have lt: "norm1 < - norm2 \<longleftrightarrow> 0 < S2 \<and> uint norm1 < 2 ^ 32 - S2" by simp
  have sum: "uint (norm1 + norm2) = uint norm1 + S2" if "uint norm1 < 2 ^ 32 - S2"
    using that assms(3) by (subst uint_add_lt) simp_all
  show ?thesis
  proof (cases "S1 < 2 ^ 31")
    case True
    then show ?thesis using lt sum assms S2 beta by (auto simp: mqpoly_sqnorm_is_acceptable_def word_le_def)
  next
    case False
    then show ?thesis using lt assms S2 beta by auto
  qed
qed

lemma mask_split: "(b AND m) + (b AND NOT m) = b" for b m :: "'a::len word"
proof -
  have "(b AND m) + (b AND NOT m) = (b AND m) OR (b AND NOT m)"
    by (rule disjunctive_add) (auto simp: bit_and_iff bit_not_iff)
  also have "\<dots> = b" by (intro bit_word_eqI) (auto simp: bit_or_iff bit_and_iff bit_not_iff)
  finally show ?thesis .
qed

lemma nibbles: "b = (b AND 0xF0) + (b AND 0x0F)" for b :: u8
proof -
  have c: "(0x0F :: u8) = NOT 0xF0" by simp
  show ?thesis unfolding c by (rule mask_split [symmetric])
qed

lemma nibble_values:
  assumes "k < 16"
  shows "(of_nat k :: u8) AND 0xF0 = 0" "unat ((of_nat k :: u8) AND 0x0F) = k"
    "(0x30 + of_nat k :: u8) AND 0xF0 = 0x30" "unat ((0x30 + of_nat k :: u8) AND 0x0F) = k"
proof -
  have "k \<in> set [0..<16]" using assms by simp
  then have "(of_nat k :: u8) AND 0xF0 = 0 \<and> unat ((of_nat k :: u8) AND 0x0F) = k \<and>
    (0x30 + of_nat k :: u8) AND 0xF0 = 0x30 \<and> unat ((0x30 + of_nat k :: u8) AND 0x0F) = k"
    by (auto simp: upt_rec)
  then show "(of_nat k :: u8) AND 0xF0 = 0" "unat ((of_nat k :: u8) AND 0x0F) = k"
    "(0x30 + of_nat k :: u8) AND 0xF0 = 0x30" "unat ((0x30 + of_nat k :: u8) AND 0x0F) = k" by blast+
qed

lemma headers_iff:
  assumes "logn_max \<le> 15" "vkey \<noteq> []" "sig \<noteq> []"
  defines "logn \<equiv> unat (vkey ! 0 AND 0x0F)"
  shows "headers_ok logn_min logn_max vkey sig l \<longleftrightarrow>
    l = logn \<and> vkey ! 0 AND 0xF0 = 0x00 \<and> sig ! 0 AND 0xF0 = 0x30 \<and> logn = unat (sig ! 0 AND 0x0F) \<and>
    logn_min \<le> logn \<and> logn \<le> logn_max \<and>
    length vkey = VerifyingKeySize logn \<and> int (length sig) = SignatureSize logn"
proof
  assume h: "headers_ok logn_min logn_max vkey sig l"
  then have l: "l < 16" using assms(1) by (simp add: headers_ok_def)
  have "l = logn" using h nibble_values [OF l] by (simp add: headers_ok_def logn_def)
  then show "l = logn \<and> vkey ! 0 AND 0xF0 = 0x00 \<and> sig ! 0 AND 0xF0 = 0x30 \<and> logn = unat (sig ! 0 AND 0x0F) \<and>
    logn_min \<le> logn \<and> logn \<le> logn_max \<and>
    length vkey = VerifyingKeySize logn \<and> int (length sig) = SignatureSize logn"
    using h nibble_values [OF l] by (simp add: headers_ok_def)
next
  assume r: "l = logn \<and> vkey ! 0 AND 0xF0 = 0x00 \<and> sig ! 0 AND 0xF0 = 0x30 \<and> logn = unat (sig ! 0 AND 0x0F) \<and>
    logn_min \<le> logn \<and> logn \<le> logn_max \<and>
    length vkey = VerifyingKeySize logn \<and> int (length sig) = SignatureSize logn"
  have o: "of_nat logn = vkey ! 0 AND 0x0F" "of_nat logn = sig ! 0 AND 0x0F"
  proof -
    show "of_nat logn = vkey ! 0 AND 0x0F" by (simp add: logn_def)
    have "of_nat (unat (sig ! 0 AND 0x0F)) = sig ! 0 AND 0x0F" by simp
    then show "of_nat logn = sig ! 0 AND 0x0F" using r by simp
  qed
  have z: "vkey ! 0 AND 0xF0 = 0" "sig ! 0 AND 0xF0 = 0x30" using r by blast+
  have "vkey ! 0 = of_nat logn" using nibbles [of "vkey ! 0"] unfolding o(1) [symmetric] z add_0 .
  moreover have "sig ! 0 = 0x30 + of_nat logn" using nibbles [of "sig ! 0"] unfolding o(2) [symmetric] z .
  moreover have "l = logn" using r by blast
  ultimately show "headers_ok logn_min logn_max vkey sig l" unfolding headers_ok_def using r assms(2,3) by blast
qed

lemma hash_input_ok:
  assumes "hid = 0xFFFFFFFF \<or> length ctx \<le> 255 \<and> hash_oid hid \<noteq> None"
  shows "\<exists>input. hash_input nonce hvk ctx hid data = Inr input"
  using assms by (cases "hid = 0xFFFFFFFF"; cases "hash_oid hid") (auto simp: hash_input_def)

text \<open>A stream is good when it never runs out of accepted pairs.\<close>

definition xof_good :: "xof \<Rightarrow> bool" where
  "xof_good shake \<longleftrightarrow> (\<forall>input n. \<exists>m. n \<le> length (accepted (shake input) 0 m))"

lemma hash_to_point_returns:
  assumes "xof_good shake" "hash_input nonce hvk ctx hid data = Inr input"
  shows "\<exists>c'. \<forall>c. length c = 2 ^ logn \<longrightarrow>
    hash_to_point shake logn nonce hvk ctx hid data c = Some (None, c') \<and> length c' = 2 ^ logn \<and>
    list_all (\<lambda>v. uint v < 12289) c'"
proof -
  obtain m where m: "2 ^ logn \<le> length (accepted (shake input) 0 m)" using assms(1) by (auto simp: xof_good_def)
  let ?c = "map (\<lambda>w. ucast (reduce_q w) :: u16) (take (2 ^ logn) (accepted (shake input) 0 m))"
  have "uint (ucast (reduce_q w) :: u16) < 12289" for w
  proof -
    have "uint (reduce_q w) < 12289" by (simp add: reduce_q_uint)
    then show ?thesis by (subst uint_ucast_32_16) simp_all
  qed
  then have "list_all (\<lambda>v. uint v < 12289) ?c" by (simp add: list_all_iff)
  moreover have "hash_to_point shake logn nonce hvk ctx hid data c = Some (None, ?c)" if "length c = 2 ^ logn" for c
    using point_loop_returns [of "2 ^ logn" 0 "shake input" 0 m c] m that assms(2) by (simp add: hash_to_point_def)
  ultimately show ?thesis using m by (intro exI [of _ ?c]) simp
qed

text \<open>The function after its header checks, with the decoded key and signature.\<close>

lemma verify_inner_decoded:
  assumes "headers_ok logn_min logn_max vkey sig logn" "logn_max \<le> 10"
  shows "verify_inner shake logn_min logn_max vkey ctx hid data sig =
    (case modq_decode logn (drop 1 vkey) (replicate (2 ^ logn) 0) of Inl e \<Rightarrow> Some False | Inr (_, h) \<Rightarrow>
     (case comp_decode logn (drop 41 sig) (replicate (2 ^ logn) 0) of Inl e \<Rightarrow> Some False | Inr s2 \<Rightarrow>
       let t2 = mqpoly_int_to_ntt logn (mqpoly_signed_to_int logn s2 (replicate (2 ^ logn) 0));
           t1 = mqpoly_ntt_to_int logn (mqpoly_mul_ntt logn (mqpoly_int_to_ntt logn (mqpoly_ext_to_int logn h)) t2);
           norm2 = signed_poly_sqnorm logn s2
       in case hash_to_point shake logn (take 40 (drop 1 sig)) (hash_verifying_key shake vkey) ctx hid data t2 of
            None \<Rightarrow> None
          | Some (_, t2) \<Rightarrow>
              let norm1 = mqpoly_sqnorm logn (mqpoly_sub_int logn (mqpoly_ext_to_int logn t2) t1)
              in Some (norm1 < - norm2 \<and> mqpoly_sqnorm_is_acceptable logn (norm1 + norm2))))"
proof -
  have ne: "vkey \<noteq> []" "sig \<noteq> []" and l: "logn = unat (vkey ! 0 AND 0x0F)" and
    hd: "vkey ! 0 AND 0xF0 = 0" "sig ! 0 AND 0xF0 = 0x30" "logn = unat (sig ! 0 AND 0x0F)"
    "logn_min \<le> logn" "logn \<le> logn_max" "length vkey = VerifyingKeySize logn" "int (length sig) = SignatureSize logn"
  proof -
    show ne: "vkey \<noteq> []" "sig \<noteq> []" using assms by (simp_all add: headers_ok_def)
    have "logn_max \<le> 15" using assms(2) by simp
    from headers_iff [OF this ne, of logn_min logn] assms(1)
    show "logn = unat (vkey ! 0 AND 0x0F)" "vkey ! 0 AND 0xF0 = 0" "sig ! 0 AND 0xF0 = 0x30" "logn = unat (sig ! 0 AND 0x0F)"
    "logn_min \<le> logn" "logn \<le> logn_max" "length vkey = VerifyingKeySize logn" "int (length sig) = SignatureSize logn" by simp_all
  qed
  have "\<not> (length vkey = 0 \<or> length sig = 0)" "\<not> (vkey ! 0 AND 0xF0 \<noteq> 0 \<or> sig ! 0 AND 0xF0 \<noteq> 0x30)"
    "\<not> logn \<noteq> unat (sig ! 0 AND 0x0F)" "\<not> (logn < logn_min \<or> logn_max < logn)"
    "\<not> (length vkey \<noteq> VerifyingKeySize logn \<or> int (length sig) \<noteq> SignatureSize logn)"
    using ne by (simp, use hd in simp_all)
  then show ?thesis unfolding verify_inner_def Let_def l [symmetric] by (simp only: if_False)
qed

lemma five_guards:
  "a \<or> b \<or> c \<or> d \<or> e \<Longrightarrow>
    (if a then x else if b then x else if c then x else if d then x else if e then x else y) = x"
  by auto

lemma verify_inner_no_headers:
  assumes "logn_max \<le> 10" "\<nexists>logn. headers_ok logn_min logn_max vkey sig logn"
  shows "verify_inner shake logn_min logn_max vkey ctx hid data sig = Some False"
proof (cases "vkey = [] \<or> sig = []")
  case True
  then show ?thesis by (auto simp: verify_inner_def)
next
  case False
  let ?l = "unat (vkey ! 0 AND 0x0F)"
  have "\<not> headers_ok logn_min logn_max vkey sig ?l" using assms(2) by blast
  then have "vkey ! 0 AND 0xF0 \<noteq> 0 \<or> sig ! 0 AND 0xF0 \<noteq> 0x30 \<or> ?l \<noteq> unat (sig ! 0 AND 0x0F) \<or>
    ?l < logn_min \<or> logn_max < ?l \<or> length vkey \<noteq> VerifyingKeySize ?l \<or> int (length sig) \<noteq> SignatureSize ?l"
    using headers_iff [of logn_max vkey sig logn_min ?l] assms(1) False by auto
  then show ?thesis unfolding verify_inner_def Let_def by (intro five_guards) blast
qed

lemma verify_decoded_sizes:
  assumes "headers_ok logn_min logn_max vkey sig logn" "2 \<le> logn_min" "logn_max \<le> 10"
  shows "2 \<le> logn" "logn \<le> 10"
  using assms by (simp_all add: headers_ok_def)

lemma verify_final:
  assumes "2 \<le> logn" "logn \<le> 10"
    and h: "modq_decode logn kb (replicate (2 ^ logn) 0) = Inr (m, h)"
    and s2: "comp_decode logn sb (replicate (2 ^ logn) 0) = Inr s2"
    and c: "length c = 2 ^ logn" "list_all (\<lambda>v. uint v < 12289) c"
  defines "t2 \<equiv> mqpoly_int_to_ntt logn (mqpoly_signed_to_int logn s2 (replicate (2 ^ logn) 0))"
  defines "t1 \<equiv> mqpoly_ntt_to_int logn (mqpoly_mul_ntt logn (mqpoly_int_to_ntt logn (mqpoly_ext_to_int logn h)) t2)"
  defines "norm1 \<equiv> mqpoly_sqnorm logn (mqpoly_sub_int logn (mqpoly_ext_to_int logn c) t1)"
  defines "norm2 \<equiv> signed_poly_sqnorm logn s2"
  shows "norm1 < - norm2 \<and> mqpoly_sqnorm_is_acceptable logn (norm1 + norm2) \<longleftrightarrow> sig_short logn c h s2"
proof -
  have hh: "length h = 2 ^ logn" "list_all (\<lambda>v. uint v < 12289) h"
    using h modq_decode_iff [OF assms(1), of "replicate (2 ^ logn) 0"] by simp_all
  have ss: "length s2 = 2 ^ logn" "list_all (\<lambda>x. \<bar>sint x\<bar> \<le> 2047) s2"
    using s2 comp_decode_iff [of "replicate (2 ^ logn) 0" logn] by simp_all
  note s1 = verify_s1 [OF assms(2) hh ss c, of "replicate (2 ^ logn) 0", folded t2_def t1_def]
  let ?r = "mqpoly_sub_int logn (mqpoly_ext_to_int logn c) t1"
  let ?S1 = "\<Sum>k<2 ^ logn. s1_coef (2 ^ logn) c h s2 k * s1_coef (2 ^ logn) c h s2 k"
  have "\<forall>x \<in> set ?r. uint x \<le> 12289" using mq_polyD(2) [OF s1(1)] by (simp add: mq16_ok_def)
  then have "uint norm1 = (if ?S1 < 2 ^ 31 then ?S1 else 2 ^ 32 - 1)"
    unfolding norm1_def using mqpoly_sqnorm_uint [of ?r logn] mq_polyD(1) [OF s1(1)] s1(2) by (simp add: Let_def)
  moreover have "0 \<le> ?S1" by (intro sum_nonneg) simp
  moreover have "uint norm2 = (\<Sum>i<2 ^ logn. sint (s2 ! i) * sint (s2 ! i))"
    unfolding norm2_def using ss assms(2) by (intro signed_poly_sqnorm_uint) (simp_all add: list_all_length)
  ultimately show ?thesis using norm_test [of norm1 ?S1 norm2 _ logn] assms(1,2)
    by (simp add: sig_short_def Let_def)
qed

lemma verify_s2_mq_poly:
  assumes "logn \<le> 10" "comp_decode logn sb (replicate (2 ^ logn) 0) = Inr s2"
  shows "mq_poly logn (mqpoly_int_to_ntt logn (mqpoly_signed_to_int logn s2 (replicate (2 ^ logn) 0)))"
proof -
  have s2: "length s2 = 2 ^ logn" "list_all (\<lambda>x. \<bar>sint x\<bar> \<le> 2047) s2"
    using assms(2) comp_decode_iff [of "replicate (2 ^ logn) 0" logn] by simp_all
  have "mq16_ok (mqpoly_signed_to_int logn s2 (replicate (2 ^ logn) 0) ! i)" if "i < 2 ^ logn" for i
  proof -
    have "\<bar>sint (s2 ! i)\<bar> \<le> 12288" using s2 that by (auto simp: list_all_length)
    then show ?thesis using that by (intro mqpoly_signed_to_int_nth(1)) simp_all
  qed
  then have "mq_poly logn (mqpoly_signed_to_int logn s2 (replicate (2 ^ logn) 0))"
    by (intro mq_polyI) (simp_all add: mqpoly_signed_to_int_def)
  then show ?thesis by (rule mq_poly_ntt [OF assms(1)])
qed

lemma verify_s2_poly:
  assumes "logn \<le> 10" "comp_decode logn sb (replicate (2 ^ logn) 0) = Inr s2"
  shows "length (mqpoly_int_to_ntt logn (mqpoly_signed_to_int logn s2 (replicate (2 ^ logn) 0))) = 2 ^ logn"
  using verify_s2_mq_poly [OF assms] by (rule mq_polyD)

text \<open>Verification of a decoded key and signature is the shortness test.\<close>

lemma verify_inner_value:
  assumes hd: "headers_ok logn_min logn_max vkey sig logn" "2 \<le> logn_min" "logn_max \<le> 10"
    and h: "modq_decode logn (drop 1 vkey) (replicate (2 ^ logn) 0) = Inr (m, h)"
    and s2: "comp_decode logn (drop 41 sig) (replicate (2 ^ logn) 0) = Inr s2"
    and c: "\<And>c0. length c0 = 2 ^ logn \<Longrightarrow>
        hash_to_point shake logn (take 40 (drop 1 sig)) (hash_verifying_key shake vkey) ctx hid data c0 = Some (None, c)"
      "length c = 2 ^ logn" "list_all (\<lambda>v. uint v < 12289) c"
  shows "verify_inner shake logn_min logn_max vkey ctx hid data sig = Some (sig_short logn c h s2)"
proof -
  note sz = verify_decoded_sizes [OF hd]
  show ?thesis
    unfolding verify_inner_decoded [OF hd(1,3)] h s2 Let_def sum.case prod.case c(1) [OF verify_s2_poly [OF sz(2) s2]] option.case
      verify_final [OF sz h s2 c(2,3)] ..
qed

text \<open>C4: verification is correct. For an accepted context and pre-hash identifier it always
  returns, and it returns true exactly when the headers and lengths match a degree in range,
  the key and the signature decode, and with \<open>c\<close> the hashed message the pair \<open>s2\<close>,
  \<open>s1 = c - s2 h\<close> in \<open>Z_q[X]/(X^n + 1)\<close> is short.\<close>

theorem verify_inner_correct:
  assumes "2 \<le> logn_min" "logn_max \<le> 10" "xof_good shake"
    and "hid = 0xFFFFFFFF \<or> length ctx \<le> 255 \<and> hash_oid hid \<noteq> None"
  shows "\<exists>b. verify_inner shake logn_min logn_max vkey ctx hid data sig = Some b \<and>
    (b \<longleftrightarrow> (\<exists>logn h s2 c m. headers_ok logn_min logn_max vkey sig logn \<and>
        modq_decode logn (drop 1 vkey) (replicate (2 ^ logn) 0) = Inr (m, h) \<and>
        comp_decode logn (drop 41 sig) (replicate (2 ^ logn) 0) = Inr s2 \<and>
        hash_to_point shake logn (take 40 (drop 1 sig)) (hash_verifying_key shake vkey) ctx hid data
          (replicate (2 ^ logn) 0) = Some (None, c) \<and>
        sig_short logn c h s2))"
proof (cases "\<exists>logn. headers_ok logn_min logn_max vkey sig logn")
  case False
  then show ?thesis using verify_inner_no_headers [OF assms(2)] by blast
next
  case True
  then obtain logn where hd: "headers_ok logn_min logn_max vkey sig logn" by blast
  have uniq: "l = logn" if "headers_ok logn_min logn_max vkey sig l" for l
  proof -
    have ne: "logn_max \<le> 15" "vkey \<noteq> []" "sig \<noteq> []" using hd assms(2) by (simp_all add: headers_ok_def)
    show ?thesis using headers_iff [OF ne, of logn_min l] headers_iff [OF ne, of logn_min logn] that hd by metis
  qed
  note sz = verify_decoded_sizes [OF hd assms(1,2)]
  obtain input where "hash_input (take 40 (drop 1 sig)) (hash_verifying_key shake vkey) ctx hid data = Inr input"
    using hash_input_ok [OF assms(4)] by blast
  from hash_to_point_returns [OF assms(3) this] obtain c where
    c: "\<And>c0. length c0 = 2 ^ logn \<Longrightarrow>
        hash_to_point shake logn (take 40 (drop 1 sig)) (hash_verifying_key shake vkey) ctx hid data c0 = Some (None, c)"
      "length c = 2 ^ logn" "list_all (\<lambda>v. uint v < 12289) c"
    by (metis length_replicate)
  show ?thesis
  proof (cases "modq_decode logn (drop 1 vkey) (replicate (2 ^ logn) 0)")
    case (Inl e)
    then show ?thesis unfolding verify_inner_decoded [OF hd assms(2)] using uniq by auto
  next
    case (Inr mh)
    obtain m h where h: "modq_decode logn (drop 1 vkey) (replicate (2 ^ logn) 0) = Inr (m, h)" using Inr by (cases mh) auto
    show ?thesis
    proof (cases "comp_decode logn (drop 41 sig) (replicate (2 ^ logn) 0)")
      case (Inl e)
      then show ?thesis unfolding verify_inner_decoded [OF hd assms(2)] h using uniq by auto
    next
      case (Inr s2)
      note ret = c(1) [OF length_replicate [of "2 ^ logn" 0]]
      have "verify_inner shake logn_min logn_max vkey ctx hid data sig = Some (sig_short logn c h s2)"
        by (rule verify_inner_value [OF hd assms(1,2) h Inr c])
      moreover have "sig_short logn c h s2"
        if "headers_ok logn_min logn_max vkey sig l" "modq_decode l (drop 1 vkey) (replicate (2 ^ l) 0) = Inr (m', h')"
          "comp_decode l (drop 41 sig) (replicate (2 ^ l) 0) = Inr s2'"
          "hash_to_point shake l (take 40 (drop 1 sig)) (hash_verifying_key shake vkey) ctx hid data
            (replicate (2 ^ l) 0) = Some (None, c')" "sig_short l c' h' s2'" for l m' h' s2' c'
        using that(2-5) unfolding uniq [OF that(1)] h Inr ret by simp
      ultimately show ?thesis using hd h Inr ret by blast
    qed
  qed
qed

theorem verify_inner_correct_witness:
  "verify_inner (\<lambda>input i. 0) 2 8 [2, 0, 0, 0, 0, 0, 0, 0] [] 0 [77]
     (0x32 # replicate 40 9 @ [0x01, 0x80, 0x40, 0x20, 0x10, 0]) = Some True"
proof -
  let ?sh = "\<lambda>(input :: u8 list) (i :: nat). 0 :: u8" and ?vk = "[2, 0, 0, 0, 0, 0, 0, 0] :: u8 list"
  let ?sg = "0x32 # replicate 40 9 @ [0x01, 0x80, 0x40, 0x20, 0x10, 0] :: u8 list"
  have acc: "accepted (\<lambda>i. 0) pos m = replicate m 0" for pos m
    by (induction m arbitrary: pos) (simp_all add: accepted_Suc read_pair_def, simp add: accepted_def)
  then have good: "xof_good ?sh" by (auto simp: xof_good_def)
  have hd: "headers_ok 2 8 ?vk ?sg 2"
    by (simp add: headers_ok_def VerifyingKeySize_def shl_minus2_def SignatureSize_def Let_def)
  have h: "modq_decode 2 (drop 1 ?vk) (replicate (2 ^ 2) 0) = Inr (7, [0, 0, 0, 0])"
    by (subst modq_decode_iff) (simp_all add: numeral_eq_Suc)
  have "bytes_bits [0x01, 0x80, 0x40, 0x20, 0x10, 0]
      = (comp_bits 1 @ comp_bits 0 @ comp_bits 0 @ comp_bits 0) @ replicate 12 False" by code_simp
  then have s2: "comp_decode 2 (drop 41 ?sg) (replicate (2 ^ 2) 0) = Inr [1, 0, 0, 0]"
    by (subst comp_decode_iff) auto
  have c: "hash_to_point ?sh 2 (take 40 (drop 1 ?sg)) (hash_verifying_key ?sh ?vk) [] 0 [77] (replicate (2 ^ 2) 0)
      = Some (None, [0, 0, 0, 0])"
  proof -
    have "reduce_q 0 = 0" by (subst reduce_q.simps) (simp add: q_def)
    then have "point_loop (\<lambda>i. 0) 4 0 0 [0, 0, 0, 0] = Some [0, 0, 0, 0]"
      using point_loop_returns [of 4 0 "\<lambda>i. 0" 0 4 "[0, 0, 0, 0]"] by (simp add: acc numeral_eq_Suc)
    moreover have "replicate (2 ^ 2) 0 = [0, 0, 0, 0 :: u16]" by (simp add: numeral_eq_Suc)
    ultimately show ?thesis by (simp add: hash_to_point_def hash_input_def hash_oid_def)
  qed
  have set4: "{..<4::nat} = {0, 1, 2, 3}" by auto
  have "sig_short 2 [0, 0, 0, 0] [0, 0, 0, 0] [1, 0, 0, 0]"
    by (simp add: sig_short_def s1_coef_def negconv_def mq_center_def set4 sqbeta_def Let_def)
  with hd h s2 c show ?thesis
    using verify_inner_correct [of 2 8 ?sh 0 "[]" ?vk "[77]" ?sg] good by (auto simp: hash_oid_def)
qed

text \<open>What the buffer of the hashed message holds when the hashing does not fill it: the transform of \<open>s2\<close>, for
  whose computation it was used before, with \<open>q\<close> read as zero.\<close>

definition stale_point :: "nat \<Rightarrow> i16 list \<Rightarrow> u16 list" where
  "stale_point logn s2 = map (\<lambda>x. if x = 12289 then 0 else x)
     (mqpoly_int_to_ntt logn (mqpoly_signed_to_int logn s2 (replicate (2 ^ logn) 0)))"

lemma ext_to_int_full:
  assumes "length a = 2 ^ logn"
  shows "mqpoly_ext_to_int logn (map (\<lambda>x. if x = 12289 then 0 else x) a) = mqpoly_ext_to_int logn a"
proof -
  have "ucast (12289 AND mask 16 :: u32) = (12289 :: u16)" by (simp add: mask_eq_exp_minus_1)
  then show ?thesis
    by (intro nth_equalityI) (use assms in \<open>simp_all add: mqpoly_ext_to_int_def q_def Let_def\<close>)
qed

text \<open>C35: verification drops the error of the hashing. With a context of more than 255 bytes, or with an unknown
  pre-hash identifier, \<^verbatim>\<open>hash_to_point\<close> refuses and leaves its buffer alone; verification does not look at
  that error but goes on and tests the signature against what the buffer held, the transform of \<open>s2\<close>. Whether it
  accepts is then decided by the key and the signature alone, for every message; and there are keys and signatures it
  accepts that way.\<close>

theorem verify_drops_hash_error:
  assumes "2 \<le> logn_min" "logn_max \<le> 10" "headers_ok logn_min logn_max vkey sig logn"
    and "modq_decode logn (drop 1 vkey) (replicate (2 ^ logn) 0) = Inr (m, h)"
    and "comp_decode logn (drop 41 sig) (replicate (2 ^ logn) 0) = Inr s2"
    and "hid \<noteq> 0xFFFFFFFF" "255 < length ctx \<or> hash_oid hid = None"
  shows "\<exists>e. (\<forall>t. hash_to_point shake logn (take 40 (drop 1 sig)) (hash_verifying_key shake vkey) ctx hid data t = Some (Some e, t)) \<and>
    verify_inner shake logn_min logn_max vkey ctx hid data sig = Some (sig_short logn (stale_point logn s2) h s2)"
proof -
  note sz = verify_decoded_sizes [OF assms(3,1,2)]
  let ?t2 = "mqpoly_int_to_ntt logn (mqpoly_signed_to_int logn s2 (replicate (2 ^ logn) 0))"
  note t2 = verify_s2_mq_poly [OF sz(2) assms(5)]
  obtain e where e: "hash_input (take 40 (drop 1 sig)) (hash_verifying_key shake vkey) ctx hid data = Inl e"
    using assms(6,7) by (cases "255 < length ctx") (auto simp: hash_input_def)
  have p: "hash_to_point shake logn (take 40 (drop 1 sig)) (hash_verifying_key shake vkey) ctx hid data c = Some (Some e, c)" for c
    unfolding hash_to_point_def e by simp
  have c: "length (stale_point logn s2) = 2 ^ logn" "list_all (\<lambda>v. uint v < 12289) (stale_point logn s2)"
  proof -
    show "length (stale_point logn s2) = 2 ^ logn" by (simp add: stale_point_def mq_polyD [OF t2])
    have "uint (if x = 12289 then 0 else x :: u16) < 12289" if "mq16_ok x" for x :: u16
      using that by (auto simp: mq16_ok_def word_uint_eq_iff)
    then show "list_all (\<lambda>v. uint v < 12289) (stale_point logn s2)"
      using mq_polyD(2) [OF t2] unfolding stale_point_def list_all_length by simp
  qed
  have x: "mqpoly_ext_to_int logn ?t2 = mqpoly_ext_to_int logn (stale_point logn s2)"
    unfolding stale_point_def by (rule ext_to_int_full [symmetric, OF mq_polyD(1) [OF t2]])
  have "verify_inner shake logn_min logn_max vkey ctx hid data sig = Some (sig_short logn (stale_point logn s2) h s2)"
    unfolding verify_inner_decoded [OF assms(3,2)] assms(4,5) Let_def sum.case prod.case p option.case x
      verify_final [OF sz assms(4,5) c] ..
  with p show ?thesis by blast
qed

theorem verify_drops_hash_error_witness:
  "\<forall>data. verify_inner (\<lambda>input i. 0) 2 8 [2, 0, 4, 0, 16, 0, 64, 1] (replicate 256 0) 0 data
     (0x32 # replicate 40 9 @ [0x01, 0x80, 0x40, 0x20, 0x10, 0]) = Some True"
proof
  fix data
  let ?vk = "[2, 0, 4, 0, 16, 0, 64, 1] :: u8 list"
  let ?sg = "0x32 # replicate 40 9 @ [0x01, 0x80, 0x40, 0x20, 0x10, 0] :: u8 list"
  have hd: "headers_ok 2 8 ?vk ?sg 2"
    by (simp add: headers_ok_def VerifyingKeySize_def shl_minus2_def SignatureSize_def Let_def)
  have h: "modq_decode 2 (drop 1 ?vk) (replicate (2 ^ 2) 0) = Inr (7, [1, 1, 1, 1])" by code_simp
  have "bytes_bits [0x01, 0x80, 0x40, 0x20, 0x10, 0]
      = (comp_bits 1 @ comp_bits 0 @ comp_bits 0 @ comp_bits 0) @ replicate 12 False" by code_simp
  then have s2: "comp_decode 2 (drop 41 ?sg) (replicate (2 ^ 2) 0) = Inr [1, 0, 0, 0]"
    by (subst comp_decode_iff) auto
  have set4: "{..<4::nat} = {0, 1, 2, 3}" by auto
  have "stale_point 2 [1, 0, 0, 0] = [1, 1, 1, 1]" by code_simp
  moreover have "sig_short 2 [1, 1, 1, 1] [1, 1, 1, 1] [1, 0, 0, 0]"
    by (simp add: sig_short_def s1_coef_def negconv_def mq_center_def set4 sqbeta_def Let_def)
  ultimately show "verify_inner (\<lambda>input i. 0) 2 8 ?vk (replicate 256 0) 0 data ?sg = Some True"
    using verify_drops_hash_error [OF _ _ hd h s2, of 0 "replicate 256 0" "\<lambda>input i. 0" data] by simp
qed
end
