(* ===== verification/JwtParser.thy ===== *)
theory JwtParser
  imports JwtValidator Verify
begin

text \<open>
  Signing methods and tokens: the method registry, the methods \<^verbatim>\<open>none\<close>, HMAC and the two
  FN-DSA methods (\<^verbatim>\<open>signing_method.go\<close>, \<^verbatim>\<open>none.go\<close>, \<^verbatim>\<open>hmac.go\<close>,
  \<^verbatim>\<open>fndsa_original.go\<close>, \<^verbatim>\<open>fndsa_precomputed.go\<close>), building a signed token (\<^verbatim>\<open>token.go\<close>)
  and parsing one (\<^verbatim>\<open>parser.go\<close>).
\<close>

section \<open>Keys and methods\<close>

text \<open>A key is a value of type \<^verbatim>\<open>any\<close>; the methods look at its dynamic type. A precomputed signer
  is seen through its degree and its secret key; keys of other packages are opaque.\<close>

datatype key =
    KNil
  | KBytes string
  | KUnsafeNone
  | KSigner nat string
  | KSet "key list"
  | KOther string string

text \<open>The interface \<^verbatim>\<open>SigningMethod\<close>. Signing draws randomness, given as a byte string.\<close>

record SigningMethod =
  Alg :: string
  Verify_m :: "string \<Rightarrow> string \<Rightarrow> key \<Rightarrow> err option"
  Sign_m :: "string \<Rightarrow> string \<Rightarrow> key \<Rightarrow> (err, string) result"
  SignPrecompute :: bool

text \<open>The registry is a map from names to methods.\<close>

type_synonym registry = "string \<Rightarrow> SigningMethod option"

definition RegisterSigningMethod :: "registry \<Rightarrow> string \<Rightarrow> SigningMethod \<Rightarrow> registry" where
  "RegisterSigningMethod reg alg f = reg(alg \<mapsto> f)"

definition GetSigningMethod :: "registry \<Rightarrow> string \<Rightarrow> SigningMethod option" where
  "GetSigningMethod reg alg = reg alg"

text \<open>The cryptography behind the methods: HMAC by hash name, the SHAKE256 the FN-DSA verification
  model takes, and FN-DSA key expansion and signing. A hash is available when it is linked in.\<close>

record crypto =
  hmac_Sum :: "string \<Rightarrow> string \<Rightarrow> string \<Rightarrow> string"
  hash_Available :: "string \<Rightarrow> bool"
  shake :: xof
  fndsa_Sign :: "string \<Rightarrow> string \<Rightarrow> string \<Rightarrow> (err, string) result"
  NewPrecomputedSigner :: "string \<Rightarrow> (err, nat \<times> string) result"
  signer_Sign :: "string \<Rightarrow> string \<Rightarrow> string \<Rightarrow> (err, string) result"

definition quoted_none :: string where
  "quoted_none = [CHR 0x27] @ ''none'' @ [CHR 0x27]"

definition NoneSignatureTypeDisallowedError :: err where
  "NoneSignatureTypeDisallowedError = newError (quoted_none @ '' signature type is not allowed'') ErrTokenUnverifiable []"

definition none_Verify :: "string \<Rightarrow> string \<Rightarrow> key \<Rightarrow> err option" where
  "none_Verify signingString sig key =
     (if key \<noteq> KUnsafeNone then Some NoneSignatureTypeDisallowedError
      else if length sig \<noteq> 0 then
        Some (newError (quoted_none @ '' signing method with non-empty signature'') ErrTokenUnverifiable [])
      else None)"

definition none_Sign :: "string \<Rightarrow> string \<Rightarrow> key \<Rightarrow> (err, string) result" where
  "none_Sign rnd signingString key = (if key = KUnsafeNone then Inr [] else Inl NoneSignatureTypeDisallowedError)"

definition SigningMethodNone :: SigningMethod where
  "SigningMethodNone = \<lparr>Alg = ''none'', Verify_m = none_Verify, Sign_m = none_Sign, SignPrecompute = False\<rparr>"

definition hmac_Verify :: "crypto \<Rightarrow> string \<Rightarrow> string \<Rightarrow> string \<Rightarrow> key \<Rightarrow> err option" where
  "hmac_Verify C hash signingString sig key = (case key of
      KBytes keyBytes \<Rightarrow>
        if \<not> hash_Available C hash then Some ErrHashUnavailable
        else if sig \<noteq> hmac_Sum C hash keyBytes signingString then Some ErrSignatureInvalid
        else None
    | _ \<Rightarrow> Some (newError ''HMAC verify expects []byte'' ErrInvalidKeyType []))"

definition hmac_Sign :: "crypto \<Rightarrow> string \<Rightarrow> string \<Rightarrow> string \<Rightarrow> key \<Rightarrow> (err, string) result" where
  "hmac_Sign C hash rnd signingString key = (case key of
      KBytes keyBytes \<Rightarrow>
        if \<not> hash_Available C hash then Inl ErrHashUnavailable
        else Inr (hmac_Sum C hash keyBytes signingString)
    | _ \<Rightarrow> Inl (newError ''HMAC sign expects []byte'' ErrInvalidKeyType []))"

definition SigningMethodHMAC :: "crypto \<Rightarrow> string \<Rightarrow> string \<Rightarrow> SigningMethod" where
  "SigningMethodHMAC C name hash = \<lparr>Alg = name, Verify_m = hmac_Verify C hash, Sign_m = hmac_Sign C hash, SignPrecompute = False\<rparr>"

definition AlgFNDSA512 :: string where "AlgFNDSA512 = ''FN-DSA-512''"
definition AlgFNDSA1024 :: string where "AlgFNDSA1024 = ''FN-DSA-1024''"
definition LegacyAlgFNDSAPrecomputed512 :: string where "LegacyAlgFNDSAPrecomputed512 = ''FN-DSA-Precomputed-512''"
definition LegacyAlgFNDSAPrecomputed1024 :: string where "LegacyAlgFNDSAPrecomputed1024 = ''FN-DSA-Precomputed-1024''"

text \<open>\<^verbatim>\<open>crypto.SHA3_256\<close> is the hash identifier 11. A verification whose hashing never returns does
  not return; it stands here as a failure.\<close>

definition u8s :: "string \<Rightarrow> u8 list" where "u8s s = map of_char s"

definition fndsa_Verify :: "crypto \<Rightarrow> string \<Rightarrow> string \<Rightarrow> string \<Rightarrow> bool" where
  "fndsa_Verify C key msg sig = (Verify (shake C) (u8s key) [] 11 (u8s msg) (u8s sig) = Some True)"

definition SigningMethodFNDSA_Verify :: "crypto \<Rightarrow> string \<Rightarrow> string \<Rightarrow> key \<Rightarrow> err option" where
  "SigningMethodFNDSA_Verify C signingString sig key = (case key of
      KBytes fndsaKey \<Rightarrow>
        let isValid = fndsa_Verify C fndsaKey signingString sig in
        if \<not> isValid then Some (newError ''oqs/FN-DSA: verification error'' ErrFNDSASignatureInvalid []) else None
    | _ \<Rightarrow> Some (newError ''FN-DSA verify expects []byte'' ErrInvalidKeyType []))"

definition SigningMethodFNDSA_Sign :: "crypto \<Rightarrow> string \<Rightarrow> string \<Rightarrow> key \<Rightarrow> (err, string) result" where
  "SigningMethodFNDSA_Sign C rnd signingString key = (case key of
      KBytes fndsaKey \<Rightarrow>
        (case fndsa_Sign C rnd fndsaKey signingString of
           Inl e \<Rightarrow> Inl (newError ''oqs/FN-DSA: signing error'' e [])
         | Inr signature \<Rightarrow> Inr signature)
    | _ \<Rightarrow> Inl (newError ''FN-DSA sign expects []byte'' ErrInvalidKeyType []))"

definition SigningMethodFNDSA :: "crypto \<Rightarrow> string \<Rightarrow> SigningMethod" where
  "SigningMethodFNDSA C name = \<lparr>Alg = name, Verify_m = SigningMethodFNDSA_Verify C,
     Sign_m = SigningMethodFNDSA_Sign C, SignPrecompute = False\<rparr>"

subsection \<open>The precomputed method\<close>

definition expectedLogN :: "string \<Rightarrow> (err, nat) result" where
  "expectedLogN alg = (if alg \<in> {AlgFNDSA512, LegacyAlgFNDSAPrecomputed512} then Inr 9
     else if alg \<in> {AlgFNDSA1024, LegacyAlgFNDSAPrecomputed1024} then Inr 10
     else Inl (newError ''unsupported FN-DSA precomputed algorithm'' ErrInvalidKey []))"

definition validatePublicKey :: "string \<Rightarrow> string \<Rightarrow> err option" where
  "validatePublicKey alg key = (case expectedLogN alg of Inl e \<Rightarrow> Some e
     | Inr logn \<Rightarrow>
       if length key = 0 \<or> byte (key ! 0) div 16 \<noteq> 0 \<or> byte (key ! 0) mod 16 \<noteq> logn
       then Some (newError (''FN-DSA public key does not match '' @ alg) ErrInvalidKey []) else None)"

definition validateSigner :: "string \<Rightarrow> nat \<times> string \<Rightarrow> err option" where
  "validateSigner alg signer = (case expectedLogN alg of Inl e \<Rightarrow> Some e
     | Inr logn \<Rightarrow>
       if fst signer \<noteq> logn
       then Some (newError (''FN-DSA precomputed signer degree '' @ dec_nat (2 ^ fst signer) @ '' does not match '' @ alg) ErrInvalidKey [])
       else None)"

definition signerForKey :: "crypto \<Rightarrow> string \<Rightarrow> (nat \<times> string) option \<Rightarrow> key \<Rightarrow> (err, nat \<times> string) result" where
  "signerForKey C alg embedded key =
     (let signer = (case key of
          KNil \<Rightarrow> Inr embedded
        | KBytes k \<Rightarrow> (case NewPrecomputedSigner C k of
              Inl e \<Rightarrow> Inl (newError ''invalid FN-DSA private key'' ErrInvalidKey [e]) | Inr s \<Rightarrow> Inr (Some s))
        | KSigner logn sk \<Rightarrow> Inr (Some (logn, sk))
        | _ \<Rightarrow> Inl (newError ''FN-DSA precomputed sign expects []byte or *fndsa.PrecomputedSigner'' ErrInvalidKeyType []))
      in case signer of Inl e \<Rightarrow> Inl e
         | Inr None \<Rightarrow> Inl (newError ''precomputed signer not set for FN-DSA'' ErrInvalidKeyType [])
         | Inr (Some s) \<Rightarrow> (case validateSigner alg s of Some e \<Rightarrow> Inl e | None \<Rightarrow> Inr s))"

definition SigningMethodFNDSAPrecomputed_Verify :: "crypto \<Rightarrow> string \<Rightarrow> string \<Rightarrow> string \<Rightarrow> key \<Rightarrow> err option" where
  "SigningMethodFNDSAPrecomputed_Verify C alg signingString sig key = (case key of
      KBytes fndsaKey \<Rightarrow>
        (case validatePublicKey alg fndsaKey of Some e \<Rightarrow> Some e
         | None \<Rightarrow> let isValid = fndsa_Verify C fndsaKey signingString sig in
            if \<not> isValid then Some (newError ''oqs/FN-DSA: verification error'' ErrSignatureInvalid []) else None)
    | _ \<Rightarrow> Some (newError ''FN-DSA verify expects []byte'' ErrInvalidKeyType []))"

definition SigningMethodFNDSAPrecomputed_Sign ::
  "crypto \<Rightarrow> string \<Rightarrow> (nat \<times> string) option \<Rightarrow> string \<Rightarrow> string \<Rightarrow> key \<Rightarrow> (err, string) result" where
  "SigningMethodFNDSAPrecomputed_Sign C alg embedded rnd signingString key =
     (case signerForKey C alg embedded key of Inl e \<Rightarrow> Inl e
      | Inr signer \<Rightarrow> (case signer_Sign C rnd (snd signer) signingString of
          Inl e \<Rightarrow> Inl (newError ''oqs/FN-DSA: signing error'' e [])
        | Inr signature \<Rightarrow> Inr signature))"

definition SigningMethodFNDSAPrecomputed :: "crypto \<Rightarrow> string \<Rightarrow> (nat \<times> string) option \<Rightarrow> SigningMethod" where
  "SigningMethodFNDSAPrecomputed C name signer = \<lparr>Alg = name, Verify_m = SigningMethodFNDSAPrecomputed_Verify C name,
     Sign_m = SigningMethodFNDSAPrecomputed_Sign C name signer, SignPrecompute = True\<rparr>"

text \<open>The registrations the modelled files make at start-up, after those of the other files (\<open>others\<close>).\<close>

definition init_registry :: "crypto \<Rightarrow> registry \<Rightarrow> registry" where
  "init_registry C others = fold (\<lambda>m reg. RegisterSigningMethod reg (Alg m) m)
     [SigningMethodNone, SigningMethodHMAC C ''HS256'' ''SHA256'', SigningMethodHMAC C ''HS384'' ''SHA384'',
      SigningMethodHMAC C ''HS512'' ''SHA512'', SigningMethodFNDSA C AlgFNDSA512, SigningMethodFNDSA C AlgFNDSA1024] others"

section \<open>Tokens\<close>

text \<open>The claims a token carries are of a type of their own: how it is read from JSON into an
  existing value (with or without \<^verbatim>\<open>UseNumber\<close>), how it is written, and its interface.\<close>

record 'c claims_type =
  UnmarshalClaims :: "bool \<Rightarrow> json \<Rightarrow> 'c \<Rightarrow> (err, 'c) result"
  MarshalClaims :: "'c \<Rightarrow> json"
  iface :: "'c \<Rightarrow> Claims"

type_synonym header = "string \<Rightarrow> any option"

record 'c Token =
  Raw :: string
  Method :: "SigningMethod option"
  Header :: header
  Claims_of :: "'c"
  Signature :: string
  Valid :: bool

text \<open>\<^verbatim>\<open>NewWithClaims\<close>; a header built from the two string entries is written with its keys sorted.\<close>

definition NewWithClaims :: "SigningMethod \<Rightarrow> 'c \<Rightarrow> 'c Token" where
  "NewWithClaims m claims = \<lparr>Raw = [], Method = Some m,
     Header = [''typ'' \<mapsto> String_any ''JWT'', ''alg'' \<mapsto> String_any (Alg m)],
     Claims_of = claims, Signature = [], Valid = False\<rparr>"

definition header_json :: "header \<Rightarrow> json" where
  "header_json h = JObj (concat (map (\<lambda>k. case h k of Some (String_any s) \<Rightarrow> [(k, JStr s)] | _ \<Rightarrow> []) [''alg'', ''typ'']))"

definition SigningString :: "'c claims_type \<Rightarrow> 'c Token \<Rightarrow> string" where
  "SigningString T t = EncodeSegment (json_print (header_json (Header t))) @ ''.'' @
     EncodeSegment (json_print (MarshalClaims T (Claims_of t)))"

definition SignedString :: "'c claims_type \<Rightarrow> string \<Rightarrow> 'c Token \<Rightarrow> key \<Rightarrow> (err, string) result" where
  "SignedString T rnd t k = (let sstr = SigningString T t in
     case Sign_m (the (Method t)) rnd sstr k of Inl e \<Rightarrow> Inl e
     | Inr sig \<Rightarrow> Inr (sstr @ ''.'' @ EncodeSegment sig))"

section \<open>Parsing\<close>

definition strings_Cut :: "string \<Rightarrow> char \<Rightarrow> (string \<times> string) option" where
  "strings_Cut s c = (case dropWhile (\<lambda>x. x \<noteq> c) s of [] \<Rightarrow> None | _ # r \<Rightarrow> Some (takeWhile (\<lambda>x. x \<noteq> c) s, r))"

definition splitToken :: "string \<Rightarrow> (string \<times> string \<times> string) option" where
  "splitToken token = (case strings_Cut token CHR ''.'' of None \<Rightarrow> None
     | Some (header, remain) \<Rightarrow> (case strings_Cut remain CHR ''.'' of None \<Rightarrow> None
        | Some (claims, remain) \<Rightarrow> (case strings_Cut remain CHR ''.'' of
             Some _ \<Rightarrow> None
           | None \<Rightarrow> Some (header, claims, remain))))"

text \<open>The token reader sees the keys of an object one by one; a text that does not start with an
  object is left to the unmarshaller.\<close>

definition rejectDuplicateTopLevelJSONKeys :: "string \<Rightarrow> err option" where
  "rejectDuplicateTopLevelJSONKeys data = (case next_tok data of
      None \<Rightarrow> Some (ErrText ''EOF'')
    | Some (c, r) \<Rightarrow>
      if c = CHR ''['' then None
      else (case json_first data of None \<Rightarrow> Some (ErrText ''invalid character'')
        | Some (JObj ms, _) \<Rightarrow> if distinct (map fst ms) then None else Some (ErrText ''duplicate JSON object key'')
        | Some _ \<Rightarrow> None))"

text \<open>Decoding into \<^verbatim>\<open>any\<close>; a number out of range is an error the decoder reports in the end.\<close>

fun any_of :: "bool \<Rightarrow> json \<Rightarrow> any option" where
  "any_of num JNull = Some Nil_any"
| "any_of num (JBool b) = Some (Bool_any b)"
| "any_of num (JNum l) = (if num then Some (Number_any l) else map_option Float_any (Float64 l))"
| "any_of num (JStr s) = Some (String_any s)"
| "any_of num (JArr vs) = map_option Array_any (those (map (any_of num) vs))"
| "any_of num (JObj ms) = map_option Map_any (those (map (\<lambda>(k, v). map_option (Pair k) (any_of num v)) ms))"

text \<open>A JSON object into a map that exists: members are stored in order.\<close>

definition map_of_json :: "bool \<Rightarrow> json \<Rightarrow> header \<Rightarrow> (err, header) result" where
  "map_of_json num v m = (case v of
      JNull \<Rightarrow> Inr Map.empty
    | JObj ms \<Rightarrow> (case those (map (\<lambda>(k, v). map_option (Pair k) (any_of num v)) ms) of
          None \<Rightarrow> Inl (ErrText ''json: cannot unmarshal number'')
        | Some kvs \<Rightarrow> Inr (fold (\<lambda>(k, v) m. m(k \<mapsto> v)) kvs m))
    | _ \<Rightarrow> Inl (ErrText ''json: cannot unmarshal''))"

text \<open>The outcome of parsing: the error, if there is one, with the token as far as it was built.\<close>

type_synonym 'c parsed = "err option \<times> 'c Token option"

definition ParseUnverified :: "registry \<Rightarrow> 'c claims_type \<Rightarrow> Parser \<Rightarrow> string \<Rightarrow> 'c
    \<Rightarrow> 'c parsed \<times> (string \<times> string \<times> string)" where
  "ParseUnverified reg T p tokenString claims = (case splitToken tokenString of
      None \<Rightarrow> ((Some (newError ''token contains an invalid number of segments'' ErrTokenMalformed []), None), ([], [], []))
    | Some (s0, s1, s2) \<Rightarrow>
      (let parts = (s0, s1, s2);
           token = \<lparr>Raw = tokenString, Method = None, Header = Map.empty, Claims_of = claims, Signature = [], Valid = False\<rparr>
       in case DecodeSegment (decodeStrict p) (decodePaddingAllowed p) s0 of
         None \<Rightarrow> ((Some (newError ''could not base64 decode header'' ErrTokenMalformed [ErrText ''illegal base64 data'']), Some token), parts)
       | Some headerBytes \<Rightarrow>
      (case rejectDuplicateTopLevelJSONKeys headerBytes of
         Some e \<Rightarrow> ((Some (newError ''could not JSON decode header'' ErrTokenMalformed [e]), Some token), parts)
       | None \<Rightarrow>
      (case (case json_parse headerBytes of None \<Rightarrow> Inl (ErrText ''invalid character'') | Some v \<Rightarrow> map_of_json False v Map.empty) of
         Inl e \<Rightarrow> ((Some (newError ''could not JSON decode header'' ErrTokenMalformed [e]), Some token), parts)
       | Inr h \<Rightarrow>
      (let token = token\<lparr>Header := h\<rparr>
       in case DecodeSegment (decodeStrict p) (decodePaddingAllowed p) s1 of
         None \<Rightarrow> ((Some (newError ''could not base64 decode claim'' ErrTokenMalformed [ErrText ''illegal base64 data'']), Some token), parts)
       | Some claimBytes \<Rightarrow>
      (case rejectDuplicateTopLevelJSONKeys claimBytes of
         Some e \<Rightarrow> ((Some (newError ''could not JSON decode claim'' ErrTokenMalformed [e]), Some token), parts)
       | None \<Rightarrow>
      (case (case (if useJSONNumber p then map_option fst (json_first claimBytes) else json_parse claimBytes) of
           None \<Rightarrow> Inl (ErrText ''invalid character'') | Some v \<Rightarrow> UnmarshalClaims T (useJSONNumber p) v claims) of
         Inl e \<Rightarrow> ((Some (newError ''could not JSON decode claim'' ErrTokenMalformed [e]), Some token), parts)
       | Inr claims \<Rightarrow>
      (let token = token\<lparr>Claims_of := claims\<rparr>
       in case h ''alg'' of
         Some (String_any method) \<Rightarrow>
          (case GetSigningMethod reg method of
             None \<Rightarrow> ((Some (newError ''signing method (alg) is unavailable'' ErrTokenUnverifiable []), Some token), parts)
           | Some m \<Rightarrow>
             (let token = token\<lparr>Method := Some m\<rparr>
              in case DecodeSegment (decodeStrict p) (decodePaddingAllowed p) s2 of
                None \<Rightarrow> ((Some (newError ''could not base64 decode signature'' ErrTokenMalformed [ErrText ''illegal base64 data'']), Some token), parts)
              | Some sig \<Rightarrow> ((None, Some (token\<lparr>Signature := sig\<rparr>)), parts)))
       | _ \<Rightarrow> ((Some (newError ''signing method (alg) is unspecified'' ErrTokenUnverifiable []), Some token), parts)))))))))"

text \<open>The loop over a key set: it stops at the first key that verifies and keeps the last error.\<close>

fun verify_any :: "(key \<Rightarrow> err option) \<Rightarrow> key list \<Rightarrow> err option \<Rightarrow> err option" where
  "verify_any f [] last_err = last_err"
| "verify_any f (k # ks) last_err = (case f k of None \<Rightarrow> None | Some e \<Rightarrow> verify_any f ks (Some e))"

definition verify_keys :: "SigningMethod \<Rightarrow> string \<Rightarrow> string \<Rightarrow> key \<Rightarrow> err option" where
  "verify_keys m text sig got = (case got of
      KSet ks \<Rightarrow> verify_any (\<lambda>k. Verify_m m text sig k) ks None
    | _ \<Rightarrow> Verify_m m text sig got)"

definition ParseWithClaims :: "registry \<Rightarrow> 'c claims_type \<Rightarrow> Parser \<Rightarrow> go_time \<Rightarrow> string \<Rightarrow> 'c
    \<Rightarrow> ('c Token \<Rightarrow> (err, key) result) option \<Rightarrow> 'c parsed" where
  "ParseWithClaims reg T p clock tokenString claims keyFunc =
     (case ParseUnverified reg T p tokenString claims of
        ((Some e, t), _) \<Rightarrow> (Some e, t)
      | ((None, t), (s0, s1, s2)) \<Rightarrow>
     (let token = the t; alg = Alg (the (Method token)); m = the (Method token) in
      if \<not> (case validMethods p of None \<Rightarrow> True | Some ms \<Rightarrow> alg \<in> set ms)
      then (Some (newError (''signing method '' @ alg @ '' is invalid'') ErrTokenSignatureInvalid []), Some token)
      else case keyFunc of
        None \<Rightarrow> (Some (newError ''no keyfunc was provided'' ErrTokenUnverifiable []), Some token)
      | Some kf \<Rightarrow> (case kf token of
          Inl e \<Rightarrow> (Some (newError ''error while executing keyfunc'' ErrTokenUnverifiable [e]), Some token)
        | Inr got \<Rightarrow>
          (let text = s0 @ ''.'' @ s1 in
           if got = KSet [] then (Some (newError ''keyfunc returned empty verification key set'' ErrTokenUnverifiable []), Some token)
           else case verify_keys m text (Signature token) got of
             Some e \<Rightarrow> (Some (newError [] ErrTokenSignatureInvalid [e]), Some token)
           | None \<Rightarrow>
             (case (if skipClaimsValidation p then None else Validate (validator p) clock (iface T (Claims_of token))) of
                Some e \<Rightarrow> (Some (newError [] ErrTokenInvalidClaims [e]), Some token)
              | None \<Rightarrow> (None, Some (token\<lparr>Valid := True\<rparr>)))))))"

end
