(* ===== verification/JwtTokens.thy ===== *)
theory JwtTokens
  imports JwtParser
begin

text \<open>
  What the token library guarantees: an accepted token was signed, by an allowed method, over exactly
  the bytes that were read; a token made by the library is accepted with its claims; unsigned tokens and
  keys of the wrong kind are refused.
\<close>

section \<open>Splitting\<close>

lemma strings_Cut_iff: "strings_Cut s c = Some (a, b) \<longleftrightarrow> s = a @ [c] @ b \<and> c \<notin> set a"
proof
  assume "strings_Cut s c = Some (a, b)"
  then obtain d where d: "dropWhile (\<lambda>x. x \<noteq> c) s = d # b" "a = takeWhile (\<lambda>x. x \<noteq> c) s"
    by (auto simp: strings_Cut_def split: list.splits)
  have "hd (dropWhile (\<lambda>x. x \<noteq> c) s) = c" using hd_dropWhile [of "\<lambda>x. x \<noteq> c" s] d by auto
  then have "d = c" using d by simp
  moreover have "s = a @ dropWhile (\<lambda>x. x \<noteq> c) s" unfolding d(2) by (simp only: takeWhile_dropWhile_id)
  moreover have "c \<notin> set a" using d set_takeWhileD by fastforce
  ultimately show "s = a @ [c] @ b \<and> c \<notin> set a" using d by simp
next
  assume a: "s = a @ [c] @ b \<and> c \<notin> set a"
  then have "dropWhile (\<lambda>x. x \<noteq> c) s = c # b" "takeWhile (\<lambda>x. x \<noteq> c) s = a"
    by (auto simp: dropWhile_append takeWhile_append)
  then show "strings_Cut s c = Some (a, b)" by (simp add: strings_Cut_def)
qed

lemma strings_Cut_None: "strings_Cut s c = None \<longleftrightarrow> c \<notin> set s"
proof -
  have "strings_Cut s c = None \<longleftrightarrow> dropWhile (\<lambda>x. x \<noteq> c) s = []"
    unfolding strings_Cut_def by (cases "dropWhile (\<lambda>x. x \<noteq> c) s") (simp_all only: list.case, simp_all)
  also have "\<dots> \<longleftrightarrow> c \<notin> set s" unfolding dropWhile_eq_Nil_conv by blast
  finally show ?thesis .
qed

lemma splitToken_iff_dots:
  "splitToken t = Some (a, b, c) \<longleftrightarrow>
    t = a @ ''.'' @ b @ ''.'' @ c \<and> CHR ''.'' \<notin> set a \<and> CHR ''.'' \<notin> set b \<and> CHR ''.'' \<notin> set c"
proof
  assume "splitToken t = Some (a, b, c)"
  then obtain r where "strings_Cut t CHR ''.'' = Some (a, r)" "strings_Cut r CHR ''.'' = Some (b, c)" "strings_Cut c CHR ''.'' = None"
    by (auto simp: splitToken_def split: option.splits)
  then show "t = a @ ''.'' @ b @ ''.'' @ c \<and> CHR ''.'' \<notin> set a \<and> CHR ''.'' \<notin> set b \<and> CHR ''.'' \<notin> set c"
    by (simp add: strings_Cut_iff strings_Cut_None)
next
  assume "t = a @ ''.'' @ b @ ''.'' @ c \<and> CHR ''.'' \<notin> set a \<and> CHR ''.'' \<notin> set b \<and> CHR ''.'' \<notin> set c"
  then have "strings_Cut t CHR ''.'' = Some (a, b @ ''.'' @ c)" "strings_Cut (b @ ''.'' @ c) CHR ''.'' = Some (b, c)"
    "strings_Cut c CHR ''.'' = None"
    by (simp_all add: strings_Cut_iff strings_Cut_None)
  then show "splitToken t = Some (a, b, c)" by (simp add: splitToken_def)
qed

section \<open>Inversion\<close>

lemma ParseUnverified_ok:
  assumes "ParseUnverified reg T p s c = ((None, t), parts)"
  obtains s0 s1 s2 hb hv h cb cv c' alg m sig where
    "parts = (s0, s1, s2)" "splitToken s = Some (s0, s1, s2)"
    "DecodeSegment (decodeStrict p) (decodePaddingAllowed p) s0 = Some hb" "rejectDuplicateTopLevelJSONKeys hb = None"
    "json_parse hb = Some hv" "map_of_json False hv Map.empty = Inr h"
    "DecodeSegment (decodeStrict p) (decodePaddingAllowed p) s1 = Some cb" "rejectDuplicateTopLevelJSONKeys cb = None"
    "(if useJSONNumber p then map_option fst (json_first cb) else json_parse cb) = Some cv"
    "UnmarshalClaims T (useJSONNumber p) cv c = Inr c'"
    "h ''alg'' = Some (String_any alg)" "reg alg = Some m"
    "DecodeSegment (decodeStrict p) (decodePaddingAllowed p) s2 = Some sig"
    "t = Some \<lparr>Raw = s, Method = Some m, Header = h, Claims_of = c', Signature = sig, Valid = False\<rparr>"
  using assms
  by (auto simp: ParseUnverified_def Let_def GetSigningMethod_def
      split: option.split_asm sum.split_asm any.split_asm prod.split_asm)

lemma ParseWithClaims_ok:
  assumes "ParseWithClaims reg T p clock s c kf = (None, t)"
  obtains tok s0 s1 s2 m f k where
    "ParseUnverified reg T p s c = ((None, Some tok), (s0, s1, s2))" "Method tok = Some m"
    "\<And>ms. validMethods p = Some ms \<Longrightarrow> Alg m \<in> set ms" "kf = Some f" "f tok = Inr k" "k \<noteq> KSet []"
    "verify_keys m (s0 @ ''.'' @ s1) (Signature tok) k = None"
    "\<not> skipClaimsValidation p \<Longrightarrow> Validate (validator p) clock (iface T (Claims_of tok)) = None"
    "t = Some (tok\<lparr>Valid := True\<rparr>)"
proof -
  obtain u parts where u: "ParseUnverified reg T p s c = ((None, u), parts)"
    using assms by (auto simp: ParseWithClaims_def split: prod.splits option.splits)
  from u show ?thesis
  proof (cases rule: ParseUnverified_ok)
    case (1 s0 s1 s2 hb hv h cb cv c' alg m sig)
    let ?tok = "\<lparr>Raw = s, Method = Some m, Header = h, Claims_of = c', Signature = sig, Valid = False\<rparr>"
    note D = assms [unfolded ParseWithClaims_def u 1(1) 1(14) Let_def, simplified]
    obtain f where f: "kf = Some f" using D by (cases kf) (auto split: if_splits)
    obtain k where k: "f ?tok = Inr k" using D f by (cases "f ?tok") (auto split: if_splits)
    have D': "(case validMethods p of None \<Rightarrow> True | Some ms \<Rightarrow> Alg m \<in> set ms)" "k \<noteq> KSet []" "verify_keys m (s0 @ ''.'' @ s1) sig k = None"
      "(if skipClaimsValidation p then None else Validate (validator p) clock (iface T c')) = None" "t = Some (?tok\<lparr>Valid := True\<rparr>)"
      using assms unfolding ParseWithClaims_def u 1(1) 1(14) Let_def
      by (simp_all add: f k split: if_split_asm option.split_asm)
    show ?thesis
      by (rule that [of ?tok s0 s1 s2 m f k]) (use u 1 f k D' in \<open>auto\<close>)
  qed
qed

lemma verify_any_None: "verify_any f ks e = None \<Longrightarrow> ks \<noteq> [] \<or> e \<noteq> None \<Longrightarrow> \<exists>k \<in> set ks. f k = None"
  by (induction ks arbitrary: e) (auto split: option.splits)

text \<open>The keys a key function offers.\<close>

definition keys_of :: "key \<Rightarrow> key set" where
  "keys_of k = (case k of KSet ks \<Rightarrow> set ks | _ \<Rightarrow> {k})"

lemma verify_keys_None: "verify_keys m text sig k = None \<Longrightarrow> k \<noteq> KSet [] \<Longrightarrow> \<exists>k' \<in> keys_of k. Verify_m m text sig k' = None"
  by (cases k) (auto simp: verify_keys_def keys_of_def dest: verify_any_None)

lemma header_object:
  assumes "map_of_json num v Map.empty = Inr h" "h k = Some a"
  obtains ms where "v = JObj ms"
  using assms by (cases v) (auto simp: map_of_json_def)

lemma no_duplicates:
  assumes "rejectDuplicateTopLevelJSONKeys bs = None" "json_parse bs = Some (JObj ms)"
  shows "distinct (map fst ms)"
proof -
  obtain r where f: "json_first bs = Some (JObj ms, r)" using assms(2) by (auto simp: json_parse_def split: option.splits if_splits)
  then obtain c u where n: "next_tok bs = Some (c, u)" by (auto simp: json_first_def split: option.splits)
  then have "c = CHR 0x7B" using f by (auto simp: json_first_def split: option.splits if_splits)
  then show ?thesis using assms(1) f n by (simp add: rejectDuplicateTopLevelJSONKeys_def split: if_splits)
qed

lemma init_registry_eq:
  "init_registry C others = others(''none'' \<mapsto> SigningMethodNone, ''HS256'' \<mapsto> SigningMethodHMAC C ''HS256'' ''SHA256'',
     ''HS384'' \<mapsto> SigningMethodHMAC C ''HS384'' ''SHA384'', ''HS512'' \<mapsto> SigningMethodHMAC C ''HS512'' ''SHA512'',
     ''FN-DSA-512'' \<mapsto> SigningMethodFNDSA C ''FN-DSA-512'', ''FN-DSA-1024'' \<mapsto> SigningMethodFNDSA C ''FN-DSA-1024'')"
  by (simp add: init_registry_def RegisterSigningMethod_def SigningMethodNone_def SigningMethodHMAC_def SigningMethodFNDSA_def
      AlgFNDSA512_def AlgFNDSA1024_def)

section \<open>Soundness of acceptance\<close>

lemma accepted_token:
  assumes "ParseWithClaims reg T p clock s c (Some kf) = (None, Some tok)"
  shows "\<exists>s0 s1 s2 hb ms alg m k k'. Valid tok \<and> s = s0 @ ''.'' @ s1 @ ''.'' @ s2 \<and>
    CHR ''.'' \<notin> set (s0 @ s1 @ s2) \<and>
    DecodeSegment (decodeStrict p) (decodePaddingAllowed p) s0 = Some hb \<and>
    json_parse hb = Some (JObj ms) \<and> distinct (map fst ms) \<and>
    Header tok ''alg'' = Some (String_any alg) \<and> reg alg = Some m \<and> Method tok = Some m \<and>
    (\<forall>ms. validMethods p = Some ms \<longrightarrow> Alg m \<in> set ms) \<and>
    kf (tok\<lparr>Valid := False\<rparr>) = Inr k \<and> k' \<in> keys_of k \<and>
    DecodeSegment (decodeStrict p) (decodePaddingAllowed p) s2 = Some (Signature tok) \<and>
    Verify_m m (s0 @ ''.'' @ s1) (Signature tok) k' = None \<and>
    (skipClaimsValidation p \<or> claims_ok (validator p) (iface T (Claims_of tok)) (validator_now (validator p) clock))"
  using assms
proof (cases rule: ParseWithClaims_ok)
  case (1 tok' s0 s1 s2 m f k)
  have t: "tok = tok'\<lparr>Valid := True\<rparr>" "kf = f" using 1 by simp_all
  from 1(1) show ?thesis
  proof (cases rule: ParseUnverified_ok)
    case u: (1 t0 t1 t2 hb hv h cb cv c' alg m' sig)
    obtain ms where ms: "hv = JObj ms" using header_object [OF u(6) u(11)] .
    note d = no_duplicates [OF u(4) u(5) [unfolded ms]]
    have v: "skipClaimsValidation p \<or> claims_ok (validator p) (iface T (Claims_of tok)) (validator_now (validator p) clock)"
      using 1(8) by (auto simp: t Validate_iff)
    obtain k' where k': "k' \<in> keys_of k" "Verify_m m (s0 @ ''.'' @ s1) (Signature tok) k' = None"
      using verify_keys_None [OF 1(7,6)] by (auto simp: t)
    have tok': "tok\<lparr>Valid := False\<rparr> = tok'" "Header tok = h" "Method tok = Some m" "m' = m" "Signature tok = sig" "Valid tok"
      using u(14) 1(2) by (auto simp: t)
    have sg: "t0 = s0" "t1 = s1" "t2 = s2" using u(1) by simp_all
    have sp: "s = s0 @ ''.'' @ s1 @ ''.'' @ s2" "CHR ''.'' \<notin> set (s0 @ s1 @ s2)"
      using u(2) unfolding sg splitToken_iff_dots by simp_all
    show ?thesis
      by (intro exI conjI) (fact sp(1) sp(2) tok'(6) u(3) [unfolded sg] u(5) [unfolded ms] d
          u(11) [folded tok'(2)] u(12) [unfolded tok'(4)] tok'(3) 1(5) [folded tok'(1) t(2)] k' v u(13) [unfolded sg, folded tok'(5)]
        | use 1(3) in blast)+
  qed
qed

text \<open>C21: an accepted token is a signed one. If parsing reports no error, the text is three dot-free
  segments; its first decodes to a JSON object without duplicate keys that names a registered method, which is
  one of the allowed methods when there is a list of them; a key the key function offers for the token
  verifies the third segment over the first two exactly as they were received; and the claims meet
  every condition of the validator, unless the parser was told not to check them.\<close>

theorem accepted_token_is_signed:
  assumes "ParseWithClaims reg T p clock s c (Some kf) = (None, Some tok)"
  shows "\<exists>s0 s1 s2 hb ms alg m k k'. Valid tok \<and> s = s0 @ ''.'' @ s1 @ ''.'' @ s2 \<and>
    CHR ''.'' \<notin> set (s0 @ s1 @ s2) \<and>
    DecodeSegment (decodeStrict p) (decodePaddingAllowed p) s0 = Some hb \<and>
    json_parse hb = Some (JObj ms) \<and> distinct (map fst ms) \<and>
    Header tok ''alg'' = Some (String_any alg) \<and> reg alg = Some m \<and> Method tok = Some m \<and>
    (\<forall>ms. validMethods p = Some ms \<longrightarrow> Alg m \<in> set ms) \<and>
    kf (tok\<lparr>Valid := False\<rparr>) = Inr k \<and> k' \<in> keys_of k \<and>
    DecodeSegment (decodeStrict p) (decodePaddingAllowed p) s2 = Some (Signature tok) \<and>
    Verify_m m (s0 @ ''.'' @ s1) (Signature tok) k' = None \<and>
    (skipClaimsValidation p \<or> claims_ok (validator p) (iface T (Claims_of tok)) (validator_now (validator p) clock))"
  using assms by (rule accepted_token)

text \<open>C11: no algorithm confusion. With the library's registry, the method the header names fixes the kind of
  key that can verify the token: an unsigned token needs the explicit constant that allows it, an HMAC
  token a byte key whose code is the signature, an FN-DSA token a byte key under which the
  signature verifies. A key of any other kind, such as an RSA public key, accepts none of them.\<close>

theorem no_algorithm_confusion:
  assumes "ParseWithClaims (init_registry C others) T p clock s c (Some kf) = (None, Some tok)"
  shows "\<exists>s0 s1 s2 k k'. s = s0 @ ''.'' @ s1 @ ''.'' @ s2 \<and> kf (tok\<lparr>Valid := False\<rparr>) = Inr k \<and> k' \<in> keys_of k \<and>
    (Header tok ''alg'' = Some (String_any ''none'') \<longrightarrow> k' = KUnsafeNone \<and> Signature tok = []) \<and>
    (\<forall>(name, hash) \<in> {(''HS256'', ''SHA256''), (''HS384'', ''SHA384''), (''HS512'', ''SHA512'')}.
      Header tok ''alg'' = Some (String_any name) \<longrightarrow>
      (\<exists>b. k' = KBytes b \<and> Signature tok = hmac_Sum C hash b (s0 @ ''.'' @ s1))) \<and>
    (Header tok ''alg'' \<in> {Some (String_any ''FN-DSA-512''), Some (String_any ''FN-DSA-1024'')} \<longrightarrow>
      (\<exists>b. k' = KBytes b \<and> fndsa_Verify C b (s0 @ ''.'' @ s1) (Signature tok)))"
proof -
  obtain s0 s1 s2 alg m k k' where t: "s = s0 @ ''.'' @ s1 @ ''.'' @ s2" "Header tok ''alg'' = Some (String_any alg)"
    "init_registry C others alg = Some m" "kf (tok\<lparr>Valid := False\<rparr>) = Inr k" "k' \<in> keys_of k"
    "Verify_m m (s0 @ ''.'' @ s1) (Signature tok) k' = None"
    using accepted_token [OF assms] by blast
  have none: "k' = KUnsafeNone \<and> Signature tok = []" if "alg = ''none''"
    using t(3,6) that by (auto simp: init_registry_eq SigningMethodNone_def none_Verify_def split: if_splits)
  have hmac: "\<exists>b. k' = KBytes b \<and> Signature tok = hmac_Sum C hash b (s0 @ ''.'' @ s1)"
    if "(alg, hash) \<in> {(''HS256'', ''SHA256''), (''HS384'', ''SHA384''), (''HS512'', ''SHA512'')}" for hash
    using t(3,6) that by (auto simp: init_registry_eq SigningMethodHMAC_def hmac_Verify_def split: key.splits if_splits)
  have fn: "\<exists>b. k' = KBytes b \<and> fndsa_Verify C b (s0 @ ''.'' @ s1) (Signature tok)" if "alg \<in> {''FN-DSA-512'', ''FN-DSA-1024''}"
    using t(3,6) that by (auto simp: init_registry_eq SigningMethodFNDSA_def SigningMethodFNDSA_Verify_def Let_def split: key.splits if_splits)
  show ?thesis
    by (intro exI conjI) (fact t(1) t(4) t(5) | use t(2) none hmac fn in auto)+
qed

section \<open>Signed tokens are accepted\<close>

lemma json_first_print: "json_wf maxNestingDepth v \<Longrightarrow> json_first (json_print v) = Some (v, [])"
  using p_val_print [of maxNestingDepth v "Suc (2 * length (json_print v))" "[]"] by (simp add: json_first_def)

lemma reject_print:
  assumes "json_wf maxNestingDepth (JObj ms)" "distinct (map fst ms)"
  shows "rejectDuplicateTopLevelJSONKeys (json_print (JObj ms)) = None"
  using json_first_print [OF assms(1)] assms(2)
  by (simp add: rejectDuplicateTopLevelJSONKeys_def next_tok_Cons)

lemma header_roundtrip:
  assumes "h = [''typ'' \<mapsto> String_any ty, ''alg'' \<mapsto> String_any a]" "utf8_valid ty" "utf8_valid a"
  shows "json_parse (json_print (header_json h)) = Some (header_json h)" "map_of_json False (header_json h) Map.empty = Inr h"
    "rejectDuplicateTopLevelJSONKeys (json_print (header_json h)) = None"
proof -
  have hj: "header_json h = JObj [(''alg'', JStr a), (''typ'', JStr ty)]" by (simp add: header_json_def assms(1))
  have "utf8_valid ''alg''" "utf8_valid ''typ''" by code_simp+
  then have wf: "json_wf maxNestingDepth (header_json h)" using assms(2,3) by (simp add: hj maxNestingDepth_def)
  show "json_parse (json_print (header_json h)) = Some (header_json h)" by (rule json_parse_print [OF wf])
  show "map_of_json False (header_json h) Map.empty = Inr h" unfolding hj by (simp add: map_of_json_def assms(1) fun_upd_twist)
  show "rejectDuplicateTopLevelJSONKeys (json_print (header_json h)) = None"
    unfolding hj by (rule reject_print) (use wf hj in simp_all)
qed

lemma signed_token_parses:
  assumes h: "h = [''typ'' \<mapsto> String_any ty, ''alg'' \<mapsto> String_any (Alg m)]" "utf8_valid ty" "utf8_valid (Alg m)"
    and cl: "MarshalClaims T c = JObj ms" "json_wf maxNestingDepth (JObj ms)" "distinct (map fst ms)"
      "UnmarshalClaims T (useJSONNumber p) (JObj ms) c0 = Inr c'"
    and tk: "tk = (NewWithClaims m c)\<lparr>Header := h\<rparr>"
    and sg: "Sign_m m rnd (SigningString T tk) sk = Inr sig" "s = SigningString T tk @ ''.'' @ EncodeSegment sig"
    and m': "reg (Alg m) = Some m'" "\<And>l. validMethods p = Some l \<Longrightarrow> Alg m' \<in> set l"
    and tok: "tok = \<lparr>Raw = s, Method = Some m', Header = h, Claims_of = c', Signature = sig, Valid = False\<rparr>"
    and key: "kf tok = Inr k" "k \<noteq> KSet []" "verify_keys m' (SigningString T tk) sig k = None"
    and val: "skipClaimsValidation p \<or> claims_ok (validator p) (iface T c') (validator_now (validator p) clock)"
  shows "ParseWithClaims reg T p clock s c0 (Some kf) = (None, Some (tok\<lparr>Valid := True\<rparr>))"
proof -
  let ?s0 = "EncodeSegment (json_print (header_json h))" and ?s1 = "EncodeSegment (json_print (JObj ms))"
  let ?s2 = "EncodeSegment sig"
  have ss: "SigningString T tk = ?s0 @ ''.'' @ ?s1" by (simp add: SigningString_def tk cl(1) NewWithClaims_def del: json_print.simps)
  have sp: "splitToken s = Some (?s0, ?s1, ?s2)"
    unfolding splitToken_iff_dots sg(2) ss using EncodeSegment_no_dot by simp
  have a: "h ''alg'' = Some (String_any (Alg m))" by (simp add: h(1))
  note hd = header_roundtrip [OF h]
  have jp: "json_parse (json_print (JObj ms)) = Some (JObj ms)" "json_first (json_print (JObj ms)) = Some (JObj ms, [])"
    by (rule json_parse_print [OF cl(2)], rule json_first_print [OF cl(2)])
  have dec: "(if useJSONNumber p then map_option fst (json_first (json_print (JObj ms))) else json_parse (json_print (JObj ms)))
      = Some (JObj ms)" unfolding jp by simp
  have u: "ParseUnverified reg T p s c0 = ((None, Some tok), (?s0, ?s1, ?s2))"
    unfolding ParseUnverified_def sp Let_def
    by (simp add: DecodeSegment_EncodeSegment hd reject_print [OF cl(2,3)] dec cl(4) a m'(1) GetSigningMethod_def tok
        del: json_print.simps)
  have v: "(if skipClaimsValidation p then None else Validate (validator p) clock (iface T (Claims_of tok))) = None"
    using val by (auto simp: tok Validate_iff)
  show ?thesis
    unfolding ParseWithClaims_def u prod.case option.case Let_def option.sel
    using key m'(2) v by (auto simp: tok ss split: option.split)
qed

text \<open>A claims type with nothing in it, and an HMAC that answers the key, for evaluation.\<close>

definition unit_claims :: "unit claims_type" where
  "unit_claims = \<lparr>UnmarshalClaims = (\<lambda>num v c. Inr c), MarshalClaims = (\<lambda>c. JObj []),
     iface = (\<lambda>c. RegisteredClaims_iface \<lparr>Issuer = [], Subject = [], Audience = [], ExpiresAt = None, NotBefore = None, IssuedAt = None, ID = []\<rparr>)\<rparr>"

definition sample_crypto :: crypto where
  "sample_crypto = \<lparr>hmac_Sum = (\<lambda>hash k msg. k), hash_Available = (\<lambda>h. True), shake = (\<lambda>i n. 0),
     fndsa_Sign = (\<lambda>rnd k msg. Inl ErrInvalidKey), NewPrecomputedSigner = (\<lambda>k. Inl ErrInvalidKey),
     signer_Sign = (\<lambda>rnd k msg. Inl ErrInvalidKey)\<rparr>"

definition HS256 :: SigningMethod where "HS256 = SigningMethodHMAC sample_crypto ''HS256'' ''SHA256''"

definition sample_token :: "unit Token" where
  "sample_token = NewWithClaims HS256 ()"

text \<open>A token the library signs is a token the library accepts. Whatever segment options the parser
  has, the signed string is parsed into the same header, claims and signature and marked valid,
  provided that the method is registered and allowed, the key function gives a key under which the signature
  verifies, the claims survive their own JSON form and the validator accepts them.\<close>

theorem signed_token_accepted:
  assumes "h = [''typ'' \<mapsto> String_any ty, ''alg'' \<mapsto> String_any (Alg m)]" "utf8_valid ty" "utf8_valid (Alg m)"
    and "MarshalClaims T c = JObj ms" "json_wf maxNestingDepth (JObj ms)" "distinct (map fst ms)"
      "UnmarshalClaims T (useJSONNumber p) (JObj ms) c0 = Inr c'"
    and "tk = (NewWithClaims m c)\<lparr>Header := h\<rparr>" "SignedString T rnd tk sk = Inr s" 
      "Sign_m m rnd (SigningString T tk) sk = Inr sig"
    and "reg (Alg m) = Some m'" "\<forall>l. validMethods p = Some l \<longrightarrow> Alg m' \<in> set l"
    and "tok = \<lparr>Raw = s, Method = Some m', Header = h, Claims_of = c', Signature = sig, Valid = False\<rparr>"
      "kf tok = Inr k" "k \<notin> range KSet" "Verify_m m' (SigningString T tk) sig k = None"
    and "skipClaimsValidation p \<or> claims_ok (validator p) (iface T c') (validator_now (validator p) clock)"
  shows "ParseWithClaims reg T p clock s c0 (Some kf) = (None, Some (tok\<lparr>Valid := True\<rparr>))"
proof (rule signed_token_parses [where kf = kf and tok = tok and k = k])
  show "s = SigningString T tk @ ''.'' @ EncodeSegment sig"
    using assms(8,9,10) by (simp add: SignedString_def NewWithClaims_def)
  show "\<And>l. validMethods p = Some l \<Longrightarrow> Alg m' \<in> set l" using assms(12) by blast
  show "k \<noteq> KSet []" using assms(15) by auto
  show "verify_keys m' (SigningString T tk) sig k = None" using assms(15,16) by (cases k) (auto simp: verify_keys_def)
qed (fact assms)+

definition sample_signed :: string where
  "sample_signed = SigningString unit_claims sample_token @ ''.'' @ EncodeSegment ''key''"

lemma sample_facts:
  "Header sample_token = [''typ'' \<mapsto> String_any ''JWT'', ''alg'' \<mapsto> String_any (Alg HS256)]"
  "sample_token = (NewWithClaims HS256 ())\<lparr>Header := Header sample_token\<rparr>"
  "utf8_valid ''JWT''" "utf8_valid (Alg HS256)" "Alg HS256 = ''HS256''"
  "Sign_m HS256 rnd w (KBytes ''key'') = Inr ''key''" "Verify_m HS256 w ''key'' (KBytes ''key'') = None"
  "SignedString unit_claims rnd sample_token (KBytes ''key'') = Inr sample_signed"
  "init_registry sample_crypto Map.empty ''HS256'' = Some HS256"
  "claims_ok zero_validator (iface unit_claims c) now"
proof -
  have a: "Alg HS256 = ''HS256''" by (simp add: HS256_def SigningMethodHMAC_def)
  show "Alg HS256 = ''HS256''" by (fact a)
  show "Header sample_token = [''typ'' \<mapsto> String_any ''JWT'', ''alg'' \<mapsto> String_any (Alg HS256)]"
    "sample_token = (NewWithClaims HS256 ())\<lparr>Header := Header sample_token\<rparr>"
    by (simp_all add: sample_token_def NewWithClaims_def)
  show "utf8_valid ''JWT''" by code_simp
  show "utf8_valid (Alg HS256)" unfolding a by code_simp
  show s: "Sign_m HS256 rnd w (KBytes ''key'') = Inr ''key''" for w
    by (simp add: HS256_def SigningMethodHMAC_def hmac_Sign_def sample_crypto_def)
  show "Verify_m HS256 w ''key'' (KBytes ''key'') = None"
    by (simp add: HS256_def SigningMethodHMAC_def hmac_Verify_def sample_crypto_def)
  have "Method sample_token = Some HS256" by (simp add: sample_token_def NewWithClaims_def)
  then show "SignedString unit_claims rnd sample_token (KBytes ''key'') = Inr sample_signed"
    using s by (simp add: SignedString_def sample_signed_def)
  show "init_registry sample_crypto Map.empty ''HS256'' = Some HS256"
    by (simp add: init_registry_eq HS256_def)
  show "claims_ok zero_validator (iface unit_claims c) now"
    by (simp add: claims_ok_def exp_ok_def nbf_ok_def iat_ok_def aud_ok_def string_ok_def hook_ok_def unit_claims_def
        RegisteredClaims_iface_def zero_validator_def)
qed

lemma unit_claims_simps: "MarshalClaims unit_claims c = JObj []" "UnmarshalClaims unit_claims num v c = Inr c"
  by (simp_all add: unit_claims_def)

definition sample_parser :: Parser where
  "sample_parser = NewParser [WithValidMethods [''HS256'']]"

definition sample_parsed :: "unit Token" where
  "sample_parsed = \<lparr>Raw = sample_signed, Method = Some HS256, Header = Header sample_token, Claims_of = (), Signature = ''key'', Valid = False\<rparr>"

lemma sample_parser_facts:
  "validMethods sample_parser = Some [''HS256'']" "validator sample_parser = zero_validator" "\<not> skipClaimsValidation sample_parser"
  by (simp_all add: sample_parser_def NewParser_def WithValidMethods_def)

theorem signed_token_accepted_witness:
  "ParseWithClaims (init_registry sample_crypto Map.empty) unit_claims sample_parser \<lparr>unix = 0, nsec = 0\<rparr> sample_signed ()
     (Some (\<lambda>t. Inr (KBytes ''key''))) = (None, Some (sample_parsed\<lparr>Valid := True\<rparr>))"
  by (rule signed_token_accepted [where T = unit_claims and c = "()" and rnd = "[]" and sk = "KBytes ''key''"
        and tok = sample_parsed and k = "KBytes ''key''" and ms = "[]", OF sample_facts(1,3,4) _ _ _ _ sample_facts(2,8,6)
        _ _ sample_parsed_def])
    (auto simp: sample_facts(5,7,9,10) unit_claims_simps sample_parser_facts maxNestingDepth_def)

lemma sample_parses:
  "ParseWithClaims (init_registry sample_crypto Map.empty) unit_claims sample_parser \<lparr>unix = 0, nsec = 0\<rparr> sample_signed ()
     (Some (\<lambda>t. Inr (KBytes ''key''))) = (None, Some (sample_parsed\<lparr>Valid := True\<rparr>))"
  by (rule signed_token_parses [where T = unit_claims and c = "()" and rnd = "[]" and sk = "KBytes ''key''"
        and tok = sample_parsed and k = "KBytes ''key''" and ms = "[]", OF sample_facts(1,3,4) _ _ _ _ sample_facts(2,6) sample_signed_def _ _ sample_parsed_def])
    (auto simp: sample_facts(5,7,9,10) unit_claims_simps sample_parser_facts maxNestingDepth_def verify_keys_def)

theorem accepted_token_is_signed_witness:
  "\<exists>s0 s1 s2. sample_signed = s0 @ ''.'' @ s1 @ ''.'' @ s2 \<and> Verify_m HS256 (s0 @ ''.'' @ s1) ''key'' (KBytes ''key'') = None"
  using accepted_token_is_signed [OF sample_parses] by (auto simp: sample_parsed_def keys_of_def)

theorem no_algorithm_confusion_witness:
  "\<exists>s0 s1 s2. sample_signed = s0 @ ''.'' @ s1 @ ''.'' @ s2 \<and>
    Signature sample_parsed = hmac_Sum sample_crypto ''SHA256'' ''key'' (s0 @ ''.'' @ s1)"
  using no_algorithm_confusion [OF sample_parses] sample_facts(1,5) by (auto simp: sample_parsed_def keys_of_def)

end
