(* ===== verification/JwtMethods.thy ===== *)
theory JwtMethods
  imports JwtTokens
begin

text \<open>
  The other signing methods of the token library, over the primitives of the standard library and of
  \<^verbatim>\<open>circl\<close>: RSA, RSA-PSS, ECDSA, Ed25519, ML-DSA and SLH-DSA (\<^verbatim>\<open>rsa.go\<close>, \<^verbatim>\<open>rsa_pss.go\<close>, \<^verbatim>\<open>ecdsa.go\<close>,
  \<^verbatim>\<open>ed25519.go\<close>, \<^verbatim>\<open>mldsa.go\<close>, \<^verbatim>\<open>slhdsa.go\<close>), the readers of PEM key files (\<^verbatim>\<open>*_utils.go\<close>), and the
  registry with every method. The theorems: each registered method accepts only keys of its own dynamic
  type, and an ECDSA signature survives its fixed-width form.
\<close>

section \<open>Primitives\<close>

text \<open>A key of another package is \<^term>\<open>KOther\<close> with its Go type and its contents.\<close>

record pk_crypto = crypto +
  hash_Sum :: "string \<Rightarrow> string \<Rightarrow> string"
  rsa_VerifyPKCS1v15 :: "string \<Rightarrow> string \<Rightarrow> string \<Rightarrow> string \<Rightarrow> err option"
  rsa_SignPKCS1v15 :: "string \<Rightarrow> string \<Rightarrow> string \<Rightarrow> string \<Rightarrow> (err, string) result"
  rsa_VerifyPSS :: "string \<Rightarrow> string \<Rightarrow> string \<Rightarrow> string \<Rightarrow> int \<Rightarrow> err option"
  rsa_SignPSS :: "string \<Rightarrow> string \<Rightarrow> string \<Rightarrow> string \<Rightarrow> int \<Rightarrow> (err, string) result"
  ecdsa_Verify :: "string \<Rightarrow> string \<Rightarrow> nat \<Rightarrow> nat \<Rightarrow> bool"
  ecdsa_Sign :: "string \<Rightarrow> string \<Rightarrow> string \<Rightarrow> (err, nat \<times> nat) result"
  curve_BitSize :: "string \<Rightarrow> nat"
  ed25519_Verify :: "string \<Rightarrow> string \<Rightarrow> string \<Rightarrow> bool"
  Signer_Public :: "key \<Rightarrow> key option"
  Signer_Sign :: "string \<Rightarrow> key \<Rightarrow> string \<Rightarrow> (err, string) result"
  mldsa_Verify :: "string \<Rightarrow> string \<Rightarrow> string \<Rightarrow> string \<Rightarrow> bool"
  mldsa_SignTo :: "string \<Rightarrow> string \<Rightarrow> string \<Rightarrow> (err, string) result"
  slhdsa_Verify :: "string \<Rightarrow> string \<Rightarrow> string \<Rightarrow> bool"
  slhdsa_SignDeterministic :: "string \<Rightarrow> string \<Rightarrow> (err, string) result"

text \<open>The type assertion \<^verbatim>\<open>key.(T)\<close> for a type of another package.\<close>

definition assert_type :: "string \<Rightarrow> key \<Rightarrow> string option" where
  "assert_type ty key = (case key of KOther t k \<Rightarrow> if t = ty then Some k else None | _ \<Rightarrow> None)"

section \<open>RSA and RSA-PSS\<close>

definition SigningMethodRSA_Verify :: "('a) pk_crypto_scheme \<Rightarrow> string \<Rightarrow> string \<Rightarrow> string \<Rightarrow> key \<Rightarrow> err option" where
  "SigningMethodRSA_Verify C hash signingString sig key = (case assert_type ''*rsa.PublicKey'' key of
      None \<Rightarrow> Some (newError ''RSA verify expects *rsa.PublicKey'' ErrInvalidKeyType [])
    | Some rsaKey \<Rightarrow>
        if \<not> hash_Available C hash then Some ErrHashUnavailable
        else rsa_VerifyPKCS1v15 C rsaKey hash (hash_Sum C hash signingString) sig)"

definition SigningMethodRSA_Sign :: "('a) pk_crypto_scheme \<Rightarrow> string \<Rightarrow> string \<Rightarrow> string \<Rightarrow> key \<Rightarrow> (err, string) result" where
  "SigningMethodRSA_Sign C hash rnd signingString key = (case assert_type ''*rsa.PrivateKey'' key of
      None \<Rightarrow> Inl (newError ''RSA sign expects *rsa.PrivateKey'' ErrInvalidKeyType [])
    | Some rsaKey \<Rightarrow>
        if \<not> hash_Available C hash then Inl ErrHashUnavailable
        else rsa_SignPKCS1v15 C rnd rsaKey hash (hash_Sum C hash signingString))"

definition SigningMethodRSA :: "('a) pk_crypto_scheme \<Rightarrow> string \<Rightarrow> string \<Rightarrow> SigningMethod" where
  "SigningMethodRSA C name hash = \<lparr>Alg = name, Verify_m = SigningMethodRSA_Verify C hash,
     Sign_m = SigningMethodRSA_Sign C hash, SignPrecompute = False\<rparr>"

text \<open>The salt lengths \<^verbatim>\<open>rsa.PSSSaltLengthEqualsHash\<close> and \<^verbatim>\<open>rsa.PSSSaltLengthAuto\<close>.\<close>

definition SigningMethodRSAPSS_Verify ::
  "('a) pk_crypto_scheme \<Rightarrow> string \<Rightarrow> int \<Rightarrow> int option \<Rightarrow> string \<Rightarrow> string \<Rightarrow> key \<Rightarrow> err option" where
  "SigningMethodRSAPSS_Verify C hash Options VerifyOptions signingString sig key = (case assert_type ''*rsa.PublicKey'' key of
      None \<Rightarrow> Some (newError ''RSA-PSS verify expects *rsa.PublicKey'' ErrInvalidKeyType [])
    | Some rsaKey \<Rightarrow>
        if \<not> hash_Available C hash then Some ErrHashUnavailable
        else let opts = (case VerifyOptions of None \<Rightarrow> Options | Some v \<Rightarrow> v)
          in rsa_VerifyPSS C rsaKey hash (hash_Sum C hash signingString) sig opts)"

definition SigningMethodRSAPSS_Sign ::
  "('a) pk_crypto_scheme \<Rightarrow> string \<Rightarrow> int \<Rightarrow> string \<Rightarrow> string \<Rightarrow> key \<Rightarrow> (err, string) result" where
  "SigningMethodRSAPSS_Sign C hash Options rnd signingString key = (case assert_type ''*rsa.PrivateKey'' key of
      None \<Rightarrow> Inl (newError ''RSA-PSS sign expects *rsa.PrivateKey'' ErrInvalidKeyType [])
    | Some rsaKey \<Rightarrow>
        if \<not> hash_Available C hash then Inl ErrHashUnavailable
        else rsa_SignPSS C rnd rsaKey hash (hash_Sum C hash signingString) Options)"

definition SigningMethodRSAPSS :: "('a) pk_crypto_scheme \<Rightarrow> string \<Rightarrow> string \<Rightarrow> SigningMethod" where
  "SigningMethodRSAPSS C name hash = \<lparr>Alg = name, Verify_m = SigningMethodRSAPSS_Verify C hash (- 1) (Some 0),
     Sign_m = SigningMethodRSAPSS_Sign C hash (- 1), SignPrecompute = False\<rparr>"

section \<open>ECDSA\<close>

text \<open>\<^verbatim>\<open>big.Int\<close> from and to big-endian bytes. \<^verbatim>\<open>FillBytes\<close> panics when the value does not fit
  (\<^term>\<open>None\<close>).\<close>

definition SetBytes :: "string \<Rightarrow> nat" where
  "SetBytes bs = foldl (\<lambda>a c. 256 * a + byte c) 0 bs"

fun be_bytes :: "nat \<Rightarrow> nat \<Rightarrow> string" where
  "be_bytes 0 x = []"
| "be_bytes (Suc n) x = be_bytes n (x div 256) @ [chr (x mod 256)]"

definition FillBytes :: "nat \<Rightarrow> nat \<Rightarrow> string option" where
  "FillBytes n x = (if x < 256 ^ n then Some (be_bytes n x) else None)"

definition ErrECDSAVerification :: err where
  "ErrECDSAVerification = ErrText ''crypto/ecdsa: verification error''"

definition SigningMethodECDSA_Verify :: "('a) pk_crypto_scheme \<Rightarrow> string \<Rightarrow> nat \<Rightarrow> string \<Rightarrow> string \<Rightarrow> key \<Rightarrow> err option" where
  "SigningMethodECDSA_Verify C hash KeySize signingString sig key = (case assert_type ''*ecdsa.PublicKey'' key of
      None \<Rightarrow> Some (newError ''ECDSA verify expects *ecdsa.PublicKey'' ErrInvalidKeyType [])
    | Some ecdsaKey \<Rightarrow>
        if length sig \<noteq> 2 * KeySize then Some ErrECDSAVerification
        else let r = SetBytes (take KeySize sig); s = SetBytes (drop KeySize sig) in
          if \<not> hash_Available C hash then Some ErrHashUnavailable
          else if ecdsa_Verify C ecdsaKey (hash_Sum C hash signingString) r s then None
          else Some ErrECDSAVerification)"

text \<open>The panic of \<^verbatim>\<open>FillBytes\<close> is returned as an error value here.\<close>

definition fill_panic :: err where "fill_panic = ErrText ''math/big: buffer too small to fit value''"

definition SigningMethodECDSA_Sign ::
  "('a) pk_crypto_scheme \<Rightarrow> string \<Rightarrow> nat \<Rightarrow> string \<Rightarrow> string \<Rightarrow> key \<Rightarrow> (err, string) result" where
  "SigningMethodECDSA_Sign C hash CurveBits rnd signingString key = (case assert_type ''*ecdsa.PrivateKey'' key of
      None \<Rightarrow> Inl (newError ''ECDSA sign expects *ecdsa.PrivateKey'' ErrInvalidKeyType [])
    | Some ecdsaKey \<Rightarrow>
        if \<not> hash_Available C hash then Inl ErrHashUnavailable
        else (case ecdsa_Sign C rnd ecdsaKey (hash_Sum C hash signingString) of
          Inl e \<Rightarrow> Inl e
        | Inr (r, s) \<Rightarrow>
            let curveBits = curve_BitSize C ecdsaKey in
            if CurveBits \<noteq> curveBits then Inl ErrInvalidKey
            else let keyBytes = curveBits div 8;
                keyBytes = (if 0 < curveBits mod 8 then keyBytes + 1 else keyBytes)
              in (case (FillBytes keyBytes r, FillBytes keyBytes s) of
                (Some rb, Some sb) \<Rightarrow> Inr (rb @ sb)
              | _ \<Rightarrow> Inl fill_panic)))"

definition SigningMethodECDSA :: "('a) pk_crypto_scheme \<Rightarrow> string \<Rightarrow> string \<Rightarrow> nat \<Rightarrow> nat \<Rightarrow> SigningMethod" where
  "SigningMethodECDSA C name hash KeySize CurveBits = \<lparr>Alg = name, Verify_m = SigningMethodECDSA_Verify C hash KeySize,
     Sign_m = SigningMethodECDSA_Sign C hash CurveBits, SignPrecompute = False\<rparr>"

section \<open>Ed25519\<close>

definition ErrEd25519Verification :: err where
  "ErrEd25519Verification = ErrText ''ed25519: verification error''"

definition SigningMethodEd25519_Verify :: "('a) pk_crypto_scheme \<Rightarrow> string \<Rightarrow> string \<Rightarrow> key \<Rightarrow> err option" where
  "SigningMethodEd25519_Verify C signingString sig key = (case assert_type ''ed25519.PublicKey'' key of
      None \<Rightarrow> Some (newError ''Ed25519 verify expects ed25519.PublicKey'' ErrInvalidKeyType [])
    | Some ed25519Key \<Rightarrow>
        if length ed25519Key \<noteq> 32 then Some ErrInvalidKey
        else if \<not> ed25519_Verify C ed25519Key signingString sig then Some ErrEd25519Verification
        else None)"

text \<open>A key that is no \<^verbatim>\<open>crypto.Signer\<close> has no public half.\<close>

text \<open>A nil key fails the assertion to \<^verbatim>\<open>crypto.Signer\<close> whatever that interface asks for.\<close>

definition SigningMethodEd25519_Sign :: "('a) pk_crypto_scheme \<Rightarrow> string \<Rightarrow> string \<Rightarrow> key \<Rightarrow> (err, string) result" where
  "SigningMethodEd25519_Sign C rnd signingString key = (case (if key = KNil then None else Signer_Public C key) of
      None \<Rightarrow> Inl (newError ''Ed25519 sign expects crypto.Signer'' ErrInvalidKeyType [])
    | Some pub \<Rightarrow> (case assert_type ''ed25519.PublicKey'' pub of
        None \<Rightarrow> Inl ErrInvalidKey
      | Some _ \<Rightarrow> Signer_Sign C rnd key signingString))"

definition SigningMethodEdDSA :: "('a) pk_crypto_scheme \<Rightarrow> SigningMethod" where
  "SigningMethodEdDSA C = \<lparr>Alg = ''EdDSA'', Verify_m = SigningMethodEd25519_Verify C,
     Sign_m = SigningMethodEd25519_Sign C, SignPrecompute = False\<rparr>"

section \<open>ML-DSA and SLH-DSA\<close>

text \<open>The three cases of the switch differ in the package they use.\<close>

definition mldsa_pkg :: "string \<Rightarrow> string option" where
  "mldsa_pkg name = map_of [(''ML-DSA-44'', ''mldsa44''), (''ML-DSA-65'', ''mldsa65''), (''ML-DSA-87'', ''mldsa87'')] name"

definition SigningMethodMLDSA_Verify :: "('a) pk_crypto_scheme \<Rightarrow> string \<Rightarrow> string \<Rightarrow> string \<Rightarrow> key \<Rightarrow> err option" where
  "SigningMethodMLDSA_Verify C name signingString sig key = (case mldsa_pkg name of
      None \<Rightarrow> Some (ErrText (''unsupported signing method: '' @ name))
    | Some pkg \<Rightarrow> (case assert_type (''*'' @ pkg @ ''.PublicKey'') key of
        None \<Rightarrow> Some (newError (name @ '' verify expects *'' @ pkg @ ''.PublicKey'') ErrInvalidKeyType [])
      | Some pk \<Rightarrow>
          if \<not> mldsa_Verify C pkg pk signingString sig then Some (newError (name @ '' verify failed'') ErrSignatureInvalid [])
          else None))"

definition SigningMethodMLDSA_Sign :: "('a) pk_crypto_scheme \<Rightarrow> string \<Rightarrow> string \<Rightarrow> string \<Rightarrow> key \<Rightarrow> (err, string) result" where
  "SigningMethodMLDSA_Sign C name rnd signingString key = (case mldsa_pkg name of
      None \<Rightarrow> Inl (ErrText (''unsupported signing method: '' @ name))
    | Some pkg \<Rightarrow> (case assert_type (''*'' @ pkg @ ''.PrivateKey'') key of
        None \<Rightarrow> Inl (newError (name @ '' sign expects *'' @ pkg @ ''.PrivateKey'') ErrInvalidKeyType [])
      | Some sk \<Rightarrow> (case mldsa_SignTo C pkg sk signingString of
          Inl e \<Rightarrow> Inl (newError (name @ '' sign failed: '' @ Error e) ErrSignatureInvalid [])
        | Inr sig \<Rightarrow> Inr sig)))"

definition SigningMethodMLDSA :: "('a) pk_crypto_scheme \<Rightarrow> string \<Rightarrow> SigningMethod" where
  "SigningMethodMLDSA C name = \<lparr>Alg = name, Verify_m = SigningMethodMLDSA_Verify C name,
     Sign_m = SigningMethodMLDSA_Sign C name, SignPrecompute = False\<rparr>"

definition SigningMethodSLHDSA_Verify :: "('a) pk_crypto_scheme \<Rightarrow> string \<Rightarrow> string \<Rightarrow> key \<Rightarrow> err option" where
  "SigningMethodSLHDSA_Verify C signingString sig key = (case assert_type ''slhdsa.PublicKey'' key of
      None \<Rightarrow> Some (newError ''SLH-DSA verify expects slhdsa.PublicKey key'' ErrInvalidKeyType [])
    | Some pk \<Rightarrow>
        if \<not> slhdsa_Verify C pk signingString sig then Some (newError ''SLH-DSA verify failed'' ErrSignatureInvalid [])
        else None)"

definition SigningMethodSLHDSA_Sign :: "('a) pk_crypto_scheme \<Rightarrow> string \<Rightarrow> string \<Rightarrow> key \<Rightarrow> (err, string) result" where
  "SigningMethodSLHDSA_Sign C rnd signingString key = (case assert_type ''slhdsa.PrivateKey'' key of
      None \<Rightarrow> Inl (newError ''SLH-DSA sign expects slhdsa.PrivateKey key'' ErrInvalidKeyType [])
    | Some sk \<Rightarrow> slhdsa_SignDeterministic C sk signingString)"

definition SigningMethodSLHDSA :: "('a) pk_crypto_scheme \<Rightarrow> string \<Rightarrow> SigningMethod" where
  "SigningMethodSLHDSA C name = \<lparr>Alg = name, Verify_m = SigningMethodSLHDSA_Verify C,
     Sign_m = SigningMethodSLHDSA_Sign C, SignPrecompute = False\<rparr>"

section \<open>The registry\<close>

definition ecdsa_methods :: "('a) pk_crypto_scheme \<Rightarrow> SigningMethod list" where
  "ecdsa_methods C = [SigningMethodECDSA C ''ES256'' ''SHA256'' 32 256, SigningMethodECDSA C ''ES384'' ''SHA384'' 48 384,
     SigningMethodECDSA C ''ES512'' ''SHA512'' 66 521]"

definition rsa_methods :: "('a) pk_crypto_scheme \<Rightarrow> SigningMethod list" where
  "rsa_methods C = [SigningMethodRSA C ''RS256'' ''SHA256'', SigningMethodRSA C ''RS384'' ''SHA384'',
     SigningMethodRSA C ''RS512'' ''SHA512'']"

definition rsapss_methods :: "('a) pk_crypto_scheme \<Rightarrow> SigningMethod list" where
  "rsapss_methods C = [SigningMethodRSAPSS C ''PS256'' ''SHA256'', SigningMethodRSAPSS C ''PS384'' ''SHA384'',
     SigningMethodRSAPSS C ''PS512'' ''SHA512'']"

definition mldsa_methods :: "('a) pk_crypto_scheme \<Rightarrow> SigningMethod list" where
  "mldsa_methods C = map (SigningMethodMLDSA C) [''ML-DSA-44'', ''ML-DSA-65'', ''ML-DSA-87'']"

definition slhdsa_names :: "string list" where
  "slhdsa_names = [''SLH-DSA-SHA2-128f'', ''SLH-DSA-SHA2-128s'', ''SLH-DSA-SHA2-192f'', ''SLH-DSA-SHA2-192s'',
     ''SLH-DSA-SHA2-256f'', ''SLH-DSA-SHA2-256s'', ''SLH-DSA-SHAKE-128f'', ''SLH-DSA-SHAKE-128s'',
     ''SLH-DSA-SHAKE-192f'', ''SLH-DSA-SHAKE-192s'', ''SLH-DSA-SHAKE-256f'', ''SLH-DSA-SHAKE-256s'']"

definition slhdsa_methods :: "('a) pk_crypto_scheme \<Rightarrow> SigningMethod list" where
  "slhdsa_methods C = map (SigningMethodSLHDSA C) slhdsa_names"

definition pk_methods :: "('a) pk_crypto_scheme \<Rightarrow> SigningMethod list" where
  "pk_methods C = ecdsa_methods C @ [SigningMethodEdDSA C] @ mldsa_methods C @ rsa_methods C @ rsapss_methods C @ slhdsa_methods C"

definition full_registry :: "('a) pk_crypto_scheme \<Rightarrow> registry" where
  "full_registry C = init_registry (crypto.truncate C)
     (fold (\<lambda>m reg. RegisterSigningMethod reg (Alg m) m) (pk_methods C) Map.empty)"


lemma fold_register:
  "fold (\<lambda>m reg. RegisterSigningMethod reg (Alg m) m) ms reg a = Some m \<Longrightarrow> m \<in> set ms \<and> Alg m = a \<or> reg a = Some m"
  by (induction ms arbitrary: reg) (fastforce simp: RegisterSigningMethod_def split: if_splits)+

definition all_methods :: "('a) pk_crypto_scheme \<Rightarrow> SigningMethod list" where
  "all_methods C = pk_methods C @ (let C = crypto.truncate C in
     [SigningMethodNone, SigningMethodHMAC C ''HS256'' ''SHA256'', SigningMethodHMAC C ''HS384'' ''SHA384'',
      SigningMethodHMAC C ''HS512'' ''SHA512'', SigningMethodFNDSA C AlgFNDSA512, SigningMethodFNDSA C AlgFNDSA1024])"

lemma full_registry_eq: "full_registry C = fold (\<lambda>m reg. RegisterSigningMethod reg (Alg m) m) (all_methods C) Map.empty"
  by (simp add: full_registry_def init_registry_def all_methods_def Let_def)

lemma full_registry_Some: "full_registry C a = Some m \<Longrightarrow> m \<in> set (all_methods C) \<and> Alg m = a"
  using fold_register [of "all_methods C" Map.empty a m] by (simp add: full_registry_eq)

lemma fold_register_other:
  "a \<notin> Alg ` set ms \<Longrightarrow> fold (\<lambda>m reg. RegisterSigningMethod reg (Alg m) m) ms reg a = reg a"
  by (induction ms arbitrary: reg) (simp_all add: RegisterSigningMethod_def)

lemma fold_register_own:
  "distinct (map Alg ms) \<Longrightarrow> m \<in> set ms \<Longrightarrow> fold (\<lambda>m reg. RegisterSigningMethod reg (Alg m) m) ms reg (Alg m) = Some m"
  by (induction ms arbitrary: reg) (auto simp: fold_register_other RegisterSigningMethod_def [of _ _ m])

definition all_algs :: "string list" where
  "all_algs = [''ES256'', ''ES384'', ''ES512'', ''EdDSA'', ''ML-DSA-44'', ''ML-DSA-65'', ''ML-DSA-87'', ''RS256'', ''RS384'', ''RS512'',
     ''PS256'', ''PS384'', ''PS512''] @ slhdsa_names @ [''none'', ''HS256'', ''HS384'', ''HS512'', ''FN-DSA-512'', ''FN-DSA-1024'']"

lemma all_methods_algs: "map Alg (all_methods C) = all_algs"
  by (simp add: all_methods_def pk_methods_def ecdsa_methods_def SigningMethodECDSA_def SigningMethodEdDSA_def mldsa_methods_def
      SigningMethodMLDSA_def rsa_methods_def SigningMethodRSA_def rsapss_methods_def SigningMethodRSAPSS_def slhdsa_methods_def
      SigningMethodSLHDSA_def slhdsa_names_def SigningMethodNone_def SigningMethodHMAC_def SigningMethodFNDSA_def AlgFNDSA512_def
      AlgFNDSA1024_def all_algs_def Let_def)

lemma full_registry_own:
  assumes "m \<in> set (all_methods C)"
  shows "full_registry C (Alg m) = Some m"
proof -
  have "distinct all_algs" by code_simp
  then show ?thesis unfolding full_registry_eq by (intro fold_register_own assms) (simp add: all_methods_algs)
qed

section \<open>Key types\<close>

text \<open>The dynamic type of the key a method verifies with.\<close>

fun key_type :: "key \<Rightarrow> string" where
  "key_type KNil = ''nil''"
| "key_type (KBytes b) = ''[]byte''"
| "key_type KUnsafeNone = ''unsafeNoneMagicConstant''"
| "key_type (KSigner n s) = ''*fndsa.PrecomputedSigner''"
| "key_type (KSet ks) = ''VerificationKeySet''"
| "key_type (KOther t d) = t"

definition verify_type :: "string \<Rightarrow> string" where
  "verify_type alg = (if alg = ''none'' then ''unsafeNoneMagicConstant''
     else if alg \<in> {''HS256'', ''HS384'', ''HS512'', ''FN-DSA-512'', ''FN-DSA-1024''} then ''[]byte''
     else if alg \<in> {''RS256'', ''RS384'', ''RS512'', ''PS256'', ''PS384'', ''PS512''} then ''*rsa.PublicKey''
     else if alg \<in> {''ES256'', ''ES384'', ''ES512''} then ''*ecdsa.PublicKey''
     else if alg = ''EdDSA'' then ''ed25519.PublicKey''
     else if alg = ''ML-DSA-44'' then ''*mldsa44.PublicKey''
     else if alg = ''ML-DSA-65'' then ''*mldsa65.PublicKey''
     else if alg = ''ML-DSA-87'' then ''*mldsa87.PublicKey''
     else ''slhdsa.PublicKey'')"

lemma assert_type_Some [simp]: "assert_type ty key = Some d \<longleftrightarrow> key = KOther ty d"
  by (auto simp: assert_type_def split: key.splits)

lemma accepted_types:
  "Verify_m (SigningMethodECDSA C n h k b) msg sig key = None \<Longrightarrow> key_type key = ''*ecdsa.PublicKey''"
  "Verify_m (SigningMethodEdDSA C) msg sig key = None \<Longrightarrow> key_type key = ''ed25519.PublicKey''"
  "Verify_m (SigningMethodMLDSA C n) msg sig key = None \<Longrightarrow> key_type key = ''*'' @ the (mldsa_pkg n) @ ''.PublicKey''"
  "Verify_m (SigningMethodRSA C n h) msg sig key = None \<Longrightarrow> key_type key = ''*rsa.PublicKey''"
  "Verify_m (SigningMethodRSAPSS C n h) msg sig key = None \<Longrightarrow> key_type key = ''*rsa.PublicKey''"
  "Verify_m (SigningMethodSLHDSA C n) msg sig key = None \<Longrightarrow> key_type key = ''slhdsa.PublicKey''"
  "Verify_m SigningMethodNone msg sig key = None \<Longrightarrow> key_type key = ''unsafeNoneMagicConstant''"
  "Verify_m (SigningMethodHMAC C' n h) msg sig key = None \<Longrightarrow> key_type key = ''[]byte''"
  "Verify_m (SigningMethodFNDSA C' n) msg sig key = None \<Longrightarrow> key_type key = ''[]byte''"
  by (simp_all add: SigningMethodECDSA_def SigningMethodECDSA_Verify_def SigningMethodEdDSA_def SigningMethodEd25519_Verify_def
      SigningMethodMLDSA_def SigningMethodMLDSA_Verify_def SigningMethodRSA_def SigningMethodRSA_Verify_def SigningMethodRSAPSS_def
      SigningMethodRSAPSS_Verify_def SigningMethodSLHDSA_def SigningMethodSLHDSA_Verify_def SigningMethodNone_def none_Verify_def
      SigningMethodHMAC_def hmac_Verify_def SigningMethodFNDSA_def SigningMethodFNDSA_Verify_def Let_def
      split: option.splits key.splits if_splits)

lemma Alg_simps:
  "Alg (SigningMethodECDSA C n h k b) = n" "Alg (SigningMethodEdDSA C) = ''EdDSA''" "Alg (SigningMethodMLDSA C n) = n"
  "Alg (SigningMethodRSA C n h) = n" "Alg (SigningMethodRSAPSS C n h) = n" "Alg (SigningMethodSLHDSA C n) = n"
  "Alg SigningMethodNone = ''none''" "Alg (SigningMethodHMAC C' n h) = n" "Alg (SigningMethodFNDSA C' n) = n"
  "Alg (SigningMethodFNDSAPrecomputed C' n s) = n"
  by (simp_all add: SigningMethodECDSA_def SigningMethodEdDSA_def SigningMethodMLDSA_def SigningMethodRSA_def SigningMethodRSAPSS_def
      SigningMethodSLHDSA_def SigningMethodNone_def SigningMethodHMAC_def SigningMethodFNDSA_def SigningMethodFNDSAPrecomputed_def)

lemma verify_types:
  "verify_type ''ES256'' = ''*ecdsa.PublicKey''" "verify_type ''ES384'' = ''*ecdsa.PublicKey''" "verify_type ''ES512'' = ''*ecdsa.PublicKey''"
  "verify_type ''EdDSA'' = ''ed25519.PublicKey''"
  "verify_type ''ML-DSA-44'' = ''*'' @ the (mldsa_pkg ''ML-DSA-44'') @ ''.PublicKey''"
  "verify_type ''ML-DSA-65'' = ''*'' @ the (mldsa_pkg ''ML-DSA-65'') @ ''.PublicKey''"
  "verify_type ''ML-DSA-87'' = ''*'' @ the (mldsa_pkg ''ML-DSA-87'') @ ''.PublicKey''"
  "verify_type ''RS256'' = ''*rsa.PublicKey''" "verify_type ''RS384'' = ''*rsa.PublicKey''" "verify_type ''RS512'' = ''*rsa.PublicKey''"
  "verify_type ''PS256'' = ''*rsa.PublicKey''" "verify_type ''PS384'' = ''*rsa.PublicKey''" "verify_type ''PS512'' = ''*rsa.PublicKey''"
  "n \<in> set slhdsa_names \<Longrightarrow> verify_type n = ''slhdsa.PublicKey''"
  "verify_type ''none'' = ''unsafeNoneMagicConstant''"
  "verify_type ''HS256'' = ''[]byte''" "verify_type ''HS384'' = ''[]byte''" "verify_type ''HS512'' = ''[]byte''"
  "verify_type AlgFNDSA512 = ''[]byte''" "verify_type AlgFNDSA1024 = ''[]byte''"
proof -
  have "list_all (\<lambda>n. verify_type n = ''slhdsa.PublicKey'') slhdsa_names" by code_simp
  then show "n \<in> set slhdsa_names \<Longrightarrow> verify_type n = ''slhdsa.PublicKey''" by (simp add: list_all_iff)
qed code_simp+

lemma method_key_type:
  assumes "m \<in> set (all_methods C)" "Verify_m m msg sig key = None"
  shows "key_type key = verify_type (Alg m)"
proof -
  have "key_type key = verify_type (Alg m)" if "m \<in> set (ecdsa_methods C)"
    using that assms(2) accepted_types(1) unfolding ecdsa_methods_def set_simps insert_iff empty_iff
    by (elim disjE) (simp_all only: Alg_simps verify_types simp_thms)
  moreover have "key_type key = verify_type (Alg m)" if "m \<in> set (mldsa_methods C)"
    using that assms(2) accepted_types(3) unfolding mldsa_methods_def list.map set_simps insert_iff empty_iff
    by (elim disjE) (simp_all only: Alg_simps verify_types simp_thms)
  moreover have "key_type key = verify_type (Alg m)" if "m \<in> set (rsa_methods C)"
    using that assms(2) accepted_types(4) unfolding rsa_methods_def set_simps insert_iff empty_iff
    by (elim disjE) (simp_all only: Alg_simps verify_types simp_thms)
  moreover have "key_type key = verify_type (Alg m)" if "m \<in> set (rsapss_methods C)"
    using that assms(2) accepted_types(5) unfolding rsapss_methods_def set_simps insert_iff empty_iff
    by (elim disjE) (simp_all only: Alg_simps verify_types simp_thms)
  moreover have "key_type key = verify_type (Alg m)" if "m \<in> set (slhdsa_methods C)"
    using that assms(2) accepted_types(6) verify_types(14) by (auto simp: slhdsa_methods_def Alg_simps)
  moreover have "key_type key = verify_type (Alg m)" if "m \<in> {SigningMethodEdDSA C, SigningMethodNone}"
    using that assms(2) accepted_types(2,7) unfolding insert_iff empty_iff
    by (elim disjE) (simp_all only: Alg_simps verify_types simp_thms)
  moreover have "key_type key = verify_type (Alg m)"
    if "m \<in> {SigningMethodHMAC C' ''HS256'' ''SHA256'', SigningMethodHMAC C' ''HS384'' ''SHA384'', SigningMethodHMAC C' ''HS512'' ''SHA512'',
      SigningMethodFNDSA C' AlgFNDSA512, SigningMethodFNDSA C' AlgFNDSA1024}" for C'
    using that assms(2) accepted_types(8,9) unfolding insert_iff empty_iff
    by (elim disjE) (simp_all only: Alg_simps verify_types simp_thms)
  ultimately show ?thesis
    using assms(1) unfolding all_methods_def pk_methods_def Let_def set_append set_simps by blast
qed

section \<open>Fixed-width integers\<close>

lemma length_be_bytes [simp]: "length (be_bytes n x) = n"
  by (induction n arbitrary: x) simp_all

lemma SetBytes_be_bytes: "SetBytes (be_bytes n x) = x mod 256 ^ n"
proof (induction n arbitrary: x)
  case (Suc n)
  have "byte (chr (x mod 256)) = x mod 256" by simp
  then have "SetBytes (be_bytes (Suc n) x) = 256 * (x div 256 mod 256 ^ n) + x mod 256"
    using Suc by (simp add: SetBytes_def)
  then show ?case by (simp add: mod_mult2_eq mult.commute)
qed (simp add: SetBytes_def)

lemma FillBytes_Some: "FillBytes n x = Some b \<Longrightarrow> length b = n \<and> SetBytes b = x"
  by (auto simp: FillBytes_def SetBytes_be_bytes split: if_splits)

section \<open>Properties\<close>

text \<open>C16: over the whole registry the header decides the type of the key. A token that is accepted names
  one of the library's algorithms, and the key that verified it is of the dynamic type of exactly that algorithm:
  an RSA, elliptic-curve or post-quantum public key never serves as the secret of another algorithm,
  except that HMAC and FN-DSA keys are both byte slices.\<close>

theorem accepted_key_type:
  assumes "ParseWithClaims (full_registry C) T p clock s c (Some kf) = (None, Some tok)"
  shows "\<exists>alg k k'. Header tok ''alg'' = Some (String_any alg) \<and> alg \<in> set all_algs \<and>
    kf (tok\<lparr>Valid := False\<rparr>) = Inr k \<and> k' \<in> keys_of k \<and> key_type k' = verify_type alg"
proof -
  obtain s0 s1 alg m k k' where t: "Header tok ''alg'' = Some (String_any alg)" "full_registry C alg = Some m"
    "kf (tok\<lparr>Valid := False\<rparr>) = Inr k" "k' \<in> keys_of k" "Verify_m m (s0 @ ''.'' @ s1) (Signature tok) k' = None"
    using accepted_token [OF assms] by blast
  have m: "m \<in> set (all_methods C)" "Alg m = alg" using full_registry_Some [OF t(2)] by simp_all
  then have "alg \<in> set all_algs" using all_methods_algs [of C] by (metis image_eqI list.set_map)
  then show ?thesis using t method_key_type [OF m(1) t(5)] m(2) by blast
qed

lemma ecdsa_sign:
  assumes "ks = (bits + 7) div 8" "\<And>rnd d r s. ecdsa_Sign C rnd sk d = Inr (r, s) \<Longrightarrow> r < 2 ^ curve_BitSize C sk \<and> s < 2 ^ curve_BitSize C sk"
    "hash_Available C hash" "curve_BitSize C sk = bits" "ecdsa_Sign C rnd sk (hash_Sum C hash msg) = Inr (r, s)"
  shows "SigningMethodECDSA_Sign C hash bits rnd msg (KOther ''*ecdsa.PrivateKey'' sk) = Inr (be_bytes ks r @ be_bytes ks s)"
proof -
  have k: "(if 0 < bits mod 8 then bits div 8 + 1 else bits div 8) = ks"
    unfolding assms(1) by (cases "bits mod 8 = 0") (auto, presburger+)
  have "bits \<le> 8 * ks" using assms(1) by presburger
  then have "(2 :: nat) ^ bits \<le> 2 ^ (8 * ks)" by (rule power_increasing) simp
  then have "(2 :: nat) ^ bits \<le> 256 ^ ks" by (simp add: power_mult)
  then have "r < 256 ^ ks" "s < 256 ^ ks" using assms(2) [OF assms(5)] assms(4) by (auto intro: less_le_trans)
  then show ?thesis
    using assms(3-5) k by (simp add: SigningMethodECDSA_Sign_def assert_type_def Let_def FillBytes_def)
qed

text \<open>C38: an ECDSA signature survives its fixed-width form. With a key on the method's curve, signing gives
  exactly two big-endian integers of the method's width, and verification reads the same two integers back and accepts
  them, for the three curves, also the one whose bit size is no multiple of eight. A key on another curve signs
  nothing.\<close>

theorem ecdsa_sign_verify:
  assumes "(hash, ks, bits) \<in> {(''SHA256'', 32, 256), (''SHA384'', 48, 384), (''SHA512'', 66, 521)}"
    and law: "\<forall>rnd d r s. ecdsa_Sign C rnd sk d = Inr (r, s) \<longrightarrow>
      r < 2 ^ curve_BitSize C sk \<and> s < 2 ^ curve_BitSize C sk \<and> ecdsa_Verify C pk d r s"
    and hash: "hash_Available C hash" and m_def: "m = SigningMethodECDSA C name hash ks bits"
  shows "(curve_BitSize C sk \<noteq> bits \<longrightarrow> (\<forall>sig. Sign_m m rnd msg (KOther ''*ecdsa.PrivateKey'' sk) \<noteq> Inr sig)) \<and>
    (curve_BitSize C sk = bits \<longrightarrow> ecdsa_Sign C rnd sk (hash_Sum C hash msg) = Inr (r, s) \<longrightarrow>
      (\<exists>sig. Sign_m m rnd msg (KOther ''*ecdsa.PrivateKey'' sk) = Inr sig \<and> length sig = 2 * ks \<and>
        Verify_m m msg sig (KOther ''*ecdsa.PublicKey'' pk) = None))"
proof (intro conjI impI)
  show "\<forall>sig. Sign_m m rnd msg (KOther ''*ecdsa.PrivateKey'' sk) \<noteq> Inr sig" if "curve_BitSize C sk \<noteq> bits"
    using that hash by (auto simp: m_def SigningMethodECDSA_def SigningMethodECDSA_Sign_def assert_type_def Let_def split: sum.split)
next
  assume b: "curve_BitSize C sk = bits" and sg: "ecdsa_Sign C rnd sk (hash_Sum C hash msg) = Inr (r, s)"
  have ks: "ks = (bits + 7) div 8" using assms(1) by auto
  note out = ecdsa_sign [OF ks _ hash b sg]
  have o: "SigningMethodECDSA_Sign C hash bits rnd msg (KOther ''*ecdsa.PrivateKey'' sk) = Inr (be_bytes ks r @ be_bytes ks s)"
    by (rule out) (use law in blast)
  have rs: "r < 2 ^ bits" "s < 2 ^ bits" "ecdsa_Verify C pk (hash_Sum C hash msg) r s" using law sg b by auto
  have "bits \<le> 8 * ks" using ks by presburger
  then have "(2 :: nat) ^ bits \<le> 2 ^ (8 * ks)" by (rule power_increasing) simp
  then have "(2 :: nat) ^ bits \<le> 256 ^ ks" by (simp add: power_mult)
  then have "SetBytes (be_bytes ks r) = r" "SetBytes (be_bytes ks s) = s" using rs(1,2) by (simp_all add: SetBytes_be_bytes)
  then show "\<exists>sig. Sign_m m rnd msg (KOther ''*ecdsa.PrivateKey'' sk) = Inr sig \<and> length sig = 2 * ks \<and>
        Verify_m m msg sig (KOther ''*ecdsa.PublicKey'' pk) = None"
    using o rs(3) hash by (simp add: m_def SigningMethodECDSA_def SigningMethodECDSA_Verify_def assert_type_def Let_def)
qed

definition sample_pk :: pk_crypto where
  "sample_pk = crypto.extend sample_crypto (pk_crypto.fields (\<lambda>h m. m) (\<lambda>k h d s. Some ErrSignatureInvalid) (\<lambda>rnd k h d. Inl ErrInvalidKey)
     (\<lambda>k h d s sl. Some ErrSignatureInvalid) (\<lambda>rnd k h d sl. Inl ErrInvalidKey) (\<lambda>k d r s. r = 5 \<and> s = 7) (\<lambda>rnd k d. Inr (5, 7)) (\<lambda>k. 256)
     (\<lambda>k m s. False) (\<lambda>k. None) (\<lambda>rnd k m. Inl ErrInvalidKey) (\<lambda>p k m s. False) (\<lambda>p k m. Inl ErrInvalidKey) (\<lambda>k m s. False)
     (\<lambda>k m. Inl ErrInvalidKey))"

lemma sample_pk_simps:
  "crypto.truncate sample_pk = sample_crypto" "hash_Available sample_pk h" "ecdsa_Sign sample_pk rnd k d = Inr (5, 7)"
  "ecdsa_Verify sample_pk k d r s \<longleftrightarrow> r = 5 \<and> s = 7" "curve_BitSize sample_pk k = 256"
  by (simp_all add: sample_pk_def crypto.defs pk_crypto.defs sample_crypto_def)

theorem ecdsa_sign_verify_witness:
  "\<exists>sig. Sign_m (SigningMethodECDSA sample_pk ''ES256'' ''SHA256'' 32 256) [] ''text'' (KOther ''*ecdsa.PrivateKey'' []) = Inr sig \<and>
     length sig = 64 \<and>
     Verify_m (SigningMethodECDSA sample_pk ''ES256'' ''SHA256'' 32 256) ''text'' sig (KOther ''*ecdsa.PublicKey'' []) = None"
proof -
  have n: "(5 :: nat) < 2 ^ 256" "(7 :: nat) < 2 ^ 256" by simp_all
  show ?thesis
    using ecdsa_sign_verify [of "''SHA256''" 32 256 sample_pk "[]" "[]" _ "''ES256''" "[]" "''text''" 5 7, OF _ _ _ refl] n
    by (simp add: sample_pk_simps)
qed

lemma sample_parses_full:
  "ParseWithClaims (full_registry sample_pk) unit_claims sample_parser \<lparr>unix = 0, nsec = 0\<rparr> sample_signed ()
     (Some (\<lambda>t. Inr (KBytes ''key''))) = (None, Some (sample_parsed\<lparr>Valid := True\<rparr>))"
proof -
  have "HS256 \<in> set (all_methods sample_pk)" by (simp add: all_methods_def sample_pk_simps HS256_def Let_def)
  from full_registry_own [OF this] have r: "full_registry sample_pk ''HS256'' = Some HS256" by (simp add: sample_facts(5))
  show ?thesis
    by (rule signed_token_parses [where T = unit_claims and c = "()" and rnd = "[]" and sk = "KBytes ''key''"
          and tok = sample_parsed and k = "KBytes ''key''" and ms = "[]", OF sample_facts(1,3,4) _ _ _ _ sample_facts(2,6) sample_signed_def _ _ sample_parsed_def])
      (auto simp: sample_facts(5,7,10) r unit_claims_simps sample_parser_facts maxNestingDepth_def verify_keys_def)
qed

theorem accepted_key_type_witness:
  "key_type (KBytes ''key'') = verify_type ''HS256''"
  using accepted_key_type [OF sample_parses_full] sample_facts(1,5) by (auto simp: sample_parsed_def keys_of_def)

end
