(* ===== verification/JwtUtils.thy ===== *)
theory JwtUtils
  imports JwtTokens
begin

text \<open>
  The application's tokens (\<^verbatim>\<open>pkg/utils/jwtutils/jwt.go\<close>): its claims with their JSON form and
  validation, the single- and the multi-algorithm signer and parser, and the choice of the
  algorithm of a refresh token.
\<close>

section \<open>Claims\<close>

record JWTClaims = RegisteredClaims +
  UserID :: uuid
  Email :: string
  TokenUse :: string

record JWTPayload =
  P_UserID :: uuid
  P_Email :: string
  P_Algorithm :: string
  P_TokenUse :: string

definition TokenUseAccess :: string where "TokenUseAccess = ''access''"
definition TokenUseRefresh :: string where "TokenUseRefresh = ''refresh''"
definition TokenTypeAccess :: string where "TokenTypeAccess = ''at+jwt''"
definition TokenTypeRefresh :: string where "TokenTypeRefresh = ''rt+jwt''"
definition maxJWTCompactBytes :: nat where "maxJWTCompactBytes = 64 * 1024"

definition zero_claims :: JWTClaims where
  "zero_claims = \<lparr>Issuer = [], Subject = [], Audience = [], ExpiresAt = None, NotBefore = None, IssuedAt = None, ID = [],
     UserID = 0, Email = [], TokenUse = []\<rparr>"

definition JWTClaims_Validate :: "'ts libs \<Rightarrow> JWTClaims \<Rightarrow> err option" where
  "JWTClaims_Validate L c =
     (if UserID c = 0 then Some (ErrText ''user_id claim is required'')
      else if Email c = [] then Some (ErrText ''email claim is required'')
      else if TokenUse c \<noteq> TokenUseAccess \<and> TokenUse c \<noteq> TokenUseRefresh then Some (ErrText ''token_use claim is invalid'')
      else if Subject c = [] then Some (ErrText ''sub claim is required'')
      else if Subject c \<noteq> uuid_String L (UserID c) then Some (ErrText ''sub claim must match user_id'')
      else None)"

subsection \<open>JSON form\<close>

text \<open>\<^verbatim>\<open>encoding/json\<close> matches an object key with a field exactly or, failing that, up to case;
  the Kelvin sign and the long s fold to ASCII letters.\<close>

fun fold_name :: "string \<Rightarrow> string" where
  "fold_name (a # b # c # s) =
     (if byte a = 0xE2 \<and> byte b = 0x84 \<and> byte c = 0xAA then CHR ''K'' # fold_name s
      else if byte a = 0xC5 \<and> byte b = 0xBF then CHR ''S'' # fold_name (c # s)
      else (if 97 \<le> byte a \<and> byte a \<le> 122 then chr (byte a - 32) else a) # fold_name (b # c # s))"
| "fold_name [a, b] =
     (if byte a = 0xC5 \<and> byte b = 0xBF then [CHR ''S'']
      else (if 97 \<le> byte a \<and> byte a \<le> 122 then chr (byte a - 32) else a) # fold_name [b])"
| "fold_name [a] = [if 97 \<le> byte a \<and> byte a \<le> 122 then chr (byte a - 32) else a]"
| "fold_name [] = []"

definition claim_fields :: "string list" where
  "claim_fields = [''iss'', ''sub'', ''aud'', ''exp'', ''nbf'', ''iat'', ''jti'', ''user_id'', ''email'', ''token_use'']"

definition claim_field :: "string \<Rightarrow> string option" where
  "claim_field k = (if k \<in> set claim_fields then Some k else find (\<lambda>f. fold_name f = fold_name k) claim_fields)"

text \<open>One member into its field; \<^verbatim>\<open>null\<close> leaves strings, the identifier and the audience as they are and
  clears a date.\<close>

definition set_string :: "json \<Rightarrow> string \<Rightarrow> string option" where
  "set_string v s = (case v of JNull \<Rightarrow> Some s | JStr t \<Rightarrow> Some t | _ \<Rightarrow> None)"

definition set_date :: "(rat option \<Rightarrow> i64) \<Rightarrow> json \<Rightarrow> NumericDate option option" where
  "set_date ovf v = (case v of JNull \<Rightarrow> Some None
     | _ \<Rightarrow> (case NumericDate_UnmarshalJSON ovf v of Inl e \<Rightarrow> None | Inr d \<Rightarrow> Some (Some d)))"

definition set_uuid :: "'ts libs \<Rightarrow> json \<Rightarrow> uuid \<Rightarrow> uuid option" where
  "set_uuid L v u = (case v of JNull \<Rightarrow> Some u | JStr s \<Rightarrow> uuid_Parse L s | _ \<Rightarrow> None)"

definition set_claim :: "'ts libs \<Rightarrow> (rat option \<Rightarrow> i64) \<Rightarrow> string \<times> json \<Rightarrow> JWTClaims \<Rightarrow> JWTClaims option" where
  "set_claim L ovf m c = (let (k, v) = m in case claim_field k of None \<Rightarrow> Some c | Some f \<Rightarrow>
     if f = ''iss'' then map_option (\<lambda>s. c\<lparr>Issuer := s\<rparr>) (set_string v (Issuer c))
     else if f = ''sub'' then map_option (\<lambda>s. c\<lparr>Subject := s\<rparr>) (set_string v (Subject c))
     else if f = ''aud'' then (case ClaimStrings_UnmarshalJSON (Audience c) v of Inl e \<Rightarrow> None | Inr a \<Rightarrow> Some (c\<lparr>Audience := a\<rparr>))
     else if f = ''exp'' then map_option (\<lambda>d. c\<lparr>ExpiresAt := d\<rparr>) (set_date ovf v)
     else if f = ''nbf'' then map_option (\<lambda>d. c\<lparr>NotBefore := d\<rparr>) (set_date ovf v)
     else if f = ''iat'' then map_option (\<lambda>d. c\<lparr>IssuedAt := d\<rparr>) (set_date ovf v)
     else if f = ''jti'' then map_option (\<lambda>s. c\<lparr>ID := s\<rparr>) (set_string v (ID c))
     else if f = ''user_id'' then map_option (\<lambda>u. c\<lparr>UserID := u\<rparr>) (set_uuid L v (UserID c))
     else if f = ''email'' then map_option (\<lambda>s. c\<lparr>Email := s\<rparr>) (set_string v (Email c))
     else map_option (\<lambda>s. c\<lparr>TokenUse := s\<rparr>) (set_string v (TokenUse c)))"

fun set_claims :: "'ts libs \<Rightarrow> (rat option \<Rightarrow> i64) \<Rightarrow> (string \<times> json) list \<Rightarrow> JWTClaims \<Rightarrow> JWTClaims option" where
  "set_claims L ovf [] c = Some c"
| "set_claims L ovf (m # ms) c = Option.bind (set_claim L ovf m c) (set_claims L ovf ms)"

definition JWTClaims_Unmarshal :: "'ts libs \<Rightarrow> (rat option \<Rightarrow> i64) \<Rightarrow> bool \<Rightarrow> json \<Rightarrow> JWTClaims \<Rightarrow> (err, JWTClaims) result" where
  "JWTClaims_Unmarshal L ovf num v c = (case v of
      JNull \<Rightarrow> Inr c
    | JObj ms \<Rightarrow> (case set_claims L ovf ms c of None \<Rightarrow> Inl (ErrText ''json: cannot unmarshal'') | Some c' \<Rightarrow> Inr c')
    | _ \<Rightarrow> Inl (ErrText ''json: cannot unmarshal''))"

text \<open>The embedded registered claims come first; empty ones are left out.\<close>

definition JWTClaims_members :: "'ts libs \<Rightarrow> JWTClaims \<Rightarrow> (string \<times> json) list" where
  "JWTClaims_members L c =
     (if Issuer c \<noteq> [] then [(''iss'', JStr (Issuer c))] else []) @
     (if Subject c \<noteq> [] then [(''sub'', JStr (Subject c))] else []) @
     (if Audience c \<noteq> [] then [(''aud'', ClaimStrings_MarshalJSON True (Audience c))] else []) @
     (case ExpiresAt c of None \<Rightarrow> [] | Some d \<Rightarrow> [(''exp'', NumericDate_MarshalJSON d)]) @
     (case NotBefore c of None \<Rightarrow> [] | Some d \<Rightarrow> [(''nbf'', NumericDate_MarshalJSON d)]) @
     (case IssuedAt c of None \<Rightarrow> [] | Some d \<Rightarrow> [(''iat'', NumericDate_MarshalJSON d)]) @
     (if ID c \<noteq> [] then [(''jti'', JStr (ID c))] else []) @
     [(''user_id'', JStr (uuid_String L (UserID c))), (''email'', JStr (Email c))] @
     (if TokenUse c \<noteq> [] then [(''token_use'', JStr (TokenUse c))] else [])"

definition JWTClaims_type :: "'ts libs \<Rightarrow> (rat option \<Rightarrow> i64) \<Rightarrow> JWTClaims claims_type" where
  "JWTClaims_type L ovf = \<lparr>UnmarshalClaims = JWTClaims_Unmarshal L ovf, MarshalClaims = (\<lambda>c. JObj (JWTClaims_members L c)),
     iface = (\<lambda>c. (RegisteredClaims_iface c)\<lparr>Validate_hook := Some (JWTClaims_Validate L c)\<rparr>)\<rparr>"

text \<open>\<^verbatim>\<open>MapClaims\<close>, for reading only: the unmarshaller fills the map that is passed.\<close>

definition MapClaims_type :: "(rat option \<Rightarrow> i64) \<Rightarrow> MapClaims claims_type" where
  "MapClaims_type ovf = \<lparr>UnmarshalClaims = (\<lambda>num v m. if v = JNull then Inr m else map_of_json num v m),
     MarshalClaims = (\<lambda>m. JObj []), iface = MapClaims_iface ovf\<rparr>"

section \<open>Shared helpers\<close>

definition audienceClaim :: "string \<Rightarrow> ClaimStrings" where
  "audienceClaim audience = (if audience = [] then [] else [audience])"

definition parserOptions :: "string \<Rightarrow> string \<Rightarrow> string list \<Rightarrow> ParserOption list" where
  "parserOptions issuer audience algs =
     (let opts = [WithValidMethods algs, WithIssuer issuer, WithIssuedAt] in
      if audience \<noteq> [] then opts @ [WithAudience [audience]] else opts)"

definition TokenTypeForUse :: "string \<Rightarrow> string" where
  "TokenTypeForUse tokenUse = (if tokenUse = TokenUseRefresh then TokenTypeRefresh else TokenTypeAccess)"

definition HeaderAlgForConfigAlg :: "string \<Rightarrow> string" where
  "HeaderAlgForConfigAlg alg =
     (if alg \<in> {''FN-DSA-512'', ''FN-DSA-Precomputed-512'', ''Falcon-512'', ''Falcon-Precomputed-512''} then AlgFNDSA512 else alg)"

definition normalizeAllowedAlgs :: "string list \<Rightarrow> string list" where
  "normalizeAllowedAlgs algs = snd (fold (\<lambda>alg (seen, out).
     let headerAlg = HeaderAlgForConfigAlg alg in
     if headerAlg \<in> seen then (seen, out) else (insert headerAlg seen, out @ [headerAlg])) algs ({}, []))"

definition keyBearingHeaders :: "string list" where
  "keyBearingHeaders = [''jku'', ''jwk'', ''x5u'', ''x5c'', ''x5t'', ''x5t#S256'']"

definition validateTokenTypeHeader :: "'c Token \<Rightarrow> string \<Rightarrow> err option" where
  "validateTokenTypeHeader token tokenUse =
     (if Header token ''crit'' \<noteq> None then Some (ErrText ''crit header is not supported'')
      else if Header token ''kid'' \<noteq> None then Some (ErrText ''kid header is not supported'')
      else case find (\<lambda>h. Header token h \<noteq> None) keyBearingHeaders of
        Some h \<Rightarrow> Some (ErrText (h @ '' header is not supported''))
      | None \<Rightarrow>
        let expected = TokenTypeForUse tokenUse in
        if expected = [] then None
        else let got = (case Header token ''typ'' of Some (String_any s) \<Rightarrow> s | _ \<Rightarrow> []) in
          if got \<noteq> expected then Some (ErrText ''token typ does not match token_use'') else None)"

text \<open>What the world supplies to one signature: the clock, a fresh identifier and randomness.\<close>

record sign_env =
  clock_now :: go_time
  new_uuid :: string
  sign_rnd :: string

text \<open>The token both signers build: times, subject and type header.\<close>

definition build_claims :: "'ts libs \<Rightarrow> string \<Rightarrow> string \<Rightarrow> i64 \<Rightarrow> sign_env \<Rightarrow> JWTPayload \<Rightarrow> string \<Rightarrow> JWTClaims" where
  "build_claims L issuer audience duration E payload tokenUse =
     \<lparr>Issuer = issuer, Subject = uuid_String L (P_UserID payload), Audience = audienceClaim audience,
      ExpiresAt = Some (NewNumericDate (time_Add (clock_now E) (duration * 60000000000))), NotBefore = None,
      IssuedAt = Some (NewNumericDate (clock_now E)), ID = new_uuid E,
      UserID = P_UserID payload, Email = P_Email payload, TokenUse = tokenUse\<rparr>"

definition typed_token :: "SigningMethod \<Rightarrow> JWTClaims \<Rightarrow> string \<Rightarrow> JWTClaims Token" where
  "typed_token m c tokenUse = (let token = NewWithClaims m c in
     token\<lparr>Header := (Header token)(''typ'' \<mapsto> String_any (TokenTypeForUse tokenUse))\<rparr>)"

definition use_or_access :: "string \<Rightarrow> string" where
  "use_or_access u = (if u = [] then TokenUseAccess else u)"

text \<open>The tail both parsers have.\<close>

definition checked_claims :: "JWTClaims parsed \<Rightarrow> (err, JWTClaims) result" where
  "checked_claims r = (case r of
      (Some e, _) \<Rightarrow> Inl e
    | (None, Some parsedToken) \<Rightarrow>
        if Valid parsedToken then
          (case validateTokenTypeHeader parsedToken (TokenUse (Claims_of parsedToken)) of
             Some e \<Rightarrow> Inl e | None \<Rightarrow> Inr (Claims_of parsedToken))
        else Inl (ErrText ''token is not valid'')
    | (None, None) \<Rightarrow> Inl (ErrText ''token is not valid''))"

section \<open>One algorithm\<close>

record jwtUtil =
  allowedAlgs :: "string list"
  u_issuer :: string
  u_audience :: string
  u_verifyKey :: string
  u_method :: "SigningMethod option"
  u_duration :: i64

text \<open>The configuration object is read through its getters.\<close>

definition NewJwtUtil :: "(string \<Rightarrow> string list) \<Rightarrow> (string \<Rightarrow> string) \<Rightarrow> (string \<Rightarrow> i64) \<Rightarrow> string \<Rightarrow> jwtUtil" where
  "NewJwtUtil GetStringSlice GetString GetInt verifyKey =
     \<lparr>allowedAlgs = normalizeAllowedAlgs (GetStringSlice ''JWT_ALLOWED_ALGS''), u_issuer = GetString ''JWT_ISSUER'',
      u_audience = GetString ''JWT_AUDIENCE'', u_verifyKey = verifyKey, u_method = None, u_duration = GetInt ''JWT_TOKEN_DURATION''\<rparr>"

definition NewJwtUtilWithSigner ::
  "(string \<Rightarrow> string list) \<Rightarrow> (string \<Rightarrow> string) \<Rightarrow> (string \<Rightarrow> i64) \<Rightarrow> SigningMethod \<Rightarrow> string \<Rightarrow> jwtUtil" where
  "NewJwtUtilWithSigner GetStringSlice GetString GetInt m verifyKey =
     (NewJwtUtil GetStringSlice GetString GetInt verifyKey)\<lparr>u_method := Some m\<rparr>"

definition jwtUtil_Sign :: "'ts libs \<Rightarrow> (rat option \<Rightarrow> i64) \<Rightarrow> jwtUtil \<Rightarrow> sign_env \<Rightarrow> JWTPayload \<Rightarrow> (err, string) result" where
  "jwtUtil_Sign L ovf j E payload = (case u_method j of
      None \<Rightarrow> Inl (ErrText ''signing method not configured, use NewJwtUtilWithSigner for signing'')
    | Some m \<Rightarrow> (let tokenUse = use_or_access (P_TokenUse payload);
          token = typed_token m (build_claims L (u_issuer j) (u_audience j) (u_duration j) E payload tokenUse) tokenUse
        in SignedString (JWTClaims_type L ovf) (sign_rnd E) token KNil))"

definition jwtUtil_Parse :: "registry \<Rightarrow> 'ts libs \<Rightarrow> (rat option \<Rightarrow> i64) \<Rightarrow> jwtUtil \<Rightarrow> go_time \<Rightarrow> string \<Rightarrow> (err, JWTClaims) result" where
  "jwtUtil_Parse reg L ovf j clock token =
     (if length token > maxJWTCompactBytes then Inl (ErrText ''token exceeds maximum compact size'')
      else let parser = NewParser (parserOptions (u_issuer j) (u_audience j) (allowedAlgs j)) in
        checked_claims (ParseWithClaims reg (JWTClaims_type L ovf) parser clock token zero_claims
          (Some (\<lambda>t. Inr (KBytes (u_verifyKey j))))))"

section \<open>Several algorithms\<close>

record AlgConfig =
  cfg_Method :: "SigningMethod option"
  SignKey :: key
  VerifyKey :: key

text \<open>The configurations are a map of pointers. Ranging over a Go map visits it in an unspecified
  order: a map is the list of its entries in the order of one iteration.\<close>

type_synonym configs = "(string \<times> AlgConfig option) list"

record multiAlgJwtUtil =
  issuer :: string
  audience :: string
  duration :: i64
  defaultAlg :: string

definition NewMultiAlgJwtUtil :: "string \<Rightarrow> string \<Rightarrow> i64 \<Rightarrow> string \<Rightarrow> multiAlgJwtUtil" where
  "NewMultiAlgJwtUtil iss aud dur def = \<lparr>issuer = iss, audience = aud, duration = dur, defaultAlg = def\<rparr>"

text \<open>The loop over the entries dereferences each of them: \<^term>\<open>None\<close> is a panic at a nil entry
  or method, \<^term>\<open>Some None\<close> that there is no match.\<close>

fun configForHeaderAlg :: "configs \<Rightarrow> string \<Rightarrow> AlgConfig option option" where
  "configForHeaderAlg [] headerAlg = Some None"
| "configForHeaderAlg ((n, None) # cs) headerAlg = None"
| "configForHeaderAlg ((n, Some cfg) # cs) headerAlg = (case cfg_Method cfg of
      None \<Rightarrow> None
    | Some m \<Rightarrow> if Alg m = headerAlg then Some (Some cfg) else configForHeaderAlg cs headerAlg)"

definition configForSignAlg :: "configs \<Rightarrow> string \<Rightarrow> AlgConfig option option option" where
  "configForSignAlg cs alg = (case map_of cs alg of
      Some cfg \<Rightarrow> Some (Some cfg)
    | None \<Rightarrow> if alg = HeaderAlgForConfigAlg alg
        then (case configForHeaderAlg cs alg of None \<Rightarrow> None | Some None \<Rightarrow> Some None | Some (Some c) \<Rightarrow> Some (Some (Some c)))
        else Some None)"

definition allowedHeaderAlgs :: "configs \<Rightarrow> string list" where
  "allowedHeaderAlgs cs = snd (fold (\<lambda>(n, cfg) (seen, algs). case cfg of
      None \<Rightarrow> (seen, algs)
    | Some cfg \<Rightarrow> (case cfg_Method cfg of None \<Rightarrow> (seen, algs)
        | Some m \<Rightarrow> if Alg m \<in> seen then (seen, algs) else (insert (Alg m) seen, algs @ [Alg m]))) cs ({}, []))"

text \<open>Signing; \<^term>\<open>None\<close> is a panic.\<close>

definition multiAlg_Sign :: "'ts libs \<Rightarrow> (rat option \<Rightarrow> i64) \<Rightarrow> multiAlgJwtUtil \<Rightarrow> configs \<Rightarrow> sign_env \<Rightarrow> JWTPayload
    \<Rightarrow> (err, string) result option" where
  "multiAlg_Sign L ovf m cs E payload =
     (let alg = (if P_Algorithm payload = [] then defaultAlg m else P_Algorithm payload) in
      case configForSignAlg cs alg of
        None \<Rightarrow> None
      | Some None \<Rightarrow> Some (Inl (ErrText (''unsupported algorithm: '' @ alg)))
      | Some (Some None) \<Rightarrow> None
      | Some (Some (Some cfg)) \<Rightarrow> (case cfg_Method cfg of None \<Rightarrow> None
         | Some meth \<Rightarrow> (let tokenUse = use_or_access (P_TokenUse payload);
             token = typed_token meth (build_claims L (issuer m) (audience m) (duration m) E payload tokenUse) tokenUse
           in Some (SignedString (JWTClaims_type L ovf) (sign_rnd E) token (SignKey cfg)))))"

text \<open>The key function, over the order \<open>cs\<close> in which this call ranges over the map. A panic in it
  is marked and unwinds \<^verbatim>\<open>Parse\<close> (\<^term>\<open>None\<close>); an error of the key function is the only one that the parser wraps
  under \<^term>\<open>ErrTokenUnverifiable\<close>.\<close>

definition panicked :: err where "panicked = ErrText ''runtime error: invalid memory address or nil pointer dereference''"

definition config_keyfunc :: "configs \<Rightarrow> JWTClaims Token \<Rightarrow> (err, key) result" where
  "config_keyfunc cs t = (let alg = Alg (the (Method t)) in case configForHeaderAlg cs alg of
      None \<Rightarrow> Inl panicked
    | Some None \<Rightarrow> Inl (ErrText (''no key configured for algorithm: '' @ alg))
    | Some (Some cfg) \<Rightarrow> Inr (VerifyKey cfg))"

definition multiAlg_Parse :: "registry \<Rightarrow> 'ts libs \<Rightarrow> (rat option \<Rightarrow> i64) \<Rightarrow> multiAlgJwtUtil \<Rightarrow> configs \<Rightarrow> configs
    \<Rightarrow> go_time \<Rightarrow> string \<Rightarrow> (err, JWTClaims) result option" where
  "multiAlg_Parse reg L ovf m cs cs' clock tokenStr =
     (if length tokenStr > maxJWTCompactBytes then Some (Inl (ErrText ''token exceeds maximum compact size''))
      else let parser = NewParser (parserOptions (issuer m) (audience m) (allowedHeaderAlgs cs));
          r = ParseWithClaims reg (JWTClaims_type L ovf) parser clock tokenStr zero_claims (Some (config_keyfunc cs'))
      in case fst r of
           Some (newError _ ErrTokenUnverifiable [e]) \<Rightarrow> if e = panicked then None else Some (checked_claims r)
         | _ \<Rightarrow> Some (checked_claims r))"

definition AlgorithmFromToken :: "registry \<Rightarrow> (rat option \<Rightarrow> i64) \<Rightarrow> string \<Rightarrow> (err, string) result" where
  "AlgorithmFromToken reg ovf tokenStr =
     (case ParseUnverified reg (MapClaims_type ovf) (NewParser []) tokenStr Map.empty of
        ((Some e, _), _) \<Rightarrow> Inl e
      | ((None, t), _) \<Rightarrow> (case Method (the t) of None \<Rightarrow> Inl (ErrText ''token algorithm unavailable'') | Some m \<Rightarrow> Inr (Alg m)))"

end
