(* ===== verification/JwtUtilsProps.thy ===== *)
theory JwtUtilsProps
  imports JwtUtils
begin

text \<open>
  What the application's tokens guarantee: an accepted token has complete, consistent claims from the configured
  issuer and was signed under a configured key; a token that is signed is accepted, with the same
  claims, until it expires.
\<close>

section \<open>Claims through JSON\<close>

lemma claim_field_own [simp]: "f \<in> set claim_fields \<Longrightarrow> claim_field f = Some f"
  by (simp add: claim_field_def)

lemma set_claims_append: "set_claims L ovf (a @ b) c = Option.bind (set_claims L ovf a c) (set_claims L ovf b)"
proof (induction a arbitrary: c)
  case (Cons m a)
  then show ?case by (cases "set_claim L ovf m c") simp_all
qed simp

definition date_ok :: "NumericDate \<Rightarrow> bool" where
  "date_ok d \<longleftrightarrow> nsec d = 0 \<and> \<bar>sint (unix d)\<bar> < 2 ^ 53"

lemma date_roundtrip: "date_ok d \<Longrightarrow> set_date ovf (NumericDate_MarshalJSON d) = Some (Some d)"
proof -
  assume d: "date_ok d"
  then have "NumericDate_UnmarshalJSON ovf (NumericDate_MarshalJSON d) = Inr d"
    using round64_int [of "sint (unix d)"] newNumericDateFromSeconds_int [of "sint (unix d)" ovf]
    by (cases d) (simp add: date_ok_def NumericDate_UnmarshalJSON_def NumericDate_MarshalJSON_def Float64_def lit_val_dec_int
        Truncate_second_def)
  then show ?thesis by (simp add: set_date_def NumericDate_MarshalJSON_def)
qed

lemma all_strings_map [simp]: "all_strings (map JStr ss) = Some ss"
  by (induction ss) simp_all

lemma set_claim_simps:
  "set_claim L ovf (''iss'', JStr s) c = Some (c\<lparr>Issuer := s\<rparr>)"
  "set_claim L ovf (''sub'', JStr s) c = Some (c\<lparr>Subject := s\<rparr>)"
  "set_claim L ovf (''aud'', ClaimStrings_MarshalJSON True ss) c = Some (c\<lparr>Audience := ss\<rparr>)"
  "date_ok d \<Longrightarrow> set_claim L ovf (''exp'', NumericDate_MarshalJSON d) c = Some (c\<lparr>ExpiresAt := Some d\<rparr>)"
  "date_ok d \<Longrightarrow> set_claim L ovf (''nbf'', NumericDate_MarshalJSON d) c = Some (c\<lparr>NotBefore := Some d\<rparr>)"
  "date_ok d \<Longrightarrow> set_claim L ovf (''iat'', NumericDate_MarshalJSON d) c = Some (c\<lparr>IssuedAt := Some d\<rparr>)"
  "set_claim L ovf (''jti'', JStr s) c = Some (c\<lparr>ID := s\<rparr>)"
  "libs_ok L \<Longrightarrow> set_claim L ovf (''user_id'', JStr (uuid_String L u)) c = Some (c\<lparr>UserID := u\<rparr>)"
  "set_claim L ovf (''email'', JStr s) c = Some (c\<lparr>Email := s\<rparr>)"
  "set_claim L ovf (''token_use'', JStr s) c = Some (c\<lparr>TokenUse := s\<rparr>)"
  by (simp_all add: set_claim_def claim_fields_def set_string_def set_uuid_def ClaimStrings_MarshalJSON_def
      ClaimStrings_UnmarshalJSON_def date_roundtrip)

definition claims_dates_ok :: "'a RegisteredClaims_scheme \<Rightarrow> bool" where
  "claims_dates_ok c \<longleftrightarrow> (\<forall>d \<in> set_option (ExpiresAt c) \<union> set_option (NotBefore c) \<union> set_option (IssuedAt c). date_ok d)"

lemma claims_json_roundtrip:
  assumes "libs_ok L" "claims_dates_ok c"
  shows "JWTClaims_Unmarshal L ovf num (JObj (JWTClaims_members L c)) zero_claims = Inr c"
proof -
  have opt: "set_claims L ovf (if b then [m] else []) x = (if b then set_claim L ovf m x else Some x)" for b m x
    by (cases "set_claim L ovf m x") simp_all
  have d: "set_claims L ovf (case do of None \<Rightarrow> [] | Some d \<Rightarrow> [(k, NumericDate_MarshalJSON d)]) x
      = (case do of None \<Rightarrow> Some x | Some d \<Rightarrow> set_claim L ovf (k, NumericDate_MarshalJSON d) x)" for do k x
    using opt [of True] by (cases do) simp_all
  have e: "\<And>d. ExpiresAt c = Some d \<Longrightarrow> date_ok d" "\<And>d. NotBefore c = Some d \<Longrightarrow> date_ok d" "\<And>d. IssuedAt c = Some d \<Longrightarrow> date_ok d"
    using assms(2) by (auto simp: claims_dates_ok_def)
  obtain iss sub aud ex nb ia jti u em tu where c: "c = \<lparr>Issuer = iss, Subject = sub, Audience = aud, ExpiresAt = ex, NotBefore = nb,
      IssuedAt = ia, ID = jti, UserID = u, Email = em, TokenUse = tu\<rparr>" by (cases c) blast
  have "set_claims L ovf (JWTClaims_members L c) zero_claims = Some c"
    using e assms(1) unfolding JWTClaims_members_def set_claims_append opt d c
    by (cases ex; cases nb; cases ia) (simp_all add: set_claim_simps zero_claims_def)
  then show ?thesis by (simp add: JWTClaims_Unmarshal_def)
qed

lemma claims_distinct: "distinct (map fst (JWTClaims_members L c))"
  by (cases "ExpiresAt c"; cases "NotBefore c"; cases "IssuedAt c") (simp_all add: JWTClaims_members_def)

lemma num_ok_date: "json_wf n (NumericDate_MarshalJSON d)"
  by (simp add: NumericDate_MarshalJSON_def num_ok_dec_int)

lemma claims_wf:
  assumes "utf8_valid (Issuer c)" "utf8_valid (Subject c)" "\<forall>a \<in> set (Audience c). utf8_valid a" "utf8_valid (ID c)"
    "utf8_valid (uuid_String L (UserID c))" "utf8_valid (Email c)" "utf8_valid (TokenUse c)"
  shows "json_wf maxNestingDepth (JObj (JWTClaims_members L c))"
proof -
  have k: "list_all utf8_valid claim_fields" by code_simp
  then show ?thesis using assms
    by (auto simp: JWTClaims_members_def claim_fields_def maxNestingDepth_def num_ok_date ClaimStrings_MarshalJSON_def split: option.splits)
qed

section \<open>Configurations\<close>

definition methods_of :: "configs \<Rightarrow> SigningMethod set" where
  "methods_of cs = {m. \<exists>n cfg. (n, Some cfg) \<in> set cs \<and> cfg_Method cfg = Some m}"

lemma methods_of_simps [simp]:
  "methods_of [] = {}"
  "methods_of ((n, co) # cs) = set_option (Option.bind co cfg_Method) \<union> methods_of cs"
  by (cases co) (auto simp: methods_of_def)

lemma allowedHeaderAlgs_set: "set (allowedHeaderAlgs cs) = Alg ` methods_of cs"
proof -
  define step where "step = (\<lambda>(n :: string, cfg :: AlgConfig option) (seen, algs). case cfg of
      None \<Rightarrow> (seen, algs)
    | Some cfg \<Rightarrow> (case cfg_Method cfg of None \<Rightarrow> (seen, algs)
        | Some m \<Rightarrow> if Alg m \<in> seen then (seen, algs) else (insert (Alg m) seen, algs @ [Alg m])))"
  have "set (snd (fold step cs (set algs, algs))) = set algs \<union> Alg ` methods_of cs" for algs
  proof (induction cs arbitrary: algs)
    case (Cons c cs)
    obtain n co where c: "c = (n, co)" by (cases c)
    show ?case
    proof (cases "Option.bind co cfg_Method")
      case None
      then have "step c (set algs, algs) = (set algs, algs)" by (cases co) (simp_all add: c step_def)
      then show ?thesis using Cons.IH [of algs] None by (simp add: c)
    next
      case (Some m)
      let ?algs = "if Alg m \<in> set algs then algs else algs @ [Alg m]"
      have "step c (set algs, algs) = (set ?algs, ?algs)" using Some by (cases co) (simp_all add: c step_def)
      then show ?thesis using Cons.IH [of ?algs] Some by (auto simp: c)
    qed
  qed simp
  from this [of "[]"] show ?thesis by (simp add: allowedHeaderAlgs_def step_def)
qed

lemma configForHeaderAlg_Some:
  "configForHeaderAlg cs a = Some (Some cfg) \<Longrightarrow> \<exists>n m. (n, Some cfg) \<in> set cs \<and> cfg_Method cfg = Some m \<and> Alg m = a"
  by (induction cs a rule: configForHeaderAlg.induct) (auto split: option.splits if_splits)

lemma configForSignAlg_Some:
  assumes "configForSignAlg cs a = Some (Some (Some cfg))"
  shows "\<exists>n. (n, Some cfg) \<in> set cs"
  using assms configForHeaderAlg_Some [of cs a]
  by (fastforce simp: configForSignAlg_def dest: map_of_SomeD split: option.splits if_splits)

lemma app_validator:
  fixes iss aud :: string and algs :: "string list"
  defines "v \<equiv> validator (NewParser (parserOptions iss aud algs))"
  shows "leeway v = 0" "timeFunc v = None" "requireExp v = False" "requireNbf v = False" "verifyIat v = True"
    "expectedAud v = audienceClaim aud" "expectAllAud v = False" "expectedIss v = iss" "expectedSub v = []"
    "validMethods (NewParser (parserOptions iss aud algs)) = Some algs" "skipClaimsValidation (NewParser (parserOptions iss aud algs)) = False"
    "useJSONNumber (NewParser (parserOptions iss aud algs)) = False"
    "decodeStrict (NewParser (parserOptions iss aud algs)) = False" "decodePaddingAllowed (NewParser (parserOptions iss aud algs)) = False"
  by (simp_all add: v_def NewParser_def parserOptions_def Let_def WithValidMethods_def WithIssuer_def WithIssuedAt_def WithAudience_def
      zero_validator_def audienceClaim_def)

lemma JWT_iface:
  "iface (JWTClaims_type L ovf) c = (RegisteredClaims_iface c)\<lparr>Validate_hook := Some (JWTClaims_Validate L c)\<rparr>"
  "UnmarshalClaims (JWTClaims_type L ovf) = JWTClaims_Unmarshal L ovf"
  "MarshalClaims (JWTClaims_type L ovf) c = JObj (JWTClaims_members L c)"
  by (simp_all add: JWTClaims_type_def)

lemma iface_sel [simp]:
  "GetExpirationTime (RegisteredClaims_iface c\<lparr>Validate_hook := h\<rparr>) = Inr (ExpiresAt c)"
  "GetNotBefore (RegisteredClaims_iface c\<lparr>Validate_hook := h\<rparr>) = Inr (NotBefore c)"
  "GetIssuedAt (RegisteredClaims_iface c\<lparr>Validate_hook := h\<rparr>) = Inr (IssuedAt c)"
  "GetAudience (RegisteredClaims_iface c\<lparr>Validate_hook := h\<rparr>) = Inr (Audience c)"
  "GetIssuer (RegisteredClaims_iface c\<lparr>Validate_hook := h\<rparr>) = Inr (Issuer c)"
  "GetSubject (RegisteredClaims_iface c\<lparr>Validate_hook := h\<rparr>) = Inr (Subject c)"
  "Validate_hook (RegisteredClaims_iface c\<lparr>Validate_hook := h\<rparr>) = h"
  by (simp_all add: RegisteredClaims_iface_def)

text \<open>The dates a token carries are whole seconds.\<close>

definition whole_dates :: "'a RegisteredClaims_scheme \<Rightarrow> bool" where
  "whole_dates c \<longleftrightarrow> (\<forall>d \<in> set_option (ExpiresAt c) \<union> set_option (NotBefore c) \<union> set_option (IssuedAt c). nsec d = 0)"

lemma set_date_whole: "set_date ovf v = Some (Some d) \<Longrightarrow> nsec d = 0"
  by (auto simp: set_date_def NumericDate_UnmarshalJSON_def newNumericDateFromSeconds_def NewNumericDate_def Truncate_second_def Let_def
      split: json.splits sum.splits option.splits)

lemma set_claim_whole: "set_claim L ovf mb c = Some c' \<Longrightarrow> whole_dates c \<Longrightarrow> whole_dates c'"
  by (cases mb) (auto simp: set_claim_def whole_dates_def set_date_whole split: option.splits if_splits sum.splits)

lemma set_claims_whole: "set_claims L ovf ms c = Some c' \<Longrightarrow> whole_dates c \<Longrightarrow> whole_dates c'"
  by (induction ms arbitrary: c) (auto simp: bind_eq_Some_conv dest: set_claim_whole)

lemma Unmarshal_whole:
  "JWTClaims_Unmarshal L ovf num v zero_claims = Inr c \<Longrightarrow> whole_dates c"
  using set_claims_whole [of L ovf _ zero_claims c]
  by (auto simp: JWTClaims_Unmarshal_def whole_dates_def zero_claims_def split: json.splits option.splits)

text \<open>What the claims of an accepted token satisfy.\<close>

definition app_claims_ok :: "'ts libs \<Rightarrow> string \<Rightarrow> string \<Rightarrow> go_time \<Rightarrow> JWTClaims \<Rightarrow> bool" where
  "app_claims_ok L iss aud clock c \<longleftrightarrow>
     UserID c \<noteq> 0 \<and> Email c \<noteq> [] \<and> TokenUse c \<in> {TokenUseAccess, TokenUseRefresh} \<and> Subject c = uuid_String L (UserID c) \<and>
     (iss \<noteq> [] \<longrightarrow> Issuer c = iss) \<and> (aud \<noteq> [] \<longrightarrow> aud \<in> set (Audience c)) \<and>
     (\<forall>t. ExpiresAt c = Some t \<longrightarrow> Before clock t) \<and> (\<forall>t. NotBefore c = Some t \<longrightarrow> \<not> Before clock t) \<and>
     (\<forall>t. IssuedAt c = Some t \<longrightarrow> \<not> Before clock t)"

lemma claims_ok_app:
  fixes iss aud :: string and algs :: "string list"
  assumes "whole_dates c"
  defines "v \<equiv> validator (NewParser (parserOptions iss aud algs))"
  assumes "claims_ok v (iface (JWTClaims_type L ovf) c) (validator_now v clock)"
  shows "app_claims_ok L iss aud clock c"
proof -
  note D = assms(3) [unfolded claims_ok_def JWT_iface]
  have now: "validator_now v clock = clock" by (simp add: validator_now_def v_def app_validator)
  have add: "time_Add t 0 = t" if "t \<in> set_option (ExpiresAt c) \<union> set_option (NotBefore c) \<union> set_option (IssuedAt c)" for t
    using assms(1) that by (simp add: whole_dates_def)
  have d: "ExpiresAt c = Some t \<Longrightarrow> Before clock t" "NotBefore c = Some t \<Longrightarrow> \<not> Before clock t" "IssuedAt c = Some t \<Longrightarrow> \<not> Before clock t" for t
    using D add [of t] unfolding v_def exp_ok_def nbf_ok_def iat_ok_def now [unfolded v_def] app_validator by auto
  have "JWTClaims_Validate L c = None" using D by (simp add: hook_ok_def)
  then have h: "UserID c \<noteq> 0 \<and> Email c \<noteq> [] \<and> TokenUse c \<in> {TokenUseAccess, TokenUseRefresh} \<and> Subject c = uuid_String L (UserID c)"
    by (auto simp: JWTClaims_Validate_def split: if_splits)
  have "iss \<noteq> [] \<longrightarrow> Issuer c = iss" "aud \<noteq> [] \<longrightarrow> aud \<in> set (Audience c)"
    using D unfolding v_def string_ok_def aud_ok_def app_validator by (auto simp: audienceClaim_def)
  then show ?thesis using h d unfolding app_claims_ok_def by blast
qed

lemma multi_parse_inv:
  assumes "multiAlg_Parse reg L ovf m cs cs' clock s = Some (Inr c)"
  obtains tok where "length s \<le> maxJWTCompactBytes"
    "ParseWithClaims reg (JWTClaims_type L ovf) (NewParser (parserOptions (issuer m) (audience m) (allowedHeaderAlgs cs))) clock s
       zero_claims (Some (config_keyfunc cs')) = (None, Some tok)"
    "Claims_of tok = c" "validateTokenTypeHeader tok (TokenUse c) = None"
proof -
  define r where "r = ParseWithClaims reg (JWTClaims_type L ovf) (NewParser (parserOptions (issuer m) (audience m) (allowedHeaderAlgs cs))) clock s
       zero_claims (Some (config_keyfunc cs'))"
  have l: "length s \<le> maxJWTCompactBytes" and c: "checked_claims r = Inr c"
    using assms unfolding multiAlg_Parse_def Let_def r_def [symmetric]
    by (auto split: if_splits option.splits err.splits list.splits)
  then obtain tok where "r = (None, Some tok)" "Claims_of tok = c" "validateTokenTypeHeader tok (TokenUse c) = None"
    by (auto simp: checked_claims_def split: option.splits if_splits prod.splits)
  then show ?thesis using that l r_def by simp
qed

text \<open>Parsing panics only over a configuration that is nil or has no method.\<close>

definition configs_complete :: "configs \<Rightarrow> bool" where
  "configs_complete cs \<longleftrightarrow> (\<forall>(n, cfg) \<in> set cs. \<exists>x meth. cfg = Some x \<and> cfg_Method x = Some meth)"

lemma ParseUnverified_no_wrap: "fst (fst (ParseUnverified reg T p s c)) \<noteq> Some (newError msg ErrTokenUnverifiable [e])"
  by (auto simp: ParseUnverified_def Let_def split: option.splits sum.splits any.splits prod.splits)

lemma ParseWithClaims_wrap:
  assumes "fst (ParseWithClaims reg T p clock s c (Some kf)) = Some (newError msg ErrTokenUnverifiable [e])"
  shows "\<exists>tok. kf tok = Inl e"
proof -
  obtain er t s0 s1 s2 where u: "ParseUnverified reg T p s c = ((er, t), (s0, s1, s2))" by (metis prod.collapse)
  then have "er = None" using assms ParseUnverified_no_wrap [of reg T p s c msg e] by (cases er) (auto simp: ParseWithClaims_def)
  then show ?thesis using assms unfolding ParseWithClaims_def u
    by (auto simp: Let_def split: option.split_asm sum.split_asm if_split_asm)
qed

lemma configForHeaderAlg_total: "configs_complete cs \<Longrightarrow> configForHeaderAlg cs a \<noteq> None"
  by (induction cs a rule: configForHeaderAlg.induct) (auto simp: configs_complete_def)

lemma parse_no_panic:
  assumes "configs_complete cs'"
  shows "multiAlg_Parse reg L ovf m cs cs' clock s \<noteq> None"
proof
  assume "multiAlg_Parse reg L ovf m cs cs' clock s = None"
  then obtain msg p where "fst (ParseWithClaims reg (JWTClaims_type L ovf) p clock s zero_claims (Some (config_keyfunc cs')))
      = Some (newError msg ErrTokenUnverifiable [panicked])"
    unfolding multiAlg_Parse_def Let_def by (auto split: if_split_asm option.split_asm err.split_asm list.split_asm)
  then have "\<exists>tok. config_keyfunc cs' tok = Inl panicked" by (rule ParseWithClaims_wrap)
  then obtain tok where t: "config_keyfunc cs' tok = Inl panicked" ..
  obtain x where "configForHeaderAlg cs' (Alg (the (Method tok))) = Some x" using configForHeaderAlg_total [OF assms] by blast
  then show False using t by (cases x) (auto simp: config_keyfunc_def panicked_def Let_def)
qed

lemma app_token_accepted:
  assumes "multiAlg_Parse reg L ovf m cs cs' clock s = Some (Inr c)"
  shows "length s \<le> 65536 \<and> app_claims_ok L (issuer m) (audience m) clock c \<and>
    (\<exists>s0 s1 s2 hb ms h cb cv sig alg meth n cfg k. s = s0 @ ''.'' @ s1 @ ''.'' @ s2 \<and> CHR ''.'' \<notin> set (s0 @ s1 @ s2) \<and>
      DecodeSegment False False s0 = Some hb \<and> json_parse hb = Some (JObj ms) \<and> distinct (map fst ms) \<and>
      map_of_json False (JObj ms) Map.empty = Inr h \<and>
      DecodeSegment False False s1 = Some cb \<and> json_parse cb = Some cv \<and> rejectDuplicateTopLevelJSONKeys cb = None \<and>
      JWTClaims_Unmarshal L ovf False cv zero_claims = Inr c \<and>
      DecodeSegment False False s2 = Some sig \<and>
      h ''alg'' = Some (String_any alg) \<and> h ''typ'' = Some (String_any (TokenTypeForUse (TokenUse c))) \<and>
      (\<forall>f \<in> {''crit'', ''kid'', ''jku'', ''jwk'', ''x5u'', ''x5c'', ''x5t'', ''x5t#S256''}. h f = None) \<and>
      reg alg = Some meth \<and> Alg meth \<in> set (allowedHeaderAlgs cs) \<and>
      (n, Some cfg) \<in> set cs' \<and> map_option Alg (cfg_Method cfg) = Some (Alg meth) \<and> k \<in> keys_of (VerifyKey cfg) \<and>
      Verify_m meth (s0 @ ''.'' @ s1) sig k = None)"
proof -
  obtain tok where l: "length s \<le> maxJWTCompactBytes" and t: "ParseWithClaims reg (JWTClaims_type L ovf)
       (NewParser (parserOptions (issuer m) (audience m) (allowedHeaderAlgs cs))) clock s
       zero_claims (Some (config_keyfunc cs')) = (None, Some tok)"
    and c: "Claims_of tok = c" and ty: "validateTokenTypeHeader tok (TokenUse c) = None"
    using assms by (rule multi_parse_inv)
  let ?T = "JWTClaims_type L ovf" and ?P = "NewParser (parserOptions (issuer m) (audience m) (allowedHeaderAlgs cs))"
  from t show ?thesis
  proof (cases rule: ParseWithClaims_ok)
    case (1 tok' s0 s1 s2 meth f k)
    from 1(1) show ?thesis
    proof (cases rule: ParseUnverified_ok)
      case u: (1 t0 t1 t2 hb hv h cb cv c' alg meth' sig)
      obtain ms where ms: "hv = JObj ms" using header_object [OF u(6) u(11)] .
      have tk: "t0 = s0" "t1 = s1" "t2 = s2" "c' = c" "Header tok = h" "meth' = meth" "Signature tok' = sig" "f = config_keyfunc cs'"
        "Method tok' = Some meth" "Claims_of tok' = c" using u(1,14) 1(2,4,9) c by auto
      have cl: "JWTClaims_Unmarshal L ovf False cv zero_claims = Inr c" "json_parse cb = Some cv"
        using u(9,10) unfolding app_validator JWT_iface tk by simp_all
      have ok: "app_claims_ok L (issuer m) (audience m) clock c"
        using 1(8) claims_ok_app Unmarshal_whole [OF cl(1)] unfolding app_validator Validate_iff tk(10) by blast
      obtain cfg where k: "configForHeaderAlg cs' (Alg meth) = Some (Some cfg)" "k = VerifyKey cfg"
        using 1(5) unfolding tk(8) by (auto simp: config_keyfunc_def tk(9) Let_def split: option.splits)
      obtain n where n: "(n, Some cfg) \<in> set cs'" "map_option Alg (cfg_Method cfg) = Some (Alg meth)"
        using configForHeaderAlg_Some [OF k(1)] by auto
      obtain k' where k': "k' \<in> keys_of (VerifyKey cfg)" "Verify_m meth (s0 @ ''.'' @ s1) sig k' = None"
        using verify_keys_None [OF 1(7,6)] by (auto simp: tk k(2))
      have sp: "s = s0 @ ''.'' @ s1 @ ''.'' @ s2" "CHR ''.'' \<notin> set (s0 @ s1 @ s2)"
        using u(2) unfolding tk splitToken_iff_dots by simp_all
      have al: "Alg meth \<in> set (allowedHeaderAlgs cs)" by (rule 1(3)) (simp add: app_validator)
      have hd: "\<forall>f \<in> {''crit'', ''kid'', ''jku'', ''jwk'', ''x5u'', ''x5c'', ''x5t'', ''x5t#S256''}. h f = None"
        "h ''typ'' = Some (String_any (TokenTypeForUse (TokenUse c)))"
        using ty unfolding validateTokenTypeHeader_def tk(5)
        by (auto simp: keyBearingHeaders_def TokenTypeForUse_def TokenTypeAccess_def TokenTypeRefresh_def Let_def
            split: if_splits option.splits any.splits)
      note seg = u(3) [unfolded app_validator] u(7) [unfolded app_validator] u(13) [unfolded app_validator]
      show ?thesis
        by (intro conjI exI) (use l in \<open>simp add: maxJWTCompactBytes_def\<close>, (fact ok sp seg [unfolded tk] u(5) [unfolded ms]
            no_duplicates [OF u(4) u(5) [unfolded ms]] u(6) [unfolded ms] cl u(8) u(11) hd u(12) [unfolded tk] al n k')+)
    qed
  qed
qed


section \<open>Signing, then parsing\<close>

text \<open>What is asked of the parties: the configuration chosen for signing, the one found for
  verification, and a registered method under which the signature made with the one verifies with the other.\<close>

definition keys_match :: "registry \<Rightarrow> configs \<Rightarrow> AlgConfig \<Rightarrow> SigningMethod \<Rightarrow> bool" where
  "keys_match reg cs' cfg meth \<longleftrightarrow> cfg_Method cfg = Some meth \<and> utf8_valid (Alg meth) \<and>
     (\<exists>meth' cfg'. reg (Alg meth) = Some meth' \<and> Alg meth' = Alg meth \<and>
        configForHeaderAlg cs' (Alg meth) = Some (Some cfg') \<and> VerifyKey cfg' \<notin> range KSet \<and>
        (\<forall>rnd msg sig. Sign_m meth rnd msg (SignKey cfg) = Inr sig \<longrightarrow> Verify_m meth' msg sig (VerifyKey cfg') = None))"

definition payload_ok :: "'ts libs \<Rightarrow> multiAlgJwtUtil \<Rightarrow> sign_env \<Rightarrow> JWTPayload \<Rightarrow> bool" where
  "payload_ok L m E p \<longleftrightarrow> P_UserID p \<noteq> 0 \<and> P_Email p \<noteq> [] \<and> P_TokenUse p \<in> {[], TokenUseAccess, TokenUseRefresh} \<and>
     list_all utf8_valid [issuer m, audience m, P_Email p, new_uuid E, uuid_String L (P_UserID p)]"

definition in_time :: "go_time \<Rightarrow> JWTClaims \<Rightarrow> bool" where
  "in_time clock c \<longleftrightarrow> claims_dates_ok c \<and> (\<forall>t \<in> set_option (ExpiresAt c). Before clock t) \<and>
     (\<forall>t \<in> set_option (IssuedAt c) \<union> set_option (NotBefore c). \<not> Before clock t)"

definition claims_of_payload :: "'ts libs \<Rightarrow> multiAlgJwtUtil \<Rightarrow> sign_env \<Rightarrow> JWTPayload \<Rightarrow> JWTClaims" where
  "claims_of_payload L m E p =
     build_claims L (issuer m) (audience m) (duration m) E p (use_or_access (P_TokenUse p))"

lemma build_claims_sel [simp]:
  "Issuer (build_claims L i a d E p u) = i" "Subject (build_claims L i a d E p u) = uuid_String L (P_UserID p)"
  "Audience (build_claims L i a d E p u) = audienceClaim a" "NotBefore (build_claims L i a d E p u) = None"
  "ExpiresAt (build_claims L i a d E p u) = Some (NewNumericDate (time_Add (clock_now E) (d * 60000000000)))"
  "IssuedAt (build_claims L i a d E p u) = Some (NewNumericDate (clock_now E))"
  "ID (build_claims L i a d E p u) = new_uuid E" "UserID (build_claims L i a d E p u) = P_UserID p"
  "Email (build_claims L i a d E p u) = P_Email p" "TokenUse (build_claims L i a d E p u) = u"
  by (simp_all add: build_claims_def)

lemma uuid_String_nonempty: "libs_ok L \<Longrightarrow> uuid_String L u \<noteq> []"
  by (metis libs_okD(1,2) option.distinct(1))

lemma app_claims_accepted:
  fixes algs :: "string list"
  assumes "libs_ok L" "payload_ok L m E p" "in_time clock (claims_of_payload L m E p)"
  defines "v \<equiv> validator (NewParser (parserOptions (issuer m) (audience m) algs))"
  shows "claims_ok v (iface (JWTClaims_type L ovf) (claims_of_payload L m E p)) (validator_now v clock)"
proof -
  let ?c = "claims_of_payload L m E p"
  have now: "validator_now v clock = clock" by (simp add: validator_now_def v_def app_validator)
  have add: "time_Add (NewNumericDate t) 0 = NewNumericDate t" for t
    by (simp add: NewNumericDate_def Truncate_second_def)
  have t: "exp_ok v (iface (JWTClaims_type L ovf) ?c) clock" "nbf_ok v (iface (JWTClaims_type L ovf) ?c) clock"
    "iat_ok v (iface (JWTClaims_type L ovf) ?c) clock"
    using assms(3) unfolding exp_ok_def nbf_ok_def iat_ok_def JWT_iface v_def app_validator
    by (simp_all add: claims_of_payload_def in_time_def add)
  have "JWTClaims_Validate L ?c = None"
    using assms(2) uuid_String_nonempty [OF assms(1)]
    by (auto simp: JWTClaims_Validate_def claims_of_payload_def payload_ok_def use_or_access_def)
  moreover have "aud_ok v (iface (JWTClaims_type L ovf) ?c)"
    unfolding aud_ok_def JWT_iface v_def app_validator by (simp add: claims_of_payload_def audienceClaim_def)
  ultimately show ?thesis
    using t unfolding claims_ok_def now
    by (simp add: string_ok_def hook_ok_def v_def app_validator JWT_iface) (simp add: claims_of_payload_def)
qed

lemma payload_wf:
  assumes "payload_ok L m E p"
  shows "json_wf maxNestingDepth (JObj (JWTClaims_members L (claims_of_payload L m E p)))"
proof -
  have "utf8_valid TokenUseAccess" "utf8_valid TokenUseRefresh" by code_simp+
  then show ?thesis using assms
    by (intro claims_wf) (auto simp: claims_of_payload_def payload_ok_def audienceClaim_def use_or_access_def)
qed

lemma signed_by_other:
  assumes L: "libs_ok L" and p: "payload_ok L m E p" "in_time clock (claims_of_payload L m E p)"
    and cfg: "configForSignAlg cs (if P_Algorithm p = [] then defaultAlg m else P_Algorithm p) = Some (Some (Some cfg))"
      "keys_match reg cs' cfg meth"
    and m': "issuer m' = issuer m" "audience m' = audience m" "Alg meth \<in> set (allowedHeaderAlgs cs1)"
    and s: "multiAlg_Sign L ovf m cs E p = Some (Inr s)" "length s \<le> maxJWTCompactBytes"
  shows "multiAlg_Parse reg L ovf m' cs1 cs' clock s = Some (Inr (claims_of_payload L m E p))"
proof -
  let ?c = "claims_of_payload L m E p" and ?T = "JWTClaims_type L ovf"
  let ?ty = "TokenTypeForUse (use_or_access (P_TokenUse p))"
  let ?P = "NewParser (parserOptions (issuer m) (audience m) (allowedHeaderAlgs cs1))"
  obtain meth' cfg' where k: "cfg_Method cfg = Some meth" "utf8_valid (Alg meth)" "reg (Alg meth) = Some meth'" "Alg meth' = Alg meth"
    "configForHeaderAlg cs' (Alg meth) = Some (Some cfg')" "VerifyKey cfg' \<notin> range KSet"
    "\<And>rnd msg sig. Sign_m meth rnd msg (SignKey cfg) = Inr sig \<Longrightarrow> Verify_m meth' msg sig (VerifyKey cfg') = None"
    using cfg(2) unfolding keys_match_def by blast
  let ?tk = "typed_token meth ?c (use_or_access (P_TokenUse p))"
  let ?h = "[''typ'' \<mapsto> String_any ?ty, ''alg'' \<mapsto> String_any (Alg meth)]"
  have tk: "?tk = (NewWithClaims meth ?c)\<lparr>Header := ?h\<rparr>"
    by (simp add: typed_token_def NewWithClaims_def fun_upd_twist)
  have sg: "SignedString ?T (sign_rnd E) ?tk (SignKey cfg) = Inr s"
    using s(1) cfg(1) k(1) by (simp add: multiAlg_Sign_def claims_of_payload_def Let_def)
  moreover have "Method ?tk = Some meth" by (simp add: tk NewWithClaims_def)
  ultimately obtain sig where sig: "Sign_m meth (sign_rnd E) (SigningString ?T ?tk) (SignKey cfg) = Inr sig"
    "s = SigningString ?T ?tk @ ''.'' @ EncodeSegment sig"
    by (auto simp: SignedString_def Let_def split: sum.splits)
  define tok where "tok = \<lparr>Raw = s, Method = Some meth', Header = ?h, Claims_of = ?c, Signature = sig, Valid = False\<rparr>"
  have "utf8_valid TokenTypeAccess" "utf8_valid TokenTypeRefresh" by code_simp+
  then have ty: "utf8_valid ?ty" by (simp add: TokenTypeForUse_def)
  have un: "JWTClaims_Unmarshal L ovf num (JObj (JWTClaims_members L ?c)) zero_claims = Inr ?c" for num
    using L p(2) by (intro claims_json_roundtrip) (simp_all add: in_time_def)
  have "ParseWithClaims reg ?T ?P clock s zero_claims (Some (config_keyfunc cs')) = (None, Some (tok\<lparr>Valid := True\<rparr>))"
  proof (rule signed_token_parses [where T = ?T and c = ?c and h = ?h and ty = ?ty and m = meth and ms = "JWTClaims_members L ?c" and tk = ?tk and rnd = "sign_rnd E" and sk = "SignKey cfg" and kf = "config_keyfunc cs'" and k = "VerifyKey cfg'"
        and sig = sig and m' = meth' and tok = tok])
    show "?h = ?h" by (rule refl)
    show "MarshalClaims ?T ?c = JObj (JWTClaims_members L ?c)" by (rule JWT_iface)
    show "UnmarshalClaims ?T (useJSONNumber ?P) (JObj (JWTClaims_members L ?c)) zero_claims = Inr ?c"
      unfolding JWT_iface by (rule un)
    show "Alg meth' \<in> set l" if "validMethods ?P = Some l" for l using that m'(3) k(4) unfolding app_validator by simp
    show "config_keyfunc cs' tok = Inr (VerifyKey cfg')" by (simp add: config_keyfunc_def tok_def k Let_def)
    show "VerifyKey cfg' \<noteq> KSet []" using k(6) by auto
    show "verify_keys meth' (SigningString ?T ?tk) sig (VerifyKey cfg') = None"
      using k(6) k(7) [OF sig(1)] by (cases "VerifyKey cfg'") (auto simp: verify_keys_def)
    show "skipClaimsValidation ?P \<or> claims_ok (validator ?P) (iface ?T ?c) (validator_now (validator ?P) clock)"
      using app_claims_accepted [OF L p] by blast
  qed (fact ty k(2) payload_wf [OF p(1)] claims_distinct tk sig k(3) tok_def)+
  moreover have "validateTokenTypeHeader (tok\<lparr>Valid := True\<rparr>) (TokenUse ?c) = None"
    by (simp add: tok_def validateTokenTypeHeader_def keyBearingHeaders_def claims_of_payload_def TokenTypeForUse_def Let_def)
  ultimately show ?thesis
    using s(2) unfolding multiAlg_Parse_def m' by (simp add: checked_claims_def tok_def del: split_paired_All)
qed

text \<open>A party that signs and parses with the same configurations.\<close>

lemma multi_sign_parse:
  assumes L: "libs_ok L" and p: "payload_ok L m E p" "in_time clock (claims_of_payload L m E p)"
    and cfg: "configForSignAlg cs (if P_Algorithm p = [] then defaultAlg m else P_Algorithm p) = Some (Some (Some cfg))"
      "keys_match reg cs' cfg meth"
    and s: "multiAlg_Sign L ovf m cs E p = Some (Inr s)" "length s \<le> maxJWTCompactBytes"
  shows "multiAlg_Parse reg L ovf m cs cs' clock s = Some (Inr (claims_of_payload L m E p))"
proof (rule signed_by_other [OF L p cfg refl refl _ s])
  obtain n where "(n, Some cfg) \<in> set cs" using configForSignAlg_Some [OF cfg(1)] by blast
  then show "Alg meth \<in> set (allowedHeaderAlgs cs)"
    using cfg(2) by (auto simp: allowedHeaderAlgs_set methods_of_def keys_match_def)
qed

section \<open>Properties\<close>

text \<open>C6: an accepted application token is complete and comes from a configured signer. It is at most 64 KiB
  long and consists of three dot-free segments. Its header is the JSON object, without duplicate keys, that the first
  segment decodes to, its claims are what the second decodes to and its signature is what the third
  decodes to. The claims name a user, an email, a use and that user as the subject; issuer and audience are the
  configured ones where those are set; it is within its dates; its header has the type of its use and no
  key-bearing, \<^verbatim>\<open>kid\<close> or \<^verbatim>\<open>crit\<close> entry; and that signature verifies, over the first two segments as received,
  under the verification key of a configuration whose algorithm is the one the header names. It does not matter in
  which orders the map of configurations is visited.\<close>

theorem app_token_sound:
  assumes "multiAlg_Parse reg L ovf m cs cs' clock s = Some (Inr c)"
  shows "length s \<le> 65536 \<and> app_claims_ok L (issuer m) (audience m) clock c \<and>
    (\<exists>s0 s1 s2 hb ms h cb cv sig alg meth n cfg k. s = s0 @ ''.'' @ s1 @ ''.'' @ s2 \<and> CHR ''.'' \<notin> set (s0 @ s1 @ s2) \<and>
      DecodeSegment False False s0 = Some hb \<and> json_parse hb = Some (JObj ms) \<and> distinct (map fst ms) \<and>
      map_of_json False (JObj ms) Map.empty = Inr h \<and>
      DecodeSegment False False s1 = Some cb \<and> json_parse cb = Some cv \<and> rejectDuplicateTopLevelJSONKeys cb = None \<and>
      JWTClaims_Unmarshal L ovf False cv zero_claims = Inr c \<and>
      DecodeSegment False False s2 = Some sig \<and>
      h ''alg'' = Some (String_any alg) \<and> h ''typ'' = Some (String_any (TokenTypeForUse (TokenUse c))) \<and>
      (\<forall>f \<in> {''crit'', ''kid'', ''jku'', ''jwk'', ''x5u'', ''x5c'', ''x5t'', ''x5t#S256''}. h f = None) \<and>
      reg alg = Some meth \<and> Alg meth \<in> set (allowedHeaderAlgs cs) \<and>
      (n, Some cfg) \<in> set cs' \<and> map_option Alg (cfg_Method cfg) = Some (Alg meth) \<and> k \<in> keys_of (VerifyKey cfg) \<and>
      Verify_m meth (s0 @ ''.'' @ s1) sig k = None)"
  using assms by (rule app_token_accepted)

text \<open>C20: a signed application token is accepted with the claims that were signed, by any party whose
  configuration verifies what the signer's configuration signs, while the token is within its dates.\<close>

theorem app_sign_then_parse:
  assumes "libs_ok L" "payload_ok L m E p" "in_time clock (claims_of_payload L m E p)"
    and "configForSignAlg cs (if P_Algorithm p = [] then defaultAlg m else P_Algorithm p) = Some (Some (Some cfg))"
      "keys_match reg cs' cfg meth"
    and "multiAlg_Sign L ovf m cs E p = Some (Inr s)" "length s \<le> maxJWTCompactBytes"
  shows "multiAlg_Parse reg L ovf m cs cs' clock s = Some (Inr (claims_of_payload L m E p))"
  using assms by (rule multi_sign_parse)

text \<open>One HMAC key, for evaluation.\<close>

definition hs_config :: AlgConfig where
  "hs_config = \<lparr>cfg_Method = Some HS256, SignKey = KBytes ''key'', VerifyKey = KBytes ''key''\<rparr>"

definition hs_configs :: configs where "hs_configs = [(''HS256'', Some hs_config)]"

definition hs_util :: multiAlgJwtUtil where
  "hs_util = NewMultiAlgJwtUtil ''iss'' ''aud'' 15 ''HS256''"

definition hs_env :: sign_env where
  "hs_env = \<lparr>clock_now = \<lparr>unix = 1000, nsec = 5\<rparr>, new_uuid = ''id'', sign_rnd = []\<rparr>"

definition hs_payload :: JWTPayload where
  "hs_payload = \<lparr>P_UserID = 1, P_Email = ''m'', P_Algorithm = [], P_TokenUse = []\<rparr>"

definition hs_token :: string where
  "hs_token = SigningString (JWTClaims_type ref_libs (\<lambda>_. 0))
     (typed_token HS256 (claims_of_payload ref_libs hs_util hs_env hs_payload) TokenUseAccess) @ ''.'' @ EncodeSegment ''key''"

abbreviation "hs_clock \<equiv> \<lparr>unix = 1100, nsec = 0\<rparr> :: go_time"

lemma hs_payload_ok: "payload_ok ref_libs hs_util hs_env hs_payload" by code_simp

lemma hs_in_time: "in_time hs_clock (claims_of_payload ref_libs hs_util hs_env hs_payload)" by code_simp

lemma hs_choice: "configForSignAlg hs_configs (if P_Algorithm hs_payload = [] then defaultAlg hs_util else P_Algorithm hs_payload)
    = Some (Some (Some hs_config))"
  by (simp add: configForSignAlg_def hs_configs_def hs_payload_def hs_util_def NewMultiAlgJwtUtil_def)

lemma hs_match: "keys_match (init_registry sample_crypto Map.empty) hs_configs hs_config HS256"
  using sample_facts(4,5,6,9)
  by (auto simp: keys_match_def hs_config_def hs_configs_def HS256_def SigningMethodHMAC_def hmac_Verify_def hmac_Sign_def sample_crypto_def)

lemma hs_signed: "multiAlg_Sign ref_libs (\<lambda>_. 0) hs_util hs_configs hs_env hs_payload = Some (Inr hs_token)"
  using hs_choice sample_facts(6)
  by (simp add: multiAlg_Sign_def hs_config_def hs_token_def SignedString_def typed_token_def NewWithClaims_def claims_of_payload_def
      hs_payload_def use_or_access_def Let_def)



lemma length_EncodeSegment: "length (EncodeSegment s) \<le> 4 * length s"
  by (induction s rule: EncodeSegment.induct) (simp_all add: Let_def)

lemma hs_length: "length hs_token \<le> maxJWTCompactBytes"
proof -
  let ?c = "claims_of_payload ref_libs hs_util hs_env hs_payload"
  let ?h = "json_print (header_json (Header (typed_token HS256 ?c TokenUseAccess)))" and ?b = "json_print (JObj (JWTClaims_members ref_libs ?c))"
  have "length ?h \<le> 200" "length ?b \<le> 200" by code_simp+
  then have "length (EncodeSegment ?h) \<le> 800" "length (EncodeSegment ?b) \<le> 800"
    using length_EncodeSegment [of ?h] length_EncodeSegment [of ?b] by linarith+
  moreover have "length (EncodeSegment ''key'') \<le> 12" using length_EncodeSegment [of "''key''"] by simp
  moreover have "SigningString (JWTClaims_type ref_libs (\<lambda>_. 0)) (typed_token HS256 ?c TokenUseAccess)
      = EncodeSegment ?h @ ''.'' @ EncodeSegment ?b"
    by (simp add: SigningString_def JWT_iface typed_token_def NewWithClaims_def Let_def del: json_print.simps)
  ultimately show ?thesis unfolding hs_token_def maxJWTCompactBytes_def by simp
qed

theorem app_sign_then_parse_witness:
  "multiAlg_Parse (init_registry sample_crypto Map.empty) ref_libs (\<lambda>_. 0) hs_util hs_configs hs_configs hs_clock hs_token
   = Some (Inr (claims_of_payload ref_libs hs_util hs_env hs_payload))"
  by (rule app_sign_then_parse [OF ref_libs_ok hs_payload_ok hs_in_time hs_choice hs_match hs_signed hs_length])

lemma hs_parsed:
  "multiAlg_Parse (init_registry sample_crypto Map.empty) ref_libs (\<lambda>_. 0) hs_util hs_configs hs_configs hs_clock hs_token
   = Some (Inr (claims_of_payload ref_libs hs_util hs_env hs_payload))"
  by (rule multi_sign_parse [OF ref_libs_ok hs_payload_ok hs_in_time hs_choice hs_match hs_signed hs_length])

theorem app_token_sound_witness:
  "\<exists>s0 s1 s2 h sig. hs_token = s0 @ ''.'' @ s1 @ ''.'' @ s2 \<and> CHR ''.'' \<notin> set (s0 @ s1 @ s2) \<and>
     map_option json_parse (DecodeSegment False False s0) = Some (Some h) \<and> DecodeSegment False False s2 = Some sig \<and>
     Verify_m HS256 (s0 @ ''.'' @ s1) sig (KBytes ''key'') = None"
proof -
  obtain s0 s1 s2 hb ms sig alg meth n cfg k where a: "hs_token = s0 @ ''.'' @ s1 @ ''.'' @ s2"
    "init_registry sample_crypto Map.empty alg = Some meth" "Alg meth \<in> set (allowedHeaderAlgs hs_configs)"
    "(n, Some cfg) \<in> set hs_configs" "map_option Alg (cfg_Method cfg) = Some (Alg meth)"
    "k \<in> keys_of (VerifyKey cfg)" "Verify_m meth (s0 @ ''.'' @ s1) sig k = None"
    and b: "CHR ''.'' \<notin> set (s0 @ s1 @ s2)" "DecodeSegment False False s0 = Some hb" "json_parse hb = Some (JObj ms)"
    "DecodeSegment False False s2 = Some sig"
    using app_token_sound [OF hs_parsed] by blast
  have c: "cfg = hs_config" using a(4) by (simp add: hs_configs_def)
  then have m: "Alg meth = ''HS256''" "k = KBytes ''key''" using a(5,6) sample_facts(5) by (auto simp: hs_config_def keys_of_def)
  then have "meth = HS256" using a(2)
    by (auto simp: init_registry_eq HS256_def SigningMethodNone_def SigningMethodHMAC_def SigningMethodFNDSA_def split: if_splits)
  then show ?thesis
    using a(7) m(2) by (intro exI [of _ s0] exI [of _ s1] exI [of _ s2] exI [of _ "JObj ms"] exI [of _ sig]) (simp add: a(1) b [simplified])
qed

end
