(* ===== verification/Loader.thy ===== *)
theory Loader
  imports JwtMethods JwtUtilsProps
begin

text \<open>
  Key files: the readers of PEM-encoded keys (\<^verbatim>\<open>pkg/jwt/*_utils.go\<close>) and the loader of the
  algorithm configurations (\<^verbatim>\<open>pkg/utils/jwtutils/loader.go\<close>). The theorems: what a loaded configuration
  holds, and that a signer and a verifier loaded from one directory work together whatever the order in
  which Go visits their maps.
\<close>

section \<open>Readers\<close>

text \<open>The functions of the standard library and of \<^verbatim>\<open>circl\<close>. A PEM block is its headers and bytes; a
  parsed certificate is its public key; the two unmarshallers take the scheme first.\<close>

record x509 =
  pem_Decode :: "string \<Rightarrow> (string \<times> string) option"
  ParsePKIXPublicKey :: "string \<Rightarrow> (err, key) result"
  ParseCertificate :: "string \<Rightarrow> (err, key) result"
  ParsePKCS1PublicKey :: "string \<Rightarrow> (err, key) result"
  ParsePKCS1PrivateKey :: "string \<Rightarrow> (err, key) result"
  ParsePKCS8PrivateKey :: "string \<Rightarrow> (err, key) result"
  ParseECPrivateKey :: "string \<Rightarrow> (err, key) result"
  DecryptPEMBlock :: "string \<times> string \<Rightarrow> string \<Rightarrow> (err, string) result"
  UnmarshalBinaryPrivateKey :: "string \<Rightarrow> string \<Rightarrow> (err, key) result"
  UnmarshalBinaryPublicKey :: "string \<Rightarrow> string \<Rightarrow> (err, key) result"

definition ErrKeyMustBePEMEncoded :: err where
  "ErrKeyMustBePEMEncoded = ErrText ''invalid key: Key must be a PEM encoded PKCS1 or PKCS8 key''"

text \<open>The first reading that succeeds, or the error of the last; and the final type assertion.\<close>

fun or_else :: "(err, 'a) result \<Rightarrow> (err, 'a) result \<Rightarrow> (err, 'a) result" where
  "or_else (Inl _) r = r"
| "or_else (Inr k) r = Inr k"

definition asserted :: "string \<Rightarrow> err \<Rightarrow> (err, key) result \<Rightarrow> (err, key) result" where
  "asserted ty e r = (case r of Inl e' \<Rightarrow> Inl e' | Inr k \<Rightarrow> if key_type k = ty then Inr k else Inl e)"

definition ParseFNDSAPrivateKeyFromPEM :: "x509 \<Rightarrow> string \<Rightarrow> (err, string) result" where
  "ParseFNDSAPrivateKeyFromPEM X key = (case pem_Decode X key of
      None \<Rightarrow> Inl ErrKeyMustBePEMEncoded | Some block \<Rightarrow> Inr (snd block))"

definition ParseFNDSAPublicKeyFromPEM :: "x509 \<Rightarrow> string \<Rightarrow> (err, string) result" where
  "ParseFNDSAPublicKeyFromPEM X key = (case pem_Decode X key of
      None \<Rightarrow> Inl ErrKeyMustBePEMEncoded | Some block \<Rightarrow> Inr (snd block))"

definition ParseECPrivateKeyFromPEM :: "x509 \<Rightarrow> string \<Rightarrow> (err, key) result" where
  "ParseECPrivateKeyFromPEM X key = (case pem_Decode X key of None \<Rightarrow> Inl ErrKeyMustBePEMEncoded
     | Some block \<Rightarrow> asserted ''*ecdsa.PrivateKey'' (ErrText ''key is not a valid ECDSA private key'')
         (or_else (ParseECPrivateKey X (snd block)) (ParsePKCS8PrivateKey X (snd block))))"

definition ParseECPublicKeyFromPEM :: "x509 \<Rightarrow> string \<Rightarrow> (err, key) result" where
  "ParseECPublicKeyFromPEM X key = (case pem_Decode X key of None \<Rightarrow> Inl ErrKeyMustBePEMEncoded
     | Some block \<Rightarrow> asserted ''*ecdsa.PublicKey'' (ErrText ''key is not a valid ECDSA public key'')
         (or_else (ParsePKIXPublicKey X (snd block)) (ParseCertificate X (snd block))))"

definition ParseEdPrivateKeyFromPEM :: "x509 \<Rightarrow> string \<Rightarrow> (err, key) result" where
  "ParseEdPrivateKeyFromPEM X key = (case pem_Decode X key of None \<Rightarrow> Inl ErrKeyMustBePEMEncoded
     | Some block \<Rightarrow> asserted ''ed25519.PrivateKey'' (ErrText ''key is not a valid Ed25519 private key'')
         (ParsePKCS8PrivateKey X (snd block)))"

definition ParseEdPublicKeyFromPEM :: "x509 \<Rightarrow> string \<Rightarrow> (err, key) result" where
  "ParseEdPublicKeyFromPEM X key = (case pem_Decode X key of None \<Rightarrow> Inl ErrKeyMustBePEMEncoded
     | Some block \<Rightarrow> asserted ''ed25519.PublicKey'' (ErrText ''key is not a valid Ed25519 public key'')
         (ParsePKIXPublicKey X (snd block)))"

definition ErrNotRSAPrivateKey :: err where "ErrNotRSAPrivateKey = ErrText ''key is not a valid RSA private key''"

definition ParseRSAPrivateKeyFromPEM :: "x509 \<Rightarrow> string \<Rightarrow> (err, key) result" where
  "ParseRSAPrivateKeyFromPEM X key = (case pem_Decode X key of None \<Rightarrow> Inl ErrKeyMustBePEMEncoded
     | Some block \<Rightarrow> asserted ''*rsa.PrivateKey'' ErrNotRSAPrivateKey
         (or_else (ParsePKCS1PrivateKey X (snd block)) (ParsePKCS8PrivateKey X (snd block))))"

definition ParseRSAPrivateKeyFromPEMWithPassword :: "x509 \<Rightarrow> string \<Rightarrow> string \<Rightarrow> (err, key) result" where
  "ParseRSAPrivateKeyFromPEMWithPassword X key password = (case pem_Decode X key of None \<Rightarrow> Inl ErrKeyMustBePEMEncoded
     | Some block \<Rightarrow> (case DecryptPEMBlock X block password of Inl e \<Rightarrow> Inl e
       | Inr blockDecrypted \<Rightarrow> asserted ''*rsa.PrivateKey'' ErrNotRSAPrivateKey
           (or_else (ParsePKCS1PrivateKey X blockDecrypted) (ParsePKCS8PrivateKey X blockDecrypted))))"

definition ParseRSAPublicKeyFromPEM :: "x509 \<Rightarrow> string \<Rightarrow> (err, key) result" where
  "ParseRSAPublicKeyFromPEM X key = (case pem_Decode X key of None \<Rightarrow> Inl ErrKeyMustBePEMEncoded
     | Some block \<Rightarrow> asserted ''*rsa.PublicKey'' (ErrText ''key is not a valid RSA public key'')
         (or_else (ParsePKIXPublicKey X (snd block))
           (or_else (ParseCertificate X (snd block)) (ParsePKCS1PublicKey X (snd block)))))"

text \<open>The cases of the two post-quantum families differ in the scheme; any failure is the same error.\<close>

definition unmarshalled :: "string \<Rightarrow> err \<Rightarrow> (err, key) result \<Rightarrow> (err, key) result" where
  "unmarshalled ty e r = (case r of Inl _ \<Rightarrow> Inl e | Inr k \<Rightarrow> if key_type k = ty then Inr k else Inl e)"

definition ParseMLDSAPrivateKeyFromPEM :: "x509 \<Rightarrow> string \<Rightarrow> string \<Rightarrow> (err, key) result" where
  "ParseMLDSAPrivateKeyFromPEM X alg key = (case pem_Decode X key of None \<Rightarrow> Inl ErrKeyMustBePEMEncoded
     | Some block \<Rightarrow> (case mldsa_pkg alg of None \<Rightarrow> Inl ErrInvalidKeyType
       | Some pkg \<Rightarrow> unmarshalled (''*'' @ pkg @ ''.PrivateKey'') (newError ''key is not a valid ML-DSA private key'' ErrInvalidKeyType [])
           (UnmarshalBinaryPrivateKey X pkg (snd block))))"

definition ParseMLDSAPublicKeyFromPEM :: "x509 \<Rightarrow> string \<Rightarrow> string \<Rightarrow> (err, key) result" where
  "ParseMLDSAPublicKeyFromPEM X alg key = (case pem_Decode X key of None \<Rightarrow> Inl ErrKeyMustBePEMEncoded
     | Some block \<Rightarrow> (case mldsa_pkg alg of None \<Rightarrow> Inl ErrInvalidKeyType
       | Some pkg \<Rightarrow> unmarshalled (''*'' @ pkg @ ''.PublicKey'') (newError ''key is not a valid ML-DSA public key'' ErrInvalidKeyType [])
           (UnmarshalBinaryPublicKey X pkg (snd block))))"

definition ParseSLHDSAPrivateKeyFromPEM :: "x509 \<Rightarrow> string \<Rightarrow> string \<Rightarrow> (err, key) result" where
  "ParseSLHDSAPrivateKeyFromPEM X alg key = (case pem_Decode X key of None \<Rightarrow> Inl ErrKeyMustBePEMEncoded
     | Some block \<Rightarrow> if alg \<in> set slhdsa_names
         then unmarshalled ''slhdsa.PrivateKey'' (newError ''key is not a valid SLH-DSA private key'' ErrInvalidKeyType [])
           (UnmarshalBinaryPrivateKey X alg (snd block))
         else Inl ErrInvalidKeyType)"

definition ParseSLHDSAPublicKeyFromPEM :: "x509 \<Rightarrow> string \<Rightarrow> string \<Rightarrow> (err, key) result" where
  "ParseSLHDSAPublicKeyFromPEM X alg key = (case pem_Decode X key of None \<Rightarrow> Inl ErrKeyMustBePEMEncoded
     | Some block \<Rightarrow> if alg \<in> set slhdsa_names
         then unmarshalled ''slhdsa.PublicKey'' (newError ''key is not a valid SLH-DSA public key'' ErrInvalidKeyType [])
           (UnmarshalBinaryPublicKey X alg (snd block))
         else Inl ErrInvalidKeyType)"

section \<open>Loader\<close>

text \<open>The file system, and the wrapping of errors with \<^verbatim>\<open>%w\<close>, of which only the text is kept.\<close>

record files = x509 +
  Join :: "string \<Rightarrow> string \<Rightarrow> string"
  os_ReadFile :: "string \<Rightarrow> (err, string) result"

definition wrap :: "string \<Rightarrow> (err, 'a) result \<Rightarrow> (err, 'a) result" where
  "wrap text r = map_sum (\<lambda>e. ErrText (text @ '': '' @ Error e)) id r"

lemma wrap_Inr [simp]: "wrap text r = Inr a \<longleftrightarrow> r = Inr a"
  by (cases r) (simp_all add: wrap_def)

definition readFile :: "files \<Rightarrow> string \<Rightarrow> (err, string) result" where
  "readFile F path = wrap (''read '' @ path) (os_ReadFile F path)"

text \<open>The sequence all loaders have: read the file of the public key and parse it; then, in sign mode, the same
  for the private key. \<open>bind\<close> returns at the first error.\<close>

fun bind_err :: "('e, 'a) result \<Rightarrow> ('a \<Rightarrow> ('e, 'b) result) \<Rightarrow> ('e, 'b) result" where
  "bind_err (Inl e) f = Inl e"
| "bind_err (Inr a) f = f a"

definition load_pair :: "files \<Rightarrow> string \<Rightarrow> SigningMethod option \<Rightarrow> string \<Rightarrow> (string \<Rightarrow> (err, key) result) \<Rightarrow>
    string \<Rightarrow> (string \<Rightarrow> (err, key) result) \<Rightarrow> bool \<Rightarrow> (err, AlgConfig) result" where
  "load_pair F keysDir meth vkFile parseVk skFile parseSk signMode =
     bind_err (readFile F (Join F keysDir vkFile)) (\<lambda>vkBytes.
     bind_err (parseVk vkBytes) (\<lambda>vk.
     let cfg = \<lparr>cfg_Method = meth, SignKey = KNil, VerifyKey = vk\<rparr> in
     if signMode then
       bind_err (readFile F (Join F keysDir skFile)) (\<lambda>skBytes.
       bind_err (parseSk skBytes) (\<lambda>sk. Inr (cfg\<lparr>SignKey := sk\<rparr>)))
     else Inr cfg))"

definition as_bytes :: "(err, string) result \<Rightarrow> (err, key) result" where
  "as_bytes r = map_sum id KBytes r"

definition loadFNDSAOriginal :: "('a) pk_crypto_scheme \<Rightarrow> files \<Rightarrow> string \<Rightarrow> string \<Rightarrow> bool \<Rightarrow> (err, AlgConfig) result" where
  "loadFNDSAOriginal C F keysDir alg signMode =
     load_pair F keysDir (Some (SigningMethodFNDSA (crypto.truncate C) AlgFNDSA512))
       ''FNDSA-512_pk.pem'' (as_bytes \<circ> ParseFNDSAPublicKeyFromPEM (x509.truncate F))
       ''FNDSA-512_sk.pem'' (as_bytes \<circ> ParseFNDSAPrivateKeyFromPEM (x509.truncate F)) signMode"

definition loadFNDSAPrecomputed :: "('a) pk_crypto_scheme \<Rightarrow> files \<Rightarrow> string \<Rightarrow> string \<Rightarrow> bool \<Rightarrow> (err, AlgConfig) result" where
  "loadFNDSAPrecomputed C F keysDir alg signMode = (let method = SigningMethodFNDSAPrecomputed (crypto.truncate C) AlgFNDSA512 in
     bind_err (readFile F (Join F keysDir ''FNDSA-512_pk.pem'')) (\<lambda>vkBytes.
     bind_err (ParseFNDSAPublicKeyFromPEM (x509.truncate F) vkBytes) (\<lambda>vk.
     if signMode then
       bind_err (readFile F (Join F keysDir ''FNDSA-512_sk.pem'')) (\<lambda>skBytes.
       bind_err (ParseFNDSAPrivateKeyFromPEM (x509.truncate F) skBytes) (\<lambda>sk.
       bind_err (wrap ''precomputed signer'' (NewPrecomputedSigner C sk)) (\<lambda>signer.
       Inr \<lparr>cfg_Method = Some (method (Some signer)), SignKey = KNil, VerifyKey = KBytes vk\<rparr>)))
     else Inr \<lparr>cfg_Method = Some (method None), SignKey = KNil, VerifyKey = KBytes vk\<rparr>)))"

definition loadMLDSA :: "('a) pk_crypto_scheme \<Rightarrow> files \<Rightarrow> string \<Rightarrow> string \<Rightarrow> bool \<Rightarrow> (err, AlgConfig) result" where
  "loadMLDSA C F keysDir alg signMode =
     load_pair F keysDir (if mldsa_pkg alg = None then None else Some (SigningMethodMLDSA C alg))
       (alg @ ''_pk.pem'') (ParseMLDSAPublicKeyFromPEM (x509.truncate F) alg)
       (alg @ ''_sk.pem'') (ParseMLDSAPrivateKeyFromPEM (x509.truncate F) alg) signMode"

definition loadSLHDSA :: "('a) pk_crypto_scheme \<Rightarrow> files \<Rightarrow> string \<Rightarrow> string \<Rightarrow> bool \<Rightarrow> (err, AlgConfig) result" where
  "loadSLHDSA C F keysDir alg signMode =
     (if alg \<in> {''SLH-DSA-SHA2-128f'', ''SLH-DSA-SHA2-128s'', ''SLH-DSA-SHAKE-128f'', ''SLH-DSA-SHAKE-128s''}
      then load_pair F keysDir (Some (SigningMethodSLHDSA C alg))
       (alg @ ''_pk.pem'') (ParseSLHDSAPublicKeyFromPEM (x509.truncate F) alg)
       (alg @ ''_sk.pem'') (ParseSLHDSAPrivateKeyFromPEM (x509.truncate F) alg) signMode
      else Inl (ErrText (''unsupported SLH-DSA variant: '' @ alg)))"

definition loadECDSA :: "('a) pk_crypto_scheme \<Rightarrow> files \<Rightarrow> string \<Rightarrow> string \<Rightarrow> bool \<Rightarrow> (err, AlgConfig) result" where
  "loadECDSA C F keysDir alg signMode =
     load_pair F keysDir (Some (SigningMethodECDSA C ''ES256'' ''SHA256'' 32 256))
       ''ES256_pk.pem'' (ParseECPublicKeyFromPEM (x509.truncate F))
       ''ES256_sk.pem'' (ParseECPrivateKeyFromPEM (x509.truncate F)) signMode"

definition loadRSA :: "('a) pk_crypto_scheme \<Rightarrow> files \<Rightarrow> string \<Rightarrow> string \<Rightarrow> bool \<Rightarrow> (err, AlgConfig) result" where
  "loadRSA C F keysDir alg signMode =
     load_pair F keysDir (Some (SigningMethodRSA C ''RS256'' ''SHA256''))
       ''RS256_pk.pem'' (ParseRSAPublicKeyFromPEM (x509.truncate F))
       ''RS256_sk.pem'' (ParseRSAPrivateKeyFromPEM (x509.truncate F)) signMode"

definition loadHMAC :: "('a) pk_crypto_scheme \<Rightarrow> files \<Rightarrow> string \<Rightarrow> string \<Rightarrow> bool \<Rightarrow> (err, AlgConfig) result" where
  "loadHMAC C F keysDir alg signMode =
     bind_err (readFile F (Join F keysDir ''HS256_secret.pem'')) (\<lambda>secretBytes.
     bind_err (ParseFNDSAPrivateKeyFromPEM (x509.truncate F) secretBytes) (\<lambda>secret.
     Inr \<lparr>cfg_Method = Some (SigningMethodHMAC (crypto.truncate C) ''HS256'' ''SHA256''),
       SignKey = (if signMode then KBytes secret else KNil), VerifyKey = KBytes secret\<rparr>))"

definition loadEdDSA :: "('a) pk_crypto_scheme \<Rightarrow> files \<Rightarrow> string \<Rightarrow> string \<Rightarrow> bool \<Rightarrow> (err, AlgConfig) result" where
  "loadEdDSA C F keysDir alg signMode =
     load_pair F keysDir (Some (SigningMethodEdDSA C))
       ''EdDSA_pk.pem'' (ParseEdPublicKeyFromPEM (x509.truncate F))
       ''EdDSA_sk.pem'' (ParseEdPrivateKeyFromPEM (x509.truncate F)) signMode"

definition LoadAlgConfig :: "('a) pk_crypto_scheme \<Rightarrow> files \<Rightarrow> string \<Rightarrow> string \<Rightarrow> bool \<Rightarrow> (err, AlgConfig) result" where
  "LoadAlgConfig C F keysDir alg signMode =
     (if alg \<in> {''FN-DSA-512'', ''Falcon-512''} then loadFNDSAOriginal C F keysDir alg signMode
      else if alg \<in> {''FN-DSA-Precomputed-512'', ''Falcon-Precomputed-512''} then loadFNDSAPrecomputed C F keysDir alg signMode
      else if alg \<in> {''ML-DSA-44'', ''ML-DSA-65'', ''ML-DSA-87''} then loadMLDSA C F keysDir alg signMode
      else if alg \<in> {''SLH-DSA-SHA2-128f'', ''SLH-DSA-SHA2-128s'', ''SLH-DSA-SHAKE-128f'', ''SLH-DSA-SHAKE-128s''}
        then loadSLHDSA C F keysDir alg signMode
      else if alg = ''ES256'' then loadECDSA C F keysDir alg signMode
      else if alg = ''RS256'' then loadRSA C F keysDir alg signMode
      else if alg = ''HS256'' then loadHMAC C F keysDir alg signMode
      else if alg = ''EdDSA'' then loadEdDSA C F keysDir alg signMode
      else Inl (ErrText (''unsupported algorithm: '' @ alg)))"

text \<open>The loop over the names; the result is the map \<^verbatim>\<open>map[string]*AlgConfig\<close>.\<close>

fun LoadAllAlgConfigs :: "('a) pk_crypto_scheme \<Rightarrow> files \<Rightarrow> string \<Rightarrow> string list \<Rightarrow> bool
    \<Rightarrow> (string \<rightharpoonup> AlgConfig option) \<Rightarrow> (err, string \<rightharpoonup> AlgConfig option) result" where
  "LoadAllAlgConfigs C F keysDir [] signMode configs = Inr configs"
| "LoadAllAlgConfigs C F keysDir (alg # algs) signMode configs = bind_err (wrap (''loading '' @ alg) (LoadAlgConfig C F keysDir alg signMode)) (\<lambda>cfg.
     LoadAllAlgConfigs C F keysDir algs signMode (configs(alg \<mapsto> Some cfg)))"

text \<open>The list of the entries of a map in the order of one iteration.\<close>

definition iterates :: "(string \<rightharpoonup> AlgConfig option) \<Rightarrow> configs \<Rightarrow> bool" where
  "iterates m cs \<longleftrightarrow> distinct (map fst cs) \<and> map_of cs = m"


section \<open>What is loaded\<close>

lemma bind_err_Inr [simp]: "bind_err r f = Inr b \<longleftrightarrow> (\<exists>a. r = Inr a \<and> f a = Inr b)"
  by (cases r) simp_all

lemma load_pair_Inr:
  "load_pair F d meth vf pv sf ps sm = Inr cfg \<Longrightarrow>
    cfg_Method cfg = meth \<and> (\<exists>b. readFile F (Join F d vf) = Inr b \<and> pv b = Inr (VerifyKey cfg)) \<and> (\<not> sm \<longrightarrow> SignKey cfg = KNil)"
  by (auto simp: load_pair_def Let_def split: if_splits)

text \<open>The file of the verification key and its reader, by the algorithm of the header.\<close>

definition verify_key :: "files \<Rightarrow> string \<Rightarrow> string \<Rightarrow> (err, key) result" where
  "verify_key F d h = (let X = x509.truncate F in
     if h = ''HS256'' then bind_err (readFile F (Join F d ''HS256_secret.pem'')) (as_bytes \<circ> ParseFNDSAPrivateKeyFromPEM X)
     else bind_err (readFile F (Join F d ((if h = AlgFNDSA512 then ''FNDSA-512'' else h) @ ''_pk.pem'')))
       (if h = AlgFNDSA512 then as_bytes \<circ> ParseFNDSAPublicKeyFromPEM X
        else if h = ''ES256'' then ParseECPublicKeyFromPEM X else if h = ''RS256'' then ParseRSAPublicKeyFromPEM X
        else if h = ''EdDSA'' then ParseEdPublicKeyFromPEM X
        else if h \<in> {''ML-DSA-44'', ''ML-DSA-65'', ''ML-DSA-87''} then ParseMLDSAPublicKeyFromPEM X h
        else ParseSLHDSAPublicKeyFromPEM X h))"

lemma as_bytes_Inr [simp]: "as_bytes r = Inr k \<longleftrightarrow> (\<exists>b. r = Inr b \<and> k = KBytes b)"
  by (cases r) (auto simp: as_bytes_def)

lemma parsed_type:
  "ParseECPublicKeyFromPEM X b = Inr k \<Longrightarrow> key_type k = ''*ecdsa.PublicKey''"
  "ParseRSAPublicKeyFromPEM X b = Inr k \<Longrightarrow> key_type k = ''*rsa.PublicKey''"
  "ParseEdPublicKeyFromPEM X b = Inr k \<Longrightarrow> key_type k = ''ed25519.PublicKey''"
  "ParseMLDSAPublicKeyFromPEM X a b = Inr k \<Longrightarrow> key_type k = ''*'' @ the (mldsa_pkg a) @ ''.PublicKey''"
  "ParseSLHDSAPublicKeyFromPEM X a b = Inr k \<Longrightarrow> key_type k = ''slhdsa.PublicKey'' \<and> a \<in> set slhdsa_names"
  by (auto simp: ParseECPublicKeyFromPEM_def ParseRSAPublicKeyFromPEM_def ParseEdPublicKeyFromPEM_def ParseMLDSAPublicKeyFromPEM_def
      ParseSLHDSAPublicKeyFromPEM_def asserted_def unmarshalled_def split: option.splits sum.splits if_splits)

lemma verify_key_simps:
  "verify_key F d AlgFNDSA512 = bind_err (readFile F (Join F d ''FNDSA-512_pk.pem'')) (as_bytes \<circ> ParseFNDSAPublicKeyFromPEM (x509.truncate F))"
  "verify_key F d ''HS256'' = bind_err (readFile F (Join F d ''HS256_secret.pem'')) (as_bytes \<circ> ParseFNDSAPrivateKeyFromPEM (x509.truncate F))"
  "verify_key F d ''ES256'' = bind_err (readFile F (Join F d ''ES256_pk.pem'')) (ParseECPublicKeyFromPEM (x509.truncate F))"
  "verify_key F d ''RS256'' = bind_err (readFile F (Join F d ''RS256_pk.pem'')) (ParseRSAPublicKeyFromPEM (x509.truncate F))"
  "verify_key F d ''EdDSA'' = bind_err (readFile F (Join F d ''EdDSA_pk.pem'')) (ParseEdPublicKeyFromPEM (x509.truncate F))"
  by (simp_all add: verify_key_def AlgFNDSA512_def Let_def)

lemma verify_key_ML:
  assumes "alg \<in> {''ML-DSA-44'', ''ML-DSA-65'', ''ML-DSA-87''}"
  shows "verify_key F d alg = bind_err (readFile F (Join F d (alg @ ''_pk.pem''))) (ParseMLDSAPublicKeyFromPEM (x509.truncate F) alg)"
    "mldsa_pkg alg \<noteq> None" "verify_type alg = ''*'' @ the (mldsa_pkg alg) @ ''.PublicKey''" "SigningMethodMLDSA C alg \<in> set (all_methods C)"
proof -
  have d: "alg \<noteq> ''HS256''" "alg \<noteq> AlgFNDSA512" "alg \<noteq> ''ES256''" "alg \<noteq> ''RS256''" "alg \<noteq> ''EdDSA''"
    using assms by (auto simp: AlgFNDSA512_def)
  show "verify_key F d alg = bind_err (readFile F (Join F d (alg @ ''_pk.pem''))) (ParseMLDSAPublicKeyFromPEM (x509.truncate F) alg)"
    using d assms unfolding verify_key_def Let_def by (simp only: if_True if_False)
  show "mldsa_pkg alg \<noteq> None" using assms by (auto simp: mldsa_pkg_def)
  show "verify_type alg = ''*'' @ the (mldsa_pkg alg) @ ''.PublicKey''"
    using assms verify_types(5-7) unfolding insert_iff empty_iff by (elim disjE) (hypsubst, assumption | erule FalseE)+
  show "SigningMethodMLDSA C alg \<in> set (all_methods C)"
    using assms unfolding all_methods_def pk_methods_def mldsa_methods_def by auto
qed

lemma verify_key_SLH:
  assumes "alg \<in> {''SLH-DSA-SHA2-128f'', ''SLH-DSA-SHA2-128s'', ''SLH-DSA-SHAKE-128f'', ''SLH-DSA-SHAKE-128s''}"
  shows "verify_key F d alg = bind_err (readFile F (Join F d (alg @ ''_pk.pem''))) (ParseSLHDSAPublicKeyFromPEM (x509.truncate F) alg)"
    "alg \<in> set slhdsa_names" "SigningMethodSLHDSA C alg \<in> set (all_methods C)"
proof -
  have d: "alg \<noteq> ''HS256''" "alg \<noteq> AlgFNDSA512" "alg \<noteq> ''ES256''" "alg \<noteq> ''RS256''" "alg \<noteq> ''EdDSA''"
    "alg \<notin> {''ML-DSA-44'', ''ML-DSA-65'', ''ML-DSA-87''}"
    using assms by (auto simp: AlgFNDSA512_def)
  show "verify_key F d alg = bind_err (readFile F (Join F d (alg @ ''_pk.pem''))) (ParseSLHDSAPublicKeyFromPEM (x509.truncate F) alg)"
    using d unfolding verify_key_def Let_def by (simp only: if_False)
  show n: "alg \<in> set slhdsa_names" using assms by (auto simp: slhdsa_names_def)
  then show "SigningMethodSLHDSA C alg \<in> set (all_methods C)"
    unfolding all_methods_def pk_methods_def slhdsa_methods_def by simp
qed

text \<open>What a loaded configuration is.\<close>

definition good_config :: "('a) pk_crypto_scheme \<Rightarrow> files \<Rightarrow> string \<Rightarrow> string \<Rightarrow> bool \<Rightarrow> AlgConfig \<Rightarrow> bool" where
  "good_config C F d alg sm cfg \<longleftrightarrow>
     (\<exists>meth. cfg_Method cfg = Some meth \<and> Alg meth = HeaderAlgForConfigAlg alg \<and>
       full_registry C (Alg meth) \<noteq> None \<and> key_type (VerifyKey cfg) = verify_type (Alg meth) \<and>
       (\<not> sm \<longrightarrow> (\<forall>rnd msg. \<exists>e. Sign_m meth rnd msg (SignKey cfg) = Inl e))) \<and>
     verify_key F d (HeaderAlgForConfigAlg alg) = Inr (VerifyKey cfg) \<and> (\<not> sm \<longrightarrow> SignKey cfg = KNil)"

text \<open>Every method of the loader refuses to sign with a nil key; the precomputed one if no signer was put into it.\<close>

lemma no_key_no_signature:
  "\<exists>e. Sign_m (SigningMethodFNDSA D a) rnd msg KNil = Inl e"
  "\<exists>e. Sign_m (SigningMethodHMAC D a hash) rnd msg KNil = Inl e"
  "\<exists>e. Sign_m (SigningMethodECDSA C a hash n bits) rnd msg KNil = Inl e"
  "\<exists>e. Sign_m (SigningMethodRSA C a hash) rnd msg KNil = Inl e"
  "\<exists>e. Sign_m (SigningMethodEdDSA C) rnd msg KNil = Inl e"
  "\<exists>e. Sign_m (SigningMethodMLDSA C a) rnd msg KNil = Inl e"
  "\<exists>e. Sign_m (SigningMethodSLHDSA C a) rnd msg KNil = Inl e"
  "\<exists>e. Sign_m (SigningMethodFNDSAPrecomputed D a None) rnd msg KNil = Inl e"
  by (auto simp: SigningMethodFNDSA_def SigningMethodFNDSA_Sign_def SigningMethodHMAC_def hmac_Sign_def SigningMethodECDSA_def
      SigningMethodECDSA_Sign_def SigningMethodRSA_def SigningMethodRSA_Sign_def SigningMethodEdDSA_def SigningMethodEd25519_Sign_def
      SigningMethodMLDSA_def SigningMethodMLDSA_Sign_def SigningMethodSLHDSA_def SigningMethodSLHDSA_Sign_def
      SigningMethodFNDSAPrecomputed_def SigningMethodFNDSAPrecomputed_Sign_def signerForKey_def assert_type_def
      split: option.split sum.split)

lemma good_configI:
  assumes "load_pair F d (Some meth) vf pv sf ps sm = Inr cfg" "meth \<in> set (all_methods C)" "Alg meth = a" "HeaderAlgForConfigAlg alg = a"
    "verify_key F d a = bind_err (readFile F (Join F d vf)) pv" "\<And>b k. pv b = Inr k \<Longrightarrow> key_type k = verify_type a"
    and "\<And>rnd msg. \<exists>e. Sign_m meth rnd msg KNil = Inl e"
  shows "good_config C F d alg sm cfg"
  using load_pair_Inr [OF assms(1)] assms(3-7) full_registry_own [OF assms(2)]
  by (auto simp: good_config_def)

lemma header_alg_simps:
  "alg \<in> {''FN-DSA-512'', ''Falcon-512'', ''FN-DSA-Precomputed-512'', ''Falcon-Precomputed-512''} \<Longrightarrow> HeaderAlgForConfigAlg alg = AlgFNDSA512"
  "alg \<in> {''ML-DSA-44'', ''ML-DSA-65'', ''ML-DSA-87''} \<Longrightarrow> HeaderAlgForConfigAlg alg = alg"
  "alg \<in> {''SLH-DSA-SHA2-128f'', ''SLH-DSA-SHA2-128s'', ''SLH-DSA-SHAKE-128f'', ''SLH-DSA-SHAKE-128s''} \<Longrightarrow> HeaderAlgForConfigAlg alg = alg"
  "alg \<in> {''ES256'', ''RS256'', ''HS256'', ''EdDSA''} \<Longrightarrow> HeaderAlgForConfigAlg alg = alg"
  unfolding HeaderAlgForConfigAlg_def by auto

lemma in_all_methods:
  "SigningMethodFNDSA (crypto.truncate C) AlgFNDSA512 \<in> set (all_methods C)"
  "SigningMethodHMAC (crypto.truncate C) ''HS256'' ''SHA256'' \<in> set (all_methods C)"
  "SigningMethodECDSA C ''ES256'' ''SHA256'' 32 256 \<in> set (all_methods C)"
  "SigningMethodRSA C ''RS256'' ''SHA256'' \<in> set (all_methods C)" "SigningMethodEdDSA C \<in> set (all_methods C)"
  unfolding all_methods_def pk_methods_def ecdsa_methods_def rsa_methods_def Let_def set_append set_simps by blast+

lemma good_precomputed:
  assumes "alg \<in> {''FN-DSA-Precomputed-512'', ''Falcon-Precomputed-512''}" "loadFNDSAPrecomputed C F d alg sm = Inr cfg"
  shows "good_config C F d alg sm cfg"
proof -
  have h: "HeaderAlgForConfigAlg alg = AlgFNDSA512" using assms(1) by (intro header_alg_simps) blast
  note r = full_registry_own [OF in_all_methods(1), unfolded Alg_simps]
  obtain b vk signer where s: "readFile F (Join F d ''FNDSA-512_pk.pem'') = Inr b" "ParseFNDSAPublicKeyFromPEM (x509.truncate F) b = Inr vk"
    "VerifyKey cfg = KBytes vk" "SignKey cfg = KNil" "cfg_Method cfg = Some (SigningMethodFNDSAPrecomputed (crypto.truncate C) AlgFNDSA512 signer)" "\<not> sm \<Longrightarrow> signer = None"
    using assms(2) by (cases sm) (auto simp: loadFNDSAPrecomputed_def Let_def)
  then show ?thesis using no_key_no_signature(8) by (auto simp: good_config_def h Alg_simps r verify_types verify_key_simps)
qed

lemma LoadAlgConfig_good:
  assumes "LoadAlgConfig C F d alg sm = Inr cfg"
  shows "good_config C F d alg sm cfg"
proof -
  from assms consider "alg \<in> {''FN-DSA-512'', ''Falcon-512''}" "loadFNDSAOriginal C F d alg sm = Inr cfg"
    | "alg \<in> {''FN-DSA-Precomputed-512'', ''Falcon-Precomputed-512''}" "loadFNDSAPrecomputed C F d alg sm = Inr cfg"
    | "alg \<in> {''ML-DSA-44'', ''ML-DSA-65'', ''ML-DSA-87''}" "loadMLDSA C F d alg sm = Inr cfg"
    | "alg \<in> {''SLH-DSA-SHA2-128f'', ''SLH-DSA-SHA2-128s'', ''SLH-DSA-SHAKE-128f'', ''SLH-DSA-SHAKE-128s''}" "loadSLHDSA C F d alg sm = Inr cfg"
    | "alg = ''ES256''" "loadECDSA C F d alg sm = Inr cfg" | "alg = ''RS256''" "loadRSA C F d alg sm = Inr cfg"
    | "alg = ''HS256''" "loadHMAC C F d alg sm = Inr cfg" | "alg = ''EdDSA''" "loadEdDSA C F d alg sm = Inr cfg"
    unfolding LoadAlgConfig_def by (simp only: sum.distinct split: if_split_asm)
  then show ?thesis
  proof cases
    case 1
    have h: "HeaderAlgForConfigAlg alg = AlgFNDSA512" using 1(1) by (intro header_alg_simps) blast
    show ?thesis
      by (rule good_configI [OF 1(2) [unfolded loadFNDSAOriginal_def] in_all_methods(1) Alg_simps(9) h verify_key_simps(1)])
        (auto simp: verify_types, rule no_key_no_signature(1))
  next
    case 2
    then show ?thesis by (rule good_precomputed)
  next
    case 3
    note v = verify_key_ML [OF 3(1)]
    have "load_pair F d (Some (SigningMethodMLDSA C alg)) (alg @ ''_pk.pem'') (ParseMLDSAPublicKeyFromPEM (x509.truncate F) alg)
       (alg @ ''_sk.pem'') (ParseMLDSAPrivateKeyFromPEM (x509.truncate F) alg) sm = Inr cfg"
      using 3(2) v(2) by (simp only: loadMLDSA_def if_False)
    then show ?thesis
      by (rule good_configI [OF _ v(4) Alg_simps(3) header_alg_simps(2) [OF 3(1)] v(1)]) (simp add: v(3) parsed_type(4), rule no_key_no_signature(6))
  next
    case 4
    note v = verify_key_SLH [OF 4(1)]
    have "load_pair F d (Some (SigningMethodSLHDSA C alg)) (alg @ ''_pk.pem'') (ParseSLHDSAPublicKeyFromPEM (x509.truncate F) alg)
       (alg @ ''_sk.pem'') (ParseSLHDSAPrivateKeyFromPEM (x509.truncate F) alg) sm = Inr cfg"
      using 4 by (simp only: loadSLHDSA_def if_True)
    then show ?thesis
      by (rule good_configI [OF _ v(3) Alg_simps(6) header_alg_simps(3) [OF 4(1)] v(1)]) (simp add: verify_types(14) [OF v(2)] parsed_type(5), rule no_key_no_signature(7))
  next
    case 5
    have h: "HeaderAlgForConfigAlg alg = ''ES256''" using header_alg_simps(4) [of alg] 5(1) by blast
    show ?thesis
      by (rule good_configI [OF 5(2) [unfolded loadECDSA_def] in_all_methods(3) Alg_simps(1) h verify_key_simps(3)])
        (simp add: verify_types(1) parsed_type(1), rule no_key_no_signature(3))
  next
    case 6
    have h: "HeaderAlgForConfigAlg alg = ''RS256''" using header_alg_simps(4) [of alg] 6(1) by blast
    show ?thesis
      by (rule good_configI [OF 6(2) [unfolded loadRSA_def] in_all_methods(4) Alg_simps(4) h verify_key_simps(4)])
        (simp add: verify_types(8) parsed_type(2), rule no_key_no_signature(4))
  next
    case 7
    have h: "HeaderAlgForConfigAlg alg = ''HS256''" using header_alg_simps(4) [of alg] 7(1) by blast
    note r = full_registry_own [OF in_all_methods(2), unfolded Alg_simps]
    from 7(2) show ?thesis
      using no_key_no_signature(2) by (auto simp: loadHMAC_def good_config_def h r Alg_simps verify_types verify_key_simps)
  next
    case 8
    have h: "HeaderAlgForConfigAlg alg = ''EdDSA''" using header_alg_simps(4) [of alg] 8(1) by blast
    show ?thesis
      by (rule good_configI [OF 8(2) [unfolded loadEdDSA_def] in_all_methods(5) Alg_simps(2) h verify_key_simps(5)])
        (simp add: verify_types(4) parsed_type(3), rule no_key_no_signature(5))
  qed
qed


lemma LoadAll_Inr:
  "LoadAllAlgConfigs C F d algs sm m0 = Inr m \<Longrightarrow>
    (if a \<in> set algs then \<exists>cfg. m a = Some (Some cfg) \<and> LoadAlgConfig C F d a sm = Inr cfg else m a = m0 a)"
proof (induction algs arbitrary: m0)
  case (Cons b algs)
  then obtain cfg where c: "LoadAlgConfig C F d b sm = Inr cfg" "LoadAllAlgConfigs C F d algs sm (m0(b \<mapsto> Some cfg)) = Inr m"
    by auto
  from Cons.IH [OF c(2)] c(1) show ?case by (cases "a \<in> set algs") auto
qed simp

lemma loaded_entries:
  assumes "LoadAllAlgConfigs C F d algs sm Map.empty = Inr m" "iterates m cs"
  shows "(n, co) \<in> set cs \<longleftrightarrow> n \<in> set algs \<and> (\<exists>cfg. co = Some cfg \<and> LoadAlgConfig C F d n sm = Inr cfg)"
proof -
  have "(n, co) \<in> set cs \<longleftrightarrow> m n = Some co" using assms(2) by (auto simp: iterates_def)
  then show ?thesis using LoadAll_Inr [OF assms(1), of n] by (auto split: if_splits)
qed

lemma configForHeaderAlg_found:
  assumes "\<forall>(n, co) \<in> set cs. \<exists>cfg meth. co = Some cfg \<and> cfg_Method cfg = Some meth"
    "(n, Some cfg) \<in> set cs" "cfg_Method cfg = Some meth" "Alg meth = h"
  shows "\<exists>n cfg meth. configForHeaderAlg cs h = Some (Some cfg) \<and> (n, Some cfg) \<in> set cs \<and> cfg_Method cfg = Some meth \<and> Alg meth = h"
  using assms
proof (induction cs h rule: configForHeaderAlg.induct)
  case (3 n' cfg' cs h)
  obtain m' where m': "cfg_Method cfg' = Some m'" using "3.prems"(1) by auto
  show ?case
  proof (cases "Alg m' = h")
    case True
    then show ?thesis using m' by auto
  next
    case False
    then have "(n, Some cfg) \<in> set cs" using "3.prems" m' by auto
    from "3.IH" [OF m' False _ this "3.prems"(3,4)] "3.prems"(1) False m' show ?thesis by auto
  qed
qed auto

lemma loaded_header:
  assumes "LoadAllAlgConfigs C F d algs sm Map.empty = Inr m" "iterates m cs"
    "a \<in> set algs" "HeaderAlgForConfigAlg a = h"
  shows "\<exists>n cfg. configForHeaderAlg cs h = Some (Some cfg) \<and> n \<in> set algs \<and> HeaderAlgForConfigAlg n = h \<and> good_config C F d n sm cfg"
proof -
  note e = loaded_entries [OF assms(1,2)]
  have all: "\<forall>(n, co) \<in> set cs. \<exists>cfg meth. co = Some cfg \<and> cfg_Method cfg = Some meth"
    using e LoadAlgConfig_good by (fastforce simp: good_config_def)
  obtain cfg where cfg: "(a, Some cfg) \<in> set cs" "LoadAlgConfig C F d a sm = Inr cfg"
    using assms(3) LoadAll_Inr [OF assms(1), of a] e by auto
  obtain meth where "cfg_Method cfg = Some meth" "Alg meth = h"
    using LoadAlgConfig_good [OF cfg(2)] assms(4) by (auto simp: good_config_def)
  from configForHeaderAlg_found [OF all cfg(1) this] obtain n cfg' meth' where
    c: "configForHeaderAlg cs h = Some (Some cfg')" "(n, Some cfg') \<in> set cs" "cfg_Method cfg' = Some meth'" "Alg meth' = h" by blast
  then have n: "n \<in> set algs" "LoadAlgConfig C F d n sm = Inr cfg'" using e by auto
  from LoadAlgConfig_good [OF n(2)] have g: "good_config C F d n sm cfg'" .
  then show ?thesis using c n by (auto simp: good_config_def)
qed

section \<open>Properties\<close>

text \<open>C17: a signer and a verifier loaded from one directory fit together, in whatever order their maps
  are visited. For each algorithm the signer was asked to load, and whose header algorithm the verifier
  serves: the signer finds exactly that algorithm's configuration; the verifier finds, without a panic, a
  configuration for the header the signer writes; both hold the same verification key, of the type the
  header's method demands; the method is registered; and the configuration of the verifier cannot sign:
  it has no signing key and its method, with no precomputed signer in it, answers every request to sign
  with an error. (Under \<^verbatim>\<open>HS256\<close> the verification key is the shared secret.)\<close>

theorem loaded_configs_agree:
  assumes "LoadAllAlgConfigs C F d algs True Map.empty = Inr m" "iterates m cs"
    and "LoadAllAlgConfigs C F d algs' False Map.empty = Inr m'" "iterates m' cs'"
    and "alg \<in> set algs" "HeaderAlgForConfigAlg alg \<in> HeaderAlgForConfigAlg ` set algs'"
  shows "\<exists>cfg meth cfg'. configForSignAlg cs alg = Some (Some (Some cfg)) \<and> LoadAlgConfig C F d alg True = Inr cfg \<and>
    cfg_Method cfg = Some meth \<and> Alg meth = HeaderAlgForConfigAlg alg \<and> full_registry C (Alg meth) \<noteq> None \<and>
    configForHeaderAlg cs' (Alg meth) = Some (Some cfg') \<and> VerifyKey cfg' = VerifyKey cfg \<and>
    key_type (VerifyKey cfg') = verify_type (Alg meth) \<and> SignKey cfg' = KNil \<and>
    (\<exists>meth'. cfg_Method cfg' = Some meth' \<and> Alg meth' = Alg meth \<and>
      (\<forall>rnd msg. \<exists>e. Sign_m meth' rnd msg (SignKey cfg') = Inl e))"
proof -
  obtain cfg where cfg: "m alg = Some (Some cfg)" "LoadAlgConfig C F d alg True = Inr cfg"
    using LoadAll_Inr [OF assms(1), of alg] assms(5) by auto
  then have s: "configForSignAlg cs alg = Some (Some (Some cfg))" using assms(2) by (simp add: configForSignAlg_def iterates_def)
  note g = LoadAlgConfig_good [OF cfg(2)]
  obtain a where a: "a \<in> set algs'" "HeaderAlgForConfigAlg a = HeaderAlgForConfigAlg alg" using assms(6) by auto
  obtain n cfg' where c: "configForHeaderAlg cs' (HeaderAlgForConfigAlg alg) = Some (Some cfg')"
    "HeaderAlgForConfigAlg n = HeaderAlgForConfigAlg alg" "good_config C F d n False cfg'"
    using loaded_header [OF assms(3,4) a] by blast
  then have v: "VerifyKey cfg' = VerifyKey cfg" "SignKey cfg' = KNil" using g by (simp_all add: good_config_def)
  obtain meth' where "cfg_Method cfg' = Some meth'" "Alg meth' = HeaderAlgForConfigAlg alg" "\<forall>rnd msg. \<exists>e. Sign_m meth' rnd msg (SignKey cfg') = Inl e"
    using c(2,3) by (auto simp: good_config_def)
  with v show ?thesis using s cfg(2) g c(1) by (auto simp: good_config_def)
qed

text \<open>A directory with an FN-DSA key pair, and a precomputed signer that answers its key and the message.\<close>

definition sample_files :: files where
  "sample_files = x509.extend \<lparr>pem_Decode = (\<lambda>k. Some ([], k)), ParsePKIXPublicKey = Inl \<circ> ErrText, ParseCertificate = Inl \<circ> ErrText,
     ParsePKCS1PublicKey = Inl \<circ> ErrText, ParsePKCS1PrivateKey = Inl \<circ> ErrText, ParsePKCS8PrivateKey = Inl \<circ> ErrText,
     ParseECPrivateKey = Inl \<circ> ErrText, DecryptPEMBlock = (\<lambda>b p. Inr (snd b)), UnmarshalBinaryPrivateKey = (\<lambda>s. Inl \<circ> ErrText),
     UnmarshalBinaryPublicKey = (\<lambda>s. Inl \<circ> ErrText)\<rparr>
     (files.fields (\<lambda>d n. d @ ''/'' @ n) (\<lambda>p. if p = ''keys/FNDSA-512_pk.pem'' then Inr ''pk''
        else if p = ''keys/FNDSA-512_sk.pem'' then Inr ''sk'' else Inl (ErrText ''no such file'')))"

definition signer_pk :: pk_crypto where
  "signer_pk = sample_pk\<lparr>NewPrecomputedSigner := (\<lambda>k. Inr (9, k)), signer_Sign := (\<lambda>rnd k msg. Inr (k @ msg))\<rparr>"

abbreviation "pre_alg \<equiv> ''FN-DSA-Precomputed-512''"

definition sample_config :: "bool \<Rightarrow> AlgConfig" where
  "sample_config sm = \<lparr>cfg_Method = Some (SigningMethodFNDSAPrecomputed (crypto.truncate signer_pk) AlgFNDSA512 (if sm then Some (9, ''sk'') else None)),
     SignKey = KNil, VerifyKey = KBytes ''pk''\<rparr>"

lemma sample_load: "LoadAlgConfig signer_pk sample_files ''keys'' pre_alg sm = Inr (sample_config sm)"
  by (simp add: LoadAlgConfig_def loadFNDSAPrecomputed_def sample_files_def readFile_def ParseFNDSAPublicKeyFromPEM_def
      ParseFNDSAPrivateKeyFromPEM_def files.defs x509.defs signer_pk_def sample_config_def wrap_def Let_def)

lemma sample_load_all:
  "LoadAllAlgConfigs signer_pk sample_files ''keys'' [pre_alg] sm Map.empty = Inr [pre_alg \<mapsto> Some (sample_config sm)]"
  by (simp add: sample_load)

lemma sample_iterates: "iterates [pre_alg \<mapsto> Some (sample_config sm)] [(pre_alg, Some (sample_config sm))]"
  by (simp add: iterates_def)

text \<open>The signer signs, the verifier has the same public key and does not.\<close>

theorem loaded_configs_agree_witness:
  "Sign_m (the (cfg_Method (sample_config True))) [] ''msg'' (SignKey (sample_config True)) = Inr ''skmsg'' \<and>
    (\<exists>cfg' meth' e. configForHeaderAlg [(pre_alg, Some (sample_config False))] AlgFNDSA512 = Some (Some cfg') \<and>
      VerifyKey cfg' = KBytes ''pk'' \<and> cfg_Method cfg' = Some meth' \<and> Sign_m meth' [] ''msg'' (SignKey cfg') = Inl e)"
proof
  show "Sign_m (the (cfg_Method (sample_config True))) [] ''msg'' (SignKey (sample_config True)) = Inr ''skmsg''"
    by (simp add: sample_config_def SigningMethodFNDSAPrecomputed_def SigningMethodFNDSAPrecomputed_Sign_def signerForKey_def signer_pk_def
        AlgFNDSA512_def validateSigner_def expectedLogN_def crypto.defs Let_def)
  have h: "HeaderAlgForConfigAlg pre_alg = AlgFNDSA512" by (simp add: HeaderAlgForConfigAlg_def)
  have "pre_alg \<in> set [pre_alg]" "HeaderAlgForConfigAlg pre_alg \<in> HeaderAlgForConfigAlg ` set [pre_alg]" by simp_all
  note agree = loaded_configs_agree [OF sample_load_all sample_iterates sample_load_all sample_iterates this, unfolded h]
  from agree show "\<exists>cfg' meth' e. configForHeaderAlg [(pre_alg, Some (sample_config False))] AlgFNDSA512 = Some (Some cfg') \<and>
      VerifyKey cfg' = KBytes ''pk'' \<and> cfg_Method cfg' = Some meth' \<and> Sign_m meth' [] ''msg'' (SignKey cfg') = Inl e"
  proof (elim exE conjE)
    fix cfg meth cfg' meth'
    assume l: "LoadAlgConfig signer_pk sample_files ''keys'' pre_alg True = Inr cfg" and m: "Alg meth = AlgFNDSA512"
      and c: "configForHeaderAlg [(pre_alg, Some (sample_config False))] (Alg meth) = Some (Some cfg')" and v: "VerifyKey cfg' = VerifyKey cfg"
      and s: "cfg_Method cfg' = Some meth'" "\<forall>rnd msg. \<exists>e. Sign_m meth' rnd msg (SignKey cfg') = Inl e"
    have "cfg = sample_config True" using l sample_load [of True] by simp
    then have "VerifyKey cfg' = KBytes ''pk''" using v by (simp add: sample_config_def)
    with c [unfolded m] s show ?thesis by blast
  qed
qed

end
