(* ===== verification/AuthService.thy ===== *)
theory AuthService
  imports Loader
begin

text \<open>
  The auth service (\<^verbatim>\<open>auth-service/internal\<close>): the user entity and its repository, the user service
  with its transactions and password hashing, sign-in, refresh and verification of tokens, and the two gRPC
  servers. Timings and process statistics, which the service measures and reports beside its answers, are left
  out. The store, \<^verbatim>\<open>bcrypt\<close> and the token utility are arguments; the locale \<open>user_store\<close> is the
  contract of the store.
\<close>

section \<open>Entity and repository\<close>

record User =
  u_Id :: uuid
  u_Name :: string
  u_Email :: string
  u_Password :: string
  u_CreatedAt :: i64
  u_UpdatedAt :: i64

text \<open>The defaults of a created row, with the clock in seconds, and the assignment of the non-zero fields.\<close>

definition user_stamp :: "uuid \<Rightarrow> i64 \<Rightarrow> User \<Rightarrow> User" where
  "user_stamp k now u = u\<lparr>u_Id := (if u_Id u = 0 then k else u_Id u),
     u_CreatedAt := (if u_CreatedAt u = 0 then now else u_CreatedAt u),
     u_UpdatedAt := (if u_UpdatedAt u = 0 then now else u_UpdatedAt u)\<rparr>"

definition user_merge :: "i64 \<Rightarrow> User \<Rightarrow> User \<Rightarrow> User" where
  "user_merge now new old = old\<lparr>
     u_Name := (if u_Name new = [] then u_Name old else u_Name new),
     u_Email := (if u_Email new = [] then u_Email old else u_Email new),
     u_Password := (if u_Password new = [] then u_Password old else u_Password new),
     u_CreatedAt := (if u_CreatedAt new = 0 then u_CreatedAt old else u_CreatedAt new),
     u_UpdatedAt := now\<rparr>"

definition UserRepository_Create :: "('s, User) gorm \<Rightarrow> 's \<Rightarrow> User \<Rightarrow> db_error option \<times> 's" where
  "UserRepository_Create G tx user = CreateRow G tx user"

definition UserRepository_Update :: "('s, User) gorm \<Rightarrow> 's \<Rightarrow> User \<Rightarrow> db_error option \<times> 's" where
  "UserRepository_Update G tx user = Updates G tx (\<lambda>r. u_Id r = u_Id user) user"

definition UserRepository_Delete :: "('s, User) gorm \<Rightarrow> 's \<Rightarrow> User \<Rightarrow> db_error option \<times> 's" where
  "UserRepository_Delete G tx user = DeleteRows G tx (\<lambda>r. u_Id r = u_Id user)"

definition UserRepository_GetById :: "('s, User) gorm \<Rightarrow> 's \<Rightarrow> uuid \<Rightarrow> (db_error, User) result" where
  "UserRepository_GetById G tx i = First G tx (\<lambda>r. u_Id r = i)"

definition UserRepository_GetByEmail :: "('s, User) gorm \<Rightarrow> 's \<Rightarrow> string \<Rightarrow> (db_error, User) result" where
  "UserRepository_GetByEmail G tx email = First G tx (\<lambda>r. u_Email r = email)"

definition UserRepository_GetAll :: "('s, User) gorm \<Rightarrow> 's \<Rightarrow> (db_error, User list) result" where
  "UserRepository_GetAll G tx = Find G tx (\<lambda>r. True)"

section \<open>User service\<close>

text \<open>\<^verbatim>\<open>bcrypt\<close> draws a salt; its documentation: a password matches each hash made of it.\<close>

record bcrypt =
  GenerateFromPassword :: "string \<Rightarrow> string \<Rightarrow> (err, string) result"
  CompareHashAndPassword :: "string \<Rightarrow> string \<Rightarrow> bool"

definition bcrypt_ok :: "bcrypt \<Rightarrow> bool" where
  "bcrypt_ok B \<longleftrightarrow> (\<forall>salt pw h. GenerateFromPassword B salt pw = Inr h \<longrightarrow> CompareHashAndPassword B h pw \<and> h \<noteq> [])"

record CreateUserRequest =
  cu_Name :: string
  cu_Email :: string
  cu_Password :: string

record UpdateUserRequest =
  uu_Id :: string
  uu_Name :: string
  uu_Email :: string
  uu_Password :: string

definition UserService_Create :: "('s, User) gorm \<Rightarrow> bcrypt \<Rightarrow> string \<Rightarrow> 's \<Rightarrow> CreateUserRequest
    \<Rightarrow> (status, unit) result \<times> 's" where
  "UserService_Create G B salt db request = with_tx G db (\<lambda>tx.
     case GenerateFromPassword B salt (cu_Password request) of
       Inl e \<Rightarrow> (Inl (status_Error codes_Internal ''internal server error''), tx)
     | Inr hashedPassword \<Rightarrow>
       let user = \<lparr>u_Id = 0, u_Name = cu_Name request, u_Email = cu_Email request, u_Password = hashedPassword,
             u_CreatedAt = 0, u_UpdatedAt = 0\<rparr>
       in case UserRepository_Create G tx user of
            (Some e, tx) \<Rightarrow> (Inl (status_Error codes_Internal ''failed to create user''), tx)
          | (None, tx) \<Rightarrow> commit_tx G tx)"

definition UserService_Update :: "('s, User) gorm \<Rightarrow> bcrypt \<Rightarrow> 'ts libs \<Rightarrow> string \<Rightarrow> 's \<Rightarrow> UpdateUserRequest
    \<Rightarrow> (status, unit) result \<times> 's" where
  "UserService_Update G B L salt db request = with_tx G db (\<lambda>tx.
     case uuid_Parse L (uu_Id request) of
       None \<Rightarrow> (Inl (status_Error codes_InvalidArgument ''invalid user id''), tx)
     | Some parsedId \<Rightarrow>
     (case UserRepository_GetById G tx parsedId of
       Inl e \<Rightarrow> (Inl (status_Error codes_NotFound ''user not found''), tx)
     | Inr user \<Rightarrow>
       let user = user\<lparr>u_Name := uu_Name request, u_Email := uu_Email request\<rparr>;
           hashed = (if uu_Password request \<noteq> [] then GenerateFromPassword B salt (uu_Password request)
             else Inr (u_Password user))
       in case hashed of
         Inl e \<Rightarrow> (Inl (status_Error codes_Internal ''internal server error''), tx)
       | Inr pw \<Rightarrow> (case UserRepository_Update G tx (user\<lparr>u_Password := pw\<rparr>) of
            (Some e, tx) \<Rightarrow> (Inl (status_Error codes_Internal ''failed to update user''), tx)
          | (None, tx) \<Rightarrow> commit_tx G tx)))"

definition UserService_Delete :: "('s, User) gorm \<Rightarrow> 'ts libs \<Rightarrow> 's \<Rightarrow> string \<Rightarrow> (status, unit) result \<times> 's" where
  "UserService_Delete G L db i = with_tx G db (\<lambda>tx.
     case uuid_Parse L i of
       None \<Rightarrow> (Inl (status_Error codes_InvalidArgument ''invalid user id''), tx)
     | Some parsedId \<Rightarrow>
     (case UserRepository_GetById G tx parsedId of
       Inl e \<Rightarrow> (Inl (status_Error codes_NotFound ''user not found''), tx)
     | Inr user \<Rightarrow> (case UserRepository_Delete G tx user of
          (Some e, tx) \<Rightarrow> (Inl (status_Error codes_Internal ''failed to delete user''), tx)
        | (None, tx) \<Rightarrow> commit_tx G tx)))"

definition UserService_Get :: "('s, User) gorm \<Rightarrow> 'ts libs \<Rightarrow> 's \<Rightarrow> string \<Rightarrow> (status, User) result" where
  "UserService_Get G L db i = (case uuid_Parse L i of
       None \<Rightarrow> Inl (status_Error codes_InvalidArgument ''invalid user id'')
     | Some parsedId \<Rightarrow> (case UserRepository_GetById G db parsedId of
       Inl e \<Rightarrow> Inl (status_Error codes_NotFound ''user not found'')
     | Inr user \<Rightarrow> Inr user))"

definition UserService_GetAll :: "('s, User) gorm \<Rightarrow> 's \<Rightarrow> (status, User list) result" where
  "UserService_GetAll G db = (case UserRepository_GetAll G db of
       Inl e \<Rightarrow> Inl (status_Error codes_Internal ''internal server error'')
     | Inr users \<Rightarrow> Inr users)"

section \<open>User server\<close>

record 'ts UserModel =
  um_Id :: string
  um_Name :: string
  um_Email :: string
  um_Password :: string
  um_CreatedAt :: 'ts
  um_UpdatedAt :: 'ts

text \<open>The message both read methods build; \<^verbatim>\<open>time.UnixMilli\<close> is applied to columns kept in seconds.\<close>

definition user_message :: "'ts libs \<Rightarrow> User \<Rightarrow> 'ts UserModel" where
  "user_message L user = \<lparr>um_Id = uuid_String L (u_Id user), um_Name = u_Name user, um_Email = u_Email user, um_Password = [],
     um_CreatedAt = timestamppb_New L (time_UnixMilli (u_CreatedAt user)),
     um_UpdatedAt = timestamppb_New L (time_UnixMilli (u_UpdatedAt user))\<rparr>"

definition UserServer_Create :: "('s, User) gorm \<Rightarrow> bcrypt \<Rightarrow> string \<Rightarrow> 's \<Rightarrow> CreateUserRequest \<Rightarrow> (status, unit) result \<times> 's" where
  "UserServer_Create G B salt db request = UserService_Create G B salt db request"

definition UserServer_Update :: "('s, User) gorm \<Rightarrow> bcrypt \<Rightarrow> 'ts libs \<Rightarrow> string \<Rightarrow> 's \<Rightarrow> UpdateUserRequest
    \<Rightarrow> (status, unit) result \<times> 's" where
  "UserServer_Update G B L salt db request = UserService_Update G B L salt db request"

definition UserServer_Delete :: "('s, User) gorm \<Rightarrow> 'ts libs \<Rightarrow> 's \<Rightarrow> string \<Rightarrow> (status, unit) result \<times> 's" where
  "UserServer_Delete G L db i = UserService_Delete G L db i"

definition UserServer_Get :: "('s, User) gorm \<Rightarrow> 'ts libs \<Rightarrow> 's \<Rightarrow> string \<Rightarrow> (status, 'ts UserModel) result" where
  "UserServer_Get G L db i = map_sum id (user_message L) (UserService_Get G L db i)"

definition UserServer_GetAll :: "('s, User) gorm \<Rightarrow> 'ts libs \<Rightarrow> 's \<Rightarrow> (status, 'ts UserModel list) result" where
  "UserServer_GetAll G L db = (case UserService_GetAll G db of Inl e \<Rightarrow> Inl e
     | Inr users \<Rightarrow> Inr (fold (\<lambda>user acc. acc @ [user_message L user]) users []))"

datatype user_call =
    CreateUser CreateUserRequest
  | UpdateUser UpdateUserRequest
  | DeleteUser string
  | GetUser string
  | GetAllUsers

datatype 'ts user_reply =
    UserEmpty
  | UserResponse "'ts UserModel"
  | ListUserResponse "'ts UserModel list"

fun user_serve :: "('s, User) gorm \<Rightarrow> bcrypt \<Rightarrow> 'ts libs \<Rightarrow> string \<Rightarrow> user_call \<Rightarrow> 's
    \<Rightarrow> (status, 'ts user_reply) result \<times> 's" where
  "user_serve G B L salt (CreateUser rq) db = apfst (map_sum id (\<lambda>_. UserEmpty)) (UserServer_Create G B salt db rq)"
| "user_serve G B L salt (UpdateUser rq) db = apfst (map_sum id (\<lambda>_. UserEmpty)) (UserServer_Update G B L salt db rq)"
| "user_serve G B L salt (DeleteUser i) db = apfst (map_sum id (\<lambda>_. UserEmpty)) (UserServer_Delete G L db i)"
| "user_serve G B L salt (GetUser i) db = (map_sum id UserResponse (UserServer_Get G L db i), db)"
| "user_serve G B L salt GetAllUsers db = (map_sum id ListUserResponse (UserServer_GetAll G L db), db)"

section \<open>Auth service\<close>

text \<open>The interface \<^verbatim>\<open>JwtUtil\<close>. Each call gets what the world supplies to it; \<^term>\<open>None\<close> is a panic.\<close>

record JwtUtil =
  ju_Sign :: "sign_env \<Rightarrow> JWTPayload \<Rightarrow> (err, string) result option"
  ju_Parse :: "go_time \<Rightarrow> string \<Rightarrow> (err, JWTClaims) result option"

text \<open>The multi-algorithm utility as that interface. The order in which a call visits the map of configurations
  is the run-time's choice: \<open>ord\<close> for signing, \<open>ord1\<close> and \<open>ord2\<close> for the two loops of parsing.\<close>

definition multiAlg_JwtUtil :: "registry \<Rightarrow> 'ts libs \<Rightarrow> (rat option \<Rightarrow> i64) \<Rightarrow> multiAlgJwtUtil \<Rightarrow> (sign_env \<Rightarrow> configs) \<Rightarrow>
    (go_time \<Rightarrow> string \<Rightarrow> configs) \<Rightarrow> (go_time \<Rightarrow> string \<Rightarrow> configs) \<Rightarrow> JwtUtil" where
  "multiAlg_JwtUtil reg L ovf m ord ord1 ord2 = \<lparr>ju_Sign = (\<lambda>E p. multiAlg_Sign L ovf m (ord E) E p),
     ju_Parse = (\<lambda>clock s. multiAlg_Parse reg L ovf m (ord1 clock s) (ord2 clock s) clock s)\<rparr>"

definition signTokenPair :: "JwtUtil \<Rightarrow> sign_env \<times> sign_env \<Rightarrow> User \<Rightarrow> string \<Rightarrow> (err, string \<times> string) result option" where
  "signTokenPair J E user algorithm =
     (let payload = (\<lambda>tokenUse. \<lparr>P_UserID = u_Id user, P_Email = u_Email user, P_Algorithm = algorithm, P_TokenUse = tokenUse\<rparr>) in
      case ju_Sign J (fst E) (payload TokenUseAccess) of
        None \<Rightarrow> None
      | Some (Inl e) \<Rightarrow> Some (Inl (ErrText (''sign access token: '' @ Error e)))
      | Some (Inr accessToken) \<Rightarrow> (case ju_Sign J (snd E) (payload TokenUseRefresh) of
          None \<Rightarrow> None
        | Some (Inl e) \<Rightarrow> Some (Inl (ErrText (''sign refresh token: '' @ Error e)))
        | Some (Inr refreshToken) \<Rightarrow> Some (Inr (accessToken, refreshToken))))"

definition AuthService_SignIn :: "('s, User) gorm \<Rightarrow> bcrypt \<Rightarrow> JwtUtil \<Rightarrow> sign_env \<times> sign_env \<Rightarrow> 's \<Rightarrow> string \<Rightarrow> string \<Rightarrow> string
    \<Rightarrow> (status, string \<times> string) result option" where
  "AuthService_SignIn G B J E db email password algorithm =
     (case UserRepository_GetByEmail G db email of
       Inl e \<Rightarrow> Some (Inl (status_Error codes_Unauthenticated ''invalid email or password''))
     | Inr user \<Rightarrow>
       if \<not> CompareHashAndPassword B (u_Password user) password
       then Some (Inl (status_Error codes_Unauthenticated ''invalid email or password''))
       else (case signTokenPair J E user algorithm of
           None \<Rightarrow> None
         | Some (Inl e) \<Rightarrow> Some (Inl (status_Error codes_Internal ''failed to generate token''))
         | Some (Inr tokens) \<Rightarrow> Some (Inr tokens)))"

definition AuthService_RefreshToken :: "registry \<Rightarrow> (rat option \<Rightarrow> i64) \<Rightarrow> ('s, User) gorm \<Rightarrow> 'ts libs \<Rightarrow> JwtUtil \<Rightarrow> go_time \<Rightarrow>
    sign_env \<times> sign_env \<Rightarrow> 's \<Rightarrow> string \<Rightarrow> string \<Rightarrow> (status, string \<times> string) result option" where
  "AuthService_RefreshToken reg ovf G L J clock E db userID refreshToken =
     (if refreshToken = [] then Some (Inl (status_Error codes_InvalidArgument ''refresh token required''))
      else case ju_Parse J clock refreshToken of
        None \<Rightarrow> None
      | Some (Inl e) \<Rightarrow> Some (Inl (status_Error codes_Unauthenticated ''invalid refresh token''))
      | Some (Inr claims) \<Rightarrow>
        if TokenUse claims \<noteq> TokenUseRefresh then Some (Inl (status_Error codes_Unauthenticated ''invalid refresh token''))
        else if userID \<noteq> [] \<and> uuid_Parse L userID = None then Some (Inl (status_Error codes_InvalidArgument ''invalid user id''))
        else if userID \<noteq> [] \<and> uuid_Parse L userID \<noteq> Some (UserID claims)
          then Some (Inl (status_Error codes_Unauthenticated ''refresh token user mismatch''))
        else (case UserRepository_GetById G db (UserID claims) of
            Inl e \<Rightarrow> Some (Inl (status_Error codes_Unauthenticated ''invalid refresh token''))
          | Inr user \<Rightarrow> (case AlgorithmFromToken reg ovf refreshToken of
              Inl e \<Rightarrow> Some (Inl (status_Error codes_Unauthenticated ''invalid refresh token''))
            | Inr algorithm \<Rightarrow> (case signTokenPair J E user algorithm of
                None \<Rightarrow> None
              | Some (Inl e) \<Rightarrow> Some (Inl (status_Error codes_Internal ''failed to generate token''))
              | Some (Inr tokens) \<Rightarrow> Some (Inr tokens)))))"

definition AuthService_Verify :: "JwtUtil \<Rightarrow> go_time \<Rightarrow> string \<Rightarrow> (status, unit) result option" where
  "AuthService_Verify J clock token = (case ju_Parse J clock token of
      None \<Rightarrow> None
    | Some (Inl e) \<Rightarrow> Some (Inl (status_Error codes_Unauthenticated ''invalid token''))
    | Some (Inr claims) \<Rightarrow> Some (Inr ()))"

section \<open>Auth server\<close>

record Auth =
  TokenType :: string
  AccessToken :: string
  RefreshToken :: string

definition auth_response :: "string \<times> string \<Rightarrow> Auth" where
  "auth_response t = \<lparr>TokenType = ''Bearer'', AccessToken = fst t, RefreshToken = snd t\<rparr>"

definition AuthServer_SignIn :: "('s, User) gorm \<Rightarrow> bcrypt \<Rightarrow> JwtUtil \<Rightarrow> sign_env \<times> sign_env \<Rightarrow> 's \<Rightarrow> string \<Rightarrow> string \<Rightarrow> string
    \<Rightarrow> (status, Auth) result option" where
  "AuthServer_SignIn G B J E db email password algorithm =
     map_option (map_sum id auth_response) (AuthService_SignIn G B J E db email password algorithm)"

definition AuthServer_RefreshToken :: "registry \<Rightarrow> (rat option \<Rightarrow> i64) \<Rightarrow> ('s, User) gorm \<Rightarrow> 'ts libs \<Rightarrow> JwtUtil \<Rightarrow> go_time \<Rightarrow>
    sign_env \<times> sign_env \<Rightarrow> 's \<Rightarrow> string \<Rightarrow> string \<Rightarrow> (status, Auth) result option" where
  "AuthServer_RefreshToken reg ovf G L J clock E db userID refreshToken =
     map_option (map_sum id auth_response) (AuthService_RefreshToken reg ovf G L J clock E db userID refreshToken)"

definition AuthServer_Verify :: "JwtUtil \<Rightarrow> go_time \<Rightarrow> string \<Rightarrow> (status, unit) result option" where
  "AuthServer_Verify J clock token = AuthService_Verify J clock token"

text \<open>The algorithms the service loads (\<^verbatim>\<open>Bootstrap\<close>): the configured list, split at commas, or all.\<close>

fun strings_Split :: "char \<Rightarrow> string \<Rightarrow> string list" where
  "strings_Split c s = (case strings_Cut s c of None \<Rightarrow> [s] | Some (a, b) \<Rightarrow> if length b < length s then a # strings_Split c b else [])"

declare strings_Split.simps [simp del]

definition supportedAlgorithms :: "string list" where
  "supportedAlgorithms = [''FN-DSA-512'', ''FN-DSA-Precomputed-512'', ''Falcon-512'', ''Falcon-Precomputed-512'',
     ''HS256'', ''RS256'', ''ES256'', ''EdDSA'']"

definition auth_algsToLoad :: "string \<Rightarrow> string list" where
  "auth_algsToLoad raw = (let algs = (if raw \<noteq> [] then strings_Split CHR '','' raw else []) in
     if length algs = 0 then supportedAlgorithms else algs)"

definition auth_defaultAlg :: "string \<Rightarrow> string" where
  "auth_defaultAlg configured = (if configured = [] then ''FN-DSA-Precomputed-512'' else configured)"

text \<open>\<^verbatim>\<open>Bootstrap\<close> of the auth service: an error is fatal. The configuration object is read through its getters.\<close>

definition auth_Bootstrap :: "('a) pk_crypto_scheme \<Rightarrow> files \<Rightarrow> (string \<Rightarrow> string) \<Rightarrow> (string \<Rightarrow> i64)
    \<Rightarrow> (err, multiAlgJwtUtil \<times> (string \<rightharpoonup> AlgConfig option)) result" where
  "auth_Bootstrap C F GetString GetInt =
     (let keysDir = (if GetString ''KEYS_DIR'' = [] then ''./keys'' else GetString ''KEYS_DIR'');
          default = auth_defaultAlg (GetString ''JWT_DEFAULT_ALG'');
          algsToLoad = auth_algsToLoad (GetString ''JWT_ALLOWED_ALGS'')
      in bind_err (LoadAllAlgConfigs C F keysDir algsToLoad True Map.empty) (\<lambda>configs.
         Inr (NewMultiAlgJwtUtil (GetString ''JWT_ISSUER'') (GetString ''JWT_AUDIENCE'') (GetInt ''JWT_TOKEN_DURATION'') default, configs)))"

end
