(* ===== verification/AuthProps.thy ===== *)
theory AuthProps
  imports AuthService
begin

text \<open>
  What the auth service guarantees: the user server implements a step relation on the table of users in which
  emails stay unique; a sign-in succeeds exactly with the password of the user of that email; a refresh
  needs a refresh token of an existing user.
\<close>

section \<open>Specification of the user server\<close>

definition unique_emails :: "(uuid \<rightharpoonup> User) \<Rightarrow> bool" where
  "unique_emails m \<longleftrightarrow> inj_on u_Email (ran m)"

text \<open>The password column a request leads to: the old one when the request has none, else a hash of it.\<close>

definition new_password :: "bcrypt \<Rightarrow> string \<Rightarrow> string \<Rightarrow> string \<Rightarrow> bool" where
  "new_password B pw old h \<longleftrightarrow> (if pw = [] then h = old else \<exists>salt. GenerateFromPassword B salt pw = Inr h)"

definition updated_user :: "UpdateUserRequest \<Rightarrow> string \<Rightarrow> i64 \<Rightarrow> User \<Rightarrow> User" where
  "updated_user rq h now old = old\<lparr>u_Name := (if uu_Name rq = [] then u_Name old else uu_Name rq),
     u_Email := (if uu_Email rq = [] then u_Email old else uu_Email rq),
     u_Password := (if h = [] then u_Password old else h), u_UpdatedAt := now\<rparr>"

fun user_call_id :: "user_call \<Rightarrow> string option" where
  "user_call_id (UpdateUser rq) = Some (uu_Id rq)"
| "user_call_id (DeleteUser i) = Some i"
| "user_call_id (GetUser i) = Some i"
| "user_call_id _ = None"

fun user_writes :: "user_call \<Rightarrow> bool" where
  "user_writes (CreateUser rq) = True"
| "user_writes (UpdateUser rq) = True"
| "user_writes _ = False"

text \<open>What a read may show of a user: identifier, name and email of the row, no password at all, and the two times.
  The columns count seconds (\<^verbatim>\<open>autoCreateTime\<close>) and the server reads them as milliseconds, so what is shown is an
  instant close to the epoch instead of the one that was stored; the specification says so.\<close>

definition second_as_ms :: "'ts libs \<Rightarrow> i64 \<Rightarrow> 'ts" where
  "second_as_ms L t = timestamppb_New L \<lparr>unix = word_of_int (sint t div 1000), nsec = sint t mod 1000 * 1000000\<rparr>"

definition shown_user :: "'ts libs \<Rightarrow> User \<Rightarrow> 'ts UserModel \<Rightarrow> bool" where
  "shown_user L u v \<longleftrightarrow> um_Id v = uuid_String L (u_Id u) \<and> um_Name v = u_Name u \<and> um_Email v = u_Email u \<and> um_Password v = [] \<and>
     um_CreatedAt v = second_as_ms L (u_CreatedAt u) \<and> um_UpdatedAt v = second_as_ms L (u_UpdatedAt u)"

lemma shown_message: "shown_user L u (user_message L u)"
  by (simp add: shown_user_def user_message_def second_as_ms_def time_UnixMilli_def)

text \<open>A call on the table seen as a map; \<open>h\<close> says that the store answers.\<close>

inductive user_step :: "bcrypt \<Rightarrow> 'ts libs \<Rightarrow> bool \<Rightarrow> user_call \<Rightarrow> (uuid \<rightharpoonup> User)
    \<Rightarrow> (status, 'ts user_reply) result \<Rightarrow> (uuid \<rightharpoonup> User) \<Rightarrow> bool" for B L h where
  created: "\<lbrakk>m k = None; cu_Email rq \<notin> u_Email ` ran m; GenerateFromPassword B salt (cu_Password rq) = Inr hash\<rbrakk> \<Longrightarrow>
    user_step B L h (CreateUser rq) m (Inr UserEmpty)
      (m(k \<mapsto> \<lparr>u_Id = k, u_Name = cu_Name rq, u_Email = cu_Email rq, u_Password = hash, u_CreatedAt = now, u_UpdatedAt = now\<rparr>))"
| updated: "\<lbrakk>uuid_Parse L (uu_Id rq) = Some k; m k = Some old; new_password B (uu_Password rq) (u_Password old) hash;
      m' = m(k \<mapsto> updated_user rq hash now old); unique_emails m \<Longrightarrow> unique_emails m'\<rbrakk> \<Longrightarrow>
    user_step B L h (UpdateUser rq) m (Inr UserEmpty) m'"
| deleted: "\<lbrakk>uuid_Parse L i = Some k; m k = Some old\<rbrakk> \<Longrightarrow> user_step B L h (DeleteUser i) m (Inr UserEmpty) (m(k := None))"
| got: "\<lbrakk>uuid_Parse L i = Some k; m k = Some u; shown_user L u v\<rbrakk> \<Longrightarrow> user_step B L h (GetUser i) m (Inr (UserResponse v)) m"
| listed: "\<lbrakk>distinct us; set us = ran m; list_all2 (shown_user L) us vs\<rbrakk> \<Longrightarrow>
    user_step B L h GetAllUsers m (Inr (ListUserResponse vs)) m"
| bad_id: "\<lbrakk>user_call_id call = Some i; uuid_Parse L i = None\<rbrakk> \<Longrightarrow>
    user_step B L h call m (Inl (status_Error codes_InvalidArgument ''invalid user id'')) m"
| missing: "\<lbrakk>user_call_id call = Some i; uuid_Parse L i = Some k; h \<Longrightarrow> m k = None\<rbrakk> \<Longrightarrow>
    user_step B L h call m (Inl (status_Error codes_NotFound ''user not found'')) m"
| internal: "\<lbrakk>h \<Longrightarrow> user_writes call; Code e = codes_Internal\<rbrakk> \<Longrightarrow> user_step B L h call m (Inl e) m"

inductive_cases user_step_error [elim]: "user_step B L h call m (Inl e) m'"

section \<open>The server implements it\<close>

locale user_store = gorm_unique G rows base healthy u_Id user_stamp user_merge u_Email
  for G :: "('s, User) gorm" and rows base :: "'s \<Rightarrow> uuid \<rightharpoonup> User" and healthy +
  fixes L :: "'ts libs"
  assumes libs: "libs_ok L"
begin

lemma First_user:
  assumes "First G tx (\<lambda>r. u_Id r = i) = Inr user"
  shows "rows tx i = Some user" "u_Id user = i"
  using first_ok [OF assms] keyed by (auto simp: ran_def)

lemma First_user_none:
  assumes "First G tx (\<lambda>r. u_Id r = i) = Inl e" "healthy tx"
  shows "rows tx i = None"
proof (cases "rows tx i")
  case (Some t)
  then have "\<exists>r'. First G tx (\<lambda>r. u_Id r = i) = Inr r'"
    using assms(2) keyed by (intro first_healthy [of tx t]) (auto intro: ranI)
  then show ?thesis using assms(1) by simp
qed

lemma Updates_user:
  assumes "Updates G tx (\<lambda>r. u_Id r = i) new = (None, tx')" and "rows tx i = Some old"
  obtains now where "rows tx' = (rows tx)(i \<mapsto> user_merge now new old)"
proof -
  from updates_rows [OF assms(1)] obtain now where
    now: "rows tx' k = map_option (\<lambda>old. if u_Id old = i then user_merge now new old else old) (rows tx k)" for k
    by blast
  have "rows tx' k = ((rows tx)(i \<mapsto> user_merge now new old)) k" for k
  proof (cases "k = i")
    case True
    then show ?thesis by (simp add: now assms keyed [OF assms(2)])
  next
    case False
    then have "u_Id r \<noteq> i" if "rows tx k = Some r" for r using keyed [OF that] by simp
    then show ?thesis using False by (cases "rows tx k") (simp_all add: now)
  qed
  then show ?thesis by (intro that [of now]) auto
qed

lemma Delete_user:
  assumes "DeleteRows G tx (\<lambda>r. u_Id r = i) = (None, tx')"
  shows "rows tx' = (rows tx)(i := None)"
proof
  fix k show "rows tx' k = ((rows tx)(i := None)) k"
    using keyed [of tx k] by (cases "rows tx k") (auto simp: delete_rows [OF assms(1)])
qed

lemma Create_refines:
  assumes "UserService_Create G B salt db rq = (r, db')"
  shows "user_step B L h (CreateUser rq) (rows db) (map_sum id (\<lambda>_. UserEmpty) r) (rows db')"
proof (cases "GenerateFromPassword B salt (cu_Password rq)")
  case (Inl e)
  then show ?thesis using assms
    by (auto simp: UserService_Create_def with_tx_def rollback_rows begin_base status_Error_def intro!: internal)
next
  case (Inr hash)
  let ?user = "\<lparr>u_Id = 0, u_Name = cu_Name rq, u_Email = cu_Email rq, u_Password = hash, u_CreatedAt = 0, u_UpdatedAt = 0\<rparr>"
  have "with_tx G db (\<lambda>tx. case CreateRow G (Begin G db) ?user of
      (Some e, tx) \<Rightarrow> (Inl (status_Error codes_Internal ''failed to create user''), tx) | (None, tx) \<Rightarrow> commit_tx G tx) = (r, db')"
    using assms(1) by (simp add: Inr UserService_Create_def UserRepository_Create_def with_tx_def)
  moreover have "base (snd (CreateRow G (Begin G db) ?user)) = rows db" by (simp add: begin_base)
  ultimately show ?thesis
  proof (cases rule: write_commit)
    case (ok tx)
    from create_rows [OF ok(1)] obtain k t where
      "let r' = user_stamp k t ?user in rows db (u_Id r') = None \<and> rows tx = (rows db)(u_Id r' \<mapsto> r')"
      by (auto simp: begin_rows)
    then have "rows db k = None" "rows tx = (rows db)(k \<mapsto> \<lparr>u_Id = k, u_Name = cu_Name rq, u_Email = cu_Email rq,
        u_Password = hash, u_CreatedAt = t, u_UpdatedAt = t\<rparr>)"
      by (simp_all add: user_stamp_def Let_def)
    moreover have "cu_Email rq \<notin> u_Email ` ran (rows db)" using create_unique [OF ok(1)] by (simp add: begin_rows)
    ultimately show ?thesis using ok Inr by (simp add: created)
  next
    case (err e)
    then show ?thesis by (auto simp: status_Error_def intro!: internal)
  qed
qed

lemma Update_refines:
  assumes "UserService_Update G B L salt db rq = (r, db')" and B: "bcrypt_ok B" and h: "h \<longleftrightarrow> healthy db"
  shows "user_step B L h (UpdateUser rq) (rows db) (map_sum id (\<lambda>_. UserEmpty) r) (rows db')"
proof (cases "uuid_Parse L (uu_Id rq)")
  case None
  then show ?thesis using assms
    by (auto simp: UserService_Update_def with_tx_def rollback_rows begin_base intro!: bad_id)
next
  case (Some k)
  show ?thesis
  proof (cases "UserRepository_GetById G (Begin G db) k")
    case (Inl e)
    moreover have "rows db k = None" if h
      using First_user_none [of "Begin G db" k e] Inl that h begin_healthy
      by (simp add: UserRepository_GetById_def begin_rows)
    ultimately show ?thesis using assms(1) Some
      by (auto simp: UserService_Update_def with_tx_def rollback_rows begin_base intro!: missing)
  next
    case (Inr old)
    note old = First_user [OF Inr [unfolded UserRepository_GetById_def]]
    let ?pw = "if uu_Password rq \<noteq> [] then GenerateFromPassword B salt (uu_Password rq) else Inr (u_Password old)"
    show ?thesis
    proof (cases ?pw)
      case (Inl e)
      then have "uu_Password rq \<noteq> []" "GenerateFromPassword B salt (uu_Password rq) = Inl e" by (auto split: if_splits)
      then show ?thesis using assms(1) Some Inr
        by (auto simp: Let_def UserService_Update_def with_tx_def rollback_rows begin_base status_Error_def intro!: internal)
    next
      case pw: (Inr hash)
      let ?new = "old\<lparr>u_Name := uu_Name rq, u_Email := uu_Email rq, u_Password := hash\<rparr>"
      let ?w = "Updates G (Begin G db) (\<lambda>r. u_Id r = k) ?new"
      have same: "?new = old\<lparr>u_Name := uu_Name rq, u_Email := uu_Email rq\<rparr>" if "uu_Password rq = []"
        using pw that by (cases old) simp
      have "UserService_Update G B L salt db rq = with_tx G db (\<lambda>tx. case ?w of
          (Some e, tx) \<Rightarrow> (Inl (status_Error codes_Internal ''failed to update user''), tx) | (None, tx) \<Rightarrow> commit_tx G tx)"
        using pw by (cases "uu_Password rq = []")
          (simp_all add: Some Inr old(2) same UserService_Update_def UserRepository_Update_def with_tx_def Let_def)
      then have "with_tx G db (\<lambda>tx. case ?w of (Some e, tx) \<Rightarrow> (Inl (status_Error codes_Internal ''failed to update user''), tx)
          | (None, tx) \<Rightarrow> commit_tx G tx) = (r, db')" using assms(1) by simp
      moreover have "base (snd ?w) = rows db" by (simp add: begin_base)
      ultimately show ?thesis
      proof (cases rule: write_commit)
        case (ok tx)
        from Updates_user [OF ok(1) old(1)] obtain now where t: "rows tx = (rows db)(k \<mapsto> user_merge now ?new old)"
          by (auto simp: begin_rows)
        have m: "user_merge now ?new old = updated_user rq hash now old"
          by (simp add: user_merge_def updated_user_def)
        have "new_password B (uu_Password rq) (u_Password old) hash"
          using pw by (auto simp: new_password_def split: if_splits)
        moreover have "unique_emails (rows db) \<Longrightarrow> unique_emails (rows tx)"
          using updates_unique [OF _ ok(1)] by (simp add: unique_emails_def begin_rows)
        ultimately show ?thesis using ok Some old(1) t m by (auto simp: begin_rows intro!: updated)
      next
        case (err e)
        then show ?thesis by (auto simp: status_Error_def intro!: internal)
      qed
    qed
  qed
qed

lemma Delete_refines:
  assumes "UserService_Delete G L db i = (r, db')" and h: "h \<longleftrightarrow> healthy db"
  shows "user_step B L h (DeleteUser i) (rows db) (map_sum id (\<lambda>_. UserEmpty) r) (rows db')"
proof (cases "uuid_Parse L i")
  case None
  then show ?thesis using assms
    by (auto simp: UserService_Delete_def with_tx_def rollback_rows begin_base intro!: bad_id)
next
  case (Some k)
  show ?thesis
  proof (cases "UserRepository_GetById G (Begin G db) k")
    case (Inl e)
    moreover have "rows db k = None" if h
      using First_user_none [of "Begin G db" k e] Inl that h begin_healthy
      by (simp add: UserRepository_GetById_def begin_rows)
    ultimately show ?thesis using assms(1) Some
      by (auto simp: UserService_Delete_def with_tx_def rollback_rows begin_base intro!: missing)
  next
    case (Inr old)
    note old = First_user [OF Inr [unfolded UserRepository_GetById_def]]
    let ?w = "DeleteRows G (Begin G db) (\<lambda>r. u_Id r = k)"
    have "with_tx G db (\<lambda>tx. case ?w of (Some e, tx) \<Rightarrow> (Inl (status_Error codes_Internal ''failed to delete user''), tx)
        | (None, tx) \<Rightarrow> commit_tx G tx) = (r, db')"
      using assms(1) Some Inr old(2) by (simp add: UserService_Delete_def UserRepository_Delete_def with_tx_def)
    moreover have "base (snd ?w) = rows db" by (simp add: begin_base)
    ultimately show ?thesis
    proof (cases rule: write_commit)
      case (ok tx)
      then show ?thesis using Delete_user [OF ok(1)] Some old(1) by (auto simp: begin_rows intro!: deleted)
    next
      case (err e)
      have "\<not> h" if "fst ?w = None"
      proof
        assume h
        then obtain s' where "?w = (None, s')" "healthy s'" using delete_healthy [OF begin_healthy] \<open>h \<longleftrightarrow> healthy db\<close> by blast
        then show False using err(4) that by simp
      qed
      moreover have "fst ?w = None" if h
        using delete_healthy [OF begin_healthy, of db "\<lambda>r. u_Id r = k"] that \<open>h \<longleftrightarrow> healthy db\<close> by auto
      ultimately show ?thesis using err by (auto simp: status_Error_def intro!: internal)
    qed
  qed
qed

lemma Get_refines:
  assumes h: "h \<longleftrightarrow> healthy db"
  shows "user_step B L h (GetUser i) (rows db) (map_sum id UserResponse (UserServer_Get G L db i)) (rows db)"
proof (cases "uuid_Parse L i")
  case None
  then show ?thesis by (auto simp: UserServer_Get_def UserService_Get_def intro!: bad_id)
next
  case (Some k)
  show ?thesis
  proof (cases "UserRepository_GetById G db k")
    case (Inl e)
    then have "rows db k = None" if h using First_user_none [of db k e] that h by (simp add: UserRepository_GetById_def)
    then show ?thesis using Inl Some by (auto simp: UserServer_Get_def UserService_Get_def intro!: missing)
  next
    case (Inr u)
    note u = First_user [OF Inr [unfolded UserRepository_GetById_def]]
    then show ?thesis using Inr Some by (auto simp: UserServer_Get_def UserService_Get_def intro!: got [OF _ _ shown_message])
  qed
qed

lemma GetAll_refines:
  assumes h: "h \<longleftrightarrow> healthy db"
  shows "user_step B L h GetAllUsers (rows db) (map_sum id ListUserResponse (UserServer_GetAll G L db)) (rows db)"
proof (cases "UserRepository_GetAll G db")
  case (Inl e)
  then have "\<not> h" using find_healthy [of db "\<lambda>r. True"] h by (auto simp: UserRepository_GetAll_def)
  then show ?thesis using Inl by (auto simp: UserServer_GetAll_def UserService_GetAll_def status_Error_def intro!: internal)
next
  case (Inr us)
  then have "distinct us" "set us = ran (rows db)" using find_ok [of db "\<lambda>r. True" us] by (auto simp: UserRepository_GetAll_def)
  then show ?thesis using Inr by (auto simp: UserServer_GetAll_def UserService_GetAll_def list_all2_conv_all_nth shown_message intro!: listed [of us])
qed

lemma user_serve_step:
  assumes "user_serve G B L salt call db = (r, db')" "bcrypt_ok B"
  shows "user_step B L (healthy db) call (rows db) r (rows db')"
  using assms Create_refines Update_refines [OF _ assms(2) refl] Delete_refines [OF _ refl] Get_refines [OF refl] GetAll_refines [OF refl]
  by (cases call) (auto simp: UserServer_Create_def UserServer_Update_def UserServer_Delete_def apfst_def map_prod_def split: prod.splits)

end

section \<open>Runs of the server\<close>

definition user_run :: "('s, User) gorm \<Rightarrow> bcrypt \<Rightarrow> 'ts libs \<Rightarrow> (string \<times> user_call) list \<Rightarrow> 's \<Rightarrow> 's" where
  "user_run G B L cs db = fold (\<lambda>(salt, call) db. snd (user_serve G B L salt call db)) cs db"

lemma user_run_simps [simp]:
  "user_run G B L [] db = db"
  "user_run G B L ((salt, call) # cs) db = user_run G B L cs (snd (user_serve G B L salt call db))"
  by (simp_all add: user_run_def)

lemma user_step_unique: "user_step B L h call m r m' \<Longrightarrow> unique_emails m \<Longrightarrow> unique_emails m'"
proof (induction rule: user_step.induct)
  case (created m k rq salt hash now)
  then show ?case by (auto simp: unique_emails_def ran_map_upd simp del: fun_upd_apply)
next
  case (deleted i k m old)
  have "ran (m(k := None)) \<subseteq> ran m" by (auto simp: ran_def)
  then show ?case using deleted unfolding unique_emails_def by (blast intro: inj_on_subset)
qed simp_all

text \<open>A call that updates or deletes user \<open>k\<close>; reading that user is not one.\<close>

definition call_targets :: "'ts libs \<Rightarrow> uuid \<Rightarrow> user_call \<Rightarrow> bool" where
  "call_targets L k call \<longleftrightarrow> (case call of
      UpdateUser rq \<Rightarrow> uuid_Parse L (uu_Id rq) = Some k
    | DeleteUser i \<Rightarrow> uuid_Parse L i = Some k
    | _ \<Rightarrow> False)"

lemma user_step_other:
  "user_step B L h call m r m' \<Longrightarrow> m k = Some u \<Longrightarrow> \<not> call_targets L k call \<Longrightarrow> m' k = Some u"
  by (induction rule: user_step.induct) (auto simp: call_targets_def)

context user_store
begin

lemma user_run_unique:
  assumes "bcrypt_ok B" "unique_emails (rows db)"
  shows "unique_emails (rows (user_run G B L cs db))"
  using assms(2)
proof (induction cs arbitrary: db)
  case (Cons c cs)
  obtain salt call where c: "c = (salt, call)" by (cases c)
  obtain r db1 where s: "user_serve G B L salt call db = (r, db1)" by fastforce
  have "unique_emails (rows db1)" using user_step_unique [OF user_serve_step [OF s assms(1)]] Cons.prems .
  then show ?case using Cons.IH [of db1] by (simp add: c s)
qed simp

lemma user_run_other:
  assumes "bcrypt_ok B" "rows db k = Some u" "\<And>salt call. (salt, call) \<in> set cs \<Longrightarrow> \<not> call_targets L k call"
  shows "rows (user_run G B L cs db) k = Some u"
  using assms(2,3)
proof (induction cs arbitrary: db)
  case (Cons c cs)
  obtain salt call where c: "c = (salt, call)" by (cases c)
  obtain r db1 where s: "user_serve G B L salt call db = (r, db1)" by fastforce
  have "rows db1 k = Some u" using user_step_other [OF user_serve_step [OF s assms(1)] Cons.prems(1)] Cons.prems(2) [of salt call] c by simp
  then show ?case using Cons.IH [of db1] Cons.prems(2) by (auto simp: c s)
qed simp

lemma user_by_email:
  assumes "unique_emails (rows db)" "healthy db" "u \<in> ran (rows db)"
  shows "UserRepository_GetByEmail G db (u_Email u) = Inr u"
proof -
  obtain u' where u': "First G db (\<lambda>r. u_Email r = u_Email u) = Inr u'"
    using first_healthy [OF assms(2,3), of "\<lambda>r. u_Email r = u_Email u"] by auto
  from first_ok [OF this] have "u' = u" using assms(1,3) by (auto simp: unique_emails_def inj_on_def)
  then show ?thesis using u' by (simp add: UserRepository_GetByEmail_def)
qed

lemma user_by_email_inv:
  "UserRepository_GetByEmail G db email = Inr u \<Longrightarrow> u \<in> ran (rows db) \<and> u_Email u = email"
  using first_ok [of db "\<lambda>r. u_Email r = email" u] by (simp add: UserRepository_GetByEmail_def)

lemma user_by_id: "healthy db \<Longrightarrow> UserRepository_GetById G db k = Inr u \<longleftrightarrow> rows db k = Some u"
  using First_user(1) [of db k] First_user_none [of db k] by (cases "UserRepository_GetById G db k") (auto simp: UserRepository_GetById_def)

end

section \<open>Sign-in and refresh\<close>

definition user_payload :: "User \<Rightarrow> string \<Rightarrow> string \<Rightarrow> JWTPayload" where
  "user_payload u alg use = \<lparr>P_UserID = u_Id u, P_Email = u_Email u, P_Algorithm = alg, P_TokenUse = use\<rparr>"

definition signs_pair :: "JwtUtil \<Rightarrow> sign_env \<times> sign_env \<Rightarrow> User \<Rightarrow> string \<Rightarrow> string \<times> string \<Rightarrow> bool" where
  "signs_pair J E u alg t \<longleftrightarrow> ju_Sign J (fst E) (user_payload u alg TokenUseAccess) = Some (Inr (fst t)) \<and>
     ju_Sign J (snd E) (user_payload u alg TokenUseRefresh) = Some (Inr (snd t))"

lemma signTokenPair_iff: "signTokenPair J E u alg = Some (Inr t) \<longleftrightarrow> signs_pair J E u alg t"
  by (cases t) (auto simp: signTokenPair_def signs_pair_def user_payload_def Let_def split: option.splits sum.splits)

lemma signed_result:
  "(case signTokenPair J E u alg of None \<Rightarrow> None | Some (Inl e) \<Rightarrow> Some (Inl (status_Error c text)) | Some (Inr t) \<Rightarrow> Some (Inr t))
     = Some (Inr t) \<longleftrightarrow> signs_pair J E u alg t"
  by (auto simp: signTokenPair_iff [symmetric] split: option.splits sum.splits)

lemma signed_error:
  assumes "Code e \<noteq> c"
  shows "(case signTokenPair J E u alg of None \<Rightarrow> None | Some (Inl e) \<Rightarrow> Some (Inl (status_Error c text)) | Some (Inr t) \<Rightarrow> Some (Inr t))
     \<noteq> Some (Inl e)"
  using assms by (auto simp: status_Error_def split: option.splits sum.splits)

context user_store
begin

lemma signin_granted:
  assumes "healthy db" "unique_emails (rows db)"
  shows "AuthService_SignIn G B J E db email pw alg = Some (Inr t) \<longleftrightarrow>
    (\<exists>u \<in> ran (rows db). u_Email u = email \<and> CompareHashAndPassword B (u_Password u) pw \<and> signs_pair J E u alg t)"
proof (cases "UserRepository_GetByEmail G db email")
  case (Inl e)
  then have "\<forall>u \<in> ran (rows db). u_Email u \<noteq> email" using user_by_email [OF assms(2,1)] by auto
  then show ?thesis using Inl by (auto simp: AuthService_SignIn_def)
next
  case (Inr u)
  then have "\<exists>!u. u \<in> ran (rows db) \<and> u_Email u = email" "u \<in> ran (rows db)" "u_Email u = email"
    using user_by_email_inv [OF Inr] assms(2) by (auto simp: unique_emails_def inj_on_def)
  then show ?thesis using Inr by (auto simp: AuthService_SignIn_def signed_result)
qed

lemma signin_refused:
  assumes "healthy db" "unique_emails (rows db)"
  shows "AuthService_SignIn G B J E db email pw alg = Some (Inl (status_Error codes_Unauthenticated ''invalid email or password'')) \<longleftrightarrow>
    \<not> (\<exists>u \<in> ran (rows db). u_Email u = email \<and> CompareHashAndPassword B (u_Password u) pw)"
proof (cases "UserRepository_GetByEmail G db email")
  case (Inl e)
  then have "\<forall>u \<in> ran (rows db). u_Email u \<noteq> email" using user_by_email [OF assms(2,1)] by auto
  then show ?thesis using Inl by (auto simp: AuthService_SignIn_def)
next
  case (Inr u)
  then have "u \<in> ran (rows db)" "u_Email u = email" "\<And>v. v \<in> ran (rows db) \<Longrightarrow> u_Email v = email \<Longrightarrow> v = u"
    using user_by_email_inv [OF Inr] assms(2) by (auto simp: unique_emails_def inj_on_def)
  then have "(\<exists>u \<in> ran (rows db). u_Email u = email \<and> CompareHashAndPassword B (u_Password u) pw)
      \<longleftrightarrow> CompareHashAndPassword B (u_Password u) pw" by blast
  moreover have "Code (status_Error codes_Unauthenticated s) \<noteq> codes_Internal" for s by (simp add: status_Error_def)
  ultimately show ?thesis using Inr by (simp add: AuthService_SignIn_def signed_error)
qed

lemma refresh_granted:
  assumes "healthy db"
  shows "AuthService_RefreshToken reg ovf G L J clock E db userID rt = Some (Inr t) \<longleftrightarrow>
    (\<exists>c u alg. rt \<noteq> [] \<and> ju_Parse J clock rt = Some (Inr c) \<and> TokenUse c = TokenUseRefresh \<and>
      (userID = [] \<or> uuid_Parse L userID = Some (UserID c)) \<and> rows db (UserID c) = Some u \<and>
      AlgorithmFromToken reg ovf rt = Inr alg \<and> signs_pair J E u alg t)"
proof (cases "ju_Parse J clock rt")
  case (Some pr)
  show ?thesis
  proof (cases pr)
    case (Inr c)
    show ?thesis
    proof (cases "UserRepository_GetById G db (UserID c)")
      case (Inr u)
      then have "rows db (UserID c) = Some u" using user_by_id [OF assms] by simp
      then show ?thesis using Some \<open>pr = Inr c\<close> Inr
        by (cases "AlgorithmFromToken reg ovf rt") (simp_all add: AuthService_RefreshToken_def signed_result)
    next
      case (Inl e)
      then have "rows db (UserID c) = None" using user_by_id [OF assms, of "UserID c"] by (cases "rows db (UserID c)") auto
      then show ?thesis using Some \<open>pr = Inr c\<close> Inl by (simp add: AuthService_RefreshToken_def)
    qed
  qed (simp add: Some AuthService_RefreshToken_def)
qed (simp add: AuthService_RefreshToken_def)

end

lemma auth_response_inj [simp]: "auth_response t = auth_response t' \<longleftrightarrow> t = t'"
  by (cases t; cases t') (simp add: auth_response_def)

lemma map_sum_id_eq:
  "map_sum id f x = Inr y \<longleftrightarrow> (\<exists>z. x = Inr z \<and> f z = y)" "map_sum id f x = Inl e \<longleftrightarrow> x = Inl e"
  by (cases x; auto)+

lemma AuthServer_SignIn_iff:
  "AuthServer_SignIn G B J E db email pw alg = Some (Inr (auth_response t)) \<longleftrightarrow> AuthService_SignIn G B J E db email pw alg = Some (Inr t)"
  "AuthServer_SignIn G B J E db email pw alg = Some (Inl e) \<longleftrightarrow> AuthService_SignIn G B J E db email pw alg = Some (Inl e)"
  by (cases t; auto simp: AuthServer_SignIn_def map_sum_id_eq)+

lemma AuthServer_Refresh_iff:
  "AuthServer_RefreshToken reg ovf G L J clock E db i rt = Some (Inr (auth_response t)) \<longleftrightarrow>
    AuthService_RefreshToken reg ovf G L J clock E db i rt = Some (Inr t)"
  by (cases t) (auto simp: AuthServer_RefreshToken_def map_sum_id_eq)

lemma registered:
  assumes "user_step B L h (CreateUser rq) m (Inr UserEmpty) m'"
  obtains k u salt where "m k = None" "m' = m(k \<mapsto> u)" "u_Id u = k" "u_Email u = cu_Email rq" "u_Name u = cu_Name rq"
    "GenerateFromPassword B salt (cu_Password rq) = Inr (u_Password u)"
  using assms by cases (fastforce intro: that)+

section \<open>Properties\<close>

text \<open>The reference table, and a reference hash that keeps the password.\<close>

definition mem_users :: "(User mem, User) gorm" where
  "mem_users = mem_gorm (\<lambda>n. of_nat (Suc n)) u_Id user_stamp user_merge (\<lambda>rs. distinct (map u_Email rs))"

interpretation mem_user: user_store mem_users "\<lambda>s. mem_rows u_Id (tbl s)" "\<lambda>s. mem_rows u_Id (saved s)" "\<lambda>s. True" ref_libs
  unfolding mem_users_def
  by (intro user_store.intro mem_gorm_unique_laws user_store_axioms.intro ref_libs_ok) (simp_all add: user_merge_def user_stamp_def)

definition ref_bcrypt :: bcrypt where
  "ref_bcrypt = \<lparr>GenerateFromPassword = (\<lambda>salt pw. if length pw > 72 then Inl (ErrText ''password length exceeds 72 bytes'')
       else Inr (CHR ''$'' # pw)), CompareHashAndPassword = (\<lambda>h pw. h = CHR ''$'' # pw)\<rparr>"

lemma ref_bcrypt_ok: "bcrypt_ok ref_bcrypt"
  by (simp add: bcrypt_ok_def ref_bcrypt_def)

text \<open>C14: the user server implements its specification. Every call, whatever the store answers, is one
  step of it: a created user has a fresh identifier, an email nobody has and a hash of the password; an
  update changes that user's non-empty fields only; a delete removes that user; reads show identifier, name and
  email of each row with an empty password, and its two times read as milliseconds though the columns count
  seconds; and a call answered with an error leaves the table as it was.\<close>

theorem user_serve_refines:
  assumes "user_store G rows base healthy L" "bcrypt_ok B" "user_serve G B L salt call db = (r, db')"
  shows "user_step B L (healthy db) call (rows db) r (rows db')"
  using user_store.user_serve_step [OF assms(1,3,2)] .

definition no_users :: "User mem" where "no_users = \<lparr>tbl = [], saved = [], ticks = 0\<rparr>"

definition sample_user :: User where
  "sample_user = \<lparr>u_Id = 1, u_Name = ''n'', u_Email = ''m'', u_Password = ''$pw'', u_CreatedAt = 1, u_UpdatedAt = 1\<rparr>"

definition one_user :: "User mem" where "one_user = \<lparr>tbl = [sample_user], saved = [sample_user], ticks = 1\<rparr>"

definition sample_registration :: user_call where
  "sample_registration = CreateUser \<lparr>cu_Name = ''n'', cu_Email = ''m'', cu_Password = ''pw''\<rparr>"

lemma sample_registered: "user_serve mem_users ref_bcrypt ref_libs [] sample_registration no_users = (Inr UserEmpty, one_user)"
  by (simp add: UserServer_Create_def UserService_Create_def UserRepository_Create_def with_tx_def commit_tx_def mem_users_def mem_gorm_def
      sample_registration_def sample_user_def one_user_def no_users_def user_stamp_def ref_libs_def ref_bcrypt_def Let_def)

lemma one_user_rows: "mem_rows u_Id (tbl one_user) = [1 \<mapsto> sample_user]" "mem_rows u_Id (tbl no_users) = Map.empty"
  by (simp_all add: mem_rows_def one_user_def no_users_def sample_user_def)

lemma one_user_ran: "ran (mem_rows u_Id (tbl one_user)) = {sample_user}"
  by (auto simp: one_user_rows ran_def)

theorem user_serve_refines_witness:
  "user_step ref_bcrypt ref_libs True sample_registration Map.empty (Inr UserEmpty) [1 \<mapsto> sample_user]"
  using user_serve_refines [OF mem_user.user_store_axioms ref_bcrypt_ok sample_registered] unfolding one_user_rows .

text \<open>C9: signing in. On a table with unique emails, a sign-in is answered with a pair of tokens exactly when
  a user has that email and the password matches the hash of that user, and the tokens are an access and a refresh
  token signed for that user; otherwise it is refused, with the same answer for an unknown email and a wrong
  password.\<close>

theorem signin_correct:
  assumes "user_store G rows base healthy L" "healthy db" "unique_emails (rows db)"
  shows "(AuthServer_SignIn G B J E db email pw alg = Some (Inr (auth_response t)) \<longleftrightarrow>
      (\<exists>u \<in> ran (rows db). u_Email u = email \<and> CompareHashAndPassword B (u_Password u) pw \<and> signs_pair J E u alg t)) \<and>
    (AuthServer_SignIn G B J E db email pw alg = Some (Inl (status_Error codes_Unauthenticated ''invalid email or password'')) \<longleftrightarrow>
      \<not> (\<exists>u \<in> ran (rows db). u_Email u = email \<and> CompareHashAndPassword B (u_Password u) pw))"
  unfolding AuthServer_SignIn_iff
  using user_store.signin_granted [OF assms] user_store.signin_refused [OF assms] by blast

lemma one_user_unique: "unique_emails (mem_rows u_Id (tbl one_user))"
  by (simp add: unique_emails_def one_user_rows)

text \<open>The HMAC utility of the samples.\<close>

definition hs_jwt :: JwtUtil where
  "hs_jwt = multiAlg_JwtUtil (init_registry sample_crypto Map.empty) ref_libs (\<lambda>_. 0) hs_util (\<lambda>_. hs_configs) (\<lambda>_ _. hs_configs) (\<lambda>_ _. hs_configs)"

theorem signin_correct_witness:
  "AuthServer_SignIn mem_users ref_bcrypt hs_jwt (hs_env, hs_env) one_user ''m'' ''wrong'' []
     = Some (Inl (status_Error codes_Unauthenticated ''invalid email or password''))"
  using signin_correct [OF mem_user.user_store_axioms TrueI one_user_unique, of ref_bcrypt hs_jwt "(hs_env, hs_env)" "''m''" "''wrong''" "[]"]
  by (simp add: one_user_ran sample_user_def ref_bcrypt_def)

text \<open>C39: a registered user can sign in. Once a registration is answered without an error, there is a user
  with that email who can sign in with that password, whatever calls follow, reads of that user included, as long as none of
  them updates or deletes that user and the store answers.\<close>

theorem registered_user_signs_in:
  assumes store: "user_store G rows base healthy L" and B: "bcrypt_ok B" and uniq: "unique_emails (rows db)"
    and reg: "user_serve G B L salt (CreateUser rq) db = (Inr UserEmpty, db1)"
  shows "\<exists>k. rows db k = None \<and> (\<forall>calls. (\<forall>(salt, call) \<in> set calls. \<not> call_targets L k call) \<and> healthy (user_run G B L calls db1) \<longrightarrow>
    (\<exists>u. rows (user_run G B L calls db1) k = Some u \<and> u_Email u = cu_Email rq \<and> u_Id u = k \<and>
      (\<forall>J E alg t. signs_pair J E u alg t \<longrightarrow>
        AuthServer_SignIn G B J E (user_run G B L calls db1) (cu_Email rq) (cu_Password rq) alg = Some (Inr (auth_response t)))))"
proof -
  note step = user_store.user_serve_step [OF store reg B]
  from registered [OF step] obtain k u salt where u: "rows db k = None" "rows db1 = (rows db)(k \<mapsto> u)" "u_Id u = k" "u_Email u = cu_Email rq"
    "GenerateFromPassword B salt (cu_Password rq) = Inr (u_Password u)" by blast
  have "AuthServer_SignIn G B J E db2 (cu_Email rq) (cu_Password rq) alg = Some (Inr (auth_response t)) \<and> rows db2 k = Some u"
    if c: "\<forall>(salt, call) \<in> set calls. \<not> call_targets L k call" and db2: "db2 = user_run G B L calls db1" "healthy db2"
      and t: "signs_pair J E u alg t" for calls db2 J E alg t
  proof -
    have k: "rows db2 k = Some u" unfolding db2(1) by (rule user_store.user_run_other [OF store B]) (use u(2) c in auto)
    moreover have "unique_emails (rows db2)" unfolding db2(1)
      by (rule user_store.user_run_unique [OF store B user_step_unique [OF step uniq]])
    moreover have "CompareHashAndPassword B (u_Password u) (cu_Password rq)" using B u(5) by (auto simp: bcrypt_ok_def)
    ultimately show ?thesis
      using user_store.signin_granted [OF store db2(2)] u(4) t unfolding AuthServer_SignIn_iff by (blast intro: ranI)
  qed
  moreover have "rows (user_run G B L calls db1) k = Some u" if "\<forall>(salt, call) \<in> set calls. \<not> call_targets L k call" for calls
    by (rule user_store.user_run_other [OF store B]) (use u(2) that in auto)
  ultimately show ?thesis using u(1,3,4) by (intro exI [of _ k]) blast
qed

theorem registered_user_signs_in_witness:
  "\<exists>u. mem_rows u_Id (tbl (user_run mem_users ref_bcrypt ref_libs [([], GetUser (uuid_String ref_libs 1)), ([], GetAllUsers)] one_user)) 1 = Some u \<and> u_Email u = ''m''"
proof -
  have none: "unique_emails (mem_rows u_Id (tbl no_users))" by (simp add: unique_emails_def one_user_rows)
  from registered_user_signs_in [OF mem_user.user_store_axioms ref_bcrypt_ok none sample_registered [unfolded sample_registration_def]]
  obtain k where "\<forall>calls. (\<forall>(salt, call) \<in> set calls. \<not> call_targets ref_libs k call) \<and> True \<longrightarrow>
     (\<exists>u. mem_rows u_Id (tbl (user_run mem_users ref_bcrypt ref_libs calls one_user)) k = Some u \<and>
       u_Email u = cu_Email \<lparr>cu_Name = ''n'', cu_Email = ''m'', cu_Password = ''pw''\<rparr>)"
    by (elim exE conjE) (rule that, intro allI impI, drule spec, drule mp, assumption, elim exE conjE, rule exI, rule conjI)
  then have k: "\<forall>calls. (\<forall>(salt, call) \<in> set calls. \<not> call_targets ref_libs k call) \<longrightarrow>
     (\<exists>u. mem_rows u_Id (tbl (user_run mem_users ref_bcrypt ref_libs calls one_user)) k = Some u \<and> u_Email u = ''m'')" by simp
  from k [rule_format, of "[]"] have "k = 1" by (simp add: one_user_rows split: if_splits)
  moreover have "\<forall>(salt, call) \<in> set [([], GetUser (uuid_String ref_libs 1)), ([], GetAllUsers)]. \<not> call_targets ref_libs 1 call"
    by (simp add: call_targets_def)
  ultimately show ?thesis using k by blast
qed

text \<open>C10: refreshing. On a store that answers, a pair of tokens is given exactly for an accepted token whose
  use is refreshing, whose user still exists and is the one the caller names, if it names one; and the tokens are
  signed for that user as the table has it now, under the algorithm of the presented token. In particular an
  access token, and a token of a deleted user, never refresh.\<close>

theorem refresh_correct:
  assumes "user_store G rows base healthy L" "healthy db"
  shows "AuthServer_RefreshToken reg ovf G L J clock E db userID rt = Some (Inr (auth_response t)) \<longleftrightarrow>
    (\<exists>c u alg. rt \<noteq> [] \<and> ju_Parse J clock rt = Some (Inr c) \<and> TokenUse c = TokenUseRefresh \<and>
      (userID = [] \<or> uuid_Parse L userID = Some (UserID c)) \<and> rows db (UserID c) = Some u \<and>
      AlgorithmFromToken reg ovf rt = Inr alg \<and> signs_pair J E u alg t)"
  unfolding AuthServer_Refresh_iff using user_store.refresh_granted [OF assms] .

theorem refresh_correct_witness:
  "\<forall>t. AuthServer_RefreshToken (init_registry sample_crypto Map.empty) (\<lambda>_. 0) mem_users ref_libs hs_jwt hs_clock (hs_env, hs_env) one_user [] hs_token
     \<noteq> Some (Inr (auth_response t))"
  unfolding refresh_correct [OF mem_user.user_store_axioms TrueI]
  by (auto simp: hs_jwt_def multiAlg_JwtUtil_def hs_parsed claims_of_payload_def hs_payload_def use_or_access_def TokenUseAccess_def TokenUseRefresh_def)

end
