(* ===== verification/TaskService.thy ===== *)
theory TaskService
  imports Store
begin

text \<open>
  The todo service (\<^verbatim>\<open>todo-service/internal\<close>): the task entity and its repository, the five methods
  of the service with their transactions, the gRPC handlers and the interceptor in front of them.
  The store and the third-party packages are arguments; the locale \<open>task_store\<close> is their contract.
\<close>

section \<open>Entity and repository\<close>

record Task =
  t_Id :: uuid
  t_Title :: string
  t_Description :: string
  t_Status :: string
  t_DueDate :: i64
  t_UserId :: uuid
  t_CreatedAt :: i64
  t_UpdatedAt :: i64

text \<open>What the tags of the struct ask of the store: the defaults of a created row and the
  assignment of \<^verbatim>\<open>Updates\<close> with a struct, which leaves a column alone when the field is zero
  and always sets the time of update.\<close>

definition task_stamp :: "uuid \<Rightarrow> i64 \<Rightarrow> Task \<Rightarrow> Task" where
  "task_stamp k now t = t\<lparr>t_Id := (if t_Id t = 0 then k else t_Id t),
     t_CreatedAt := (if t_CreatedAt t = 0 then now else t_CreatedAt t),
     t_UpdatedAt := (if t_UpdatedAt t = 0 then now else t_UpdatedAt t)\<rparr>"

definition task_merge :: "i64 \<Rightarrow> Task \<Rightarrow> Task \<Rightarrow> Task" where
  "task_merge now new old = old\<lparr>
     t_Title := (if t_Title new = [] then t_Title old else t_Title new),
     t_Description := (if t_Description new = [] then t_Description old else t_Description new),
     t_Status := (if t_Status new = [] then t_Status old else t_Status new),
     t_DueDate := (if t_DueDate new = 0 then t_DueDate old else t_DueDate new),
     t_UserId := (if t_UserId new = 0 then t_UserId old else t_UserId new),
     t_CreatedAt := (if t_CreatedAt new = 0 then t_CreatedAt old else t_CreatedAt new),
     t_UpdatedAt := now\<rparr>"

definition zero_task :: Task where
  "zero_task = \<lparr>t_Id = 0, t_Title = [], t_Description = [], t_Status = [], t_DueDate = 0, t_UserId = 0,
     t_CreatedAt = 0, t_UpdatedAt = 0\<rparr>"

definition TaskRepository_Create :: "('s, Task) gorm \<Rightarrow> 's \<Rightarrow> Task \<Rightarrow> db_error option \<times> 's" where
  "TaskRepository_Create G tx task = CreateRow G tx task"

definition TaskRepository_Update :: "('s, Task) gorm \<Rightarrow> 's \<Rightarrow> Task \<Rightarrow> db_error option \<times> 's" where
  "TaskRepository_Update G tx task =
     Updates G tx (\<lambda>r. t_Id r = t_Id task \<and> t_UserId r = t_UserId task) task"

definition TaskRepository_Delete :: "('s, Task) gorm \<Rightarrow> 's \<Rightarrow> Task \<Rightarrow> db_error option \<times> 's" where
  "TaskRepository_Delete G tx task =
     DeleteRows G tx (\<lambda>r. t_Id r = t_Id task \<and> t_UserId r = t_UserId task)"

definition TaskRepository_GetById :: "('s, Task) gorm \<Rightarrow> 's \<Rightarrow> uuid \<Rightarrow> uuid \<Rightarrow> (db_error, Task) result" where
  "TaskRepository_GetById G tx i userId = First G tx (\<lambda>r. t_Id r = i \<and> t_UserId r = userId)"

definition TaskRepository_GetAll :: "('s, Task) gorm \<Rightarrow> 's \<Rightarrow> uuid \<Rightarrow> (db_error, Task list) result" where
  "TaskRepository_GetAll G tx userId = Find G tx (\<lambda>r. t_UserId r = userId)"

section \<open>Messages\<close>

record 'ts TaskModel =
  m_Id :: string
  m_Title :: string
  m_Description :: string
  m_Status :: string
  m_DueDate :: "'ts option"
  m_UserId :: string
  m_CreatedAt :: "'ts option"
  m_UpdatedAt :: "'ts option"

record 'ts CreateTaskRequest =
  c_UserId :: string
  c_Title :: string
  c_Description :: string
  c_Status :: string
  c_DueDate :: "'ts option"

record 'ts UpdateTaskRequest =
  p_Id :: string
  p_UserId :: string
  p_Title :: string
  p_Description :: string
  p_Status :: string
  p_DueDate :: "'ts option"

record DeleteTaskRequest =
  d_Id :: string
  d_UserId :: string

record GetTaskRequest =
  g_Id :: string
  g_UserId :: string

record GetAllTaskRequest =
  a_UserId :: string

section \<open>Service\<close>

definition unixMilliThreshold :: i64 where "unixMilliThreshold = 1000000000000"

definition taskTimestamp :: "'ts libs \<Rightarrow> i64 \<Rightarrow> 'ts option" where
  "taskTimestamp L v =
     (if sint v \<le> 0 then None
      else if sint v < sint unixMilliThreshold then Some (timestamppb_New L (time_Unix v 0))
      else Some (timestamppb_New L (time_UnixMilli v)))"

definition dueDateTimestamp :: "'ts libs \<Rightarrow> i64 \<Rightarrow> 'ts option" where
  "dueDateTimestamp L v = (if sint v \<le> 0 then None else Some (timestamppb_New L (time_UnixMilli v)))"

definition toTaskModel :: "'ts libs \<Rightarrow> Task \<Rightarrow> string \<Rightarrow> 'ts TaskModel" where
  "toTaskModel L task userId = \<lparr>m_Id = uuid_String L (t_Id task), m_Title = t_Title task,
     m_Description = t_Description task, m_Status = t_Status task,
     m_DueDate = dueDateTimestamp L (t_DueDate task), m_UserId = userId,
     m_CreatedAt = taskTimestamp L (t_CreatedAt task), m_UpdatedAt = taskTimestamp L (t_UpdatedAt task)\<rparr>"

definition TaskService_Create :: "('s, Task) gorm \<Rightarrow> 'ts libs \<Rightarrow> 's \<Rightarrow> 'ts CreateTaskRequest
    \<Rightarrow> (status, unit) result \<times> 's" where
  "TaskService_Create G L db request = with_tx G db (\<lambda>tx.
     case uuid_Parse L (c_UserId request) of
       None \<Rightarrow> (Inl (status_Error codes_InvalidArgument ''invalid user id''), tx)
     | Some parsedUserId \<Rightarrow>
       let task = zero_task\<lparr>t_Title := c_Title request, t_Description := c_Description request,
             t_Status := c_Status request, t_UserId := parsedUserId\<rparr>;
           task = (case c_DueDate request of None \<Rightarrow> task
             | Some d \<Rightarrow> task\<lparr>t_DueDate := UnixMilli (AsTime L d)\<rparr>)
       in case TaskRepository_Create G tx task of
            (Some e, tx) \<Rightarrow> (Inl (status_Error codes_Internal ''failed to create task''), tx)
          | (None, tx) \<Rightarrow> commit_tx G tx)"

definition TaskService_Update :: "('s, Task) gorm \<Rightarrow> 'ts libs \<Rightarrow> 's \<Rightarrow> 'ts UpdateTaskRequest
    \<Rightarrow> (status, unit) result \<times> 's" where
  "TaskService_Update G L db request = with_tx G db (\<lambda>tx.
     case uuid_Parse L (p_Id request) of
       None \<Rightarrow> (Inl (status_Error codes_InvalidArgument ''invalid task id''), tx)
     | Some parsedTaskId \<Rightarrow>
     (case uuid_Parse L (p_UserId request) of
       None \<Rightarrow> (Inl (status_Error codes_InvalidArgument ''invalid user id''), tx)
     | Some parsedUserId \<Rightarrow>
     (case TaskRepository_GetById G tx parsedTaskId parsedUserId of
       Inl e \<Rightarrow> (Inl (status_Error codes_NotFound ''task not found''), tx)
     | Inr task \<Rightarrow>
       let task = task\<lparr>t_Title := p_Title request, t_Description := p_Description request,
             t_Status := p_Status request\<rparr>;
           task = (case p_DueDate request of None \<Rightarrow> task
             | Some d \<Rightarrow> task\<lparr>t_DueDate := UnixMilli (AsTime L d)\<rparr>)
       in case TaskRepository_Update G tx task of
            (Some e, tx) \<Rightarrow> (Inl (status_Error codes_Internal ''failed to update task''), tx)
          | (None, tx) \<Rightarrow> commit_tx G tx)))"

definition TaskService_Delete :: "('s, Task) gorm \<Rightarrow> 'ts libs \<Rightarrow> 's \<Rightarrow> DeleteTaskRequest
    \<Rightarrow> (status, unit) result \<times> 's" where
  "TaskService_Delete G L db request = with_tx G db (\<lambda>tx.
     case uuid_Parse L (d_Id request) of
       None \<Rightarrow> (Inl (status_Error codes_InvalidArgument ''invalid task id''), tx)
     | Some parsedTaskId \<Rightarrow>
     (case uuid_Parse L (d_UserId request) of
       None \<Rightarrow> (Inl (status_Error codes_InvalidArgument ''invalid user id''), tx)
     | Some parsedUserId \<Rightarrow>
     (case TaskRepository_GetById G tx parsedTaskId parsedUserId of
       Inl e \<Rightarrow> (Inl (status_Error codes_NotFound ''task not found''), tx)
     | Inr task \<Rightarrow>
       (case TaskRepository_Delete G tx task of
          (Some e, tx) \<Rightarrow> (Inl (status_Error codes_Internal ''failed to delete task''), tx)
        | (None, tx) \<Rightarrow> commit_tx G tx))))"

definition TaskService_GetById :: "('s, Task) gorm \<Rightarrow> 'ts libs \<Rightarrow> 's \<Rightarrow> string \<Rightarrow> string
    \<Rightarrow> (status, 'ts TaskModel) result" where
  "TaskService_GetById G L db taskId userId =
     (case uuid_Parse L taskId of
       None \<Rightarrow> Inl (status_Error codes_InvalidArgument ''invalid task id'')
     | Some parsedTaskId \<Rightarrow>
     (case uuid_Parse L userId of
       None \<Rightarrow> Inl (status_Error codes_InvalidArgument ''invalid user id'')
     | Some parsedUserId \<Rightarrow>
     (case TaskRepository_GetById G db parsedTaskId parsedUserId of
       Inl e \<Rightarrow> Inl (status_Error codes_NotFound ''task not found'')
     | Inr task \<Rightarrow> Inr (toTaskModel L task userId))))"

definition TaskService_GetAll :: "('s, Task) gorm \<Rightarrow> 'ts libs \<Rightarrow> 's \<Rightarrow> string
    \<Rightarrow> (status, 'ts TaskModel list) result" where
  "TaskService_GetAll G L db userId =
     (case uuid_Parse L userId of
       None \<Rightarrow> Inl (status_Error codes_InvalidArgument ''invalid user id'')
     | Some parsedUserId \<Rightarrow>
     (case TaskRepository_GetAll G db parsedUserId of
       Inl e \<Rightarrow> Inl (status_Error codes_Internal ''internal server error'')
     | Inr tasks \<Rightarrow> Inr (fold (\<lambda>task acc. acc @ [toTaskModel L task userId]) tasks [])))"

section \<open>Server and interceptor\<close>

text \<open>The parts of a \<^verbatim>\<open>context.Context\<close> the service reads: the incoming metadata and the value
  under \<^verbatim>\<open>AuthContextKey\<close>.\<close>

record ctx =
  incoming :: "(string \<Rightarrow> string list) option"
  auth_value :: "string option"

definition getUserID :: "ctx \<Rightarrow> (status, string) result" where
  "getUserID ctx = (case auth_value ctx of
      None \<Rightarrow> Inl (status_Error codes_Unauthenticated ''user not authenticated'')
    | Some userID \<Rightarrow> if userID = [] then Inl (status_Error codes_Unauthenticated ''user not authenticated'')
        else Inr userID)"

definition TaskServer_Create :: "('s, Task) gorm \<Rightarrow> 'ts libs \<Rightarrow> ctx \<Rightarrow> 'ts CreateTaskRequest \<Rightarrow> 's
    \<Rightarrow> (status, unit) result \<times> 's" where
  "TaskServer_Create G L ctx request db = (case getUserID ctx of
      Inl e \<Rightarrow> (Inl e, db)
    | Inr userID \<Rightarrow> TaskService_Create G L db (request\<lparr>c_UserId := userID\<rparr>))"

definition TaskServer_Update :: "('s, Task) gorm \<Rightarrow> 'ts libs \<Rightarrow> ctx \<Rightarrow> 'ts UpdateTaskRequest \<Rightarrow> 's
    \<Rightarrow> (status, unit) result \<times> 's" where
  "TaskServer_Update G L ctx request db = (case getUserID ctx of
      Inl e \<Rightarrow> (Inl e, db)
    | Inr userID \<Rightarrow> TaskService_Update G L db (request\<lparr>p_UserId := userID\<rparr>))"

definition TaskServer_Delete :: "('s, Task) gorm \<Rightarrow> 'ts libs \<Rightarrow> ctx \<Rightarrow> DeleteTaskRequest \<Rightarrow> 's
    \<Rightarrow> (status, unit) result \<times> 's" where
  "TaskServer_Delete G L ctx request db = (case getUserID ctx of
      Inl e \<Rightarrow> (Inl e, db)
    | Inr userID \<Rightarrow> TaskService_Delete G L db (request\<lparr>d_UserId := userID\<rparr>))"

definition TaskServer_Get :: "('s, Task) gorm \<Rightarrow> 'ts libs \<Rightarrow> ctx \<Rightarrow> GetTaskRequest \<Rightarrow> 's
    \<Rightarrow> (status, 'ts TaskModel) result" where
  "TaskServer_Get G L ctx request db = (case getUserID ctx of
      Inl e \<Rightarrow> Inl e
    | Inr userID \<Rightarrow> let request = request\<lparr>g_UserId := userID\<rparr>
        in TaskService_GetById G L db (g_Id request) userID)"

definition TaskServer_GetAll :: "('s, Task) gorm \<Rightarrow> 'ts libs \<Rightarrow> ctx \<Rightarrow> GetAllTaskRequest \<Rightarrow> 's
    \<Rightarrow> (status, 'ts TaskModel list) result" where
  "TaskServer_GetAll G L ctx request db = (case getUserID ctx of
      Inl e \<Rightarrow> Inl e
    | Inr userID \<Rightarrow> TaskService_GetAll G L db userID)"

text \<open>The interceptor the server is started with; its result is a status or the handler's answer.\<close>

definition AuthInterceptor :: "'ts libs \<Rightarrow> ctx \<Rightarrow> (ctx \<Rightarrow> 's \<Rightarrow> (status, 'a) result \<times> 's) \<Rightarrow> 's
    \<Rightarrow> (status, 'a) result \<times> 's" where
  "AuthInterceptor L ctx handler db = (case incoming ctx of
      None \<Rightarrow> (Inl (status_Error codes_Unauthenticated ''metadata not provided''), db)
    | Some md \<Rightarrow> (case md ''x-user-id'' of
        [] \<Rightarrow> (Inl (status_Error codes_Unauthenticated ''x-user-id not provided''), db)
      | userID # _ \<Rightarrow> (case uuid_Parse L userID of
          None \<Rightarrow> (Inl (status_Error codes_Unauthenticated ''invalid x-user-id''), db)
        | Some _ \<Rightarrow> handler (ctx\<lparr>auth_value := Some userID\<rparr>) db)))"

text \<open>The five methods the server registers, dispatched as gRPC does.\<close>

datatype 'ts task_call =
    CallCreate "'ts CreateTaskRequest"
  | CallUpdate "'ts UpdateTaskRequest"
  | CallDelete DeleteTaskRequest
  | CallGet GetTaskRequest
  | CallGetAll GetAllTaskRequest

datatype 'ts task_reply =
    Empty
  | TaskResponse "'ts TaskModel"
  | ListTaskResponse "'ts TaskModel list"

fun task_handler :: "('s, Task) gorm \<Rightarrow> 'ts libs \<Rightarrow> 'ts task_call \<Rightarrow> ctx \<Rightarrow> 's
    \<Rightarrow> (status, 'ts task_reply) result \<times> 's" where
  "task_handler G L (CallCreate q) ctx db = apfst (map_sum id (\<lambda>_. Empty)) (TaskServer_Create G L ctx q db)"
| "task_handler G L (CallUpdate q) ctx db = apfst (map_sum id (\<lambda>_. Empty)) (TaskServer_Update G L ctx q db)"
| "task_handler G L (CallDelete q) ctx db = apfst (map_sum id (\<lambda>_. Empty)) (TaskServer_Delete G L ctx q db)"
| "task_handler G L (CallGet q) ctx db = (map_sum id TaskResponse (TaskServer_Get G L ctx q db), db)"
| "task_handler G L (CallGetAll q) ctx db = (map_sum id ListTaskResponse (TaskServer_GetAll G L ctx q db), db)"

definition task_serve :: "('s, Task) gorm \<Rightarrow> 'ts libs \<Rightarrow> ctx \<Rightarrow> 'ts task_call \<Rightarrow> 's
    \<Rightarrow> (status, 'ts task_reply) result \<times> 's" where
  "task_serve G L ctx call db = AuthInterceptor L ctx (task_handler G L call) db"

section \<open>Specification\<close>

text \<open>What a call may do to the table, seen as a map from identifiers to tasks, for a caller with
  identifier \<open>u\<close> spelt \<open>s\<close>. Every rule but the first four successes keeps the table; \<open>h\<close> says
  that the store answers.\<close>

definition due_of :: "'ts libs \<Rightarrow> 'ts option \<Rightarrow> i64" where
  "due_of L d = (case d of None \<Rightarrow> 0 | Some d \<Rightarrow> UnixMilli (AsTime L d))"

definition created_task :: "'ts libs \<Rightarrow> uuid \<Rightarrow> 'ts CreateTaskRequest \<Rightarrow> uuid \<Rightarrow> i64 \<Rightarrow> Task" where
  "created_task L u q k now = \<lparr>t_Id = k, t_Title = c_Title q, t_Description = c_Description q, t_Status = c_Status q,
     t_DueDate = due_of L (c_DueDate q), t_UserId = u, t_CreatedAt = now, t_UpdatedAt = now\<rparr>"

definition updated_task :: "'ts libs \<Rightarrow> 'ts UpdateTaskRequest \<Rightarrow> i64 \<Rightarrow> Task \<Rightarrow> Task" where
  "updated_task L q now old = old\<lparr>
     t_Title := (if p_Title q = [] then t_Title old else p_Title q),
     t_Description := (if p_Description q = [] then t_Description old else p_Description q),
     t_Status := (if p_Status q = [] then t_Status old else p_Status q),
     t_DueDate := (if due_of L (p_DueDate q) = 0 then t_DueDate old else due_of L (p_DueDate q)),
     t_UpdatedAt := now\<rparr>"

fun call_id :: "'ts task_call \<Rightarrow> string option" where
  "call_id (CallUpdate q) = Some (p_Id q)"
| "call_id (CallDelete q) = Some (d_Id q)"
| "call_id (CallGet q) = Some (g_Id q)"
| "call_id _ = None"

fun writes :: "'ts task_call \<Rightarrow> bool" where
  "writes (CallCreate q) = True"
| "writes (CallUpdate q) = True"
| "writes _ = False"

inductive task_step :: "'ts libs \<Rightarrow> bool \<Rightarrow> uuid \<Rightarrow> string \<Rightarrow> 'ts task_call \<Rightarrow> (uuid \<rightharpoonup> Task)
    \<Rightarrow> (status, 'ts task_reply) result \<Rightarrow> (uuid \<rightharpoonup> Task) \<Rightarrow> bool" for L h u s where
  created: "m k = None \<Longrightarrow> task_step L h u s (CallCreate q) m (Inr Empty) (m(k \<mapsto> created_task L u q k now))"
| updated: "\<lbrakk>uuid_Parse L (p_Id q) = Some k; m k = Some old; t_UserId old = u\<rbrakk> \<Longrightarrow>
    task_step L h u s (CallUpdate q) m (Inr Empty) (m(k \<mapsto> updated_task L q now old))"
| deleted: "\<lbrakk>uuid_Parse L (d_Id q) = Some k; m k = Some old; t_UserId old = u\<rbrakk> \<Longrightarrow>
    task_step L h u s (CallDelete q) m (Inr Empty) (m(k := None))"
| got: "\<lbrakk>uuid_Parse L (g_Id q) = Some k; m k = Some t; t_UserId t = u\<rbrakk> \<Longrightarrow>
    task_step L h u s (CallGet q) m (Inr (TaskResponse (toTaskModel L t s))) m"
| listed: "\<lbrakk>distinct ts; set ts = {t \<in> ran m. t_UserId t = u}\<rbrakk> \<Longrightarrow>
    task_step L h u s (CallGetAll q) m (Inr (ListTaskResponse (map (\<lambda>t. toTaskModel L t s) ts))) m"
| bad_id: "\<lbrakk>call_id call = Some i; uuid_Parse L i = None\<rbrakk> \<Longrightarrow>
    task_step L h u s call m (Inl (status_Error codes_InvalidArgument ''invalid task id'')) m"
| missing: "\<lbrakk>call_id call = Some i; uuid_Parse L i = Some k; \<And>t. h \<Longrightarrow> m k = Some t \<Longrightarrow> t_UserId t \<noteq> u\<rbrakk> \<Longrightarrow>
    task_step L h u s call m (Inl (status_Error codes_NotFound ''task not found'')) m"
| internal: "\<lbrakk>h \<Longrightarrow> writes call; Code e = codes_Internal\<rbrakk> \<Longrightarrow> task_step L h u s call m (Inl e) m"

inductive_cases task_step_error [elim]: "task_step L h u s call m (Inl e) m'"

section \<open>The service implements the specification\<close>

locale task_store = gorm_table G rows base healthy t_Id task_stamp task_merge
  for G :: "('s, Task) gorm" and rows base :: "'s \<Rightarrow> uuid \<rightharpoonup> Task" and healthy +
  fixes L :: "'ts libs"
  assumes libs: "libs_ok L"
begin

lemma First_id:
  assumes "First G tx (\<lambda>r. t_Id r = i \<and> t_UserId r = u) = Inr task"
  shows "rows tx i = Some task" "t_UserId task = u" "t_Id task = i"
  using first_ok [OF assms] keyed by (auto simp: ran_def)

lemma First_id_none:
  assumes "First G tx (\<lambda>r. t_Id r = i \<and> t_UserId r = u) = Inl e" "healthy tx" "rows tx i = Some t"
  shows "t_UserId t \<noteq> u"
proof
  assume "t_UserId t = u"
  then have "\<exists>r'. First G tx (\<lambda>r. t_Id r = i \<and> t_UserId r = u) = Inr r'"
    using assms(2,3) keyed by (intro first_healthy [of tx t]) (auto intro: ranI)
  then show False using assms(1) by simp
qed

lemma Updates_one:
  assumes "Updates G tx (\<lambda>r. t_Id r = i \<and> t_UserId r = u) new = (None, tx')"
    and "rows tx i = Some old" "t_UserId old = u"
  obtains now where "rows tx' = (rows tx)(i \<mapsto> task_merge now new old)"
proof -
  from updates_rows [OF assms(1)] obtain now where
    now: "rows tx' k = map_option (\<lambda>old. if t_Id old = i \<and> t_UserId old = u then task_merge now new old else old) (rows tx k)" for k
    by blast
  have "rows tx' k = ((rows tx)(i \<mapsto> task_merge now new old)) k" for k
  proof (cases "k = i")
    case True
    then show ?thesis by (simp add: now assms keyed [OF assms(2)])
  next
    case False
    then have "t_Id r \<noteq> i" if "rows tx k = Some r" for r using keyed [OF that] by simp
    then show ?thesis using False by (cases "rows tx k") (simp_all add: now)
  qed
  then show ?thesis by (intro that [of now]) auto
qed

lemma DeleteRows_one:
  assumes "DeleteRows G tx (\<lambda>r. t_Id r = i \<and> t_UserId r = u) = (None, tx')"
    and "rows tx i = Some old" "t_UserId old = u"
  shows "rows tx' = (rows tx)(i := None)"
proof
  fix k show "rows tx' k = ((rows tx)(i := None)) k"
  proof (cases "k = i")
    case True
    then show ?thesis by (simp add: delete_rows [OF assms(1)] assms keyed [OF assms(2)])
  next
    case False
    then have "t_Id r \<noteq> i" if "rows tx k = Some r" for r using keyed [OF that] by simp
    then show ?thesis using False by (cases "rows tx k") (simp_all add: delete_rows [OF assms(1)])
  qed
qed

lemma TaskService_Create_refines:
  assumes "TaskService_Create G L db q = (r, db')" "uuid_Parse L (c_UserId q) = Some u"
  shows "task_step L h u s (CallCreate (q\<lparr>c_UserId := x\<rparr>)) (rows db) (map_sum id (\<lambda>_. Empty) r) (rows db')"
proof -
  let ?task = "zero_task\<lparr>t_Title := c_Title q, t_Description := c_Description q, t_Status := c_Status q,
    t_DueDate := due_of L (c_DueDate q), t_UserId := u\<rparr>"
  have "with_tx G db (\<lambda>tx. case CreateRow G (Begin G db) ?task of
      (Some e, tx) \<Rightarrow> (Inl (status_Error codes_Internal ''failed to create task''), tx) | (None, tx) \<Rightarrow> commit_tx G tx) = (r, db')"
    using assms(1) by (cases "c_DueDate q")
      (simp_all add: assms(2) TaskService_Create_def TaskRepository_Create_def due_of_def zero_task_def with_tx_def)
  moreover have "base (snd (CreateRow G (Begin G db) ?task)) = rows db"
    by (simp add: begin_base)
  ultimately show ?thesis
  proof (cases rule: write_commit)
    case (ok tx)
    from create_rows [OF ok(1)] obtain k t where
      "let r' = task_stamp k t ?task in rows db (t_Id r') = None \<and> rows tx = (rows db)(t_Id r' \<mapsto> r')"
      by (auto simp: begin_rows)
    moreover have "task_stamp k t ?task = created_task L u (q\<lparr>c_UserId := x\<rparr>) k t"
      by (simp add: task_stamp_def created_task_def zero_task_def)
    moreover have "t_Id (created_task L u (q\<lparr>c_UserId := x\<rparr>) k t) = k" by (simp add: created_task_def)
    ultimately have "rows db k = None" "rows tx = (rows db)(k \<mapsto> created_task L u (q\<lparr>c_UserId := x\<rparr>) k t)"
      by (simp_all add: Let_def)
    then show ?thesis using ok by (simp add: created)
  next
    case (err e)
    then show ?thesis by (auto simp: status_Error_def intro!: internal)
  qed
qed

lemma TaskService_Update_refines:
  assumes "TaskService_Update G L db q = (r, db')" "uuid_Parse L (p_UserId q) = Some u" and h: "h \<longleftrightarrow> healthy db"
  shows "task_step L h u s (CallUpdate (q\<lparr>p_UserId := x\<rparr>)) (rows db) (map_sum id (\<lambda>_. Empty) r) (rows db')"
proof (cases "uuid_Parse L (p_Id q)")
  case None
  then show ?thesis using assms
    by (auto simp: TaskService_Update_def with_tx_def rollback_rows begin_base intro!: bad_id)
next
  case (Some k)
  show ?thesis
  proof (cases "TaskRepository_GetById G (Begin G db) k u")
    case (Inl e)
    moreover have "t_UserId t \<noteq> u" if h "rows db k = Some t" for t
      using First_id_none [of "Begin G db" k u e t] Inl that h begin_healthy
      by (simp add: TaskRepository_GetById_def begin_rows)
    ultimately show ?thesis using assms(1,2) Some
      by (auto simp: TaskService_Update_def with_tx_def rollback_rows begin_base intro!: missing)
  next
    case (Inr old)
    note old = First_id [OF Inr [unfolded TaskRepository_GetById_def]]
    let ?new = "old\<lparr>t_Title := p_Title q, t_Description := p_Description q, t_Status := p_Status q,
      t_DueDate := (if p_DueDate q = None then t_DueDate old else due_of L (p_DueDate q))\<rparr>"
    let ?w = "Updates G (Begin G db) (\<lambda>r. t_Id r = k \<and> t_UserId r = u) ?new"
    have "with_tx G db (\<lambda>tx. case ?w of (Some e, tx) \<Rightarrow> (Inl (status_Error codes_Internal ''failed to update task''), tx)
        | (None, tx) \<Rightarrow> commit_tx G tx) = (r, db')"
      using assms(1) Some Inr old(2,3) by (cases "p_DueDate q")
        (simp_all add: assms(2) TaskService_Update_def TaskRepository_Update_def due_of_def with_tx_def)
    moreover have "base (snd ?w) = rows db" by (simp add: begin_base)
    ultimately show ?thesis
    proof (cases rule: write_commit)
      case (ok tx)
      from Updates_one [OF ok(1) old(1,2)] obtain now where "rows tx = (rows db)(k \<mapsto> task_merge now ?new old)"
        by (auto simp: begin_rows)
      moreover have "task_merge now ?new old = updated_task L (q\<lparr>p_UserId := x\<rparr>) now old"
        by (simp add: task_merge_def updated_task_def due_of_def)
      ultimately show ?thesis using ok Some old(1,2) by (simp add: begin_rows updated)
    next
      case (err e)
      then show ?thesis by (auto simp: status_Error_def intro!: internal)
    qed
  qed
qed

lemma TaskService_Delete_refines:
  assumes "TaskService_Delete G L db q = (r, db')" "uuid_Parse L (d_UserId q) = Some u" and h: "h \<longleftrightarrow> healthy db"
  shows "task_step L h u s (CallDelete (q\<lparr>d_UserId := x\<rparr>)) (rows db) (map_sum id (\<lambda>_. Empty) r) (rows db')"
proof (cases "uuid_Parse L (d_Id q)")
  case None
  then show ?thesis using assms
    by (auto simp: TaskService_Delete_def with_tx_def rollback_rows begin_base intro!: bad_id)
next
  case (Some k)
  show ?thesis
  proof (cases "TaskRepository_GetById G (Begin G db) k u")
    case (Inl e)
    moreover have "t_UserId t \<noteq> u" if h "rows db k = Some t" for t
      using First_id_none [of "Begin G db" k u e t] Inl that h begin_healthy
      by (simp add: TaskRepository_GetById_def begin_rows)
    ultimately show ?thesis using assms(1,2) Some
      by (auto simp: TaskService_Delete_def with_tx_def rollback_rows begin_base intro!: missing)
  next
    case (Inr old)
    note old = First_id [OF Inr [unfolded TaskRepository_GetById_def]]
    let ?w = "DeleteRows G (Begin G db) (\<lambda>r. t_Id r = k \<and> t_UserId r = u)"
    have "with_tx G db (\<lambda>tx. case ?w of (Some e, tx) \<Rightarrow> (Inl (status_Error codes_Internal ''failed to delete task''), tx)
        | (None, tx) \<Rightarrow> commit_tx G tx) = (r, db')"
      using assms(1) Some Inr old(2,3)
      by (simp add: assms(2) TaskService_Delete_def TaskRepository_Delete_def with_tx_def)
    moreover have "base (snd ?w) = rows db" by (simp add: begin_base)
    ultimately show ?thesis
    proof (cases rule: write_commit)
      case (ok tx)
      then show ?thesis using DeleteRows_one [OF ok(1) old(1,2)] Some old(1,2) by (simp add: begin_rows deleted)
    next
      case (err e)
      have "\<not> healthy db" 
      proof
        assume "healthy db"
        from delete_healthy [OF begin_healthy [OF this], of "\<lambda>r. t_Id r = k \<and> t_UserId r = u"] err(4)
        show False by auto
      qed
      with err show ?thesis by (auto simp: status_Error_def h intro!: internal)
    qed
  qed
qed

lemma TaskService_GetById_refines:
  assumes "uuid_Parse L s = Some u" and h: "h \<longleftrightarrow> healthy db"
  shows "task_step L h u s (CallGet (q\<lparr>g_UserId := x\<rparr>)) (rows db)
    (map_sum id TaskResponse (TaskService_GetById G L db (g_Id q) s)) (rows db)"
proof (cases "uuid_Parse L (g_Id q)")
  case None
  then show ?thesis by (auto simp: TaskService_GetById_def intro!: bad_id)
next
  case (Some k)
  show ?thesis
  proof (cases "TaskRepository_GetById G db k u")
    case (Inl e)
    then have "t_UserId t \<noteq> u" if h "rows db k = Some t" for t
      using First_id_none [of db k u e t] that h by (simp add: TaskRepository_GetById_def)
    then show ?thesis using assms(1) Some Inl by (auto simp: TaskService_GetById_def intro!: missing)
  next
    case (Inr t)
    note t = First_id [OF Inr [unfolded TaskRepository_GetById_def]]
    then show ?thesis using assms(1) Some Inr by (auto simp: TaskService_GetById_def intro!: got)
  qed
qed

lemma TaskService_GetAll_refines:
  assumes "uuid_Parse L s = Some u" and h: "h \<longleftrightarrow> healthy db"
  shows "task_step L h u s (CallGetAll q) (rows db) (map_sum id ListTaskResponse (TaskService_GetAll G L db s)) (rows db)"
proof (cases "TaskRepository_GetAll G db u")
  case (Inl e)
  then have "\<not> h" using find_healthy [of db "\<lambda>r. t_UserId r = u"] h by (auto simp: TaskRepository_GetAll_def)
  then show ?thesis using assms(1) Inl by (auto simp: TaskService_GetAll_def status_Error_def intro!: internal)
next
  case (Inr ts)
  then show ?thesis using assms(1) find_ok [of db _ ts]
    by (auto simp: TaskService_GetAll_def TaskRepository_GetAll_def intro!: listed)
qed

end

text \<open>The caller the interceptor finds in the metadata: the string sent and the identifier it denotes.\<close>

definition caller :: "'ts libs \<Rightarrow> ctx \<Rightarrow> (string \<times> uuid) option" where
  "caller L ctx = (case incoming ctx of None \<Rightarrow> None | Some md \<Rightarrow>
     (case md ''x-user-id'' of [] \<Rightarrow> None | s # _ \<Rightarrow> map_option (Pair s) (uuid_Parse L s)))"

lemma task_serve_refused:
  "caller L ctx = None \<Longrightarrow> \<exists>e. task_serve G L ctx call db = (Inl e, db) \<and> Code e = codes_Unauthenticated"
  by (auto simp: caller_def task_serve_def AuthInterceptor_def status_Error_def split: option.splits list.splits)

context task_store
begin

lemma task_serve_accepted:
  assumes "caller L ctx = Some (s, u)"
  shows "task_serve G L ctx call db = task_handler G L call (ctx\<lparr>auth_value := Some s\<rparr>) db"
    "uuid_Parse L s = Some u" "getUserID (ctx\<lparr>auth_value := Some s\<rparr>) = Inr s"
  using assms libs by (auto simp: caller_def task_serve_def AuthInterceptor_def getUserID_def split: option.splits list.splits)

lemma task_serve_step:
  assumes "caller L ctx = Some (s, u)" "task_serve G L ctx call db = (r, db')"
  shows "task_step L (healthy db) u s call (rows db) r (rows db')"
proof -
  note acc = task_serve_accepted [OF assms(1)]
  show ?thesis
  proof (cases call)
    case (CallCreate q)
    obtain r0 where "TaskService_Create G L db (q\<lparr>c_UserId := s\<rparr>) = (r0, db')" "r = map_sum id (\<lambda>_. Empty) r0"
      using assms(2) CallCreate by (auto simp: acc TaskServer_Create_def apfst_def map_prod_def split: prod.splits)
    then show ?thesis
      using TaskService_Create_refines [of db "q\<lparr>c_UserId := s\<rparr>" r0 db' u "healthy db" s "c_UserId q"] acc(2)
      by (simp add: CallCreate)
  next
    case (CallUpdate q)
    obtain r0 where "TaskService_Update G L db (q\<lparr>p_UserId := s\<rparr>) = (r0, db')" "r = map_sum id (\<lambda>_. Empty) r0"
      using assms(2) CallUpdate by (auto simp: acc TaskServer_Update_def apfst_def map_prod_def split: prod.splits)
    then show ?thesis
      using TaskService_Update_refines [of db "q\<lparr>p_UserId := s\<rparr>" r0 db' u "healthy db" s "p_UserId q"] acc(2)
      by (simp add: CallUpdate)
  next
    case (CallDelete q)
    obtain r0 where "TaskService_Delete G L db (q\<lparr>d_UserId := s\<rparr>) = (r0, db')" "r = map_sum id (\<lambda>_. Empty) r0"
      using assms(2) CallDelete by (auto simp: acc TaskServer_Delete_def apfst_def map_prod_def split: prod.splits)
    then show ?thesis
      using TaskService_Delete_refines [of db "q\<lparr>d_UserId := s\<rparr>" r0 db' u "healthy db" s "d_UserId q"] acc(2)
      by (simp add: CallDelete)
  next
    case (CallGet q)
    then show ?thesis using assms(2) TaskService_GetById_refines [where q = q and x = "g_UserId q", OF acc(2) refl]
      by (auto simp: acc TaskServer_Get_def)
  next
    case (CallGetAll q)
    then show ?thesis using assms(2) TaskService_GetAll_refines [where q = q, OF acc(2) refl]
      by (auto simp: acc TaskServer_GetAll_def)
  qed
qed

end

section \<open>Properties\<close>

text \<open>The reference table is such a store.\<close>

definition mem_tasks :: "(Task mem, Task) gorm" where
  "mem_tasks = mem_gorm (\<lambda>n. of_nat (Suc n)) t_Id task_stamp task_merge (\<lambda>_. True)"

interpretation mem_task: task_store mem_tasks "\<lambda>s. mem_rows t_Id (tbl s)" "\<lambda>s. mem_rows t_Id (saved s)" "\<lambda>s. True" ref_libs
  unfolding mem_tasks_def
  by (intro task_store.intro mem_gorm_laws task_store_axioms.intro ref_libs_ok) (simp add: task_merge_def)

text \<open>C13: the task server implements its specification. A call without metadata, without an
  \<^verbatim>\<open>x-user-id\<close> or with one that is not a UUID is refused as unauthenticated and changes nothing; any
  other call behaves as one step of the specification for that caller.\<close>

theorem task_serve_refines:
  assumes "task_store G rows base healthy L" "task_serve G L ctx call db = (r, db')"
  shows "case caller L ctx of
      None \<Rightarrow> (\<exists>e. r = Inl e \<and> Code e = codes_Unauthenticated) \<and> db' = db
    | Some (s, u) \<Rightarrow> task_step L (healthy db) u s call (rows db) r (rows db')"
  using assms(2) task_store.task_serve_step [OF assms(1), of ctx _ _ call db r db'] task_serve_refused [of L ctx G call db]
  by (auto split: option.splits)

text \<open>A create call on an empty reference table.\<close>

definition ctx_of :: "string \<Rightarrow> ctx" where
  "ctx_of s = \<lparr>incoming = Some (\<lambda>h. if h = ''x-user-id'' then [s] else []), auth_value = None\<rparr>"

definition empty_tasks :: "Task mem" where
  "empty_tasks = \<lparr>tbl = [], saved = [], ticks = 0\<rparr>"

definition sample_create :: "go_time CreateTaskRequest" where
  "sample_create = \<lparr>c_UserId = [], c_Title = ''title'', c_Description = ''text'', c_Status = ''todo'', c_DueDate = None\<rparr>"

definition sample_task :: Task where
  "sample_task = \<lparr>t_Id = 1, t_Title = ''title'', t_Description = ''text'', t_Status = ''todo'', t_DueDate = 0, t_UserId = 1,
     t_CreatedAt = 1, t_UpdatedAt = 1\<rparr>"

lemma caller_ctx_of: "caller ref_libs (ctx_of ''uu'') = Some (''uu'', 1)"
  by (simp add: caller_def ctx_of_def ref_libs_def)

lemma sample_served:
  "task_serve mem_tasks ref_libs (ctx_of ''uu'') (CallCreate sample_create) empty_tasks
     = (Inr Empty, \<lparr>tbl = [sample_task], saved = [sample_task], ticks = 1\<rparr>)"
  by (simp add: task_serve_def AuthInterceptor_def ctx_of_def TaskServer_Create_def getUserID_def TaskService_Create_def
      TaskRepository_Create_def with_tx_def commit_tx_def mem_tasks_def mem_gorm_def sample_create_def sample_task_def
      empty_tasks_def zero_task_def task_stamp_def ref_libs_def Let_def)

theorem task_serve_refines_witness:
  "task_step ref_libs True 1 ''uu'' (CallCreate sample_create) Map.empty (Inr Empty) [1 \<mapsto> sample_task]"
  using task_serve_refines [OF mem_task.task_store_axioms sample_served]
  by (simp add: caller_ctx_of mem_rows_def empty_tasks_def sample_task_def)

text \<open>Calls one after the other.\<close>

definition task_run :: "('s, Task) gorm \<Rightarrow> 'ts libs \<Rightarrow> (ctx \<times> 'ts task_call) list \<Rightarrow> 's \<Rightarrow> 's" where
  "task_run G L cs db = fold (\<lambda>(ctx, call) db. snd (task_serve G L ctx call db)) cs db"

definition owned :: "uuid \<Rightarrow> (uuid \<rightharpoonup> Task) \<Rightarrow> (uuid \<times> Task) set" where
  "owned u m = {(k, t). m k = Some t \<and> t_UserId t = u}"

lemma task_step_owned:
  assumes "task_step L h v s call m r m'" "v \<noteq> u"
  shows "owned u m' = owned u m"
  using assms by (induction rule: task_step.induct) (auto simp: owned_def created_task_def updated_task_def split: if_splits)

text \<open>C19: users are isolated from each other. Whatever the other users and unauthenticated clients
  call, in any order and with any identifiers, the tasks of a user stay as they are.\<close>

theorem task_run_isolated:
  assumes store: "task_store G rows base healthy L"
    and others: "\<forall>(ctx, call) \<in> set cs. u \<notin> snd ` set_option (caller L ctx)"
  shows "owned u (rows (task_run G L cs db)) = owned u (rows db)"
  using others
proof (induction cs arbitrary: db)
  case (Cons c cs)
  obtain ctx call where c: "c = (ctx, call)" by (cases c)
  obtain r db1 where s: "task_serve G L ctx call db = (r, db1)" by fastforce
  have "owned u (rows db1) = owned u (rows db)"
  proof (cases "caller L ctx")
    case None
    then show ?thesis using task_serve_refused [OF None, of G call db] s by auto
  next
    case (Some su)
    obtain s' v where "caller L ctx = Some (s', v)" "v \<noteq> u" using Cons.prems Some c by (cases su) auto
    then show ?thesis using task_store.task_serve_step [OF store _ s] task_step_owned by blast
  qed
  then show ?case using Cons c s by (simp add: task_run_def)
qed (simp add: task_run_def)

theorem task_run_isolated_witness:
  "owned 5 (mem_rows t_Id (tbl (task_run mem_tasks ref_libs [(ctx_of ''uu'', CallCreate sample_create)] empty_tasks)))
   = {}"
  using task_run_isolated [OF mem_task.task_store_axioms, of "[(ctx_of ''uu'', CallCreate sample_create)]" 5 empty_tasks]
  by (simp add: caller_ctx_of) (simp add: owned_def empty_tasks_def mem_rows_def)

text \<open>C36: on a store that answers, a delete succeeds exactly when the identifier is that of a task of the
  caller; then that task alone is gone. No task of the caller has the identifier afterwards.\<close>

theorem task_delete_correct:
  assumes store: "task_store G rows base healthy L" and healthy: "healthy db"
    and c: "caller L ctx = Some (s, u)" and k: "uuid_Parse L (d_Id q) = Some k"
    and call: "task_serve G L ctx (CallDelete q) db = (r, db')"
  shows "(r = Inr Empty \<longleftrightarrow> (\<exists>t. rows db k = Some t \<and> t_UserId t = u)) \<and>
    rows db' = (if r = Inr Empty then (rows db)(k := None) else rows db) \<and>
    (\<forall>t. rows db' k = Some t \<longrightarrow> t_UserId t \<noteq> u)"
  using task_store.task_serve_step [OF store c call] healthy k
  by cases (auto simp: status_Error_def)

theorem task_delete_correct_witness:
  "mem_rows t_Id (tbl (snd (task_serve mem_tasks ref_libs (ctx_of ''uu'') (CallDelete \<lparr>d_Id = ''uu'', d_UserId = []\<rparr>)
     \<lparr>tbl = [sample_task], saved = [sample_task], ticks = 1\<rparr>))) = Map.empty"
proof -
  have "task_serve mem_tasks ref_libs (ctx_of ''uu'') (CallDelete \<lparr>d_Id = ''uu'', d_UserId = []\<rparr>)
      \<lparr>tbl = [sample_task], saved = [sample_task], ticks = 1\<rparr> = (Inr Empty, \<lparr>tbl = [], saved = [], ticks = 1\<rparr>)"
    by (simp add: task_serve_def AuthInterceptor_def ctx_of_def TaskServer_Delete_def getUserID_def TaskService_Delete_def
        TaskRepository_GetById_def TaskRepository_Delete_def commit_tx_def
        with_tx_def mem_tasks_def mem_gorm_def ref_libs_def sample_task_def)
  from task_delete_correct [OF mem_task.task_store_axioms _ caller_ctx_of _ this, of 1] this show ?thesis
    by (simp add: ref_libs_def mem_rows_def sample_task_def)
qed

text \<open>C37: a successful update changes only the addressed task and, in it, only the fields the
  request fills: an empty title, description or status and a due date at the epoch leave the stored
  value in place, so an update cannot clear a field.\<close>

theorem task_update_correct:
  assumes store: "task_store G rows base healthy L" and c: "caller L ctx = Some (s, u)"
    and call: "task_serve G L ctx (CallUpdate q) db = (Inr a, db')"
  shows "\<exists>k old now. uuid_Parse L (p_Id q) = Some k \<and> rows db k = Some old \<and> t_UserId old = u \<and>
    rows db' = (rows db)(k \<mapsto> updated_task L q now old) \<and>
    (p_Description q = [] \<longrightarrow> t_Description (updated_task L q now old) = t_Description old)"
  using task_store.task_serve_step [OF store c call]
  by cases (auto simp: updated_task_def)

theorem task_update_correct_witness:
  "t_Description (the (mem_rows t_Id (tbl (snd (task_serve mem_tasks ref_libs (ctx_of ''uu'')
     (CallUpdate \<lparr>p_Id = ''uu'', p_UserId = [], p_Title = ''new'', p_Description = [], p_Status = ''done'', p_DueDate = None\<rparr>)
     \<lparr>tbl = [sample_task], saved = [sample_task], ticks = 1\<rparr>))) 1)) = ''text''"
proof -
  let ?q = "\<lparr>p_Id = ''uu'', p_UserId = [], p_Title = ''new'', p_Description = [], p_Status = ''done'', p_DueDate = None\<rparr> :: go_time UpdateTaskRequest"
  let ?db = "\<lparr>tbl = [sample_task], saved = [sample_task], ticks = 1\<rparr>"
  have "fst (task_serve mem_tasks ref_libs (ctx_of ''uu'') (CallUpdate ?q) ?db) = Inr Empty"
    by (simp add: task_serve_def AuthInterceptor_def ctx_of_def TaskServer_Update_def getUserID_def TaskService_Update_def
        TaskRepository_GetById_def TaskRepository_Update_def commit_tx_def
        with_tx_def mem_tasks_def mem_gorm_def ref_libs_def sample_task_def Let_def)
  then obtain db' where s: "task_serve mem_tasks ref_libs (ctx_of ''uu'') (CallUpdate ?q) ?db = (Inr Empty, db')"
    by (metis prod.collapse)
  from task_update_correct [OF mem_task.task_store_axioms caller_ctx_of s] s show ?thesis
    by (auto simp: ref_libs_def mem_rows_def sample_task_def)
qed

text \<open>What a user creates is what that user then reads. After a successful create on a store that
  answers, the list of the caller's tasks holds the new task with the fields of the request, next to the
  tasks listed before, and a positive due date comes back to the millisecond.\<close>

theorem task_create_then_list:
  assumes store: "task_store G rows base healthy L" and c: "caller L ctx = Some (s, u)"
    and create: "task_serve G L ctx (CallCreate q) db = (Inr a, db1)" and healthy: "healthy db1"
    and list: "task_serve G L ctx (CallGetAll q') db1 = (r, db2)"
  shows "\<exists>k now ts. r = Inr (ListTaskResponse (map (\<lambda>t. toTaskModel L t s) ts)) \<and>
    set ts = insert (created_task L u q k now) (snd ` owned u (rows db)) \<and>
    (0 <s due_of L (c_DueDate q) \<longrightarrow>
      map_option (UnixMilli \<circ> AsTime L) (m_DueDate (toTaskModel L (created_task L u q k now) s)) = Some (due_of L (c_DueDate q)))"
proof -
  from task_store.task_serve_step [OF store c create] obtain k now where
    k: "rows db k = None" "rows db1 = (rows db)(k \<mapsto> created_task L u q k now)" by cases auto
  from task_store.task_serve_step [OF store c list] healthy obtain ts where
    ts: "r = Inr (ListTaskResponse (map (\<lambda>t. toTaskModel L t s) ts))" "set ts = {t \<in> ran (rows db1). t_UserId t = u}"
    by cases auto
  have "libs_ok L" using store by (simp add: task_store_def task_store_axioms_def)
  have "{t \<in> ran (rows db1). t_UserId t = u} = insert (created_task L u q k now) (snd ` owned u (rows db))"
    using k(1) unfolding k(2) by (force simp: ran_def owned_def created_task_def)
  moreover have "0 <s due_of L (c_DueDate q) \<longrightarrow>
      map_option (UnixMilli \<circ> AsTime L) (m_DueDate (toTaskModel L (created_task L u q k now) s)) = Some (due_of L (c_DueDate q))"
    using \<open>libs_ok L\<close> by (simp add: toTaskModel_def created_task_def dueDateTimestamp_def word_sless_alt)
  ultimately show ?thesis using ts by auto
qed

theorem task_create_then_list_witness:
  "\<exists>k now ts. fst (task_serve mem_tasks ref_libs (ctx_of ''uu'') (CallGetAll \<lparr>a_UserId = []\<rparr>)
      \<lparr>tbl = [sample_task], saved = [sample_task], ticks = 1\<rparr>) = Inr (ListTaskResponse (map (\<lambda>t. toTaskModel ref_libs t ''uu'') ts)) \<and>
    set ts = {created_task ref_libs 1 sample_create k now}"
proof -
  let ?db = "\<lparr>tbl = [sample_task], saved = [sample_task], ticks = 1\<rparr>"
  obtain r db2 where s: "task_serve mem_tasks ref_libs (ctx_of ''uu'') (CallGetAll \<lparr>a_UserId = []\<rparr>) ?db = (r, db2)" by fastforce
  from task_create_then_list [OF mem_task.task_store_axioms caller_ctx_of sample_served _ s] s show ?thesis
    by (auto simp: owned_def empty_tasks_def mem_rows_def)
qed

end
