(* ===== verification/Gateway.thy ===== *)
theory Gateway
  imports AuthProps TaskService
begin

text \<open>
  The API gateway (\<^verbatim>\<open>gateway/internal\<close>): the authentication middleware, the handlers that turn HTTP
  requests into gRPC calls and answers into HTTP ones, the benchmark handler, the error handler, the routes and the
  start-up. The gRPC clients are arguments, as are the parts of \<^verbatim>\<open>fiber\<close> the handlers use: its reading of a
  body into a request and of headers and parameters. Timings and process statistics are left out.
\<close>

section \<open>Requests and answers\<close>

text \<open>\<^verbatim>\<open>handler/types.go\<close>; a pointer is an option.\<close>

record SignInRequest =
  si_Email :: string
  si_Password :: string
  si_Algorithm :: string

record RefreshTokenRequest =
  rf_UserID :: string
  rf_RefreshToken :: string

record RegisterRequest =
  rg_Name :: string
  rg_Email :: string
  rg_Password :: string

record TaskRequest =
  tr_Title :: string
  tr_Description :: string
  tr_Status :: string
  tr_DueDate :: "i64 option"

record HttpTask =
  ht_Id :: string
  ht_Title :: string
  ht_Description :: string
  ht_Status :: string
  ht_DueDate :: i64
  ht_UserId :: string
  ht_CreatedAt :: i64
  ht_UpdatedAt :: i64

record BenchmarkSignRequest =
  bs_Algorithm :: string
  bs_Iterations :: i64
  bs_WarmupIterations :: i64
  bs_Email :: string
  bs_Password :: string
  bs_PayloadNote :: string

record BenchmarkTokenRequest =
  bt_Algorithm :: string
  bt_Email :: string
  bt_Password :: string

record BenchmarkResult =
  br_Endpoint :: string
  br_MetricScope :: string
  br_Algorithm :: string
  br_JWSAlgorithm :: string
  br_Iterations :: i64
  br_WarmupIterations :: i64
  br_SuccessCount :: nat
  br_PayloadNote :: string
  br_SigningInputBytes :: nat

text \<open>\<^verbatim>\<open>c.Bind().JSON(&req)\<close> for each request type: the JSON decoder the application is configured with.\<close>

record binders =
  bind_SignIn :: "string \<Rightarrow> (err, SignInRequest) result"
  bind_Refresh :: "string \<Rightarrow> (err, RefreshTokenRequest) result"
  bind_Register :: "string \<Rightarrow> (err, RegisterRequest) result"
  bind_Task :: "string \<Rightarrow> (err, TaskRequest) result"
  bind_BenchSign :: "string \<Rightarrow> (err, BenchmarkSignRequest) result"
  bind_BenchToken :: "string \<Rightarrow> (err, BenchmarkTokenRequest) result"

text \<open>The parts of a \<^verbatim>\<open>fiber.Ctx\<close> the handlers read: header, path parameter, body and locals.\<close>

record fiber_Ctx =
  c_Get :: "string \<Rightarrow> string"
  c_Params :: "string \<Rightarrow> string"
  c_Body :: string
  c_Locals :: "string \<rightharpoonup> string"

text \<open>An answer: status, message, data and the headers set; and the errors a handler can return.\<close>

datatype resp_data =
    NoData
  | MapData "(string \<times> string) list"
  | TaskData HttpTask
  | TaskListData "HttpTask list"
  | BenchData BenchmarkResult

record Response =
  rs_Status :: nat
  rs_Message :: string
  rs_Data :: resp_data
  rs_Headers :: "(string \<times> string) list"

datatype http_error = FiberError nat string | ValidationErrors "string list" | PlainError string

abbreviation "StatusOK \<equiv> 200 :: nat"
abbreviation "StatusCreated \<equiv> 201 :: nat"
abbreviation "StatusBadRequest \<equiv> 400 :: nat"
abbreviation "StatusUnauthorized \<equiv> 401 :: nat"
abbreviation "StatusNotFound \<equiv> 404 :: nat"
abbreviation "StatusInternalServerError \<equiv> 500 :: nat"

text \<open>A handler answers or fails, or panics (\<^term>\<open>None\<close>), and changes the world behind the clients.\<close>

type_synonym 'w outcome = "(http_error, Response) result option \<times> 'w"
type_synonym 'w handler = "fiber_Ctx \<Rightarrow> 'w \<Rightarrow> 'w outcome"

definition fail :: "nat \<Rightarrow> string \<Rightarrow> 'w \<Rightarrow> 'w outcome" where
  "fail code msg w = (Some (Inl (FiberError code msg)), w)"

definition answer :: "nat \<Rightarrow> string \<Rightarrow> resp_data \<Rightarrow> (string \<times> string) list \<Rightarrow> 'w \<Rightarrow> 'w outcome" where
  "answer code msg d hs w = (Some (Inr \<lparr>rs_Status = code, rs_Message = msg, rs_Data = d, rs_Headers = hs\<rparr>), w)"

text \<open>What a gRPC client returns: a status error, or an error that carries none.\<close>

datatype rpc_err = StatusErr status | OtherErr string

type_synonym metadata = "string \<Rightarrow> string list"

record ('w, 'ts) clients =
  auth_SignIn :: "'w \<Rightarrow> SignInRequest \<Rightarrow> (rpc_err, Auth) result \<times> metadata \<times> 'w"
  auth_RefreshToken :: "'w \<Rightarrow> RefreshTokenRequest \<Rightarrow> (rpc_err, Auth) result \<times> metadata \<times> 'w"
  user_client :: "user_call \<Rightarrow> 'w \<Rightarrow> (rpc_err, 'ts user_reply) result \<times> 'w"
  task_client :: "metadata \<Rightarrow> 'ts task_call \<Rightarrow> 'w \<Rightarrow> (rpc_err, 'ts task_reply) result \<times> 'w"

section \<open>Error translation\<close>

definition httpStatusFromGRPCCode :: "nat \<Rightarrow> nat" where
  "httpStatusFromGRPCCode code =
     (if code = codes_InvalidArgument then StatusBadRequest
      else if code = codes_Unauthenticated then StatusUnauthorized
      else if code = codes_NotFound then StatusNotFound
      else StatusInternalServerError)"

definition grpcToHTTPError :: "rpc_err \<Rightarrow> http_error" where
  "grpcToHTTPError e = (case e of
      OtherErr _ \<Rightarrow> FiberError StatusInternalServerError ''internal server error''
    | StatusErr st \<Rightarrow>
        if Code st = 3 then FiberError StatusBadRequest (Message st)
        else if Code st = 5 then FiberError StatusNotFound (Message st)
        else if Code st = 16 then FiberError StatusUnauthorized (Message st)
        else FiberError StatusInternalServerError (Message st))"

definition NewErrorHandler :: "http_error \<Rightarrow> nat \<times> string list" where
  "NewErrorHandler e = (case e of
      FiberError code msg \<Rightarrow> (code, [msg])
    | ValidationErrors [] \<Rightarrow> (StatusBadRequest, [''Internal Server Error''])
    | ValidationErrors vs \<Rightarrow> (StatusBadRequest, vs @ [last vs])
    | PlainError _ \<Rightarrow> (StatusInternalServerError, [''Internal Server Error'']))"

section \<open>Middleware\<close>

definition TrimPrefix :: "string \<Rightarrow> string \<Rightarrow> string" where
  "TrimPrefix s p = (if take (length p) s = p then drop (length p) s else s)"

definition AuthMiddleware_Handle :: "'ts libs \<Rightarrow> JwtUtil \<Rightarrow> go_time \<Rightarrow> 'w handler \<Rightarrow> 'w handler" where
  "AuthMiddleware_Handle L J clock Next c w =
     (let authHeader = c_Get c ''Authorization'' in
      if authHeader = [] then fail StatusUnauthorized ''authorization header required'' w
      else let tokenString = TrimPrefix authHeader ''Bearer '' in
      if tokenString = authHeader then fail StatusUnauthorized ''invalid authorization format'' w
      else case ju_Parse J clock tokenString of
        None \<Rightarrow> (None, w)
      | Some (Inl e) \<Rightarrow> fail StatusUnauthorized ''invalid or expired token'' w
      | Some (Inr claims) \<Rightarrow>
          if TokenUse claims \<noteq> [] \<and> TokenUse claims \<noteq> TokenUseAccess then fail StatusUnauthorized ''invalid token type'' w
          else Next (c\<lparr>c_Locals := (c_Locals c)(''user_id'' \<mapsto> uuid_String L (UserID claims), ''user_email'' \<mapsto> Email claims)\<rparr>) w)"

section \<open>Authentication and users\<close>

text \<open>The headers copied from the trailer of the answer: the first value of each that is there.\<close>

definition auth_trailers :: "(string \<times> string) list" where
  "auth_trailers = [(''x-sign-time-ms'', ''X-Sign-Time-Ms''),
     (''x-access-token-generation-time-ms'', ''X-Access-Token-Generation-Time-Ms''),
     (''x-refresh-token-generation-time-ms'', ''X-Refresh-Token-Generation-Time-Ms''),
     (''x-token-generation-time-ms'', ''X-Token-Generation-Time-Ms''),
     (''x-auth-cpu-pct'', ''X-Auth-CPU-Pct''), (''x-auth-mem-alloc-kb'', ''X-Auth-Mem-Alloc-KB''),
     (''x-auth-mem-sys-kb'', ''X-Auth-Mem-Sys-KB'')]"

definition forwardAuthTrailers :: "metadata \<Rightarrow> (string \<times> string) list" where
  "forwardAuthTrailers trailer = fold (\<lambda>(t, h) hs. case trailer t of [] \<Rightarrow> hs | v # _ \<Rightarrow> hs @ [(h, v)]) auth_trailers []"

definition token_data :: "Auth \<Rightarrow> resp_data" where
  "token_data a = MapData [(''token_type'', TokenType a), (''access_token'', AccessToken a), (''refresh_token'', RefreshToken a)]"

definition auth_error :: "rpc_err \<Rightarrow> 'w \<Rightarrow> 'w outcome" where
  "auth_error e w = (case e of
      StatusErr st \<Rightarrow> fail (httpStatusFromGRPCCode (Code st)) (Message st) w
    | OtherErr _ \<Rightarrow> fail StatusInternalServerError ''internal server error'' w)"

definition AuthHandler_SignIn :: "binders \<Rightarrow> ('w, 'ts) clients \<Rightarrow> 'w handler" where
  "AuthHandler_SignIn F K c w = (case bind_SignIn F (c_Body c) of
      Inl e \<Rightarrow> fail StatusBadRequest ''invalid request body'' w
    | Inr req \<Rightarrow> (case auth_SignIn K w req of
        (Inl e, trailer, w) \<Rightarrow> auth_error e w
      | (Inr resp, trailer, w) \<Rightarrow> answer StatusOK ''sign in successful'' (token_data resp) (forwardAuthTrailers trailer) w))"

definition AuthHandler_RefreshToken :: "binders \<Rightarrow> ('w, 'ts) clients \<Rightarrow> 'w handler" where
  "AuthHandler_RefreshToken F K c w = (case bind_Refresh F (c_Body c) of
      Inl e \<Rightarrow> fail StatusBadRequest ''invalid request body'' w
    | Inr req \<Rightarrow> (case auth_RefreshToken K w req of
        (Inl e, trailer, w) \<Rightarrow> auth_error e w
      | (Inr resp, trailer, w) \<Rightarrow> answer StatusOK ''refresh token successful'' (token_data resp) (forwardAuthTrailers trailer) w))"

definition UserHandler_Register :: "binders \<Rightarrow> ('w, 'ts) clients \<Rightarrow> 'w handler" where
  "UserHandler_Register F K c w = (case bind_Register F (c_Body c) of
      Inl e \<Rightarrow> fail StatusBadRequest ''invalid request body'' w
    | Inr req \<Rightarrow> (case user_client K (CreateUser \<lparr>cu_Name = rg_Name req, cu_Email = rg_Email req, cu_Password = rg_Password req\<rparr>) w of
        (Inl (StatusErr st), w) \<Rightarrow> fail StatusBadRequest (Message st) w
      | (Inl (OtherErr _), w) \<Rightarrow> fail StatusInternalServerError ''internal server error'' w
      | (Inr _, w) \<Rightarrow> answer StatusCreated ''user registered'' NoData [] w))"

text \<open>\<^verbatim>\<open>c.Locals("user_id").(string)\<close> panics when the middleware has not run; so does reading a field of a
  message that is not there.\<close>

definition UserHandler_GetProfile :: "('w, 'ts) clients \<Rightarrow> 'w handler" where
  "UserHandler_GetProfile K c w = (case c_Locals c ''user_id'' of
      None \<Rightarrow> (None, w)
    | Some userID \<Rightarrow> (case user_client K (GetUser userID) w of
        (Inl (StatusErr st), w) \<Rightarrow> fail StatusNotFound (Message st) w
      | (Inl (OtherErr _), w) \<Rightarrow> fail StatusInternalServerError ''internal server error'' w
      | (Inr (UserResponse u), w) \<Rightarrow>
          answer StatusOK ''success'' (MapData [(''id'', um_Id u), (''name'', um_Name u), (''email'', um_Email u)]) [] w
      | (Inr _, w) \<Rightarrow> (None, w)))"

section \<open>Tasks\<close>

definition forwardContext :: "fiber_Ctx \<Rightarrow> metadata option" where
  "forwardContext c = map_option (\<lambda>userID. (\<lambda>h. if h = ''x-user-id'' then [userID] else [])) (c_Locals c ''user_id'')"

definition toTaskResponse :: "'ts libs \<Rightarrow> 'ts TaskModel \<Rightarrow> HttpTask" where
  "toTaskResponse L task = \<lparr>ht_Id = m_Id task, ht_Title = m_Title task, ht_Description = m_Description task,
     ht_Status = m_Status task,
     ht_DueDate = (case m_DueDate task of None \<Rightarrow> 0 | Some d \<Rightarrow> UnixMilli (AsTime L d)),
     ht_UserId = m_UserId task,
     ht_CreatedAt = (case m_CreatedAt task of None \<Rightarrow> 0 | Some d \<Rightarrow> UnixMilli (AsTime L d)),
     ht_UpdatedAt = (case m_UpdatedAt task of None \<Rightarrow> 0 | Some d \<Rightarrow> UnixMilli (AsTime L d))\<rparr>"

text \<open>The call to the task service that each handler ends with, under the identity of the caller.\<close>

definition as_user :: "fiber_Ctx \<Rightarrow> 'w \<Rightarrow> (string \<Rightarrow> metadata \<Rightarrow> 'w outcome) \<Rightarrow> 'w outcome" where
  "as_user c w f = (case c_Locals c ''user_id'' of None \<Rightarrow> (None, w)
     | Some userID \<Rightarrow> (case forwardContext c of None \<Rightarrow> (None, w) | Some md \<Rightarrow> f userID md))"

definition due_message :: "'ts libs \<Rightarrow> i64 option \<Rightarrow> 'ts option" where
  "due_message L d = map_option (\<lambda>ms. timestamppb_New L (time_UnixMilli ms)) d"

definition TaskHandler_Create :: "'ts libs \<Rightarrow> binders \<Rightarrow> ('w, 'ts) clients \<Rightarrow> 'w handler" where
  "TaskHandler_Create L F K c w = (case bind_Task F (c_Body c) of
      Inl e \<Rightarrow> fail StatusBadRequest ''invalid request body'' w
    | Inr req \<Rightarrow> as_user c w (\<lambda>userID md.
        case task_client K md (CallCreate \<lparr>c_UserId = userID, c_Title = tr_Title req, c_Description = tr_Description req,
            c_Status = tr_Status req, c_DueDate = due_message L (tr_DueDate req)\<rparr>) w of
          (Inl e, w) \<Rightarrow> (Some (Inl (grpcToHTTPError e)), w)
        | (Inr _, w) \<Rightarrow> answer StatusCreated ''task created'' NoData [] w))"

definition TaskHandler_Update :: "'ts libs \<Rightarrow> binders \<Rightarrow> ('w, 'ts) clients \<Rightarrow> 'w handler" where
  "TaskHandler_Update L F K c w = (case bind_Task F (c_Body c) of
      Inl e \<Rightarrow> fail StatusBadRequest ''invalid request body'' w
    | Inr req \<Rightarrow> as_user c w (\<lambda>userID md.
        case task_client K md (CallUpdate \<lparr>p_Id = c_Params c ''id'', p_UserId = userID, p_Title = tr_Title req,
            p_Description = tr_Description req, p_Status = tr_Status req, p_DueDate = due_message L (tr_DueDate req)\<rparr>) w of
          (Inl e, w) \<Rightarrow> (Some (Inl (grpcToHTTPError e)), w)
        | (Inr _, w) \<Rightarrow> answer StatusOK ''task updated'' NoData [] w))"

definition TaskHandler_Delete :: "('w, 'ts) clients \<Rightarrow> 'w handler" where
  "TaskHandler_Delete K c w = as_user c w (\<lambda>userID md.
     case task_client K md (CallDelete \<lparr>d_Id = c_Params c ''id'', d_UserId = userID\<rparr>) w of
       (Inl e, w) \<Rightarrow> (Some (Inl (grpcToHTTPError e)), w)
     | (Inr _, w) \<Rightarrow> answer StatusOK ''task deleted'' NoData [] w)"

definition TaskHandler_GetById :: "'ts libs \<Rightarrow> ('w, 'ts) clients \<Rightarrow> 'w handler" where
  "TaskHandler_GetById L K c w = as_user c w (\<lambda>userID md.
     case task_client K md (CallGet \<lparr>g_Id = c_Params c ''id'', g_UserId = userID\<rparr>) w of
       (Inl e, w) \<Rightarrow> (Some (Inl (grpcToHTTPError e)), w)
     | (Inr (TaskResponse task), w) \<Rightarrow> answer StatusOK ''success'' (TaskData (toTaskResponse L task)) [] w
     | (Inr _, w) \<Rightarrow> (None, w))"

definition TaskHandler_GetAll :: "'ts libs \<Rightarrow> ('w, 'ts) clients \<Rightarrow> 'w handler" where
  "TaskHandler_GetAll L K c w = as_user c w (\<lambda>userID md.
     case task_client K md (CallGetAll \<lparr>a_UserId = userID\<rparr>) w of
       (Inl e, w) \<Rightarrow> (Some (Inl (grpcToHTTPError e)), w)
     | (Inr (ListTaskResponse ts), w) \<Rightarrow>
         answer StatusOK ''success'' (TaskListData (fold (\<lambda>task tasks. tasks @ [toTaskResponse L task]) ts [])) [] w
     | (Inr _, w) \<Rightarrow> (None, w))"


section \<open>Benchmarks\<close>

text \<open>\<^verbatim>\<open>strings.ToLower\<close>: ASCII letters; the case tables of Unicode are an argument.\<close>

definition strings_ToLower :: "(string \<Rightarrow> string) \<Rightarrow> string \<Rightarrow> string" where
  "strings_ToLower unicode s = (if \<forall>c \<in> set s. byte c < 128
     then map (\<lambda>c. if 65 \<le> byte c \<and> byte c \<le> 90 then chr (byte c + 32) else c) s else unicode s)"

text \<open>What the benchmarks use besides: \<^verbatim>\<open>uuid.NewSHA1\<close> in the DNS name space, the case tables, and which
  capacities \<^verbatim>\<open>make([]float64, 0, n)\<close> accepts (it panics on others).\<close>

record bench_env =
  NewSHA1_DNS :: "string \<Rightarrow> uuid"
  unicode_ToLower :: "string \<Rightarrow> string"
  makeslice_ok :: "i64 \<Rightarrow> bool"

record BenchmarkHandler =
  benchmarkJWT :: "JwtUtil option"
  benchmarkConfigs :: "string \<rightharpoonup> AlgConfig option"

definition benchmark_payload :: "bench_env \<Rightarrow> string \<Rightarrow> string \<Rightarrow> string \<Rightarrow> JWTPayload" where
  "benchmark_payload X algorithm email tokenUse = \<lparr>P_UserID = NewSHA1_DNS X (strings_ToLower (unicode_ToLower X) email),
     P_Email = email, P_Algorithm = algorithm, P_TokenUse = tokenUse\<rparr>"

definition signBenchmarkToken :: "bench_env \<Rightarrow> BenchmarkHandler \<Rightarrow> sign_env \<Rightarrow> string \<Rightarrow> string \<Rightarrow> string
    \<Rightarrow> (err, string) result option" where
  "signBenchmarkToken X h E algorithm email tokenUse = (case benchmarkJWT h of
      None \<Rightarrow> Some (Inl (ErrText ''benchmark signer not configured''))
    | Some J \<Rightarrow> ju_Sign J E (benchmark_payload X algorithm email tokenUse))"

definition pureSigningInput :: string where "pureSigningInput = ''tasktify-fndsa-pure-signing-benchmark-message-v1''"

definition signPure :: "BenchmarkHandler \<Rightarrow> string \<Rightarrow> string \<Rightarrow> (err, unit) result option" where
  "signPure h rnd algorithm =
     (if benchmarkConfigs h = Map.empty then Some (Inl (ErrText ''benchmark signer configs not configured''))
      else case benchmarkConfigs h algorithm of
        Some (Some cfg) \<Rightarrow> (case cfg_Method cfg of
            None \<Rightarrow> Some (Inl (ErrText (''benchmark algorithm not configured: '' @ algorithm)))
          | Some m \<Rightarrow> Some (map_sum id (\<lambda>_. ()) (Sign_m m rnd pureSigningInput (SignKey cfg))))
      | _ \<Rightarrow> Some (Inl (ErrText (''benchmark algorithm not configured: '' @ algorithm))))"

definition BenchmarkHandler_SignToken :: "binders \<Rightarrow> bench_env \<Rightarrow> BenchmarkHandler \<Rightarrow> sign_env \<Rightarrow> string \<Rightarrow> 'w handler" where
  "BenchmarkHandler_SignToken F X h E signMs c w = (case bind_BenchToken F (c_Body c) of
      Inl e \<Rightarrow> fail StatusBadRequest ''invalid request body'' w
    | Inr req \<Rightarrow> (case signBenchmarkToken X h E (bt_Algorithm req) (bt_Email req) TokenUseAccess of
        None \<Rightarrow> (None, w)
      | Some (Inl e) \<Rightarrow> fail StatusInternalServerError ''failed to generate benchmark token'' w
      | Some (Inr token) \<Rightarrow> answer StatusOK ''benchmark token generated''
          (MapData [(''token_type'', ''Bearer''), (''access_token'', token)])
          [(''X-Sign-Time-Ms'', signMs), (''X-Token-Generation-Time-Ms'', signMs)] w))"

text \<open>The measuring loops. \<open>n\<close> rounds have been run so far, which numbers the worlds \<open>E\<close> the
  signatures take place in; the state is the number of successes and the first error. \<^term>\<open>None\<close> is a panic.\<close>

definition bench_round :: "(nat \<Rightarrow> (err, unit) result option) \<Rightarrow> nat \<Rightarrow> (nat \<times> err option) option \<Rightarrow> (nat \<times> err option) option" where
  "bench_round run i st = (case st of None \<Rightarrow> None | Some (ok, firstErr) \<Rightarrow> (case run i of
      None \<Rightarrow> None
    | Some (Inl e) \<Rightarrow> Some (ok, if firstErr = None then Some e else firstErr)
    | Some (Inr _) \<Rightarrow> Some (ok + 1, firstErr)))"

definition bench_loop :: "(nat \<Rightarrow> (err, unit) result option) \<Rightarrow> nat \<Rightarrow> nat \<Rightarrow> (nat \<times> err option) option" where
  "bench_loop run a b = fold (bench_round run) [a..<b] (Some (0, None))"

text \<open>One round of \<^verbatim>\<open>jwtIssuance\<close> signs an access and a refresh token; the refresh token is not attempted
  when the access token fails, except while warming up, when failures are only logged.\<close>

definition issue_pair :: "bench_env \<Rightarrow> BenchmarkHandler \<Rightarrow> (nat \<Rightarrow> sign_env) \<Rightarrow> BenchmarkSignRequest \<Rightarrow> nat \<Rightarrow> (err, unit) result option" where
  "issue_pair X h E req i = (case signBenchmarkToken X h (E (2 * i)) (bs_Algorithm req) (bs_Email req) TokenUseAccess of
      None \<Rightarrow> None
    | Some (Inl e) \<Rightarrow> Some (Inl e)
    | Some (Inr _) \<Rightarrow> map_option (map_sum id (\<lambda>_. ()))
        (signBenchmarkToken X h (E (2 * i + 1)) (bs_Algorithm req) (bs_Email req) TokenUseRefresh))"

definition warmup_pair :: "bench_env \<Rightarrow> BenchmarkHandler \<Rightarrow> (nat \<Rightarrow> sign_env) \<Rightarrow> BenchmarkSignRequest \<Rightarrow> nat \<Rightarrow> (err, unit) result option" where
  "warmup_pair X h E req i = (case signBenchmarkToken X h (E (2 * i)) (bs_Algorithm req) (bs_Email req) TokenUseAccess of
      None \<Rightarrow> None
    | Some _ \<Rightarrow> map_option (map_sum id (\<lambda>_. ()))
        (signBenchmarkToken X h (E (2 * i + 1)) (bs_Algorithm req) (bs_Email req) TokenUseRefresh))"

definition run_benchmark :: "bench_env \<Rightarrow> (nat \<Rightarrow> (err, unit) result option) \<Rightarrow> (nat \<Rightarrow> (err, unit) result option) \<Rightarrow> string \<Rightarrow> string
    \<Rightarrow> (nat \<Rightarrow> BenchmarkResult) \<Rightarrow> BenchmarkSignRequest \<Rightarrow> 'w \<Rightarrow> 'w outcome" where
  "run_benchmark X warm timed failed done_text result req w =
     (if sint (bs_Iterations req) \<le> 0 then fail StatusBadRequest ''iterations must be positive'' w
      else if \<not> makeslice_ok X (bs_Iterations req) then (None, w)
      else let warmup = nat (sint (bs_WarmupIterations req)); n = nat (sint (bs_Iterations req)) in
        case bench_loop warm 0 warmup of
          None \<Rightarrow> (None, w)
        | Some _ \<Rightarrow> (case bench_loop timed warmup (warmup + n) of
            None \<Rightarrow> (None, w)
          | Some (0, firstErr) \<Rightarrow> fail StatusInternalServerError
              (failed @ (case firstErr of None \<Rightarrow> ''no successful iterations'' | Some e \<Rightarrow> Error e)) w
          | Some (Suc ok, _) \<Rightarrow> answer StatusOK done_text (BenchData (result (Suc ok))) [] w))"

definition warmup_iterations :: "BenchmarkSignRequest \<Rightarrow> i64" where
  "warmup_iterations req = (if sint (bs_WarmupIterations req) < 0 then 0 else bs_WarmupIterations req)"

definition BenchmarkHandler_jwtIssuance :: "binders \<Rightarrow> bench_env \<Rightarrow> BenchmarkHandler \<Rightarrow> (nat \<Rightarrow> sign_env) \<Rightarrow> string \<Rightarrow> 'w handler" where
  "BenchmarkHandler_jwtIssuance F X h E endpoint c w = (case bind_BenchSign F (c_Body c) of
      Inl e \<Rightarrow> fail StatusBadRequest ''invalid request body'' w
    | Inr req \<Rightarrow> run_benchmark X (warmup_pair X h E req) (issue_pair X h E req) ''jwt issuance benchmark failed: '' ''benchmark complete''
        (\<lambda>ok. \<lparr>br_Endpoint = endpoint, br_MetricScope = ''jwt_issuance'', br_Algorithm = bs_Algorithm req,
           br_JWSAlgorithm = HeaderAlgForConfigAlg (bs_Algorithm req), br_Iterations = bs_Iterations req,
           br_WarmupIterations = warmup_iterations req, br_SuccessCount = ok, br_PayloadNote = bs_PayloadNote req,
           br_SigningInputBytes = 0\<rparr>) req w)"

definition BenchmarkHandler_JWTIssuance :: "binders \<Rightarrow> bench_env \<Rightarrow> BenchmarkHandler \<Rightarrow> (nat \<Rightarrow> sign_env) \<Rightarrow> 'w handler" where
  "BenchmarkHandler_JWTIssuance F X h E = BenchmarkHandler_jwtIssuance F X h E ''/api/benchmark/jwt-issuance''"

definition BenchmarkHandler_SignLatency :: "binders \<Rightarrow> bench_env \<Rightarrow> BenchmarkHandler \<Rightarrow> (nat \<Rightarrow> sign_env) \<Rightarrow> 'w handler" where
  "BenchmarkHandler_SignLatency F X h E = BenchmarkHandler_jwtIssuance F X h E ''/api/benchmark/sign''"

definition BenchmarkHandler_PureSigning :: "binders \<Rightarrow> bench_env \<Rightarrow> BenchmarkHandler \<Rightarrow> (nat \<Rightarrow> sign_env) \<Rightarrow> 'w handler" where
  "BenchmarkHandler_PureSigning F X h E c w = (case bind_BenchSign F (c_Body c) of
      Inl e \<Rightarrow> fail StatusBadRequest ''invalid request body'' w
    | Inr req \<Rightarrow> run_benchmark X (\<lambda>i. signPure h (sign_rnd (E i)) (bs_Algorithm req)) (\<lambda>i. signPure h (sign_rnd (E i)) (bs_Algorithm req))
        ''pure signing benchmark failed: '' ''pure signing benchmark complete''
        (\<lambda>ok. \<lparr>br_Endpoint = ''/api/benchmark/pure-signing'', br_MetricScope = ''pure_signing'', br_Algorithm = bs_Algorithm req,
           br_JWSAlgorithm = HeaderAlgForConfigAlg (bs_Algorithm req), br_Iterations = bs_Iterations req,
           br_WarmupIterations = warmup_iterations req, br_SuccessCount = ok, br_PayloadNote = bs_PayloadNote req,
           br_SigningInputBytes = length pureSigningInput\<rparr>) req w)"

section \<open>Routes\<close>

text \<open>A request after routing: the route it matched. Which paths match is \<^verbatim>\<open>fiber\<close>'s business.\<close>

datatype route =
    R_root | R_health | R_signin | R_refresh | R_register | R_profile
  | R_create_task | R_all_tasks | R_get_task | R_update_task | R_delete_task
  | R_jwt_issuance | R_pure_signing | R_sign | R_token

definition protected_route :: "route \<Rightarrow> bool" where
  "protected_route r \<longleftrightarrow> r \<in> {R_profile, R_create_task, R_all_tasks, R_get_task, R_update_task, R_delete_task}"

record ('w, 'ts) RouteConfig =
  rc_libs :: "'ts libs"
  rc_binders :: binders
  rc_clients :: "('w, 'ts) clients"
  rc_jwt :: JwtUtil
  rc_bench :: BenchmarkHandler
  rc_bench_env :: bench_env

text \<open>What the world supplies to one request: the time, worlds to sign in, and how long the signature of the
  token benchmark took, as the answer prints it.\<close>

record request_env =
  re_clock :: go_time
  re_sign :: "nat \<Rightarrow> sign_env"
  re_ms :: string

fun route_handler :: "('w, 'ts) RouteConfig \<Rightarrow> request_env \<Rightarrow> route \<Rightarrow> 'w handler" where
  "route_handler C V R_root = (\<lambda>c w. answer StatusOK ''API OK'' NoData [] w)"
| "route_handler C V R_health = (\<lambda>c w. answer StatusOK [] (MapData [(''status'', ''ok'')]) [] w)"
| "route_handler C V R_signin = AuthHandler_SignIn (rc_binders C) (rc_clients C)"
| "route_handler C V R_refresh = AuthHandler_RefreshToken (rc_binders C) (rc_clients C)"
| "route_handler C V R_register = UserHandler_Register (rc_binders C) (rc_clients C)"
| "route_handler C V R_profile = UserHandler_GetProfile (rc_clients C)"
| "route_handler C V R_create_task = TaskHandler_Create (rc_libs C) (rc_binders C) (rc_clients C)"
| "route_handler C V R_all_tasks = TaskHandler_GetAll (rc_libs C) (rc_clients C)"
| "route_handler C V R_get_task = TaskHandler_GetById (rc_libs C) (rc_clients C)"
| "route_handler C V R_update_task = TaskHandler_Update (rc_libs C) (rc_binders C) (rc_clients C)"
| "route_handler C V R_delete_task = TaskHandler_Delete (rc_clients C)"
| "route_handler C V R_jwt_issuance = BenchmarkHandler_JWTIssuance (rc_binders C) (rc_bench_env C) (rc_bench C) (re_sign V)"
| "route_handler C V R_pure_signing = BenchmarkHandler_PureSigning (rc_binders C) (rc_bench_env C) (rc_bench C) (re_sign V)"
| "route_handler C V R_sign = BenchmarkHandler_SignLatency (rc_binders C) (rc_bench_env C) (rc_bench C) (re_sign V)"
| "route_handler C V R_token = BenchmarkHandler_SignToken (rc_binders C) (rc_bench_env C) (rc_bench C) (re_sign V 0) (re_ms V)"

definition serve_route :: "('w, 'ts) RouteConfig \<Rightarrow> request_env \<Rightarrow> route \<Rightarrow> 'w handler" where
  "serve_route C V r = (if protected_route r then AuthMiddleware_Handle (rc_libs C) (rc_jwt C) (re_clock V) (route_handler C V r)
     else route_handler C V r)"

section \<open>Start-up\<close>

text \<open>\<^verbatim>\<open>strings.TrimSpace\<close>: ASCII white space; for other characters the tables of Unicode are an argument.\<close>

definition TrimSpace :: "(string \<Rightarrow> string) \<Rightarrow> string \<Rightarrow> string" where
  "TrimSpace unicode s = (let sp = (\<lambda>c. byte c \<in> {9, 10, 11, 12, 13, 32}) in
     if \<forall>c \<in> set s. byte c < 128 then rev (dropWhile sp (rev (dropWhile sp s))) else unicode s)"

definition gateway_algsToLoad :: "(string \<Rightarrow> string) \<Rightarrow> string \<Rightarrow> string list" where
  "gateway_algsToLoad unicode raw = (let algs = (if raw \<noteq> [] then filter (\<lambda>t. t \<noteq> []) (map (TrimSpace unicode) (strings_Split CHR '','' raw)) else [])
     in if length algs = 0 then supportedAlgorithms else algs)"

text \<open>Both utilities of the gateway: the verifier with the configured algorithms, and the signer of the
  benchmarks with all of them. An error is fatal.\<close>

definition gateway_Bootstrap :: "(string \<Rightarrow> string) \<Rightarrow> ('a) pk_crypto_scheme \<Rightarrow> files \<Rightarrow> (string \<Rightarrow> string) \<Rightarrow> (string \<Rightarrow> i64)
    \<Rightarrow> (err, multiAlgJwtUtil \<times> (string \<rightharpoonup> AlgConfig option) \<times> (string \<rightharpoonup> AlgConfig option)) result" where
  "gateway_Bootstrap unicode C F GetString GetInt =
     (let keysDir = (if GetString ''KEYS_DIR'' = [] then ''./keys'' else GetString ''KEYS_DIR'');
          default = (if GetString ''JWT_DEFAULT_ALG'' = [] then ''FN-DSA-Precomputed-512'' else GetString ''JWT_DEFAULT_ALG'');
          algsToLoad = gateway_algsToLoad unicode (GetString ''JWT_ALLOWED_ALGS'')
      in bind_err (LoadAllAlgConfigs C F keysDir algsToLoad False Map.empty) (\<lambda>algConfigs.
         bind_err (LoadAllAlgConfigs C F keysDir supportedAlgorithms True Map.empty) (\<lambda>benchmarkAlgConfigs.
         Inr (NewMultiAlgJwtUtil (GetString ''JWT_ISSUER'') (GetString ''JWT_AUDIENCE'') (GetInt ''JWT_TOKEN_DURATION'') default,
              algConfigs, benchmarkAlgConfigs))))"

end
