(* ===== verification/GatewayProps.thy ===== *)
theory GatewayProps
  imports Gateway
begin

text \<open>
  What the gateway guarantees. The middleware lets a request pass only with an access token the parser accepts, and
  under that token's user. In front of the task service it keeps users apart: the tasks of a user change
  only on requests that carry a token of that user.
\<close>

section \<open>The middleware\<close>

definition presented :: "JwtUtil \<Rightarrow> go_time \<Rightarrow> fiber_Ctx \<Rightarrow> JWTClaims \<Rightarrow> bool" where
  "presented J clock c claims \<longleftrightarrow> (\<exists>token. c_Get c ''Authorization'' = ''Bearer '' @ token \<and>
     ju_Parse J clock token = Some (Inr claims) \<and> TokenUse claims \<in> {[], TokenUseAccess})"

definition with_user :: "'ts libs \<Rightarrow> JWTClaims \<Rightarrow> fiber_Ctx \<Rightarrow> fiber_Ctx" where
  "with_user L claims c = c\<lparr>c_Locals := (c_Locals c)(''user_id'' \<mapsto> uuid_String L (UserID claims), ''user_email'' \<mapsto> Email claims)\<rparr>"

lemma TrimPrefix_cases: "TrimPrefix s p = s \<and> (take (length p) s \<noteq> p \<or> p = []) \<or> s = p @ TrimPrefix s p"
  by (metis TrimPrefix_def append_take_drop_id)

lemma TrimPrefix_append [simp]: "TrimPrefix (p @ s) p = s"
  by (simp add: TrimPrefix_def)

lemma Handle_passes:
  assumes "presented J clock c claims"
  shows "AuthMiddleware_Handle L J clock Next c w = Next (with_user L claims c) w"
proof -
  obtain token where t: "c_Get c ''Authorization'' = ''Bearer '' @ token" "ju_Parse J clock token = Some (Inr claims)"
    "TokenUse claims \<in> {[], TokenUseAccess}" using assms by (auto simp: presented_def)
  have "TrimPrefix (''Bearer '' @ token) ''Bearer '' = token" by (rule TrimPrefix_append)
  moreover have "token \<noteq> ''Bearer '' @ token" by simp
  ultimately show ?thesis using t(2,3) unfolding AuthMiddleware_Handle_def Let_def t(1) by (auto simp: with_user_def)
qed

lemma Handle_cases:
  assumes "AuthMiddleware_Handle L J clock Next c w = r"
  obtains (panic) token where "c_Get c ''Authorization'' = ''Bearer '' @ token" "ju_Parse J clock token = None" "r = (None, w)"
    | (refused) msg where "\<And>claims. \<not> presented J clock c claims" "r = fail StatusUnauthorized msg w"
    | (passed) claims where "presented J clock c claims" "r = Next (with_user L claims c) w"
proof (cases "\<exists>claims. presented J clock c claims")
  case True
  then show ?thesis using Handle_passes passed assms by metis
next
  case False
  then have f: "\<not> presented J clock c claims" for claims by blast
  let ?h = "c_Get c ''Authorization''" let ?t = "TrimPrefix ?h ''Bearer ''"
  show ?thesis
  proof (cases "?h = [] \<or> ?t = ?h")
    case True
    then have "\<exists>msg. r = fail StatusUnauthorized msg w"
      using assms by (cases "?h = []") (auto simp: AuthMiddleware_Handle_def Let_def)
    then show ?thesis using refused [OF f] by blast
  next
    case t: False
    define token where "token = ?t"
    have h: "?h = ''Bearer '' @ token" using t TrimPrefix_cases [of ?h "''Bearer ''"] unfolding token_def by blast
    have H: "AuthMiddleware_Handle L J clock Next c w = (case ju_Parse J clock token of None \<Rightarrow> (None, w)
      | Some (Inl e) \<Rightarrow> fail StatusUnauthorized ''invalid or expired token'' w
      | Some (Inr claims) \<Rightarrow>
          if TokenUse claims \<noteq> [] \<and> TokenUse claims \<noteq> TokenUseAccess then fail StatusUnauthorized ''invalid token type'' w
          else Next (with_user L claims c) w)"
      using t unfolding AuthMiddleware_Handle_def Let_def with_user_def token_def by (simp cong: option.case_cong)
    show ?thesis
    proof (cases "ju_Parse J clock token")
      case None
      then show ?thesis using assms H panic [OF h] by simp
    next
      case (Some pr)
      have "r = fail StatusUnauthorized ''invalid or expired token'' w \<or> r = fail StatusUnauthorized ''invalid token type'' w"
      proof (cases pr)
        case (Inr claims)
        then have "TokenUse claims \<notin> {[], TokenUseAccess}" using f [of claims] h Some unfolding presented_def by blast
        then show ?thesis using assms H Some Inr by simp
      qed (use assms H Some in simp)
      then show ?thesis using refused [OF f] by blast
    qed
  qed
qed

section \<open>In front of the task service\<close>

definition md_ctx :: "metadata \<Rightarrow> ctx" where
  "md_ctx md = \<lparr>incoming = Some md, auth_value = None\<rparr>"

text \<open>The channel to the task server: a call is served at most once, its answer may get lost, and the channel may
  answer with any error in its place. The other clients leave the tasks alone.\<close>

locale task_rpc = task_store G rows base healthy L
  for G :: "('s, Task) gorm" and rows base :: "'s \<Rightarrow> uuid \<rightharpoonup> Task" and healthy and L :: "'ts libs" +
  fixes K :: "('u \<times> 's, 'ts) clients"
  assumes task_rpc: "task_client K md call w = (r, w') \<Longrightarrow>
      (\<exists>r0. task_serve G L (md_ctx md) call (snd w) = (r0, snd w') \<and>
         (r = map_sum StatusErr id r0 \<or> (\<exists>e. r = Inl e))) \<or>
      snd w' = snd w \<and> (\<exists>e. r = Inl e)"
    and signin_rpc: "snd (snd (snd (auth_SignIn K w req))) = snd w"
    and refresh_rpc: "snd (snd (snd (auth_RefreshToken K w req'))) = snd w"
    and user_rpc: "snd (snd (user_client K ucall w)) = snd w"
begin

text \<open>What a task handler does with the answer to its call.\<close>

definition reply_matches :: "'ts task_call \<Rightarrow> 'ts task_reply \<Rightarrow> bool" where
  "reply_matches call a \<longleftrightarrow> (case call of CallGet _ \<Rightarrow> \<exists>t. a = TaskResponse t | CallGetAll _ \<Rightarrow> \<exists>ts. a = ListTaskResponse ts
     | _ \<Rightarrow> a = Empty)"

lemma step_reply: "task_step L h v s call m (Inr a) m' \<Longrightarrow> reply_matches call a"
  by (erule task_step.cases) (simp_all add: reply_matches_def)

definition user_md :: "uuid \<Rightarrow> metadata" where
  "user_md v = (\<lambda>h. if h = ''x-user-id'' then [uuid_String L v] else [])"

lemma caller_user_md: "caller L (md_ctx (user_md v)) = Some (uuid_String L v, v)"
  by (simp add: caller_def md_ctx_def user_md_def libs_okD(1) [OF libs])

text \<open>A call under the identity of \<open>v\<close>: what happens to the table, and which answers come back.\<close>

lemma rpc_outcome:
  assumes "task_client K (user_md v) call w = (r, w')"
  shows "(\<exists>r0. task_step L (healthy (snd w)) v (uuid_String L v) call (rows (snd w)) r0 (rows (snd w'))
       \<and> (r = map_sum StatusErr id r0 \<or> (\<exists>e. r = Inl e))) \<or>
    snd w' = snd w \<and> (\<exists>e. r = Inl e)"
  using task_rpc [OF assms] task_serve_step [OF caller_user_md [of v]] by blast

lemma rpc_owned:
  assumes "task_client K (user_md v) call w = (r, w')" "v \<noteq> u"
  shows "owned u (rows (snd w')) = owned u (rows (snd w))"
proof -
  have "(\<exists>r0. task_step L (healthy (snd w)) v (uuid_String L v) call (rows (snd w)) r0 (rows (snd w'))) \<or> snd w' = snd w"
    using rpc_outcome [OF assms(1)] by blast
  then show ?thesis by (elim disjE exE, erule_tac task_step_owned [OF _ assms(2)]) simp
qed

text \<open>A task route, once the user is known, makes one call under that user, or refuses the body.\<close>

definition status_of :: "route \<Rightarrow> nat" where
  "status_of r = (if r = R_create_task then StatusCreated else StatusOK)"

definition handled :: "route \<Rightarrow> 'ts task_call \<Rightarrow> (rpc_err, 'ts task_reply) result \<Rightarrow> (http_error, Response) result option \<Rightarrow> bool" where
  "handled r call ra out \<longleftrightarrow> (case ra of Inl e \<Rightarrow> out = Some (Inl (grpcToHTTPError e))
     | Inr a \<Rightarrow> reply_matches call a \<longrightarrow> (\<exists>resp. out = Some (Inr resp) \<and> rs_Status resp = status_of r))"

lemma as_user_md:
  "c_Locals c ''user_id'' = Some (uuid_String L v) \<Longrightarrow> as_user c w f = f (uuid_String L v) (user_md v)"
  by (simp add: as_user_def forwardContext_def user_md_def)

lemma task_route_call:
  assumes C: "rc_libs C = L" "rc_clients C = K"
    and r: "r \<in> {R_create_task, R_all_tasks, R_get_task, R_update_task, R_delete_task}"
    and v: "c_Locals c ''user_id'' = Some (uuid_String L v)"
  shows "(\<exists>msg. route_handler C V r c w = fail StatusBadRequest msg w) \<or>
    (\<exists>call ra w'. task_client K (user_md v) call w = (ra, w') \<and> snd (route_handler C V r c w) = w' \<and>
       handled r call ra (fst (route_handler C V r c w)))"
proof -
  note defs = as_user_md [OF v] handled_def reply_matches_def answer_def status_of_def
  consider (create) "r = R_create_task" | (all) "r = R_all_tasks" | (get) "r = R_get_task" | (update) "r = R_update_task"
    | (delete) "r = R_delete_task" using r by blast
  then show ?thesis
  proof cases
    case create
    show ?thesis
    proof (cases "bind_Task (rc_binders C) (c_Body c)")
      case (Inr req)
      let ?call = "CallCreate \<lparr>c_UserId = uuid_String L v, c_Title = tr_Title req, c_Description = tr_Description req,
            c_Status = tr_Status req, c_DueDate = due_message L (tr_DueDate req)\<rparr>"
      obtain ra w' where "task_client K (user_md v) ?call w = (ra, w')" by (rule prod.exhaust)
      then show ?thesis using Inr
        by (intro disjI2 exI [of _ ?call] exI [of _ ra] exI [of _ w'])
          (simp add: create TaskHandler_Create_def C defs split: sum.split)
    qed (auto simp: create TaskHandler_Create_def)
  next
    case update
    show ?thesis
    proof (cases "bind_Task (rc_binders C) (c_Body c)")
      case (Inr req)
      let ?call = "CallUpdate \<lparr>p_Id = c_Params c ''id'', p_UserId = uuid_String L v, p_Title = tr_Title req,
            p_Description = tr_Description req, p_Status = tr_Status req, p_DueDate = due_message L (tr_DueDate req)\<rparr>"
      obtain ra w' where "task_client K (user_md v) ?call w = (ra, w')" by (rule prod.exhaust)
      then show ?thesis using Inr
        by (intro disjI2 exI [of _ ?call] exI [of _ ra] exI [of _ w'])
          (simp add: update TaskHandler_Update_def C defs split: sum.split)
    qed (auto simp: update TaskHandler_Update_def)
  next
    case delete
    let ?call = "CallDelete \<lparr>d_Id = c_Params c ''id'', d_UserId = uuid_String L v\<rparr>"
    obtain ra w' where "task_client K (user_md v) ?call w = (ra, w')" by (rule prod.exhaust)
    then show ?thesis
      by (intro disjI2 exI [of _ ?call] exI [of _ ra] exI [of _ w'])
        (simp add: delete TaskHandler_Delete_def C defs split: sum.split)
  next
    case get
    let ?call = "CallGet \<lparr>g_Id = c_Params c ''id'', g_UserId = uuid_String L v\<rparr>"
    obtain ra w' where "task_client K (user_md v) ?call w = (ra, w')" by (rule prod.exhaust)
    then show ?thesis
      by (intro disjI2 exI [of _ ?call] exI [of _ ra] exI [of _ w'])
        (auto simp: get TaskHandler_GetById_def C defs split: sum.split task_reply.split)
  next
    case all
    let ?call = "CallGetAll \<lparr>a_UserId = uuid_String L v\<rparr>"
    obtain ra w' where "task_client K (user_md v) ?call w = (ra, w')" by (rule prod.exhaust)
    then show ?thesis
      by (intro disjI2 exI [of _ ?call] exI [of _ ra] exI [of _ w'])
        (auto simp: all TaskHandler_GetAll_def C defs split: sum.split task_reply.split)
  qed
qed

lemma user_rpc_eq: "user_client K ucall w = (r, w') \<Longrightarrow> snd w' = snd w"
  using user_rpc [of ucall w] by simp

lemma map_StatusErr:
  "Inr a = map_sum StatusErr id r0 \<longleftrightarrow> r0 = Inr a" "Inl e = map_sum StatusErr id r0 \<longleftrightarrow> (\<exists>st. r0 = Inl st \<and> e = StatusErr st)"
  by (cases r0; auto)+

text \<open>The other routes leave the tasks alone.\<close>

lemma fail_snd [simp]: "snd (fail a b w) = w" by (simp add: fail_def)
lemma answer_snd [simp]: "snd (answer a b d hs w) = w" by (simp add: answer_def)

lemma run_benchmark_snd [simp]: "snd (run_benchmark X warm timed a b f req w) = w"
  by (auto simp: run_benchmark_def Let_def split: option.splits nat.splits)

lemma other_route_tasks:
  assumes C: "rc_clients C = K" and r: "r \<notin> {R_create_task, R_all_tasks, R_get_task, R_update_task, R_delete_task}"
  shows "snd (snd (route_handler C V r c w)) = snd w"
proof (cases r)
  case R_signin
  then show ?thesis using signin_rpc [of w]
    by (auto simp: AuthHandler_SignIn_def C auth_error_def split: sum.splits prod.splits rpc_err.splits) (metis snd_conv)+
next
  case R_refresh
  then show ?thesis using refresh_rpc [of w]
    by (auto simp: AuthHandler_RefreshToken_def C auth_error_def split: sum.splits prod.splits rpc_err.splits) (metis snd_conv)+
next
  case R_register
  then show ?thesis
    by (auto simp: UserHandler_Register_def C dest: user_rpc_eq split: sum.splits prod.splits rpc_err.splits)
next
  case R_profile
  then show ?thesis
    by (auto simp: UserHandler_GetProfile_def C dest: user_rpc_eq split: option.splits sum.splits prod.splits rpc_err.splits user_reply.splits)
next
  case R_jwt_issuance
  then show ?thesis by (simp add: BenchmarkHandler_JWTIssuance_def BenchmarkHandler_jwtIssuance_def split: sum.split)
next
  case R_sign
  then show ?thesis by (simp add: BenchmarkHandler_SignLatency_def BenchmarkHandler_jwtIssuance_def split: sum.split)
next
  case R_pure_signing
  then show ?thesis by (simp add: BenchmarkHandler_PureSigning_def split: sum.split)
next
  case R_token
  then show ?thesis by (simp add: BenchmarkHandler_SignToken_def split: sum.split option.split)
qed (use r in simp_all)

lemma with_user_id: "c_Locals (with_user L claims c) ''user_id'' = Some (uuid_String L (UserID claims))"
  by (simp add: with_user_def)

lemma serve_owned:
  assumes C: "rc_libs C = L" "rc_clients C = K"
    and other: "\<And>claims. presented (rc_jwt C) (re_clock V) c claims \<Longrightarrow> UserID claims \<noteq> u"
  shows "owned u (rows (snd (snd (serve_route C V r c w)))) = owned u (rows (snd w))"
proof (cases "r \<in> {R_create_task, R_all_tasks, R_get_task, R_update_task, R_delete_task}")
  case True
  then have p: "serve_route C V r c w = AuthMiddleware_Handle L (rc_jwt C) (re_clock V) (route_handler C V r) c w"
    by (auto simp: serve_route_def protected_route_def C)
  from p [symmetric] show ?thesis
  proof (cases rule: Handle_cases)
    case (passed claims)
    from task_route_call [OF C True with_user_id, of V claims c w] show ?thesis
    proof (elim disjE exE conjE)
      fix call ra w' assume "task_client K (user_md (UserID claims)) call w = (ra, w')"
        "snd (route_handler C V r (with_user L claims c) w) = w'"
      then show ?thesis using rpc_owned [OF _ other [OF passed(1)]] passed(2) by simp
    qed (simp add: passed(2))
  qed simp_all
next
  case False
  note o = other_route_tasks [OF C(2) False]
  show ?thesis
  proof (cases "protected_route r")
    case True
    then have "AuthMiddleware_Handle L (rc_jwt C) (re_clock V) (route_handler C V r) c w = serve_route C V r c w"
      by (simp add: serve_route_def C)
    then show ?thesis by (cases rule: Handle_cases) (simp_all add: o)
  qed (simp add: serve_route_def o)
qed

text \<open>A panic comes from the parser alone.\<close>

lemma serve_panic:
  assumes C: "rc_libs C = L" "rc_clients C = K"
    and r: "r \<in> {R_create_task, R_all_tasks, R_get_task, R_update_task, R_delete_task}"
    and out: "fst (serve_route C V r c w) = None"
  shows "\<exists>token. c_Get c ''Authorization'' = ''Bearer '' @ token \<and> ju_Parse (rc_jwt C) (re_clock V) token = None"
proof -
  have p: "AuthMiddleware_Handle L (rc_jwt C) (re_clock V) (route_handler C V r) c w = serve_route C V r c w"
    using r by (auto simp: serve_route_def protected_route_def C)
  from p show ?thesis
  proof (cases rule: Handle_cases)
    case (passed claims)
    have "fst (route_handler C V r (with_user L claims c) w) \<noteq> None"
    proof (rule task_route_call [OF C r with_user_id, THEN disjE])
      assume "\<exists>call ra w'. task_client K (user_md (UserID claims)) call w = (ra, w') \<and> snd (route_handler C V r (with_user L claims c) w) = w' \<and>
        handled r call ra (fst (route_handler C V r (with_user L claims c) w))"
      then obtain call ra w' where k: "task_client K (user_md (UserID claims)) call w = (ra, w')"
        "handled r call ra (fst (route_handler C V r (with_user L claims c) w))" by blast
      show ?thesis
      proof (cases ra)
        case (Inr a)
        then have "reply_matches call a" using rpc_outcome [OF k(1)] step_reply by (auto simp: map_StatusErr)
        then show ?thesis using k(2) Inr by (auto simp: handled_def)
      qed (use k(2) in \<open>simp add: handled_def\<close>)
    qed (auto simp: fail_def)
    then show ?thesis using out passed(2) by simp
  qed (use out in \<open>auto simp: fail_def\<close>)
qed

end

text \<open>A channel whose own errors are none of the three codes the handlers translate. The framework documents that it
  never generates \<^verbatim>\<open>InvalidArgument\<close> and \<^verbatim>\<open>NotFound\<close>; it generates \<^verbatim>\<open>Unauthenticated\<close> only for failing credentials
  or for an answer 401 of something that is not a gRPC server, and the client of \<^verbatim>\<open>config/grpc.go\<close> is insecure,
  has no credentials and dials the service itself.\<close>

definition channel_error :: "rpc_err \<Rightarrow> bool" where
  "channel_error e \<longleftrightarrow> (case e of OtherErr _ \<Rightarrow> True
     | StatusErr st \<Rightarrow> Code st \<notin> {codes_InvalidArgument, codes_NotFound, codes_Unauthenticated})"

locale task_channel = task_rpc G rows base healthy L K
  for G :: "('s, Task) gorm" and rows base :: "'s \<Rightarrow> uuid \<rightharpoonup> Task" and healthy and L :: "'ts libs" and K :: "('u \<times> 's, 'ts) clients" +
  assumes own_errors: "task_client K md call w = (Inl e, w') \<Longrightarrow>
      channel_error e \<or> (\<exists>st. e = StatusErr st \<and> task_serve G L (md_ctx md) call (snd w) = (Inl st, snd w'))"
begin

lemma server_error:
  assumes "task_client K (user_md v) call w = (Inl e, w')" "\<not> channel_error e"
  shows "\<exists>st. e = StatusErr st \<and> task_step L (healthy (snd w)) v (uuid_String L v) call (rows (snd w)) (Inl st) (rows (snd w'))"
  using own_errors [OF assms(1)] assms(2) task_serve_step [OF caller_user_md [of v]] by blast

text \<open>What a request to a task route is answered with.\<close>

lemma serve_status:
  assumes C: "rc_libs C = L" "rc_clients C = K"
    and r: "r \<in> {R_create_task, R_all_tasks, R_get_task, R_update_task, R_delete_task}"
    and out: "serve_route C V r c w = (Some out, w')"
  shows "case out of
      Inr resp \<Rightarrow> rs_Status resp = status_of r \<and> (\<exists>claims. presented (rc_jwt C) (re_clock V) c claims)
    | Inl e \<Rightarrow> (\<exists>code msg. e = FiberError code msg \<and> code \<in> {400, 401, 404, 500} \<and>
        (code = 401 \<longleftrightarrow> \<not> (\<exists>claims. presented (rc_jwt C) (re_clock V) c claims)) \<and>
        (code \<noteq> 500 \<longrightarrow> rows (snd w') = rows (snd w)))"
proof -
  have p: "AuthMiddleware_Handle L (rc_jwt C) (re_clock V) (route_handler C V r) c w = (Some out, w')"
    using out r by (auto simp: serve_route_def protected_route_def C)
  from p show ?thesis
  proof (cases rule: Handle_cases)
    case (refused msg)
    then show ?thesis by (simp add: fail_def)
  next
    case (passed claims)
    let ?v = "UserID claims"
    from task_route_call [OF C r with_user_id, of V claims c w] show ?thesis
    proof (elim disjE exE conjE)
      fix msg assume "route_handler C V r (with_user L claims c) w = fail StatusBadRequest msg w"
      then show ?thesis using passed by (auto simp: fail_def)
    next
      fix call ra w1 assume k: "task_client K (user_md ?v) call w = (ra, w1)"
        "snd (route_handler C V r (with_user L claims c) w) = w1" "handled r call ra (fst (route_handler C V r (with_user L claims c) w))"
      have h: "handled r call ra (Some out)" "w' = w1" using k(2,3) by (simp_all flip: passed(2))
      show ?thesis
      proof (cases ra)
        case (Inr a)
        then obtain r0 where "task_step L (healthy (snd w)) ?v (uuid_String L ?v) call (rows (snd w)) (Inr a) (rows (snd w1))"
          using rpc_outcome [OF k(1)] by (auto simp: map_StatusErr)
        then show ?thesis using step_reply h(1) passed(1) Inr by (auto simp: handled_def)
      next
        case (Inl e)
        show ?thesis
        proof (cases "channel_error e")
          case True
          then show ?thesis using h passed(1) Inl
            by (auto simp: handled_def grpcToHTTPError_def channel_error_def split: rpc_err.splits)
        next
          case False
          then obtain st where st: "e = StatusErr st"
            "task_step L (healthy (snd w)) ?v (uuid_String L ?v) call (rows (snd w)) (Inl st) (rows (snd w1))"
            using server_error [OF k(1) [unfolded Inl] False] by blast
          have "Code st \<in> {codes_InvalidArgument, codes_NotFound, codes_Internal}" "rows (snd w1) = rows (snd w)"
            using st(2) by (cases; simp add: status_Error_def)+
          then show ?thesis using h passed(1) Inl st(1) by (auto simp: handled_def grpcToHTTPError_def)
        qed
      qed
    qed
  qed simp
qed

end

section \<open>Runs and tokens\<close>

definition gateway_run :: "('w, 'ts) RouteConfig \<Rightarrow> (request_env \<times> route \<times> fiber_Ctx) list \<Rightarrow> 'w \<Rightarrow> 'w" where
  "gateway_run C rs w = fold (\<lambda>(V, r, c) w. snd (serve_route C V r c w)) rs w"

text \<open>The verifier of the gateway, whose visits of its map are \<open>g1\<close> and \<open>g2\<close>, against a token the signer made.\<close>

lemma gateway_accepts:
  assumes "libs_ok L" "payload_ok L m E p" "in_time clock (claims_of_payload L m E p)"
    and "configForSignAlg cs (if P_Algorithm p = [] then defaultAlg m else P_Algorithm p) = Some (Some (Some cfg))"
    and "\<forall>s. keys_match reg (g2 clock s) cfg meth \<and> Alg meth \<in> set (allowedHeaderAlgs (g1 clock s))"
    and "issuer m' = issuer m" "audience m' = audience m"
    and "multiAlg_Sign L ovf m cs E p = Some (Inr s)" "length s \<le> maxJWTCompactBytes"
  shows "ju_Parse (multiAlg_JwtUtil reg L ovf m' g0 g1 g2) clock s = Some (Inr (claims_of_payload L m E p))"
  using signed_by_other [of L m E p clock cs cfg reg "g2 clock s" meth m' "g1 clock s" ovf s] assms
  by (simp add: multiAlg_JwtUtil_def)


lemma claims_of_payload_sel [simp]:
  "UserID (claims_of_payload L m E p) = P_UserID p" "Email (claims_of_payload L m E p) = P_Email p"
  "TokenUse (claims_of_payload L m E p) = use_or_access (P_TokenUse p)"
  by (simp_all add: claims_of_payload_def)

lemma Handle_access:
  assumes "c_Get c ''Authorization'' = ''Bearer '' @ s" "ju_Parse J clock s = Some (Inr claims)" "TokenUse claims = TokenUseAccess"
  shows "AuthMiddleware_Handle L J clock Next c w = Next (with_user L claims c) w"
  by (rule Handle_passes) (use assms in \<open>auto simp: presented_def\<close>)

lemma Handle_refresh:
  assumes "c_Get c ''Authorization'' = ''Bearer '' @ s" "ju_Parse J clock s = Some (Inr claims)" "TokenUse claims = TokenUseRefresh"
  shows "AuthMiddleware_Handle L J clock Next c w = fail StatusUnauthorized ''invalid token type'' w"
proof -
  have "TrimPrefix (''Bearer '' @ s) ''Bearer '' = s" by (rule TrimPrefix_append)
  moreover have "s \<noteq> ''Bearer '' @ s" by simp
  ultimately show ?thesis using assms(2,3) unfolding AuthMiddleware_Handle_def Let_def assms(1)
    by (simp add: TokenUseAccess_def TokenUseRefresh_def)
qed

lemma signed_in:
  assumes "AuthServer_SignIn G B J E db email pw alg = Some (Inr a)"
  shows "\<exists>t u. a = auth_response t \<and> UserRepository_GetByEmail G db email = Inr u \<and> CompareHashAndPassword B (u_Password u) pw \<and>
    signs_pair J E u alg t"
  using assms
  by (auto simp: AuthServer_SignIn_def map_sum_id_eq AuthService_SignIn_def signTokenPair_iff split: sum.splits if_splits option.splits)

section \<open>Properties\<close>

text \<open>C7: the middleware lets a request through exactly with a complete, current access token. If every
  configuration of the verifier has its method, then either the header is \<^verbatim>\<open>Bearer\<close> and a token the parser accepts,
  for the configured issuer and audience, within its dates and meant for access, and the request is handed on
  as it came with the identifier and email of the token's user added; or there is no such token, and the answer is 401
  without the handler having run. It never panics.\<close>

theorem middleware_sound:
  assumes "\<forall>token. configs_complete (g2 clock token)"
    and "AuthMiddleware_Handle L (multiAlg_JwtUtil reg L ovf m ord g1 g2) clock Next c w = r"
  shows "(\<exists>token claims. c_Get c ''Authorization'' = ''Bearer '' @ token \<and>
      multiAlg_Parse reg L ovf m (g1 clock token) (g2 clock token) clock token = Some (Inr claims) \<and>
      app_claims_ok L (issuer m) (audience m) clock claims \<and> TokenUse claims = TokenUseAccess \<and>
      r = Next (c\<lparr>c_Locals := (c_Locals c)(''user_id'' \<mapsto> uuid_String L (UserID claims), ''user_email'' \<mapsto> Email claims)\<rparr>) w) \<or>
    (\<nexists>token claims. c_Get c ''Authorization'' = ''Bearer '' @ token \<and> TokenUse claims = TokenUseAccess \<and>
      multiAlg_Parse reg L ovf m (g1 clock token) (g2 clock token) clock token = Some (Inr claims)) \<and>
    (\<exists>msg. r = (Some (Inl (FiberError 401 msg)), w))"
  using assms(2)
proof (cases rule: Handle_cases)
  case (panic token)
  then have "multiAlg_Parse reg L ovf m (g1 clock token) (g2 clock token) clock token = None" by (simp add: multiAlg_JwtUtil_def)
  then show ?thesis using parse_no_panic [OF assms(1) [rule_format, of token]] by blast
next
  case (refused msg)
  have "\<not> (c_Get c ''Authorization'' = ''Bearer '' @ token \<and> TokenUse claims = TokenUseAccess \<and>
      multiAlg_Parse reg L ovf m (g1 clock token) (g2 clock token) clock token = Some (Inr claims))" for token claims
    using refused(1) [of claims] by (auto simp: presented_def multiAlg_JwtUtil_def)
  then show ?thesis using refused(2) by (auto simp: fail_def)
next
  case (passed claims)
  then obtain token where t: "c_Get c ''Authorization'' = ''Bearer '' @ token"
    "multiAlg_Parse reg L ovf m (g1 clock token) (g2 clock token) clock token = Some (Inr claims)" "TokenUse claims \<in> {[], TokenUseAccess}"
    by (auto simp: presented_def multiAlg_JwtUtil_def)
  have ok: "app_claims_ok L (issuer m) (audience m) clock claims" using app_token_accepted [OF t(2)] by blast
  then have "TokenUse claims = TokenUseAccess" using t(3) by (auto simp: app_claims_ok_def TokenUseAccess_def TokenUseRefresh_def)
  then show ?thesis using t(1,2) ok passed(2) by (auto simp: with_user_def)
qed

text \<open>A request with the sample token.\<close>

definition bearer_ctx :: "string \<Rightarrow> fiber_Ctx" where
  "bearer_ctx token = \<lparr>c_Get = (\<lambda>h. if h = ''Authorization'' then ''Bearer '' @ token else []), c_Params = (\<lambda>_. []), c_Body = [],
     c_Locals = Map.empty\<rparr>"

abbreviation "hs_reg \<equiv> init_registry sample_crypto Map.empty"

lemma hs_jwt_parse: "ju_Parse hs_jwt hs_clock hs_token = Some (Inr (claims_of_payload ref_libs hs_util hs_env hs_payload))"
  by (simp add: hs_jwt_def multiAlg_JwtUtil_def hs_parsed)

lemma hs_use: "TokenUse (claims_of_payload ref_libs hs_util hs_env hs_payload) = TokenUseAccess"
  by (simp add: hs_payload_def use_or_access_def)

lemma bearer_header: "c_Get (bearer_ctx s) ''Authorization'' = ''Bearer '' @ s"
  by (simp add: bearer_ctx_def)

lemma hs_complete: "configs_complete hs_configs"
  by (simp add: configs_complete_def hs_configs_def hs_config_def)

text \<open>The sample token is let through, and a request without a header is not.\<close>

theorem middleware_sound_witness:
  "(\<exists>claims. app_claims_ok ref_libs ''iss'' ''aud'' hs_clock claims \<and> TokenUse claims = TokenUseAccess) \<and>
   (\<exists>msg. AuthMiddleware_Handle ref_libs hs_jwt hs_clock (\<lambda>c w. (None, w)) ((bearer_ctx [])\<lparr>c_Get := \<lambda>_. []\<rparr>) ()
      = (Some (Inl (FiberError 401 msg)), ()))"
proof
  let ?N = "\<lambda>c w. (Some (Inl (PlainError [])), w)"
  have a: "\<forall>token. configs_complete ((\<lambda>_ _. hs_configs) hs_clock token)" by (simp add: hs_complete)
  have "AuthMiddleware_Handle ref_libs hs_jwt hs_clock ?N (bearer_ctx hs_token) () = (Some (Inl (PlainError [])), ())"
    by (simp add: Handle_access [OF bearer_header hs_jwt_parse hs_use])
  from middleware_sound [OF a this [unfolded hs_jwt_def]]
  show "\<exists>claims. app_claims_ok ref_libs ''iss'' ''aud'' hs_clock claims \<and> TokenUse claims = TokenUseAccess"
    by (auto simp: hs_util_def NewMultiAlgJwtUtil_def)
  from middleware_sound [OF a refl [of "AuthMiddleware_Handle ref_libs hs_jwt hs_clock (\<lambda>c w. (None, w)) ((bearer_ctx [])\<lparr>c_Get := \<lambda>_. []\<rparr>) ()", unfolded hs_jwt_def]]
  show "\<exists>msg. AuthMiddleware_Handle ref_libs hs_jwt hs_clock (\<lambda>c w. (None, w)) ((bearer_ctx [])\<lparr>c_Get := \<lambda>_. []\<rparr>) ()
      = (Some (Inl (FiberError 401 msg)), ())"
    unfolding hs_jwt_def by auto
qed

text \<open>C5: the gateway keeps users apart. Whatever requests arrive, in any order, at any routes and with any
  contents, and however the channel to the task service fails and with whatever errors, the tasks of a user stay as they are as
  long as no request carries an accepted access token of that user.\<close>

theorem gateway_isolated:
  assumes sys: "task_rpc G rows base healthy L K" and C: "rc_libs C = L" "rc_clients C = K"
    and others: "\<forall>(V, r, c) \<in> set rs. \<forall>claims. presented (rc_jwt C) (re_clock V) c claims \<longrightarrow> UserID claims \<noteq> u"
  shows "owned u (rows (snd (gateway_run C rs w))) = owned u (rows (snd w))"
  using others
proof (induction rs arbitrary: w)
  case (Cons q' rs)
  obtain V r c where q': "q' = (V, r, c)" by (cases q')
  have "owned u (rows (snd (snd (serve_route C V r c w)))) = owned u (rows (snd w))"
    by (rule task_rpc.serve_owned [OF sys C]) (use Cons.prems q' in auto)
  moreover have "owned u (rows (snd (gateway_run C rs (snd (serve_route C V r c w))))) = owned u (rows (snd (snd (serve_route C V r c w))))"
    using Cons.prems by (intro Cons.IH) simp
  ultimately show ?case by (simp add: gateway_run_def q')
qed (simp add: gateway_run_def)

text \<open>The system with reference tables, its calls made directly.\<close>

definition direct_clients :: "registry \<Rightarrow> ('u, User) gorm \<Rightarrow> bcrypt \<Rightarrow> JwtUtil \<Rightarrow> go_time \<Rightarrow> sign_env \<times> sign_env \<Rightarrow> ('s, Task) gorm
    \<Rightarrow> 'ts libs \<Rightarrow> ('u \<times> 's, 'ts) clients" where
  "direct_clients reg Gu B J clock E Gt L = \<lparr>
     auth_SignIn = (\<lambda>w req. (case AuthServer_SignIn Gu B J E (fst w) (si_Email req) (si_Password req) (si_Algorithm req) of
        None \<Rightarrow> Inl (OtherErr ''connection lost'') | Some r \<Rightarrow> map_sum StatusErr id r, \<lambda>_. [], w)),
     auth_RefreshToken = (\<lambda>w req. (case AuthServer_RefreshToken reg (\<lambda>_. 0) Gu L J clock E (fst w) (rf_UserID req) (rf_RefreshToken req) of
        None \<Rightarrow> Inl (OtherErr ''connection lost'') | Some r \<Rightarrow> map_sum StatusErr id r, \<lambda>_. [], w)),
     user_client = (\<lambda>call w. let (r, u') = user_serve Gu B L [] call (fst w) in (map_sum StatusErr id r, (u', snd w))),
     task_client = (\<lambda>md call w. let (r, s') = task_serve Gt L (md_ctx md) call (snd w) in (map_sum StatusErr id r, (fst w, s')))\<rparr>"

lemma direct_task_rpc:
  assumes "task_store Gt rows base healthy L"
  shows "task_rpc Gt rows base healthy L (direct_clients reg Gu B J clock E Gt L)"
  using assms by (intro task_rpc.intro task_rpc_axioms.intro) (auto simp: direct_clients_def Let_def split: prod.splits)

abbreviation "hs_clients \<equiv> direct_clients hs_reg mem_users ref_bcrypt hs_jwt hs_clock (hs_env, hs_env) mem_tasks ref_libs"

interpretation direct_rpc: task_rpc mem_tasks "\<lambda>s. mem_rows t_Id (tbl s)" "\<lambda>s. mem_rows t_Id (saved s)" "\<lambda>s. True" ref_libs hs_clients
  by (rule direct_task_rpc [OF mem_task.task_store_axioms])

interpretation direct_channel: task_channel mem_tasks "\<lambda>s. mem_rows t_Id (tbl s)" "\<lambda>s. mem_rows t_Id (saved s)" "\<lambda>s. True" ref_libs hs_clients
  by unfold_locales (auto simp: direct_clients_def direct_rpc.map_StatusErr Let_def dest!: sym [of _ "Inl _"] split: prod.splits)

definition hs_binders :: binders where
  "hs_binders = \<lparr>bind_SignIn = (\<lambda>_. Inr \<lparr>si_Email = ''m'', si_Password = ''pw'', si_Algorithm = []\<rparr>),
     bind_Refresh = (\<lambda>b. Inr \<lparr>rf_UserID = [], rf_RefreshToken = b\<rparr>),
     bind_Register = (\<lambda>_. Inr \<lparr>rg_Name = ''n'', rg_Email = ''m'', rg_Password = ''pw''\<rparr>),
     bind_Task = (\<lambda>b. Inr \<lparr>tr_Title = b, tr_Description = [], tr_Status = ''todo'', tr_DueDate = None\<rparr>),
     bind_BenchSign = (\<lambda>_. Inl (ErrText ''unexpected'')),
     bind_BenchToken = (\<lambda>_. Inr \<lparr>bt_Algorithm = [], bt_Email = ''m'', bt_Password = []\<rparr>)\<rparr>"

definition hs_bench_env :: bench_env where
  "hs_bench_env = \<lparr>NewSHA1_DNS = (\<lambda>_. 1), unicode_ToLower = id, makeslice_ok = (\<lambda>n. sint n \<le> 2 ^ 44)\<rparr>"

definition hs_gateway :: "(User mem \<times> Task mem, go_time) RouteConfig" where
  "hs_gateway = \<lparr>rc_libs = ref_libs, rc_binders = hs_binders, rc_clients = hs_clients, rc_jwt = hs_jwt,
     rc_bench = \<lparr>benchmarkJWT = Some hs_jwt, benchmarkConfigs = map_of hs_configs\<rparr>, rc_bench_env = hs_bench_env\<rparr>"

definition hs_request :: request_env where
  "hs_request = \<lparr>re_clock = hs_clock, re_sign = (\<lambda>_. hs_env), re_ms = []\<rparr>"

lemma hs_gateway_sel: "rc_libs hs_gateway = ref_libs" "rc_clients hs_gateway = hs_clients" "rc_jwt hs_gateway = hs_jwt"
  "re_clock hs_request = hs_clock"
  by (simp_all add: hs_gateway_def hs_request_def)

lemma hs_presented: "presented hs_jwt hs_clock (bearer_ctx hs_token) claims \<longleftrightarrow> claims = claims_of_payload ref_libs hs_util hs_env hs_payload"
  using hs_use by (auto simp: presented_def bearer_header hs_jwt_parse)

theorem gateway_isolated_witness:
  "owned 5 (mem_rows t_Id (tbl (snd (gateway_run hs_gateway
     [(hs_request, R_create_task, bearer_ctx hs_token), (hs_request, R_all_tasks, bearer_ctx hs_token)] (one_user, empty_tasks))))) = {}"
proof -
  have "\<forall>(V, r, c) \<in> set [(hs_request, R_create_task, bearer_ctx hs_token), (hs_request, R_all_tasks, bearer_ctx hs_token)].
     \<forall>claims. presented (rc_jwt hs_gateway) (re_clock V) c claims \<longrightarrow> UserID claims \<noteq> 5"
    by (simp add: hs_gateway_sel hs_presented) (simp add: hs_payload_def)
  from gateway_isolated [OF direct_rpc.task_rpc_axioms hs_gateway_sel(1,2) this] show ?thesis
    by (simp add: owned_def empty_tasks_def mem_rows_def)
qed

text \<open>C18: what a request to a task route is answered with. Success is 201 for a creation and 200
  otherwise, and only for a request with an accepted access token; 401 is given exactly to requests without one;
  the other failures are 400, 404 and 500; and unless it is 500, a failed request changed nothing. The
  handler never panics: if anything does, it is the parser. The errors of the channel itself are taken to be none
  of the three codes the handlers translate.\<close>

theorem gateway_task_status:
  assumes "task_channel G rows base healthy L K" "rc_libs C = L" "rc_clients C = K"
    and "r \<in> {R_create_task, R_all_tasks, R_get_task, R_update_task, R_delete_task}"
    and "serve_route C V r c w = (out, w')"
  shows "case out of
      None \<Rightarrow> \<exists>token. c_Get c ''Authorization'' = ''Bearer '' @ token \<and> ju_Parse (rc_jwt C) (re_clock V) token = None
    | Some (Inr resp) \<Rightarrow> rs_Status resp = (if r = R_create_task then 201 else 200) \<and>
        (\<exists>claims. presented (rc_jwt C) (re_clock V) c claims)
    | Some (Inl e) \<Rightarrow> (\<exists>code msg. e = FiberError code msg \<and> code \<in> {400, 401, 404, 500} \<and>
        (code = 401 \<longleftrightarrow> \<not> (\<exists>claims. presented (rc_jwt C) (re_clock V) c claims)) \<and>
        (code \<noteq> 500 \<longrightarrow> rows (snd w') = rows (snd w)))"
proof (cases out)
  case None
  then show ?thesis using task_rpc.serve_panic [OF task_channel.axioms(1) [OF assms(1)] assms(2-4), of V c w] assms(5) by simp
next
  case (Some o')
  then show ?thesis using task_channel.serve_status [OF assms(1-4), of V c w o' w'] assms(5)
    by (cases o') (auto simp: task_rpc.status_of_def [OF task_channel.axioms(1) [OF assms(1)]])
qed

theorem gateway_task_status_witness:
  "\<exists>code msg. fst (serve_route hs_gateway hs_request R_all_tasks ((bearer_ctx []) \<lparr>c_Get := \<lambda>_. []\<rparr>) (one_user, empty_tasks))
     = Some (Inl (FiberError code msg)) \<and> code = 401"
proof -
  let ?c = "(bearer_ctx [])\<lparr>c_Get := \<lambda>_. []\<rparr>"
  have r: "R_all_tasks \<in> {R_create_task, R_all_tasks, R_get_task, R_update_task, R_delete_task}" by simp
  have "serve_route hs_gateway hs_request R_all_tasks ?c (one_user, empty_tasks)
      = (Some (Inl (FiberError 401 ''authorization header required'')), (one_user, empty_tasks))"
    by (simp add: serve_route_def protected_route_def AuthMiddleware_Handle_def fail_def)
  from gateway_task_status [OF direct_channel.task_channel_axioms hs_gateway_sel(1,2) r this] this show ?thesis by auto
qed

text \<open>C15: a sign-in is good for the gateway. After a sign-in at the auth service, the gateway, if it is set up
  with the same issuer and audience and with keys that match the signer's, accepts the access token until it
  expires and passes the request on under the identifier and email of the user with that email and password;
  it never accepts the refresh token in its place.\<close>

theorem login_reaches_gateway:
  assumes store: "user_store G rows base healthy L"
    and login: "AuthServer_SignIn G B (multiAlg_JwtUtil reg L ovf m ord o1 o2) (E1, E2) db email pw alg = Some (Inr a)"
    and gw: "issuer m' = issuer m" "audience m' = audience m"
      "\<forall>s. keys_match reg (g2 clock s) cfg meth \<and> Alg meth \<in> set (allowedHeaderAlgs (g1 clock s))"
    and cfg: "\<forall>E \<in> {E1, E2}. configForSignAlg (ord E) (if alg = [] then defaultAlg m else alg) = Some (Some (Some cfg))"
    and users: "\<forall>u \<in> ran (rows db). \<forall>(E, use) \<in> {(E1, TokenUseAccess), (E2, TokenUseRefresh)}.
      payload_ok L m E (user_payload u alg use) \<and> in_time clock (claims_of_payload L m E (user_payload u alg use))"
    and len: "length (AccessToken a) \<le> maxJWTCompactBytes" "length (RefreshToken a) \<le> maxJWTCompactBytes"
  shows "\<exists>u \<in> ran (rows db). u_Email u = email \<and> CompareHashAndPassword B (u_Password u) pw \<and>
    (\<forall>(Next :: 'w handler) c w. c_Get c ''Authorization'' = ''Bearer '' @ AccessToken a \<longrightarrow>
      AuthMiddleware_Handle L (multiAlg_JwtUtil reg L ovf m' g0 g1 g2) clock Next c w
        = Next (c\<lparr>c_Locals := (c_Locals c)(''user_id'' \<mapsto> uuid_String L (u_Id u), ''user_email'' \<mapsto> email)\<rparr>) w) \<and>
    (\<forall>(Next :: 'w handler) c w. c_Get c ''Authorization'' = ''Bearer '' @ RefreshToken a \<longrightarrow>
      AuthMiddleware_Handle L (multiAlg_JwtUtil reg L ovf m' g0 g1 g2) clock Next c w
        = fail StatusUnauthorized ''invalid token type'' w)"
proof -
  have libs: "libs_ok L" using store by (simp add: user_store_def user_store_axioms_def)
  let ?J = "multiAlg_JwtUtil reg L ovf m ord o1 o2" and ?J' = "multiAlg_JwtUtil reg L ovf m' g0 g1 g2"
  obtain t u where t: "a = auth_response t" "UserRepository_GetByEmail G db email = Inr u"
    "CompareHashAndPassword B (u_Password u) pw" "signs_pair ?J (E1, E2) u alg t"
    using signed_in [OF login] by blast
  note u = user_store.user_by_email_inv [OF store t(2)]
  have p: "payload_ok L m E (user_payload u alg use)" "in_time clock (claims_of_payload L m E (user_payload u alg use))"
    if "(E, use) \<in> {(E1, TokenUseAccess), (E2, TokenUseRefresh)}" for E use using users u that by auto
  have acc: "ju_Parse ?J' clock s = Some (Inr (claims_of_payload L m E (user_payload u alg use)))"
    if "(E, use) \<in> {(E1, TokenUseAccess), (E2, TokenUseRefresh)}" "multiAlg_Sign L ovf m (ord E) E (user_payload u alg use) = Some (Inr s)"
      "length s \<le> maxJWTCompactBytes" for E use s
  proof (rule gateway_accepts [where cs = "ord E" and cfg = cfg and meth = meth])
    show "configForSignAlg (ord E) (if P_Algorithm (user_payload u alg use) = [] then defaultAlg m else P_Algorithm (user_payload u alg use))
        = Some (Some (Some cfg))" using cfg that(1) by (auto simp: user_payload_def)
  qed (fact libs p [OF that(1)] gw that(2,3))+
  have A: "ju_Parse ?J' clock (AccessToken a) = Some (Inr (claims_of_payload L m E1 (user_payload u alg TokenUseAccess)))"
    by (rule acc) (use t(1,4) len in \<open>simp_all add: signs_pair_def multiAlg_JwtUtil_def auth_response_def\<close>)
  have R: "ju_Parse ?J' clock (RefreshToken a) = Some (Inr (claims_of_payload L m E2 (user_payload u alg TokenUseRefresh)))"
    by (rule acc) (use t(1,4) len in \<open>simp_all add: signs_pair_def multiAlg_JwtUtil_def auth_response_def\<close>)
  have use: "TokenUse (claims_of_payload L m E1 (user_payload u alg TokenUseAccess)) = TokenUseAccess"
    "TokenUse (claims_of_payload L m E2 (user_payload u alg TokenUseRefresh)) = TokenUseRefresh"
    by (simp_all add: user_payload_def use_or_access_def TokenUseAccess_def TokenUseRefresh_def)
  show ?thesis
  proof (intro bexI [of _ u] conjI allI impI)
    fix Next :: "'w handler" and c :: fiber_Ctx and w assume h: "c_Get c ''Authorization'' = ''Bearer '' @ AccessToken a"
    show "AuthMiddleware_Handle L ?J' clock Next c w
        = Next (c\<lparr>c_Locals := (c_Locals c)(''user_id'' \<mapsto> uuid_String L (u_Id u), ''user_email'' \<mapsto> email)\<rparr>) w"
      unfolding Handle_access [OF h A use(1), of L Next w] using u by (simp add: with_user_def user_payload_def)
  next
    fix Next :: "'w handler" and c :: fiber_Ctx and w assume h: "c_Get c ''Authorization'' = ''Bearer '' @ RefreshToken a"
    show "AuthMiddleware_Handle L ?J' clock Next c w = fail StatusUnauthorized ''invalid token type'' w"
      by (rule Handle_refresh [OF h R use(2)])
  qed (use u t(3) in simp_all)
qed

text \<open>The sample user signs in.\<close>

definition hs_tok :: "string \<Rightarrow> string" where
  "hs_tok use = SigningString (JWTClaims_type ref_libs (\<lambda>_. 0))
     (typed_token HS256 (claims_of_payload ref_libs hs_util hs_env (user_payload sample_user [] use)) use) @ ''.'' @ EncodeSegment ''key''"

lemma hs_tok_signed:
  assumes "use \<in> {TokenUseAccess, TokenUseRefresh}"
  shows "multiAlg_Sign ref_libs (\<lambda>_. 0) hs_util hs_configs hs_env (user_payload sample_user [] use) = Some (Inr (hs_tok use))"
proof -
  have "configForSignAlg hs_configs (defaultAlg hs_util) = Some (Some (Some hs_config))" "use \<noteq> []"
    using hs_choice assms by (auto simp: hs_payload_def TokenUseAccess_def TokenUseRefresh_def)
  then show ?thesis using sample_facts(6)
    by (simp add: multiAlg_Sign_def hs_config_def hs_tok_def SignedString_def typed_token_def NewWithClaims_def claims_of_payload_def
      user_payload_def use_or_access_def Let_def)
qed

lemma hs_tok_length:
  assumes "use \<in> {TokenUseAccess, TokenUseRefresh}"
  shows "length (hs_tok use) \<le> maxJWTCompactBytes"
proof -
  let ?c = "claims_of_payload ref_libs hs_util hs_env (user_payload sample_user [] use)"
  let ?h = "json_print (header_json (Header (typed_token HS256 ?c use)))" and ?b = "json_print (JObj (JWTClaims_members ref_libs ?c))"
  have "length ?h \<le> 200" "length ?b \<le> 200" using assms by (elim insertE emptyE, hypsubst, code_simp, hypsubst, code_simp)+
  then have "length (EncodeSegment ?h) \<le> 800" "length (EncodeSegment ?b) \<le> 800"
    using length_EncodeSegment [of ?h] length_EncodeSegment [of ?b] by linarith+
  moreover have "length (EncodeSegment ''key'') \<le> 12" using length_EncodeSegment [of "''key''"] by simp
  moreover have "SigningString (JWTClaims_type ref_libs (\<lambda>_. 0)) (typed_token HS256 ?c use)
      = EncodeSegment ?h @ ''.'' @ EncodeSegment ?b"
    by (simp add: SigningString_def JWT_iface typed_token_def NewWithClaims_def Let_def del: json_print.simps)
  ultimately show ?thesis unfolding hs_tok_def maxJWTCompactBytes_def by simp
qed

lemma hs_signed_in:
  "AuthServer_SignIn mem_users ref_bcrypt hs_jwt (hs_env, hs_env) one_user ''m'' ''pw'' []
     = Some (Inr (auth_response (hs_tok TokenUseAccess, hs_tok TokenUseRefresh)))"
  unfolding AuthServer_SignIn_iff mem_user.signin_granted [OF TrueI one_user_unique] one_user_ran
  by (simp add: signs_pair_def hs_jwt_def multiAlg_JwtUtil_def hs_tok_signed) (simp add: sample_user_def ref_bcrypt_def)

lemma hs_tok_payload:
  assumes "use \<in> {TokenUseAccess, TokenUseRefresh}"
  shows "payload_ok ref_libs hs_util hs_env (user_payload sample_user [] use)"
    "in_time hs_clock (claims_of_payload ref_libs hs_util hs_env (user_payload sample_user [] use))"
  using assms by (elim insertE emptyE, hypsubst, code_simp, hypsubst, code_simp)+

lemma hs_gateway_keys:
  "\<forall>s. keys_match hs_reg ((\<lambda>_ _. hs_configs) hs_clock s) hs_config HS256 \<and> Alg HS256 \<in> set (allowedHeaderAlgs ((\<lambda>_ _. hs_configs) hs_clock s))"
  using hs_match by (simp add: allowedHeaderAlgs_set hs_configs_def hs_config_def)

lemma hs_default: "configForSignAlg hs_configs (if [] = [] then defaultAlg hs_util else []) = Some (Some (Some hs_config))"
  using hs_choice by (simp add: hs_payload_def)

theorem login_reaches_gateway_witness:
  "\<exists>u \<in> {sample_user}. AuthMiddleware_Handle ref_libs hs_jwt hs_clock (\<lambda>c w. (None, c_Locals c ''user_id'')) (bearer_ctx (hs_tok TokenUseAccess)) None
     = (None, Some (uuid_String ref_libs (u_Id u)))"
proof -
  have users: "\<forall>u \<in> ran (mem_rows u_Id (tbl one_user)). \<forall>(E, use) \<in> {(hs_env, TokenUseAccess), (hs_env, TokenUseRefresh)}.
      payload_ok ref_libs hs_util E (user_payload u [] use) \<and> in_time hs_clock (claims_of_payload ref_libs hs_util E (user_payload u [] use))"
    unfolding one_user_ran using hs_tok_payload by simp
  have len: "length (AccessToken (auth_response (hs_tok TokenUseAccess, hs_tok TokenUseRefresh))) \<le> maxJWTCompactBytes"
    "length (RefreshToken (auth_response (hs_tok TokenUseAccess, hs_tok TokenUseRefresh))) \<le> maxJWTCompactBytes"
    by (simp_all add: auth_response_def hs_tok_length)
  have cfg: "\<forall>E \<in> {hs_env, hs_env}. configForSignAlg ((\<lambda>_. hs_configs) E) (if [] = [] then defaultAlg hs_util else [])
      = Some (Some (Some hs_config))" using hs_default by simp
  obtain u where "u \<in> {sample_user}" "\<forall>(Next :: string option handler) c w.
      c_Get c ''Authorization'' = ''Bearer '' @ AccessToken (auth_response (hs_tok TokenUseAccess, hs_tok TokenUseRefresh)) \<longrightarrow>
      AuthMiddleware_Handle ref_libs hs_jwt hs_clock Next c w
        = Next (c\<lparr>c_Locals := (c_Locals c)(''user_id'' \<mapsto> uuid_String ref_libs (u_Id u), ''user_email'' \<mapsto> ''m'')\<rparr>) w"
    using login_reaches_gateway [OF mem_user.user_store_axioms hs_signed_in [unfolded hs_jwt_def] refl refl hs_gateway_keys cfg users len,
        where 'w = "string option"] unfolding one_user_ran hs_jwt_def by blast
  then show ?thesis by (intro bexI [of _ u]) (simp_all add: bearer_header auth_response_def)
qed




end
