(* ===== verification/CodecTrim.thy ===== *)
theory CodecTrim
  imports Codec
begin

unbundle bit_operations_syntax

text \<open>
  Correctness of the fixed-width encoding of small polynomials (\<^verbatim>\<open>trim_i8_encode\<close> and \<^verbatim>\<open>trim_i8_decode\<close> of \<^verbatim>\<open>codec.go\<close>), the
  format of signing keys: the encoder writes the low bits of the values one after the other, and the decoder reads
  such a bit string back, provided every value fits its width and is not the most negative one.
\<close>

definition trim_fits :: "nat \<Rightarrow> i8 \<Rightarrow> bool" where
  "trim_fits nbits v \<longleftrightarrow> - (2 ^ (nbits - 1)) < sint v \<and> sint v < 2 ^ (nbits - 1)"

section \<open>Encoding\<close>

lemma trim_emit_spec:
  assumes "j + al div 8 \<le> length dst"
  shows "\<exists>out. trim_emit acc al j dst = (al mod 8, j + al div 8, take j dst @ out @ drop (j + al div 8) dst) \<and> length out = al div 8 \<and>
    bytes_bits out @ bits_msb (al mod 8) acc = bits_msb al acc"
  using assms
proof (induction acc al j dst rule: trim_emit.induct)
  case (1 acc al j dst)
  show ?case
  proof (cases "8 \<le> al")
    case False
    then show ?thesis using "1.prems" by (simp add: trim_emit.simps)
  next
    case True
    let ?b = "ucast (drop_bit (al - 8) acc) :: u8"
    have al: "al = 8 + (al - 8)" "al div 8 = Suc ((al - 8) div 8)" "al mod 8 = (al - 8) mod 8" using True by (simp_all add: le_div_geq le_mod_geq)
    have j: "j < length dst" using "1.prems" al(2) by simp
    obtain out where out: "trim_emit acc (al - 8) (j + 1) (dst[j := ?b]) = ((al - 8) mod 8, j + 1 + (al - 8) div 8,
        take (j + 1) (dst[j := ?b]) @ out @ drop (j + 1 + (al - 8) div 8) (dst[j := ?b]))"
      "length out = (al - 8) div 8" "bytes_bits out @ bits_msb ((al - 8) mod 8) acc = bits_msb (al - 8) acc"
      using "1.IH" [OF True refl] "1.prems" al(2) by auto
    have tk: "take (j + 1) (dst[j := ?b]) = take j dst @ [?b]" using j by (simp add: take_Suc_conv_app_nth)
    have dr: "drop (j + 1 + (al - 8) div 8) (dst[j := ?b]) = drop (j + al div 8) dst" using al(2) by simp
    have "bits_msb 8 ?b @ bits_msb (al - 8) acc = bits_msb al acc"
      by (subst (3) al(1), subst bits_msb_split) (simp add: bits_msb_ucast)
    then show ?thesis using out True tk dr al(2,3)
      by (subst trim_emit.simps) (auto intro!: exI [of _ "?b # out"] simp: Let_def)
  qed
qed

lemma low_mask:
  fixes v :: i8
  assumes "k \<le> 8"
  defines "m \<equiv> scast v AND (push_bit k 1 - (1 :: u32))"
  shows "bit m i \<Longrightarrow> i < k" "bits_msb k m = bits_msb k v"
proof -
  have "push_bit k 1 - (1 :: u32) = mask k" by (simp add: push_bit_eq_mult mask_eq_exp_minus_1)
  then have b: "bit m i \<longleftrightarrow> i < k \<and> bit v i" for i
    using assms(1) by (auto simp: m_def bit_and_iff bit_mask_iff bit_signed_iff)
  then show "bit m i \<Longrightarrow> i < k" "bits_msb k m = bits_msb k v" by (auto intro: bits_msb_cong)
qed

lemma trim_i8_encode_spec:
  assumes nb: "0 < nbits" "nbits \<le> 8" and f: "length f = 2 ^ logn" and dv: "8 dvd nbits * 2 ^ logn" and len: "nbits * 2 ^ logn div 8 \<le> length dst"
  shows "\<exists>out. trim_i8_encode logn f nbits dst = (nbits * 2 ^ logn div 8, out @ drop (nbits * 2 ^ logn div 8) dst)
    \<and> length out = nbits * 2 ^ logn div 8 \<and> bytes_bits out = concat (map (bits_msb nbits) f)"
proof -
  define F where "F = (\<lambda>k. fold (\<lambda>i (acc, acc_len, j, dst).
      let acc = push_bit nbits acc OR (scast (f ! i) AND (push_bit nbits 1 - (1 :: u32)));
          (acc_len, j, dst) = trim_emit acc (acc_len + nbits) j dst
      in (acc, acc_len, j, dst)) [0..<k] (0 :: u32, 0 :: nat, 0 :: nat, dst))"
  have "\<exists>acc out. F k = (acc, k * nbits mod 8, k * nbits div 8, out @ drop (k * nbits div 8) dst) \<and> length out = k * nbits div 8 \<and>
      bytes_bits out @ bits_msb (k * nbits mod 8) acc = concat (map (bits_msb nbits) (take k f))" if "k \<le> 2 ^ logn" for k
    using that
  proof (induction k)
    case (Suc k)
    let ?al = "k * nbits mod 8" and ?j = "k * nbits div 8"
    from Suc obtain acc out where IH: "F k = (acc, ?al, ?j, out @ drop ?j dst)" "length out = ?j"
      "bytes_bits out @ bits_msb ?al acc = concat (map (bits_msb nbits) (take k f))" by auto
    let ?m = "scast (f ! k) AND (push_bit nbits 1 - (1 :: u32))"
    let ?acc = "push_bit nbits acc OR ?m"
    have tot: "Suc k * nbits = 8 * ?j + (?al + nbits)" by (simp add: algebra_simps)
    have "(8 * a + b) div 8 = a + b div 8" "(8 * a + b) mod 8 = b mod 8" for a b :: nat by simp_all
    then have j': "Suc k * nbits div 8 = ?j + (?al + nbits) div 8" "Suc k * nbits mod 8 = (?al + nbits) mod 8" by (simp_all only: tot)
    have "Suc k * nbits div 8 \<le> nbits * 2 ^ logn div 8" using Suc.prems by (intro div_le_mono) (metis mult.commute mult_le_mono1)
    then have fit: "?j + (?al + nbits) div 8 \<le> length (out @ drop ?j dst)" using len IH(2) j'(1) by simp
    obtain o2 where E: "trim_emit ?acc (?al + nbits) ?j (out @ drop ?j dst) = ((?al + nbits) mod 8, ?j + (?al + nbits) div 8,
        take ?j (out @ drop ?j dst) @ o2 @ drop (?j + (?al + nbits) div 8) (out @ drop ?j dst))" "length o2 = (?al + nbits) div 8"
      "bytes_bits o2 @ bits_msb ((?al + nbits) mod 8) ?acc = bits_msb (?al + nbits) ?acc"
      using trim_emit_spec [OF fit, of ?acc] by blast
    have "bits_msb (?al + nbits) ?acc = bits_msb ?al acc @ bits_msb nbits ?m"
      by (rule bits_msb_append) (use nb low_mask(1) [OF nb(2)] in \<open>auto simp: less_imp_le_nat\<close>)
    then have "bytes_bits (out @ o2) @ bits_msb ((?al + nbits) mod 8) ?acc = concat (map (bits_msb nbits) (take k f)) @ bits_msb nbits (f ! k)"
      using IH(3) E(3) low_mask(2) [OF nb(2), of "f ! k"] by simp
    also have "\<dots> = concat (map (bits_msb nbits) (take (Suc k) f))" using Suc.prems f by (simp add: take_Suc_conv_app_nth)
    finally have bits: "bytes_bits (out @ o2) @ bits_msb ((?al + nbits) mod 8) ?acc = concat (map (bits_msb nbits) (take (Suc k) f))" .
    have "F (Suc k) = (?acc, (?al + nbits) mod 8, ?j + (?al + nbits) div 8, (out @ o2) @ drop (?j + (?al + nbits) div 8) dst)"
      using IH(1,2) E(1) by (simp add: F_def Let_def add.commute)
    then show ?case unfolding j' using bits IH(2) E(2)
      by (intro exI [of _ ?acc] exI [of _ "out @ o2"]) simp
  qed (simp add: F_def)
  from this [OF order.refl] obtain acc out where R: "F (2 ^ logn) = (acc, 2 ^ logn * nbits mod 8, 2 ^ logn * nbits div 8, out @ drop (2 ^ logn * nbits div 8) dst)"
    "length out = 2 ^ logn * nbits div 8" "bytes_bits out @ bits_msb (2 ^ logn * nbits mod 8) acc = concat (map (bits_msb nbits) (take (2 ^ logn) f))"
    by blast
  then show ?thesis using dv f by (intro exI [of _ out]) (simp add: trim_i8_encode_def F_def Let_def mult.commute)
qed

section \<open>Decoding\<close>

text \<open>Sign extension of the low bits, as the decoder does it.\<close>

definition trim_ext :: "nat \<Rightarrow> u32 \<Rightarrow> u32" where
  "trim_ext nbits x = (let w = x AND (push_bit nbits 1 - 1) in w OR - (w AND push_bit (nbits - 1) 1))"

lemma trim_ext_bit:
  assumes "0 < nbits" "nbits \<le> 8" "i < 32"
  shows "bit (trim_ext nbits x) i \<longleftrightarrow> (if i < nbits then bit x i else bit x (nbits - 1))"
proof -
  define w m where "w = x AND (push_bit nbits 1 - 1)" and "m = push_bit (nbits - 1) (1 :: u32)"
  have mk: "push_bit nbits 1 - (1 :: u32) = mask nbits" by (simp add: push_bit_eq_mult mask_eq_exp_minus_1)
  have w: "bit w i \<longleftrightarrow> i < nbits \<and> bit x i" if "i < 32" for i
    using that unfolding w_def mk by (auto simp: bit_and_iff bit_mask_iff)
  have m: "bit m i \<longleftrightarrow> i = nbits - 1" if "i < 32" for i
    using that assms(1,2) unfolding m_def by (auto simp only: bit_push_bit_iff bit_1_iff) auto
  have "w AND m = (if bit x (nbits - 1) then m else 0)"
  proof (rule bit_word_eqI)
    fix i assume "i < LENGTH(32)"
    then have "i < 32" by simp
    then show "bit (w AND m) i \<longleftrightarrow> bit (if bit x (nbits - 1) then m else 0) i"
      using assms(1) w m by (auto simp: bit_and_iff)
  qed
  moreover have "bit (- m) i \<longleftrightarrow> nbits - 1 \<le> i"
    using assms unfolding m_def by (simp add: push_bit_eq_mult bit_minus_exp_iff)
  ultimately have "bit (- (w AND m)) i \<longleftrightarrow> bit x (nbits - 1) \<and> nbits - 1 \<le> i" by simp
  moreover have "trim_ext nbits x = w OR - (w AND m)" by (simp add: trim_ext_def w_def m_def Let_def)
  ultimately have "bit (trim_ext nbits x) i \<longleftrightarrow> (i < nbits \<and> bit x i) \<or> (bit x (nbits - 1) \<and> nbits - 1 \<le> i)"
    using w [OF assms(3)] by (simp only: bit_or_iff)
  moreover have "i < nbits \<Longrightarrow> nbits - 1 \<le> i \<Longrightarrow> i = nbits - 1" by simp
  ultimately show ?thesis by auto
qed

lemma fits_bit:
  assumes "trim_fits nbits v" "0 < nbits" "nbits - 1 \<le> i" "i < 8"
  shows "bit v i \<longleftrightarrow> bit v (nbits - 1)"
proof -
  have "signed_take_bit (nbits - 1) (sint v) = sint v" using assms(1) by (intro signed_take_bit_int_eq_self) (simp_all add: trim_fits_def)
  then have "bit (sint v) i \<longleftrightarrow> bit (sint v) (nbits - 1)" using assms(3) bit_signed_take_bit_iff [of "nbits - 1" "sint v" i] by (simp add: min_def)
  then show ?thesis using assms by (simp add: bit_sint_iff)
qed

lemma trim_ext_value:
  assumes nb: "0 < nbits" "nbits \<le> 8" and v: "trim_fits nbits v" and x: "bits_msb nbits x = bits_msb nbits v"
  shows "ucast (trim_ext nbits x) = v" "trim_ext nbits x \<noteq> - push_bit (nbits - 1) 1"
proof -
  have b: "bit x i \<longleftrightarrow> bit v i" if "i < nbits" for i
    using that x unfolding bits_msb_def map_eq_conv by (simp del: rev_map)
  show e: "ucast (trim_ext nbits x) = v"
  proof (rule bit_word_eqI)
    fix i assume "i < LENGTH(8)"
    then show "bit (ucast (trim_ext nbits x) :: i8) i \<longleftrightarrow> bit v i"
      using nb b [of i] b [of "nbits - 1"] fits_bit [OF v nb(1), of i] by (simp add: bit_ucast_iff trim_ext_bit [OF nb])
  qed
  show "trim_ext nbits x \<noteq> - push_bit (nbits - 1) 1"
  proof
    assume "trim_ext nbits x = - push_bit (nbits - 1) 1"
    then have "v = ucast (- push_bit (nbits - 1) (1 :: u32))" using e by simp
    moreover have "nbits \<in> {1, 2, 3, 4, 5, 6, 7, 8}" using nb by auto
    moreover have "ucast (- 1 :: u32) = (- 1 :: i8)" by code_simp
    ultimately show False using v by (auto simp: trim_fits_def)
  qed
qed

text \<open>
  The inner loop reads whole values as long as the accumulator holds one: what it has not read and the leftover bits
  are the encoding of the values still to come.
\<close>

definition trim_write :: "nat \<Rightarrow> i8 list \<Rightarrow> i8 list \<Rightarrow> i8 list" where
  "trim_write j ws f = take j f @ ws @ drop (j + length ws) f"

lemma trim_write_step: "j + length (v # ws) \<le> length f \<Longrightarrow> trim_write (j + 1) ws (f[j := v]) = trim_write j (v # ws) f"
  by (simp add: trim_write_def take_Suc_conv_app_nth)

lemma trim_take_spec:
  assumes "0 < nbits" "nbits \<le> 8" "al \<le> 32" "bits_msb al acc @ R = concat (map (bits_msb nbits) ws)" "list_all (trim_fits nbits) ws"
    "j + length ws = n" "j < n" "n \<le> length f"
  shows "\<exists>ws1 ws2 al'. trim_take nbits n acc al j f = Inr (al', j + length ws1, trim_write j ws1 f) \<and> ws = ws1 @ ws2 \<and> al' < nbits \<and>
     bits_msb al' acc @ R = concat (map (bits_msb nbits) ws2)"
  using assms
proof (induction nbits n acc al j f arbitrary: ws rule: trim_take.induct)
  case (1 nbits n acc al j f)
  show ?case
  proof (cases "nbits \<le> al")
    case False
    then show ?thesis using "1.prems" by (subst trim_take.simps) (intro exI [of _ "[]"] exI [of _ ws] exI [of _ al], simp add: trim_write_def)
  next
    case True
    obtain v vs where ws: "ws = v # vs" using "1.prems"(6,7) by (cases ws) auto
    define al1 where "al1 = al - nbits"
    have al: "al = nbits + al1" using True by (simp add: al1_def)
    have "bits_msb nbits (drop_bit al1 acc) @ bits_msb al1 acc @ R = bits_msb nbits v @ concat (map (bits_msb nbits) vs)"
      using "1.prems"(4) by (simp add: ws al bits_msb_split)
    then have x: "bits_msb nbits (drop_bit al1 acc) = bits_msb nbits v" and r: "bits_msb al1 acc @ R = concat (map (bits_msb nbits) vs)"
      by (simp_all only: append_eq_append_conv [OF disjI1 [OF trans [OF bits_msb_length bits_msb_length [symmetric]]]])
    have v: "trim_fits nbits v" and vs: "list_all (trim_fits nbits) vs" using "1.prems"(5) ws by simp_all
    note X = trim_ext_value [OF "1.prems"(1,2) v x]
    have st: "trim_take nbits n acc al j f = (if n \<le> j + 1 then Inr (al1, j + 1, f[j := v]) else trim_take nbits n acc al1 (j + 1) (f[j := v]))"
      using True "1.prems"(1) X by (subst trim_take.simps) (simp add: trim_ext_def Let_def al1_def)
    show ?thesis
    proof (cases "n \<le> j + 1")
      case done': True
      then have [simp]: "vs = []" using "1.prems"(6) ws by (cases vs) simp_all
      have "al1 + length R = 0" using arg_cong [OF r, of length] by simp
      moreover have "trim_write j [v] f = f[j := v]" using "1.prems"(6,8) ws by (simp add: trim_write_def upd_conv_take_nth_drop)
      ultimately show ?thesis using st done' ws r "1.prems"(1,6,8)
        by (intro exI [of _ "[v]"] exI [of _ "[]"] exI [of _ al1]) simp
    next
      case go: False
      have X2: "(drop_bit al1 acc AND (push_bit nbits 1 - 1)) OR - ((drop_bit al1 acc AND (push_bit nbits 1 - 1)) AND push_bit (nbits - 1) 1)
          \<noteq> - push_bit (nbits - 1) 1"
        by (rule X(2) [unfolded trim_ext_def Let_def])
      have len: "al1 \<le> 32" "j + 1 + length vs = n" "j + 1 < n" "n \<le> length (f[j := v])" "bits_msb al1 acc @ R = concat (map (bits_msb nbits) vs)"
        using "1.prems"(3,6,7,8) ws go r by (auto simp: al1_def)
      from "1.IH" [OF conjI [OF True "1.prems"(1)] al1_def refl refl refl refl X2 _ refl _ "1.prems"(1,2) len(1) len(5) vs len(2,3) len(4)]
      obtain ws1 ws2 al' where IH:
        "trim_take nbits n acc al1 (j + 1) (f[j := v]) = Inr (al', j + 1 + length ws1, trim_write (j + 1) ws1 (f[j := v]))" "vs = ws1 @ ws2"
        "al' < nbits" "bits_msb al' acc @ R = concat (map (bits_msb nbits) ws2)"
        using X(1) go by (auto simp: trim_ext_def Let_def)
      have "trim_write (j + 1) ws1 (f[j := v]) = trim_write j (v # ws1) f"
        using "1.prems"(6,8) ws IH(2) by (intro trim_write_step) simp
      then show ?thesis using st go IH ws
        by (intro exI [of _ "v # ws1"] exI [of _ ws2] exI [of _ al']) (simp add: al1_def)
    qed
  qed
qed

lemma trim_write_append: "j + length (ws1 @ ws2) \<le> length f \<Longrightarrow> trim_write (j + length ws1) ws2 (trim_write j ws1 f) = trim_write j (ws1 @ ws2) f"
  by (cases ws1) (auto simp: trim_write_def min_def ac_simps)

lemma trim_write_length [simp]: "j + length ws \<le> length f \<Longrightarrow> length (trim_write j ws f) = length f"
  by (simp add: trim_write_def)

lemma concat_bits_length: "length (concat (map (bits_msb nbits) ws)) = nbits * length ws"
  by (induction ws) simp_all

lemma trim_bytes_spec:
  assumes "0 < nbits" "nbits \<le> 8" "al < nbits" "bits_msb al acc @ bytes_bits bs = concat (map (bits_msb nbits) ws)"
    "list_all (trim_fits nbits) ws" "j + length ws = n" "n \<le> length f"
  shows "\<exists>acc'. trim_bytes nbits n bs acc al j f = Inr (acc', 0, n, trim_write j ws f)"
  using assms
proof (induction bs arbitrary: acc al j f ws)
  case Nil
  have "al = nbits * length ws" using arg_cong [OF Nil.prems(4), of length] by (simp add: concat_bits_length)
  then have "ws = []" "al = 0" using Nil.prems(3) by (cases ws; simp)+
  then show ?case using Nil.prems(6) by (simp add: trim_write_def)
next
  case (Cons b bs)
  let ?acc = "push_bit 8 acc OR ucast b :: u32"
  have "bits_msb (al + 8) ?acc = bits_msb al acc @ bits_msb 8 (ucast b :: u32)"
    by (rule bits_msb_append) (use Cons.prems(2,3) in \<open>auto simp: bit_ucast_iff dest: bit_imp_le_length\<close>)
  then have bits: "bits_msb (al + 8) ?acc @ bytes_bits bs = concat (map (bits_msb nbits) ws)"
    using Cons.prems(4) by (simp add: bits_msb_ucast)
  have "al + 8 + 8 * length bs = nbits * length ws" using arg_cong [OF bits, of length] by (simp add: concat_bits_length)
  then have j: "j < n" using Cons.prems(6) by (cases ws) simp_all
  have al: "al + 8 \<le> 32" using Cons.prems(2,3) by simp
  obtain ws1 ws2 al' where T: "trim_take nbits n ?acc (al + 8) j f = Inr (al', j + length ws1, trim_write j ws1 f)" "ws = ws1 @ ws2"
    "al' < nbits" "bits_msb al' ?acc @ bytes_bits bs = concat (map (bits_msb nbits) ws2)"
    using trim_take_spec [OF Cons.prems(1,2) al bits Cons.prems(5,6) j Cons.prems(7)] by blast
  have fit: "j + length (ws1 @ ws2) \<le> length f" using Cons.prems(6,7) T(2) by simp
  then have fit1: "n \<le> length (trim_write j ws1 f)" using Cons.prems(7) by simp
  have ws2: "list_all (trim_fits nbits) ws2" "j + length ws1 + length ws2 = n" using Cons.prems(5,6) T(2) by simp_all
  from Cons.IH [OF Cons.prems(1,2) T(3,4) ws2 fit1] obtain acc' where
    "trim_bytes nbits n bs ?acc al' (j + length ws1) (trim_write j ws1 f) = Inr (acc', 0, n, trim_write (j + length ws1) ws2 (trim_write j ws1 f))" by blast
  then show ?case using T(1,2) trim_write_append [OF fit] by (simp add: Let_def)
qed

text \<open>The decoder inverts the encoder and does not look beyond the bytes of the polynomial.\<close>

lemma trim_i8_roundtrip:
  assumes nb: "0 < nbits" "nbits \<le> 8" and f: "length f = 2 ^ logn" "list_all (trim_fits nbits) f" and dv: "8 dvd nbits * 2 ^ logn"
    and f0: "length f0 = 2 ^ logn" and src: "length out = nbits * 2 ^ logn div 8" "bytes_bits out = concat (map (bits_msb nbits) f)"
  shows "trim_i8_decode logn (out @ rest) f0 nbits = Inr (length out, f)"
proof -
  have needed: "(nbits * 2 ^ logn + 7) div 8 = length out" using dv src(1) by auto
  obtain acc' where "trim_bytes nbits (2 ^ logn) out 0 0 0 f0 = Inr (acc', 0, 2 ^ logn, trim_write 0 f f0)"
    using trim_bytes_spec [of nbits 0 "0 :: u32" out f 0 "2 ^ logn" f0] assms by auto
  then show ?thesis using f(1) f0 by (simp add: trim_i8_decode_def needed trim_write_def)
qed

end
