(* ===== verification/MqRing.thy ===== *)
theory MqRing
  imports MqPoly NttRing
begin

text \<open>
  The ring of keys and signatures, \<open>Z_q[X]/(X^n + 1)\<close>, through the values of its polynomials at the roots of the
  transform: equations between products are checked value by value.
\<close>

definition mq_root :: "nat \<Rightarrow> nat \<Rightarrow> int" where
  "mq_root logn i = node_const 12289 (\<lambda>i. mq_twiddle (mqgm ! i)) (2 ^ logn + i)"

definition mq_ev :: "nat \<Rightarrow> (nat \<Rightarrow> int) \<Rightarrow> nat \<Rightarrow> int" where
  "mq_ev logn f i = poly_ev (2 ^ logn) f (mq_root logn i) mod 12289"

lemma mq_ev_mod [simp]: "mq_ev logn f i mod 12289 = mq_ev logn f i"
  by (simp add: mq_ev_def)

lemma mq_ev_cong: "(\<And>k. k < 2 ^ logn \<Longrightarrow> f k mod 12289 = g k mod 12289) \<Longrightarrow> mq_ev logn f i = mq_ev logn g i"
  unfolding mq_ev_def by (rule poly_ev_cong)

lemma mq_ev_negconv:
  "logn \<le> 10 \<Longrightarrow> i < 2 ^ logn \<Longrightarrow> mq_ev logn (negconv (2 ^ logn) f g) i = mq_ev logn f i * mq_ev logn g i mod 12289"
  unfolding mq_ev_def mq_root_def using mq.ev_negconv [OF logn_le_1024] by (simp add: mod_mult_eq)

lemma mq_ev_add: "mq_ev logn (\<lambda>k. f k + g k) i = (mq_ev logn f i + mq_ev logn g i) mod 12289"
  by (simp add: mq_ev_def poly_ev_add mod_add_eq)

lemma mq_ev_diff: "mq_ev logn (\<lambda>k. f k - g k) i = (mq_ev logn f i - mq_ev logn g i) mod 12289"
  by (simp add: mq_ev_def poly_ev_diff mod_diff_eq)

lemma mq_ev_const: "mq_ev logn (\<lambda>k. if k = 0 then c else 0) i = c mod 12289"
  by (simp add: mq_ev_def poly_ev_const)

lemma mq_ev_inj:
  assumes "logn \<le> 10" "\<And>i. i < 2 ^ logn \<Longrightarrow> mq_ev logn f i = mq_ev logn g i" "k < 2 ^ logn"
  shows "f k mod 12289 = g k mod 12289"
  using mq.ev_inj [OF logn_le_1024 [OF assms(1)] _ assms(3), of f g] assms(2) by (simp add: mq_ev_def mq_root_def)

text \<open>Equations of the ring: \<open>f\<close> and \<open>g\<close> have the same residues.\<close>

definition mq_eq :: "nat \<Rightarrow> (nat \<Rightarrow> int) \<Rightarrow> (nat \<Rightarrow> int) \<Rightarrow> bool" where
  "mq_eq logn f g \<longleftrightarrow> (\<forall>k < 2 ^ logn. f k mod 12289 = g k mod 12289)"

lemma mq_eq_iff_ev: "logn \<le> 10 \<Longrightarrow> mq_eq logn f g \<longleftrightarrow> (\<forall>i < 2 ^ logn. mq_ev logn f i = mq_ev logn g i)"
  using mq_ev_inj [of logn f g] mq_ev_cong [of logn f g] by (auto simp: mq_eq_def)

definition mq_unit :: "nat \<Rightarrow> (nat \<Rightarrow> int) \<Rightarrow> bool" where
  "mq_unit logn f \<longleftrightarrow> (\<exists>u. mq_eq logn (negconv (2 ^ logn) f u) (\<lambda>k. if k = 0 then 1 else 0))"

lemma mq_unit_ev: "logn \<le> 10 \<Longrightarrow> mq_unit logn f \<Longrightarrow> \<exists>w. \<forall>i < 2 ^ logn. w i * mq_ev logn f i mod 12289 = 1"
  by (auto simp: mq_unit_def mq_eq_iff_ev mq_ev_negconv mq_ev_const mult.commute)

lemma mod_unit_cancel:
  assumes "f * a mod p = f * b mod p" "w * f mod p = 1"
  shows "a mod p = b mod (p :: int)"
proof -
  have "x mod p = w * (f * x mod p) mod p" for x
    using assms(2) by (simp add: mod_mult_right_eq mult.assoc [symmetric] mod_mult_left_eq [of "w * f" p x, symmetric])
  then show ?thesis using assms(1) by metis
qed

text \<open>A unit cancels.\<close>

lemma mq_unit_cancel:
  assumes n: "logn \<le> 10" and u: "mq_unit logn f" and e: "mq_eq logn (negconv (2 ^ logn) f a) (negconv (2 ^ logn) f b)"
  shows "mq_eq logn a b"
  unfolding mq_eq_iff_ev [OF n]
proof (intro allI impI)
  obtain w where w: "\<And>i. i < 2 ^ logn \<Longrightarrow> w i * mq_ev logn f i mod 12289 = 1" using mq_unit_ev [OF n u] by blast
  fix i :: nat assume i: "i < 2 ^ logn"
  from e i have "mq_ev logn f i * mq_ev logn a i mod 12289 = mq_ev logn f i * mq_ev logn b i mod 12289"
    by (simp add: mq_eq_iff_ev [OF n] mq_ev_negconv [OF n])
  from mod_unit_cancel [OF this w [OF i]] show "mq_ev logn a i = mq_ev logn b i" by simp
qed

end
