(* ===== verification/KeyPair.thy ===== *)
theory KeyPair
  imports CodecTrim CodecModq FndsaUtil MqRing
begin

unbundle bit_operations_syntax

text \<open>
  The key pair (\<^verbatim>\<open>kgen.go\<close> and the first half of \<^verbatim>\<open>sign.go\<close>): the encoding of the four secret polynomials as a signing key and of the
  quotient \<open>h = g / f\<close> as a verifying key, and how a signer gets both back from the signing key alone, \<open>G\<close> from the
  equation of the ring.
\<close>

section \<open>Encoding a key pair\<close>

text \<open>A call that writes into the slice \<^verbatim>\<open>dst[j:]\<close> and returns how many bytes it wrote.\<close>

definition write_slice :: "nat \<Rightarrow> (u8 list \<Rightarrow> nat \<times> u8 list) \<Rightarrow> u8 list \<Rightarrow> nat \<times> u8 list" where
  "write_slice j enc dst = (let (k, s) = enc (drop j dst) in (j + k, take j dst @ s))"

definition encode_keypair ::
  "nat \<Rightarrow> i8 list \<Rightarrow> i8 list \<Rightarrow> i8 list \<Rightarrow> i8 list \<Rightarrow> u16 list \<Rightarrow> u8 list \<times> u8 list" where
  "encode_keypair logn f g F G tmp_u16 =
     (let n = 2 ^ logn;
          skey = replicate (SigningKeySize logn) 0;
          nbits = nbits_fg logn;
          skey = skey[0 := of_nat (0x50 + logn)];
          j = 1;
          (j, skey) = write_slice j (trim_i8_encode logn f nbits) skey;
          (j, skey) = write_slice j (trim_i8_encode logn g nbits) skey;
          (_, skey) = write_slice j (trim_i8_encode logn F 8) skey;
          vkey = replicate (VerifyingKeySize logn) 0;
          vkey = vkey[0 := of_nat (0x00 + logn)];
          h = take n tmp_u16;
          t1 = drop n tmp_u16;
          h = mqpoly_small_to_int logn g h;
          t1 = mqpoly_small_to_int logn f t1;
          h = mqpoly_int_to_ntt logn h;
          t1 = mqpoly_int_to_ntt logn t1;
          (_, h) = mqpoly_div_ntt logn h t1;
          h = mqpoly_ntt_to_int logn h;
          h = mqpoly_int_to_ext logn h;
          (_, vkey) = write_slice 1 (modq_encode logn h) vkey
      in (skey, vkey))"

section \<open>Reading a signing key\<close>

text \<open>
  The errors of signing. The last two are those of \<^verbatim>\<open>sign_core\<close>.
\<close>

datatype sign_error = Invalid_private_key | Undecodable_key codec_error | F_not_invertible | G_out_of_range
  | Unhashable_message hash_error

text \<open>
  What \<^verbatim>\<open>sign_inner_seeded\<close> does up to the call of \<^verbatim>\<open>sign_core\<close>: the four polynomials, the hash of the verifying key, and the
  scratch slice \<^verbatim>\<open>t0\<close> that the call reuses.
\<close>

definition load_signing_key ::
  "xof \<Rightarrow> nat \<Rightarrow> nat \<Rightarrow> u8 list \<Rightarrow>
    (sign_error, nat \<times> i8 list \<times> i8 list \<times> i8 list \<times> i8 list \<times> u8 list \<times> u16 list) result" where
  "load_signing_key shake logn_min logn_max skey =
     (if length skey = 0 then Inl Invalid_private_key
      else let head1 = skey ! 0
      in if head1 AND 0xF0 \<noteq> 0x50 then Inl Invalid_private_key
      else let logn = unat (head1 AND 0x0F)
      in if logn < logn_min \<or> logn_max < logn then Inl Invalid_private_key
      else if length skey \<noteq> SigningKeySize logn then Inl Invalid_private_key
      else let n = 2 ^ logn; f = replicate n 0; g = replicate n 0; F = replicate n 0; off = 1
      in case trim_i8_decode logn (drop off skey) f (nbits_fg logn) of Inl e \<Rightarrow> Inl (Undecodable_key e) | Inr (j, f) \<Rightarrow>
         let off = off + j
      in (case trim_i8_decode logn (drop off skey) g (nbits_fg logn) of Inl e \<Rightarrow> Inl (Undecodable_key e) | Inr (j, g) \<Rightarrow>
         let off = off + j
      in (case trim_i8_decode logn (drop off skey) F 8 of Inl e \<Rightarrow> Inl (Undecodable_key e) | Inr (_, F) \<Rightarrow>
         let G = replicate n 0; t0 = replicate n 0; t1 = replicate n 0;
             t0 = mqpoly_small_to_int logn g t0;
             t1 = mqpoly_small_to_int logn f t1;
             t0 = mqpoly_int_to_ntt logn t0;
             t1 = mqpoly_int_to_ntt logn t1;
             (ok, t0) = mqpoly_div_ntt logn t0 t1
         in if \<not> ok then Inl F_not_invertible
            else let t1 = mqpoly_small_to_int logn F t1;
                     t1 = mqpoly_int_to_ntt logn t1;
                     t1 = mqpoly_mul_ntt logn t1 t0;
                     t1 = mqpoly_ntt_to_int logn t1;
                     (ok, G) = mqpoly_int_to_small logn t1 G
            in if \<not> ok then Inl G_out_of_range
               else let t0 = mqpoly_ntt_to_int logn t0;
                        t0 = mqpoly_int_to_ext logn t0;
                        vrfy_key = replicate (VerifyingKeySize logn) 0;
                        vrfy_key = vrfy_key[0 := of_nat (0x00 + logn)];
                        (_, vrfy_key) = write_slice 1 (modq_encode logn t0) vrfy_key;
                        hashed_vk = hash_verifying_key shake vrfy_key
               in Inr (logn, f, g, F, G, hashed_vk, t0))))"

section \<open>Specification\<close>

text \<open>
  A secret key in range: \<open>f\<close> is invertible modulo \<open>q\<close> and the polynomials solve the NTRU equation
  \<open>f G - g F = q\<close> over the integers.
\<close>

definition poly_of :: "i8 list \<Rightarrow> nat \<Rightarrow> int" where
  "poly_of f i = sint (f ! i)"

definition ntru_equation :: "nat \<Rightarrow> i8 list \<Rightarrow> i8 list \<Rightarrow> i8 list \<Rightarrow> i8 list \<Rightarrow> bool" where
  "ntru_equation logn f g F G \<longleftrightarrow> (\<forall>k < 2 ^ logn.
     negconv (2 ^ logn) (poly_of f) (poly_of G) k - negconv (2 ^ logn) (poly_of g) (poly_of F) k = (if k = 0 then 12289 else 0))"

definition secret_key :: "nat \<Rightarrow> i8 list \<Rightarrow> i8 list \<Rightarrow> i8 list \<Rightarrow> i8 list \<Rightarrow> bool" where
  "secret_key logn f g F G \<longleftrightarrow>
     length f = 2 ^ logn \<and> length g = 2 ^ logn \<and> length F = 2 ^ logn \<and> length G = 2 ^ logn \<and>
     list_all (trim_fits (nbits_fg logn)) f \<and> list_all (trim_fits (nbits_fg logn)) g \<and>
     list_all (trim_fits 8) F \<and> list_all (trim_fits 8) G \<and>
     mq_unit logn (poly_of f) \<and> ntru_equation logn f g F G"

text \<open>The public polynomial: \<open>f h = g\<close>.\<close>

definition public_poly :: "nat \<Rightarrow> i8 list \<Rightarrow> i8 list \<Rightarrow> u16 list \<Rightarrow> bool" where
  "public_poly logn f g h \<longleftrightarrow> length h = 2 ^ logn \<and> list_all (\<lambda>v. uint v < 12289) h \<and>
     mq_eq logn (negconv (2 ^ logn) (poly_of f) (\<lambda>i. uint (h ! i))) (poly_of g)"

section \<open>The public polynomial\<close>

lemma small_to_int_any:
  "length d = 2 ^ logn \<Longrightarrow> length d' = 2 ^ logn \<Longrightarrow> mqpoly_small_to_int logn f d = mqpoly_small_to_int logn f d'"
  by (rule nth_equalityI) (simp_all add: mqpoly_small_to_int_def)

text \<open>The quotient in transformed form.\<close>

definition pub_ntt :: "nat \<Rightarrow> i8 list \<Rightarrow> i8 list \<Rightarrow> bool \<times> u16 list" where
  "pub_ntt logn f g = mqpoly_div_ntt logn (mqpoly_int_to_ntt logn (mqpoly_small_to_int logn g (replicate (2 ^ logn) 0)))
     (mqpoly_int_to_ntt logn (mqpoly_small_to_int logn f (replicate (2 ^ logn) 0)))"

definition pub_ext :: "nat \<Rightarrow> i8 list \<Rightarrow> i8 list \<Rightarrow> u16 list" where
  "pub_ext logn f g = mqpoly_int_to_ext logn (mqpoly_ntt_to_int logn (snd (pub_ntt logn f g)))"

lemma sint_poly: "sint (f ! i) = poly_of f i"
  by (simp add: poly_of_def)

lemma small_poly:
  fixes f :: "i8 list"
  assumes "logn \<le> 10"
  defines "a \<equiv> mqpoly_small_to_int logn f (replicate (2 ^ logn) 0)"
  shows "mq_poly logn a" "k < 2 ^ logn \<Longrightarrow> mq16_val (a ! k) = poly_of f k mod 12289"
    and "i < 2 ^ logn \<Longrightarrow> mq16_val (mqpoly_int_to_ntt logn a ! i) = mq_ev logn (poly_of f) i"
proof -
  show a: "mq_poly logn a" unfolding a_def by (rule mq_poly_small) simp
  show v: "mq16_val (a ! k) = poly_of f k mod 12289" if "k < 2 ^ logn" for k
    using that by (simp add: a_def mqpoly_small_to_int_nth poly_of_def)
  show "mq16_val (mqpoly_int_to_ntt logn a ! i) = mq_ev logn (poly_of f) i" if "i < 2 ^ logn"
  proof -
    have "mq16_val (mqpoly_int_to_ntt logn a ! i) = mq_ev logn (\<lambda>j. mq16_val (a ! j)) i"
      using mq.ntt_eval [OF logn_le_1024 mq_polyD that, OF assms(1) a a]
      by (simp add: mqpoly_int_to_ntt_eq mq_ev_def poly_ev_def mq_root_def)
    also have "\<dots> = mq_ev logn (poly_of f) i" by (rule mq_ev_cong) (simp add: v)
    finally show ?thesis .
  qed
qed

lemma mq_eq_refl [simp]: "mq_eq logn f f"
  and mq_eq_sym: "mq_eq logn f g \<Longrightarrow> mq_eq logn g f"
  and mq_eq_trans [trans]: "mq_eq logn f g \<Longrightarrow> mq_eq logn g h \<Longrightarrow> mq_eq logn f h"
  by (simp_all add: mq_eq_def)

lemma pub_ntt_ok:
  assumes "logn \<le> 10" "mq_unit logn (poly_of f)"
  shows "fst (pub_ntt logn f g)"
proof -
  obtain w where "\<And>i. i < 2 ^ logn \<Longrightarrow> w i * mq_ev logn (poly_of f) i mod 12289 = 1" using mq_unit_ev [OF assms] by blast
  then have "mq_ev logn (poly_of f) i \<noteq> 0" if "i < 2 ^ logn" for i using that by fastforce
  then show ?thesis
    unfolding pub_ntt_def mqpoly_div_ntt_fst [OF mq_poly_ntt [OF assms(1) small_poly(1) [OF assms(1)]]]
    by (simp add: small_poly(3) [OF assms(1)])
qed

lemma pub_ntt_poly: "logn \<le> 10 \<Longrightarrow> mq_poly logn (snd (pub_ntt logn f g))"
  unfolding pub_ntt_def by (intro mq_poly_div mq_poly_ntt small_poly(1))

lemma pub_ext_value:
  assumes "logn \<le> 10" "k < 2 ^ logn"
  shows "uint (pub_ext logn f g ! k) = mq16_val (mqpoly_ntt_to_int logn (snd (pub_ntt logn f g)) ! k)"
proof -
  let ?a = "mqpoly_ntt_to_int logn (snd (pub_ntt logn f g))"
  have a: "mq_poly logn ?a" by (intro mq_poly_intt pub_ntt_poly assms(1))
  then have "uint (?a ! k) \<le> 12289" using mq_poly_nth [OF a assms(2)] by (simp add: mq16_ok_def)
  then show ?thesis unfolding pub_ext_def using mq_polyD(1) [OF a] assms(2) by (intro mqpoly_int_to_ext_nth) simp_all
qed

lemma pub_ext_length: "logn \<le> 10 \<Longrightarrow> length (pub_ext logn f g) = 2 ^ logn"
  unfolding pub_ext_def using mq_polyD(1) [OF mq_poly_intt [OF _ pub_ntt_poly]] by (simp add: mqpoly_int_to_ext_def)

lemma pub_ext_public:
  assumes "logn \<le> 10" "mq_unit logn (poly_of f)"
  shows "public_poly logn f g (pub_ext logn f g)"
proof -
  let ?h = "pub_ext logn f g" and ?n = "2 ^ logn :: nat"
  let ?a = "\<lambda>f. mqpoly_small_to_int logn f (replicate (2 ^ logn) 0)"
  have d: "mqpoly_div_ntt logn (mqpoly_int_to_ntt logn (?a g)) (mqpoly_int_to_ntt logn (?a f)) = (True, snd (pub_ntt logn f g))"
    using pub_ntt_ok [OF assms, of g] unfolding pub_ntt_def by (metis prod.collapse)
  have "negconv ?n (poly_of f) (\<lambda>i. uint (?h ! i)) k mod 12289 = poly_of g k mod 12289" if k: "k < ?n" for k
  proof -
    have "negconv ?n (poly_of f) (\<lambda>i. uint (?h ! i)) k mod 12289
        = negconv ?n (\<lambda>i. mq16_val (mqpoly_ntt_to_int logn (snd (pub_ntt logn f g)) ! i)) (\<lambda>i. mq16_val (?a f ! i)) k mod 12289"
      unfolding negconv_commute [OF k, of "poly_of f"] using k
      by (intro negconv_cong_mod) (simp_all add: pub_ext_value assms(1) small_poly(2))
    also have "\<dots> = poly_of g k mod 12289"
      using mq_ring_quotient [OF assms(1) small_poly(1) small_poly(1) k d] small_poly(2) [OF assms(1) k] assms(1) by simp
    finally show ?thesis .
  qed
  moreover have "uint (?h ! i) < 12289" if "i < ?n" for i
    using pub_ext_value [OF assms(1) that] by (simp add: mq16_val_def)
  ultimately show ?thesis using pub_ext_length [OF assms(1)]
    by (simp add: public_poly_def mq_eq_def list_all_length)
qed

text \<open>The third polynomial times the public one is the fourth.\<close>

lemma key_G:
  assumes n: "logn \<le> 10" and u: "mq_unit logn (poly_of f)" and e: "ntru_equation logn f g F G" and h: "public_poly logn f g h"
  shows "mq_eq logn (negconv (2 ^ logn) (poly_of F) (\<lambda>i. uint (h ! i))) (poly_of G)"
proof (rule mq_unit_cancel [OF n u])
  let ?n = "2 ^ logn :: nat" and ?h = "\<lambda>i. uint (h ! i)"
  have "mq_eq logn (\<lambda>k. negconv ?n (poly_of f) (poly_of G) k - negconv ?n (poly_of g) (poly_of F) k) (\<lambda>k. if k = 0 then 12289 else 0)"
    using e by (simp add: mq_eq_def ntru_equation_def)
  then have fG: "(mq_ev logn (poly_of f) i * mq_ev logn (poly_of G) i - mq_ev logn (poly_of g) i * mq_ev logn (poly_of F) i) mod 12289 = 0"
    if "i < ?n" for i using that by (simp add: mq_eq_iff_ev [OF n] mq_ev_diff mq_ev_negconv [OF n] mq_ev_const mod_diff_eq)
  have "mq_eq logn (negconv ?n (poly_of f) ?h) (poly_of g)" using h by (simp add: public_poly_def)
  then have fh: "mq_ev logn (poly_of f) i * mq_ev logn ?h i mod 12289 = mq_ev logn (poly_of g) i" if "i < ?n" for i
    using that by (simp add: mq_eq_iff_ev [OF n] mq_ev_negconv [OF n])
  have solve: "a * (c * b mod p) mod p = a * d mod p" if "(a * d - e * c) mod p = 0" "a * b mod p = e" for a b c d e p :: int
  proof -
    have "a * (c * b mod p) mod p = c * (a * b mod p) mod p" by (simp add: mod_mult_right_eq ac_simps)
    also have "\<dots> = a * d mod p" using that by (simp add: mod_eq_dvd_iff dvd_minus_iff mult.commute) (metis dvd_minus_iff minus_diff_eq mod_0_imp_dvd mult.commute)
    finally show ?thesis .
  qed
  show "mq_eq logn (negconv ?n (poly_of f) (negconv ?n (poly_of F) ?h)) (negconv ?n (poly_of f) (poly_of G))"
    unfolding mq_eq_iff_ev [OF n] using solve [OF fG fh] by (simp add: mq_ev_negconv [OF n])
qed

section \<open>The encoded keys\<close>

definition trim_bits :: "nat \<Rightarrow> nat \<Rightarrow> i8 list \<Rightarrow> u8 list \<Rightarrow> bool" where
  "trim_bits logn nbits f out \<longleftrightarrow> length out = nbits * 2 ^ logn div 8 \<and> bytes_bits out = concat (map (bits_msb nbits) f)"

definition encoded_secret :: "nat \<Rightarrow> i8 list \<Rightarrow> i8 list \<Rightarrow> i8 list \<Rightarrow> u8 list \<Rightarrow> bool" where
  "encoded_secret logn f g F skey \<longleftrightarrow> (\<exists>bf bg bF. skey = of_nat (0x50 + logn) # bf @ bg @ bF \<and>
     trim_bits logn (nbits_fg logn) f bf \<and> trim_bits logn (nbits_fg logn) g bg \<and> trim_bits logn 8 F bF)"

definition encoded_public :: "nat \<Rightarrow> u16 list \<Rightarrow> u8 list \<Rightarrow> bool" where
  "encoded_public logn h vkey \<longleftrightarrow> (\<exists>hv. vkey = of_nat logn # hv \<and> length hv = 7 * 2 ^ (logn - 2) \<and>
     bytes_bits hv = concat (map (bits_msb 14) h))"

lemma logn_range: "2 \<le> logn \<Longrightarrow> logn \<le> 10 \<Longrightarrow> (logn :: nat) \<in> {2, 3, 4, 5, 6, 7, 8, 9, 10}"
  by auto

lemma nbits_fg_range: "0 < nbits_fg logn" "nbits_fg logn \<le> 8"
  by (simp_all add: nbits_fg_def)

lemma key_sizes:
  assumes "2 \<le> logn" "logn \<le> 10"
  shows "8 dvd nbits_fg logn * 2 ^ logn"
    and "SigningKeySize logn = Suc (nbits_fg logn * 2 ^ logn div 8 + (nbits_fg logn * 2 ^ logn div 8 + 2 ^ logn))"
    and "VerifyingKeySize logn = Suc (7 * 2 ^ (logn - 2))"
  using logn_range [OF assms] assms
  by (auto simp: nbits_fg_def SigningKeySize_def VerifyingKeySize_def shl_minus2_def)

lemma write_slice_trim:
  assumes "0 < nbits" "nbits \<le> 8" "length f = 2 ^ logn" "8 dvd nbits * 2 ^ logn" "nbits * 2 ^ logn div 8 \<le> length rest" "length pre = j"
  shows "\<exists>out. write_slice j (trim_i8_encode logn f nbits) (pre @ rest) = (j + nbits * 2 ^ logn div 8, pre @ out @ drop (nbits * 2 ^ logn div 8) rest)
    \<and> trim_bits logn nbits f out"
  using trim_i8_encode_spec [OF assms(1-5)] assms(6) by (auto simp: write_slice_def trim_bits_def)

lemma write_slice_modq:
  assumes "2 \<le> logn" "logn \<le> 10" "length h = 2 ^ logn" "list_all (\<lambda>v :: u16. uint v < 12289) h"
  shows "\<exists>k vkey. write_slice 1 (modq_encode logn h) ((replicate (VerifyingKeySize logn) 0) [0 := of_nat logn]) = (k, vkey) \<and>
    encoded_public logn h vkey"
proof -
  let ?N = "7 * 2 ^ (logn - 2) :: nat"
  obtain out where "modq_encode logn h (replicate ?N 0) = (?N, out @ drop ?N (replicate ?N 0))" "length out = ?N"
    "bytes_bits out = concat (map (bits_msb 14) h)"
    using modq_encode_spec [OF assms(1,3,4), of "replicate ?N 0"] by auto
  then show ?thesis using key_sizes(3) [OF assms(1,2)]
    by (auto simp: write_slice_def encoded_public_def)
qed

lemma encoded_public_unique: "encoded_public logn h vkey \<Longrightarrow> encoded_public logn h vkey' \<Longrightarrow> vkey = vkey'"
  by (auto simp: encoded_public_def intro: bytes_bits_inj)

lemma encode_keypair_spec:
  assumes n: "2 \<le> logn" "logn \<le> 10" and k: "secret_key logn f g F G" and tmp: "length tmp = 2 * 2 ^ logn"
  shows "\<exists>skey vkey. encode_keypair logn f g F G tmp = (skey, vkey) \<and> encoded_secret logn f g F skey \<and>
    encoded_public logn (pub_ext logn f g) vkey"
proof -
  let ?nb = "nbits_fg logn" and ?a = "nbits_fg logn * 2 ^ logn div 8"
  have len: "length f = 2 ^ logn" "length g = 2 ^ logn" "length F = 2 ^ logn" using k by (simp_all add: secret_key_def)
  define hd where "hd = (of_nat (0x50 + logn) :: u8)"
  have s0: "(replicate (SigningKeySize logn) 0)[0 := hd] = [hd] @ replicate (?a + (?a + 2 ^ logn)) 0" by (simp add: key_sizes(2) [OF n])
  obtain bf where bf: "write_slice 1 (trim_i8_encode logn f ?nb) ([hd] @ replicate (?a + (?a + 2 ^ logn)) 0)
      = (1 + ?a, ([hd] @ bf) @ replicate (?a + 2 ^ logn) 0)" "trim_bits logn ?nb f bf"
    using write_slice_trim [OF nbits_fg_range len(1) key_sizes(1) [OF n], of "replicate (?a + (?a + 2 ^ logn)) 0" "[hd]" 1] by auto
  obtain bg where bg: "write_slice (1 + ?a) (trim_i8_encode logn g ?nb) (([hd] @ bf) @ replicate (?a + 2 ^ logn) 0)
      = (1 + ?a + ?a, ([hd] @ bf @ bg) @ replicate (2 ^ logn) 0)" "trim_bits logn ?nb g bg"
    using write_slice_trim [OF nbits_fg_range len(2) key_sizes(1) [OF n], of "replicate (?a + 2 ^ logn) 0" "[hd] @ bf" "1 + ?a"] bf(2)
    by (auto simp: trim_bits_def)
  obtain bF where bF: "write_slice (1 + ?a + ?a) (trim_i8_encode logn F 8) (([hd] @ bf @ bg) @ replicate (2 ^ logn) 0)
      = (1 + ?a + ?a + 2 ^ logn, [hd] @ bf @ bg @ bF)" "trim_bits logn 8 F bF"
    using write_slice_trim [of 8 F logn "replicate (2 ^ logn) 0" "[hd] @ bf @ bg" "1 + ?a + ?a"] bf(2) bg(2) len(3)
    by (auto simp: trim_bits_def)
  have pub: "public_poly logn f g (pub_ext logn f g)" using k n by (intro pub_ext_public) (simp_all add: secret_key_def)
  obtain j vkey where v: "write_slice 1 (modq_encode logn (pub_ext logn f g)) ((replicate (VerifyingKeySize logn) 0) [0 := of_nat logn]) = (j, vkey)"
    "encoded_public logn (pub_ext logn f g) vkey"
    using write_slice_modq [OF n, of "pub_ext logn f g"] pub unfolding public_poly_def by blast
  have any: "mqpoly_small_to_int logn f d = mqpoly_small_to_int logn f (replicate (2 ^ logn) 0)" if "length d = 2 ^ logn" for f d
    using that by (intro small_to_int_any) simp_all
  have t: "length (take (2 ^ logn) tmp) = 2 ^ logn" "length (drop (2 ^ logn) tmp) = 2 ^ logn" using tmp by simp_all
  have h: "mqpoly_div_ntt logn (mqpoly_int_to_ntt logn (mqpoly_small_to_int logn g (take (2 ^ logn) tmp)))
      (mqpoly_int_to_ntt logn (mqpoly_small_to_int logn f (drop (2 ^ logn) tmp))) = (fst (pub_ntt logn f g), snd (pub_ntt logn f g))"
    by (simp only: any [OF t(1)] any [OF t(2)] pub_ntt_def prod.collapse)
  have "encode_keypair logn f g F G tmp = ([hd] @ bf @ bg @ bF, vkey)"
    by (simp only: encode_keypair_def Let_def hd_def [symmetric] s0 bf(1) bg(1) bF(1) prod.case h pub_ext_def [symmetric] v(1) add_0)
  then show ?thesis using v(2) bf(2) bg(2) bF(2) by (auto simp: encoded_secret_def hd_def)
qed

section \<open>The signer's view of the key\<close>

lemma encoded_head: "logn \<le> 15 \<Longrightarrow> of_nat (0x50 + logn) AND 0xF0 = (0x50 :: u8) \<and> unat (of_nat (0x50 + logn) AND 0x0F :: u8) = logn"
proof -
  assume "logn \<le> 15"
  then have "logn \<in> {0, 1, 2, 3, 4, 5, 6, 7, 8, 9, 10, 11, 12, 13, 14, 15}" by simp presburger
  then show ?thesis by (elim insertE emptyE) simp_all
qed

lemma center_small:
  assumes "mq16_ok v" "mq16_val v = x mod 12289" "\<bar>x\<bar> \<le> 127"
  shows "mq_center (uint v) = x"
proof -
  have "uint v mod 12289 = x mod 12289" using assms(2) by (simp add: mq16_val_def)
  moreover have "x mod 12289 = (if 0 \<le> x then x else x + 12289)"
    using assms(3) mod_pos_pos_trivial [of x 12289] mod_pos_pos_trivial [of "x + 12289" 12289] by auto
  ultimately show ?thesis using assms(3) by (auto simp: mq_center_def)
qed

lemma small_G:
  assumes n: "logn \<le> 10" and d: "mq_poly logn d" and G: "length G = 2 ^ logn" "list_all (trim_fits 8) G"
    and e: "mq_eq logn (\<lambda>k. mq16_val (d ! k)) (poly_of G)"
  shows "mqpoly_int_to_small logn d (replicate (2 ^ logn) 0) = (True, G)"
proof -
  obtain ok G' where r: "mqpoly_int_to_small logn d (replicate (2 ^ logn) 0) = (ok, G')" by fastforce
  have c: "mq_center (uint (d ! i)) = sint (G ! i)" "\<bar>sint (G ! i)\<bar> \<le> 127" if "i < 2 ^ logn" for i
  proof -
    show b: "\<bar>sint (G ! i)\<bar> \<le> 127" using G that by (auto simp: list_all_length trim_fits_def)
    show "mq_center (uint (d ! i)) = sint (G ! i)"
      using e that b mq_poly_nth [OF d that] by (intro center_small) (simp_all add: mq_eq_def poly_of_def mq16_val_def)
  qed
  have len: "length G' = 2 ^ logn" using r by (auto simp: mqpoly_int_to_small_eq)
  have "ok \<and> (\<forall>i < 2 ^ logn. sint (G' ! i) = mq_center (uint (d ! i)))"
    using mqpoly_int_to_small_correct [OF d _ r] c by simp
  then show ?thesis using r c(1) len G(1) by (auto intro!: nth_equalityI signed_word_eqI)
qed

lemma load_signing_key_spec:
  assumes n: "2 \<le> logn" "logn \<le> 10" "logn_min \<le> logn" "logn \<le> logn_max" and k: "secret_key logn f g F G"
    and sk: "encoded_secret logn f g F skey" and vk: "encoded_public logn (pub_ext logn f g) vkey"
  shows "load_signing_key shake logn_min logn_max skey = Inr (logn, f, g, F, G, hash_verifying_key shake vkey, pub_ext logn f g)"
proof -
  let ?nb = "nbits_fg logn" and ?a = "nbits_fg logn * 2 ^ logn div 8" and ?n = "2 ^ logn :: nat"
  obtain bf bg bF where skey: "skey = of_nat (0x50 + logn) # bf @ bg @ bF"
    and tb: "trim_bits logn ?nb f bf" "trim_bits logn ?nb g bg" "trim_bits logn 8 F bF"
    using sk by (auto simp: encoded_secret_def)
  have kk: "length f = ?n" "length g = ?n" "length F = ?n" "list_all (trim_fits ?nb) f" "list_all (trim_fits ?nb) g" "list_all (trim_fits 8) F"
    "length G = ?n" "list_all (trim_fits 8) G" "mq_unit logn (poly_of f)" "ntru_equation logn f g F G"
    using k by (simp_all add: secret_key_def)
  have tl: "length bf = ?a" "length bg = ?a" "length bF = 2 ^ logn" using tb by (simp_all add: trim_bits_def)
  have size: "length skey = SigningKeySize logn" using tl by (simp add: skey key_sizes(2) [OF n(1,2)])
  have hd: "skey ! 0 AND 0xF0 = 0x50" "unat (skey ! 0 AND 0x0F) = logn" "length skey \<noteq> 0"
    using encoded_head [of logn] n(2) by (simp_all add: skey)
  have dec: "trim_i8_decode logn (drop 1 skey) (replicate ?n 0) ?nb = Inr (?a, f)"
    "trim_i8_decode logn (drop (1 + ?a) skey) (replicate ?n 0) ?nb = Inr (?a, g)"
    "trim_i8_decode logn (drop (1 + ?a + ?a) skey) (replicate ?n 0) 8 = Inr (2 ^ logn, F)"
    using trim_i8_roundtrip [OF nbits_fg_range kk(1,4) key_sizes(1) [OF n(1,2)], of "replicate ?n 0" bf "bg @ bF"]
      trim_i8_roundtrip [OF nbits_fg_range kk(2,5) key_sizes(1) [OF n(1,2)], of "replicate ?n 0" bg bF]
      trim_i8_roundtrip [of 8 F logn "replicate ?n 0" bF "[]"] kk(3,6) tb tl
    by (simp_all add: skey trim_bits_def)
  have any: "mqpoly_small_to_int logn f (mqpoly_small_to_int logn f' (replicate ?n 0)) = mqpoly_small_to_int logn f (replicate ?n 0)" for f f'
    by (intro small_to_int_any) (simp_all add: mqpoly_small_to_int_def)
  have any2: "mqpoly_small_to_int logn F (mqpoly_int_to_ntt logn (mqpoly_small_to_int logn f (replicate ?n 0))) = mqpoly_small_to_int logn F (replicate ?n 0)"
    using mq_polyD(1) [OF mq_poly_ntt [OF n(2) small_poly(1) [OF n(2)]]] by (intro small_to_int_any) simp_all
  have ok: "pub_ntt logn f g = (True, snd (pub_ntt logn f g))" using pub_ntt_ok [OF n(2) kk(9), of g] by (metis (full_types) prod.collapse)
  let ?d = "mqpoly_ntt_to_int logn (mqpoly_mul_ntt logn (mqpoly_int_to_ntt logn (mqpoly_small_to_int logn F (replicate ?n 0))) (snd (pub_ntt logn f g)))"
  have "mqpoly_int_to_small logn ?d (replicate ?n 0) = (True, G)"
  proof (rule small_G [OF n(2) _ kk(7,8)])
    let ?c = "snd (pub_ntt logn f g)" and ?aF = "mqpoly_small_to_int logn F (replicate ?n 0)"
    note c = pub_ntt_poly [OF n(2), of f g] and aF = small_poly(1) [OF n(2), of F]
    show "mq_poly logn ?d" by (intro mq_poly_intt mq_poly_mul mq_poly_ntt aF c n(2))
    have "mq16_val (?d ! k) mod 12289 = negconv ?n (poly_of F) (\<lambda>i. uint (pub_ext logn f g ! i)) k mod 12289" if k: "k < ?n" for k
    proof -
      have "mq16_val (?d ! k) = negconv ?n (\<lambda>i. mq16_val (?aF ! i)) (\<lambda>i. mq16_val (mqpoly_ntt_to_int logn ?c ! i)) k mod 12289"
        using mq_ring_product [OF n(2) aF mq_poly_intt [OF n(2) c] k] mq_intt_ntt(2) [OF n(2) c] by simp
      also have "\<dots> = negconv ?n (poly_of F) (\<lambda>i. uint (pub_ext logn f g ! i)) k mod 12289"
        using k by (intro negconv_cong_mod) (simp_all add: pub_ext_value n(2) small_poly(2))
      finally show ?thesis by simp
    qed
    then show "mq_eq logn (\<lambda>k. mq16_val (?d ! k)) (poly_of G)"
      using key_G [OF n(2) kk(9,10) pub_ext_public [OF n(2) kk(9)]] by (simp add: mq_eq_def)
  qed
  note small = this
  obtain j where j: "write_slice 1 (modq_encode logn (pub_ext logn f g)) ((replicate (VerifyingKeySize logn) 0) [0 := of_nat logn]) = (j, vkey)"
  proof -
    have "list_all (\<lambda>v. uint v < 12289) (pub_ext logn f g)" using pub_ext_public [OF n(2) kk(9)] by (simp add: public_poly_def)
    from write_slice_modq [OF n(1,2) pub_ext_length [OF n(2)] this] vk encoded_public_unique show ?thesis using that by blast
  qed
  have d: "mqpoly_div_ntt logn (mqpoly_int_to_ntt logn (mqpoly_small_to_int logn g (replicate ?n 0)))
      (mqpoly_int_to_ntt logn (mqpoly_small_to_int logn f (replicate ?n 0))) = (True, snd (pub_ntt logn f g))"
    unfolding pub_ntt_def [symmetric] by (rule ok)
  have guards: "SigningKeySize logn \<noteq> 0" "\<not> (logn < logn_min \<or> logn_max < logn)" using n(3,4) by (simp_all add: SigningKeySize_def)
  show ?thesis
    by (simp only: load_signing_key_def Let_def hd size if_False if_True simp_thms guards dec sum.case prod.case any any2 d small pub_ext_def [symmetric] add_0 j)
qed

text \<open>C2: a key pair survives its encoding. From the bytes of the signing key, for every key in range that solves the NTRU
  equation, a signer gets back all four polynomials, the one that is not stored included, and hashes the very bytes of the
  verifying key, which decodes to the quotient of the second by the first.\<close>

theorem signing_key_roundtrip:
  assumes "2 \<le> logn" "logn \<le> 10" "logn_min \<le> logn" "logn \<le> logn_max"
    and "secret_key logn f g F G" "encode_keypair logn f g F G tmp = (skey, vkey)" "length tmp = 2 * 2 ^ logn"
  shows "\<exists>h. load_signing_key shake logn_min logn_max skey = Inr (logn, f, g, F, G, hash_verifying_key shake vkey, h) \<and>
    vkey ! 0 = of_nat logn \<and> modq_decode logn (drop 1 vkey) (replicate (2 ^ logn) 0) = Inr (7 * 2 ^ (logn - 2), h) \<and>
    public_poly logn f g h"
proof -
  have enc: "encoded_secret logn f g F skey" "encoded_public logn (pub_ext logn f g) vkey"
    using encode_keypair_spec [OF assms(1,2,5,7)] assms(6) by simp_all
  have pub: "public_poly logn f g (pub_ext logn f g)" using assms(2,5) by (intro pub_ext_public) (simp_all add: secret_key_def)
  obtain hv where "vkey = of_nat logn # hv" "length hv = 7 * 2 ^ (logn - 2)" "bytes_bits hv = concat (map (bits_msb 14) (pub_ext logn f g))"
    using enc(2) by (auto simp: encoded_public_def)
  then have "vkey ! 0 = of_nat logn" "modq_decode logn (drop 1 vkey) (replicate (2 ^ logn) 0) = Inr (7 * 2 ^ (logn - 2), pub_ext logn f g)"
    using modq_decode_iff [OF assms(1), of "replicate (2 ^ logn) 0" "drop 1 vkey"] pub by (simp_all add: public_poly_def)
  with load_signing_key_spec [OF assms(1-5) enc, of shake] pub show ?thesis by blast
qed

lemma set4: "{..<4 :: nat} = {0, 1, 2, 3}"
  by auto

lemma all4: "(\<forall>k<4. P k) \<longleftrightarrow> P 0 \<and> P 1 \<and> P 2 \<and> P (3 :: nat)"
  by (auto simp: numeral_eq_Suc less_Suc_eq)

lemma demo_key: "secret_key 2 [100, 0, 0, 0] [11, 0, 0, 0] [1, 0, 0, 0] [123, 0, 0, 0]"
proof -
  have "mq_eq 2 (negconv (2 ^ 2) (poly_of [100, 0, 0, 0]) (\<lambda>i. if i = 0 then 11183 else 0)) (\<lambda>k. if k = 0 then 1 else 0)"
    by (simp add: mq_eq_def all4 negconv_def set4 poly_of_def)
  then have "mq_unit 2 (poly_of [100, 0, 0, 0])" unfolding mq_unit_def by blast
  then show ?thesis
    by (simp add: secret_key_def ntru_equation_def all4 negconv_def set4 poly_of_def trim_fits_def nbits_fg_def)
qed

theorem signing_key_roundtrip_witness:
  "\<exists>skey vkey h. encode_keypair 2 [100, 0, 0, 0] [11, 0, 0, 0] [1, 0, 0, 0] [123, 0, 0, 0] (replicate 8 0) = (skey, vkey) \<and>
     load_signing_key (\<lambda>input i. 0) 2 8 skey
       = Inr (2, [100, 0, 0, 0], [11, 0, 0, 0], [1, 0, 0, 0], [123, 0, 0, 0], hash_verifying_key (\<lambda>input i. 0) vkey, h)"
proof -
  obtain skey vkey where e: "encode_keypair 2 [100, 0, 0, 0] [11, 0, 0, 0] [1, 0, 0, 0] [123, 0, 0, 0] (replicate 8 0) = (skey, vkey)" by fastforce
  then show ?thesis using signing_key_roundtrip [OF _ _ _ _ demo_key e, of 2 8 "\<lambda>input i. 0"] by auto
qed

end
