(* ===== verification/Signing.thy ===== *)
theory Signing
  imports KeyPair Verify
begin

unbundle bit_operations_syntax

text \<open>
  Signing (\<^verbatim>\<open>sign.go\<close> and \<^verbatim>\<open>sign_core.go\<close>). The Fast Fourier sampling over IEEE doubles, from \<^verbatim>\<open>basis_to_FFT\<close> to the rounding of
  the sampled vector (\<^verbatim>\<open>sign_fpoly.go\<close>, \<^verbatim>\<open>sign_sampler.go\<close>), is the argument \<open>ffs\<close>: the two rounded polynomials as a
  function of the key, the hashed message and the seed of the sampler. Everything around it is modelled: the nonces and
  seeds of the attempts, the norm and its overflow flag, the encoding, and when an attempt is repeated.
\<close>

type_synonym ffsampler = "nat \<Rightarrow> i8 list \<Rightarrow> i8 list \<Rightarrow> i8 list \<Rightarrow> i8 list \<Rightarrow> u16 list \<Rightarrow> u8 list \<Rightarrow> i32 list \<times> i32 list"

section \<open>Operations\<close>

definition counter_bytes :: "nat \<Rightarrow> u8 list" where
  "counter_bytes counter = [of_nat counter, of_nat (counter div 2 ^ 8), of_nat (counter div 2 ^ 16), of_nat (counter div 2 ^ 24)]"

text \<open>The accumulation of the squared norm, with the flag \<^verbatim>\<open>ng\<close>, and the polynomial \<^verbatim>\<open>s2\<close>.\<close>

definition sign_norm :: "nat \<Rightarrow> u16 list \<Rightarrow> i32 list \<Rightarrow> i32 list \<Rightarrow> i16 list \<Rightarrow> u32 \<times> i16 list" where
  "sign_norm n hm t0 t1 s2 =
     (let (sqn, ng) = fold (\<lambda>i (sqn, ng).
            let zu = hm ! i - ucast (t0 ! i);
                z = scast (zu :: u16);
                sqn = sqn + z * z
            in (sqn, ng OR sqn)) [0..<n] (0 :: u32, 0 :: u32);
          (sqn, ng, s2) = fold (\<lambda>i (sqn, ng, s2).
            let zu = - ucast (t1 ! i);
                z = scast (zu :: u16);
                sqn = sqn + z * z
            in (sqn, ng OR sqn, s2[i := scast z])) [0..<n] (sqn, ng, s2)
      in (sqn OR signed_drop_bit 31 ng, s2))"

text \<open>The end of a turn: a candidate that is too long or does not fit is given up. A failed \<^verbatim>\<open>comp_encode\<close> leaves bytes
  in the signature buffer, which the successful one overwrites.\<close>

definition sign_finish :: "nat \<Rightarrow> u8 list \<Rightarrow> u32 \<Rightarrow> i16 list \<Rightarrow> u8 list \<Rightarrow> u8 list option" where
  "sign_finish logn nonce sqn s2 sig =
     (if \<not> mqpoly_sqnorm_is_acceptable logn sqn then None
      else case comp_encode logn s2 (drop 41 sig) of
             None \<Rightarrow> None
           | Some body \<Rightarrow> Some (of_nat (0x30 + logn) # nonce @ body))"

text \<open>
  One turn of the loop: the error of the message, or the buffers and, if the attempt is kept, the signature. Between
  the hashing and the norm stands the sampling, the parameter \<open>ffs\<close>.
\<close>

definition sign_attempt ::
  "xof \<Rightarrow> ffsampler \<Rightarrow> nat \<Rightarrow> i8 list \<Rightarrow> i8 list \<Rightarrow> i8 list \<Rightarrow> i8 list \<Rightarrow> u8 list \<Rightarrow> u8 list \<Rightarrow> nat \<Rightarrow> u8 list \<Rightarrow> u8 list \<Rightarrow> u8 list \<Rightarrow>
    nat \<Rightarrow> u16 list \<Rightarrow> i16 list \<Rightarrow> (sign_error, u16 list \<times> i16 list \<times> u8 list option) result option" where
  "sign_attempt shake ffs logn f g F G hashed_vk ctx hid data seed sig counter hm s2 =
     (let n = 2 ^ logn;
          input = seed @ counter_bytes counter;
          nonce = xof_read shake input 0 40;
          subseed = xof_read shake input 40 56
      in case hash_to_point shake logn nonce hashed_vk ctx hid data hm of
           None \<Rightarrow> None
         | Some (Some e, hm) \<Rightarrow> Some (Inl (Unhashable_message e))
         | Some (None, hm) \<Rightarrow>
             let (t0, t1) = ffs logn f g F G hm subseed;
                 (sqn, s2) = sign_norm n hm t0 t1 s2
             in Some (Inr (hm, s2, sign_finish logn nonce sqn s2 sig)))"

text \<open>The loop \<^verbatim>\<open>for counter := 0; ; counter++\<close> over the body \<open>attempt\<close>; it need not end.\<close>

partial_function (option) sign_loop ::
  "(nat \<Rightarrow> u16 list \<Rightarrow> i16 list \<Rightarrow> (sign_error, u16 list \<times> i16 list \<times> u8 list option) result option) \<Rightarrow>
    nat \<Rightarrow> u16 list \<Rightarrow> i16 list \<Rightarrow> (sign_error, u8 list) result option" where
  "sign_loop attempt counter hm s2 =
     (case attempt counter hm s2 of
        None \<Rightarrow> None
      | Some (Inl e) \<Rightarrow> Some (Inl e)
      | Some (Inr (hm, s2, Some sig)) \<Rightarrow> Some (Inr sig)
      | Some (Inr (hm, s2, None)) \<Rightarrow> sign_loop attempt (counter + 1) hm s2)"

definition sign_core ::
  "xof \<Rightarrow> ffsampler \<Rightarrow> nat \<Rightarrow> i8 list \<Rightarrow> i8 list \<Rightarrow> i8 list \<Rightarrow> i8 list \<Rightarrow> u8 list \<Rightarrow> u8 list \<Rightarrow> nat \<Rightarrow> u8 list \<Rightarrow> u8 list \<Rightarrow> u8 list \<Rightarrow>
    i16 list \<Rightarrow> u16 list \<Rightarrow> (sign_error, u8 list) result option" where
  "sign_core shake ffs logn f g F G hashed_vk ctx hid data seed sig tmp_i16 tmp_u16 =
     (let hm = tmp_u16; s2 = tmp_i16; sig = take (nat (SignatureSize logn)) sig
      in sign_loop (sign_attempt shake ffs logn f g F G hashed_vk ctx hid data seed sig) 0 hm s2)"

definition sign_inner_seeded ::
  "xof \<Rightarrow> ffsampler \<Rightarrow> nat \<Rightarrow> nat \<Rightarrow> u8 list \<Rightarrow> u8 list \<Rightarrow> u8 list \<Rightarrow> nat \<Rightarrow> u8 list \<Rightarrow> (sign_error, u8 list) result option" where
  "sign_inner_seeded shake ffs logn_min logn_max seed skey ctx hid data =
     (case load_signing_key shake logn_min logn_max skey of
        Inl e \<Rightarrow> Some (Inl e)
      | Inr (logn, f, g, F, G, hashed_vk, t0) \<Rightarrow>
          let n = 2 ^ logn;
              tmp_i16 = replicate n 0;
              tmp_u16 = t0;
              sig = replicate (nat (SignatureSize logn)) 0
          in sign_core shake ffs logn f g F G hashed_vk ctx hid data seed sig tmp_i16 tmp_u16)"

text \<open>The 40 bytes \<^verbatim>\<open>io.ReadFull\<close> takes from the random source are an argument, \<open>None\<close> when the source fails.\<close>

definition sign_inner ::
  "xof \<Rightarrow> ffsampler \<Rightarrow> nat \<Rightarrow> nat \<Rightarrow> u8 list option \<Rightarrow> u8 list \<Rightarrow> u8 list \<Rightarrow> nat \<Rightarrow> u8 list \<Rightarrow> (sign_error option, u8 list) result option" where
  "sign_inner shake ffs logn_min logn_max rng skey ctx hid data =
     (case rng of
        None \<Rightarrow> Some (Inl None)
      | Some seed \<Rightarrow>
          map_option (map_sum Some id) (sign_inner_seeded shake ffs logn_min logn_max seed skey ctx hid data))"

definition Sign ::
  "xof \<Rightarrow> ffsampler \<Rightarrow> u8 list option \<Rightarrow> u8 list \<Rightarrow> u8 list \<Rightarrow> nat \<Rightarrow> u8 list \<Rightarrow> (sign_error option, u8 list) result option" where
  "Sign shake ffs rng skey ctx hid data = sign_inner shake ffs 9 10 rng skey ctx hid data"

definition SignWeak ::
  "xof \<Rightarrow> ffsampler \<Rightarrow> u8 list option \<Rightarrow> u8 list \<Rightarrow> u8 list \<Rightarrow> nat \<Rightarrow> u8 list \<Rightarrow> (sign_error option, u8 list) result option" where
  "SignWeak shake ffs rng skey ctx hid data = sign_inner shake ffs 2 8 rng skey ctx hid data"

section \<open>Specification\<close>

text \<open>
  What the sampling promises for every reduced target, such as \<^verbatim>\<open>hash_to_point\<close> delivers: an integer combination of the rows of the basis \<open>[[g, -f], [G, -F]]\<close>, with coefficients far
  from the end of 16 bits.
\<close>

definition lattice_point :: "nat \<Rightarrow> i8 list \<Rightarrow> i8 list \<Rightarrow> i8 list \<Rightarrow> i8 list \<Rightarrow> i32 list \<times> i32 list \<Rightarrow> bool" where
  "lattice_point logn f g F G t \<longleftrightarrow>
     (\<exists>z0 z1. \<forall>k < 2 ^ logn.
        sint (fst t ! k) = negconv (2 ^ logn) z0 (poly_of g) k + negconv (2 ^ logn) z1 (poly_of G) k \<and>
        sint (snd t ! k) = - (negconv (2 ^ logn) z0 (poly_of f) k + negconv (2 ^ logn) z1 (poly_of F) k) \<and>
        \<bar>sint (fst t ! k)\<bar> \<le> 2 ^ 14 \<and> \<bar>sint (snd t ! k)\<bar> \<le> 2 ^ 14)"

definition lattice_sampler :: "ffsampler \<Rightarrow> nat \<Rightarrow> i8 list \<Rightarrow> i8 list \<Rightarrow> i8 list \<Rightarrow> i8 list \<Rightarrow> bool" where
  "lattice_sampler ffs logn f g F G \<longleftrightarrow> (\<forall>hm sub.
     length hm = 2 ^ logn \<and> list_all (\<lambda>v. uint v < 12289) hm \<longrightarrow> lattice_point logn f g F G (ffs logn f g F G hm sub))"

text \<open>
  The candidate of attempt number \<open>counter\<close> that is kept: the hashed message minus the lattice point is short enough, and
  its second half can be encoded.
\<close>

definition sign_candidate ::
  "xof \<Rightarrow> ffsampler \<Rightarrow> nat \<Rightarrow> i8 list \<Rightarrow> i8 list \<Rightarrow> i8 list \<Rightarrow> i8 list \<Rightarrow> u8 list \<Rightarrow> u8 list \<Rightarrow> nat \<Rightarrow> u8 list \<Rightarrow> u8 list \<Rightarrow> nat \<Rightarrow> u8 list \<Rightarrow> bool" where
  "sign_candidate shake ffs logn f g F G hashed_vk ctx hid data seed counter sig \<longleftrightarrow>
     (\<exists>c t0 t1 s2 body. let n = 2 ^ logn;
          nonce = xof_read shake (seed @ counter_bytes counter) 0 40;
          subseed = xof_read shake (seed @ counter_bytes counter) 40 56
      in hash_to_point shake logn nonce hashed_vk ctx hid data (replicate n 0) = Some (None, c) \<and>
         ffs logn f g F G c subseed = (t0, t1) \<and>
         length s2 = n \<and> (\<forall>k<n. sint (s2 ! k) = - sint (t1 ! k)) \<and>
         (\<Sum>k<n. (uint (c ! k) - sint (t0 ! k)) * (uint (c ! k) - sint (t0 ! k))) + (\<Sum>k<n. sint (t1 ! k) * sint (t1 ! k))
           \<le> uint (sqbeta ! logn) \<and>
         comp_encode logn s2 (replicate (nat (SignatureSize logn) - 41) 0) = Some body \<and>
         sig = of_nat (0x30 + logn) # nonce @ body)"

section \<open>The lattice and the public key\<close>

lemma lattice_public:
  assumes n: "logn \<le> 10" and k: "secret_key logn f g F G" and h: "public_poly logn f g h" and t: "lattice_point logn f g F G t"
  shows "mq_eq logn (\<lambda>k. sint (fst t ! k)) (negconv (2 ^ logn) (\<lambda>i. uint (h ! i)) (\<lambda>k. - sint (snd t ! k)))"
proof -
  let ?n = "2 ^ logn :: nat" and ?h = "\<lambda>i. uint (h ! i)"
  obtain z0 z1 where z: "\<And>k. k < ?n \<Longrightarrow> sint (fst t ! k) = negconv ?n z0 (poly_of g) k + negconv ?n z1 (poly_of G) k"
    "\<And>k. k < ?n \<Longrightarrow> - sint (snd t ! k) = negconv ?n z0 (poly_of f) k + negconv ?n z1 (poly_of F) k"
    using t unfolding lattice_point_def by fastforce
  have key: "mq_unit logn (poly_of f)" "ntru_equation logn f g F G" using k by (simp_all add: secret_key_def)
  have "mq_eq logn (negconv ?n (poly_of f) ?h) (poly_of g)" using h by (simp add: public_poly_def)
  then have fh: "mq_ev logn (poly_of f) i * mq_ev logn ?h i mod 12289 = mq_ev logn (poly_of g) i" if "i < ?n" for i
    using that by (simp add: mq_eq_iff_ev [OF n] mq_ev_negconv [OF n])
  have Fh: "mq_ev logn (poly_of F) i * mq_ev logn ?h i mod 12289 = mq_ev logn (poly_of G) i" if "i < ?n" for i
    using key_G [OF n key h] that by (simp add: mq_eq_iff_ev [OF n] mq_ev_negconv [OF n])
  have combine: "(a * g mod p + b * G mod p) mod p = h * ((a * f mod p + b * F mod p) mod p) mod p"
    if "f * h mod p = g" "F * h mod p = G" for a b f g F G h p :: int
  proof -
    have "h * ((a * f mod p + b * F mod p) mod p) mod p = (a * (f * h) + b * (F * h)) mod p"
      by (simp add: mod_add_eq mod_mult_right_eq algebra_simps)
    also have "\<dots> = (a * (f * h mod p) + b * (F * h mod p)) mod p" by (intro mod_add_cong) (simp_all add: mod_mult_right_eq)
    finally show ?thesis unfolding that by (simp add: mod_add_eq)
  qed
  show ?thesis unfolding mq_eq_iff_ev [OF n]
  proof (intro allI impI)
    fix i :: nat assume i: "i < ?n"
    have "mq_ev logn (\<lambda>k. sint (fst t ! k)) i = mq_ev logn (\<lambda>k. negconv ?n z0 (poly_of g) k + negconv ?n z1 (poly_of G) k) i"
      by (rule mq_ev_cong) (simp add: z)
    moreover have "mq_ev logn (\<lambda>k. - sint (snd t ! k)) i = mq_ev logn (\<lambda>k. negconv ?n z0 (poly_of f) k + negconv ?n z1 (poly_of F) k) i"
      by (rule mq_ev_cong) (simp add: z)
    ultimately show "mq_ev logn (\<lambda>k. sint (fst t ! k)) i = mq_ev logn (negconv ?n ?h (\<lambda>k. - sint (snd t ! k))) i"
      by (simp only: mq_ev_negconv [OF n i] mq_ev_add combine [OF fh [OF i] Fh [OF i]])
  qed
qed

section \<open>The norm\<close>

lemma fold_shift: "fold (\<lambda>i. st (n + i)) [0..<m] a = fold st [n..<n + m] a"
  by (induction m) simp_all

text \<open>The two loops run on as one, over \<open>2 n\<close> squares.\<close>

lemma norm_loops:
  fixes g1 g2 :: "nat \<Rightarrow> u32" and n :: nat
  defines "g \<equiv> \<lambda>i. if i < n then g1 i else g2 (i - n)"
  shows "(case fold (\<lambda>i (s, ng). (s + g1 i, ng OR (s + g1 i))) [0..<n] (0, 0) of (s, ng) \<Rightarrow>
      fold (\<lambda>i (s, ng, s2). (s + g2 i, ng OR (s + g2 i), s2[i := h i])) [0..<n] (s, ng, s2))
    = (case fold (\<lambda>i (s, ng). (s + g i, ng OR (s + g i))) [0..<n + n] (0, 0) of (s, ng) \<Rightarrow> (s, ng, for_upd n (\<lambda>i _. h i) s2))"
proof -
  let ?st = "\<lambda>g i (s, ng). (s + g i, ng OR (s + g i)) :: u32 \<times> u32"
  have second: "fold (\<lambda>i (s, ng, s2). (s + g2 i, ng OR (s + g2 i), s2[i := h i])) [0..<m] (s, ng, s2)
      = (case fold (?st g2) [0..<m] (s, ng) of (s, ng) \<Rightarrow> (s, ng, for_upd m (\<lambda>i _. h i) s2))" for m s ng
    by (induction m) (simp_all add: for_upd_def split: prod.splits)
  have f1: "fold (?st g) [0..<n] a = fold (?st g1) [0..<n] a" for a
    by (intro fold_cong) (auto simp: g_def)
  have f2: "fold (?st g) [n..<n + n] a = fold (?st g2) [0..<n] a" for a
    unfolding fold_shift [symmetric] by (intro fold_cong) (auto simp: g_def)
  have both: "fold (?st g) [0..<n + n] a = fold (?st g2) [0..<n] (fold (?st g1) [0..<n] a)" for a
    by (simp only: upt_add_eq_append [OF le0] fold_append o_apply f1 f2)
  obtain s1 ng1 where "fold (?st g1) [0..<n] (0, 0) = (s1, ng1)" by fastforce
  then show ?thesis unfolding both by (simp only: second prod.case)
qed

lemma sign_mask: "signed_drop_bit 31 w = (if bit w 31 then - 1 else 0)" for w :: u32
  by (rule bit_word_eqI) (auto simp: bit_signed_drop_bit_iff not_less_eq_eq)

lemma small_square:
  fixes zu :: u16
  shows "uint (scast zu * scast zu :: u32) = sint zu * sint zu" and "sint zu * sint zu \<le> 2 ^ 30"
proof -
  have "\<bar>sint zu\<bar> \<le> 32768" using sint_range_size [of zu] by (simp add: word_size abs_le_iff)
  then show "uint (scast zu * scast zu :: u32) = sint zu * sint zu" by (rule signed_sq_uint)
  have "\<bar>sint zu\<bar> * \<bar>sint zu\<bar> \<le> 32768 * 32768" using \<open>\<bar>sint zu\<bar> \<le> 32768\<close> by (intro mult_mono) simp_all
  then show "sint zu * sint zu \<le> 2 ^ 30" by (simp flip: abs_mult)
qed

lemma sint_diff16:
  fixes a :: u16 and b :: i32
  assumes "- (2 ^ 15) \<le> uint a - sint b" "uint a - sint b < 2 ^ 15"
  shows "sint (a - ucast b) = uint a - sint b"
proof -
  have "ucast b = (word_of_int (sint b) :: u16)" by (rule bit_word_eqI) (auto simp: bit_ucast_iff bit_signed_iff)
  then have "a - ucast b = word_of_int (uint a - sint b)" by (simp add: wi_hom_sub [symmetric])
  then show ?thesis using assms by (intro sint_of_int_eqI) simp_all
qed

lemma sign_norm_spec:
  fixes hm :: "u16 list" and t0 t1 :: "i32 list" and n :: nat
  assumes len: "length s2 = n"
    and b0: "\<And>i. i < n \<Longrightarrow> - (2 ^ 15) \<le> uint (hm ! i) - sint (t0 ! i) \<and> uint (hm ! i) - sint (t0 ! i) < 2 ^ 15"
    and b1: "\<And>i. i < n \<Longrightarrow> \<bar>sint (t1 ! i)\<bar> \<le> 2 ^ 14"
  defines "S \<equiv> (\<Sum>i<n. (uint (hm ! i) - sint (t0 ! i)) * (uint (hm ! i) - sint (t0 ! i))) + (\<Sum>i<n. sint (t1 ! i) * sint (t1 ! i))"
  shows "\<exists>sqn s2'. sign_norm n hm t0 t1 s2 = (sqn, s2') \<and> length s2' = n \<and> (\<forall>i<n. sint (s2' ! i) = - sint (t1 ! i)) \<and>
    uint sqn = (if S < 2 ^ 31 then S else 2 ^ 32 - 1)"
proof -
  define z0 z1 :: "nat \<Rightarrow> u16" where "z0 i = hm ! i - ucast (t0 ! i)" and "z1 i = - ucast (t1 ! i)" for i
  define g1 g2 :: "nat \<Rightarrow> u32" where "g1 i = scast (z0 i) * scast (z0 i)" and "g2 i = scast (z1 i) * scast (z1 i)" for i
  define g where "g i = (if i < n then g1 i else g2 (i - n))" for i
  define h where "h i = (scast (scast (z1 i) :: u32) :: i16)" for i
  have v0: "sint (z0 i) = uint (hm ! i) - sint (t0 ! i)" if "i < n" for i
    unfolding z0_def using b0 [OF that] by (intro sint_diff16) simp_all
  have v1: "sint (z1 i) = - sint (t1 ! i)" if "i < n" for i
    unfolding z1_def using sint_diff16 [of 0 "t1 ! i"] b1 [OF that] by simp
  obtain s ng where f: "fold (\<lambda>i (s, ng). (s + g i, ng OR (s + g i))) [0..<n + n] (0, 0) = (s, ng)" by fastforce
  have "uint (g i) \<le> 2 ^ 30" for i using small_square by (simp add: g_def g1_def g2_def)
  then have loop: "if (\<Sum>i<n + n. uint (g i)) < 2 ^ 31 then uint s = (\<Sum>i<n + n. uint (g i)) \<and> \<not> bit ng 31 else bit ng 31"
    using sqnorm_loop [of "n + n" g] f by (simp add: Let_def)
  have "(\<Sum>i<n + n. uint (g i)) = (\<Sum>i<n. uint (g i)) + (\<Sum>i<n. uint (g (n + i)))" by (rule sum_halves)
  then have S: "(\<Sum>i<n + n. uint (g i)) = S"
    by (simp add: g_def g1_def g2_def small_square(1) v0 v1 S_def)
  have r: "sign_norm n hm t0 t1 s2 = (s OR signed_drop_bit 31 ng, for_upd n (\<lambda>i _. h i) s2)"
    using norm_loops [where ?g1.0 = g1 and ?g2.0 = g2 and n = n and h = h and ?s2.0 = s2] f unfolding g_def [symmetric]
    by (simp add: sign_norm_def Let_def g1_def g2_def z0_def z1_def h_def case_prod_unfold)
  have "scast (scast w :: u32) = w" for w :: u16 by (rule bit_word_eqI) (simp add: bit_signed_iff)
  then have "sint (for_upd n (\<lambda>i _. h i) s2 ! i) = - sint (t1 ! i)" if "i < n" for i
    using that len v1 by (simp add: h_def)
  moreover have "uint (s OR signed_drop_bit 31 ng) = (if S < 2 ^ 31 then S else 2 ^ 32 - 1)"
  proof -
    have "uint (- 1 :: u32) = 2 ^ 32 - 1" by (simp add: unsigned_minus_1_eq_mask mask_eq_exp_minus_1)
    then show ?thesis using loop unfolding S sign_mask by auto
  qed
  ultimately show ?thesis using r len
    by (intro exI [of _ "s OR signed_drop_bit 31 ng"] exI [of _ "for_upd n (\<lambda>i _. h i) s2"]) simp
qed

section \<open>The loop of attempts\<close>

lemma sign_loop_first:
  assumes "\<And>k hm s2. length hm = n \<Longrightarrow> length s2 = n \<Longrightarrow> \<exists>c s2'. length c = n \<and> length s2' = n \<and> attempt k hm s2 = Some (Inr (c, s2', out k))"
    and "length hm = n" "length s2 = n" "out (k + d) = Some sig" "\<And>j. j < d \<Longrightarrow> out (k + j) = None"
  shows "sign_loop attempt k hm s2 = Some (Inr sig)"
  using assms(2-)
proof (induction d arbitrary: k hm s2)
  case 0
  then show ?case using assms(1) [OF 0(1,2), of k] by (subst sign_loop.simps) auto
next
  case (Suc d)
  obtain c s2' where c: "length c = n" "length s2' = n" "attempt k hm s2 = Some (Inr (c, s2', out k))"
    using assms(1) [OF Suc.prems(1,2)] by blast
  have none: "out k = None" using Suc.prems(4) [of 0] by simp
  have "sign_loop attempt (k + 1) c s2' = Some (Inr sig)"
    using Suc.prems(3) Suc.prems(4) [of "Suc j" for j] by (intro Suc.IH [OF c(1,2)]) simp_all
  then show ?case using c(3) none by (subst sign_loop.simps) simp
qed

lemma sign_loop_found:
  assumes att: "\<And>k hm s2. length hm = n \<Longrightarrow> length s2 = n \<Longrightarrow> \<exists>c s2'. length c = n \<and> length s2' = n \<and> attempt k hm s2 = Some (Inr (c, s2', out k))"
    and "length hm = n" "length s2 = n" "sign_loop attempt k hm s2 = Some r"
  shows "\<exists>d sig. r = Inr sig \<and> out (k + d) = Some sig \<and> (\<forall>j<d. out (k + j) = None)"
proof -
  let ?found = "\<lambda>k r. \<exists>d sig. r = Inr sig \<and> out (k + d) = Some sig \<and> (\<forall>j<d. out (k + j) = None)"
  have "a = attempt \<longrightarrow> length hm = n \<longrightarrow> length s2 = n \<longrightarrow> ?found k r" if "sign_loop a k hm s2 = Some r" for a k hm s2 r
  proof (rule sign_loop.raw_induct [where P = "\<lambda>a k hm s2 r. a = attempt \<longrightarrow> length hm = n \<longrightarrow> length s2 = n \<longrightarrow> ?found k r", OF _ that])
    fix loop a k r and hm :: "u16 list" and s2 :: "i16 list"
    assume IH: "\<And>a k hm s2 r. loop a k hm s2 = Some r \<Longrightarrow> a = attempt \<longrightarrow> length hm = n \<longrightarrow> length s2 = n \<longrightarrow> ?found k r"
      and body: "(case a k hm s2 of None \<Rightarrow> None | Some (Inl e) \<Rightarrow> Some (Inl e) | Some (Inr (hm, s2, Some sig)) \<Rightarrow> Some (Inr sig)
        | Some (Inr (hm, s2, None)) \<Rightarrow> loop a (k + 1) hm s2) = Some r"
    show "a = attempt \<longrightarrow> length hm = n \<longrightarrow> length s2 = n \<longrightarrow> ?found k r"
    proof (intro impI)
      assume a: "a = attempt" and "length hm = n" "length s2 = n"
      then obtain c s2' where c: "length c = n" "length s2' = n" "attempt k hm s2 = Some (Inr (c, s2', out k))"
        using att by blast
      show "?found k r"
      proof (cases "out k")
        case None
        then have "loop attempt (k + 1) c s2' = Some r" using body a c(3) by simp
        with IH c(1,2) obtain d sig where "r = Inr sig" "out (k + 1 + d) = Some sig" "\<forall>j<d. out (k + 1 + j) = None" by blast
        with None show ?thesis by (intro exI [of _ "Suc d"]) (auto simp: less_Suc_eq_0_disj)
      next
        case (Some sig)
        then show ?thesis using body a c(3) by (intro exI [of _ 0]) auto
      qed
    qed
  qed
  with assms(2-4) show ?thesis by blast
qed

section \<open>One attempt\<close>

lemma comp_encode_any:
  assumes "length s = 2 ^ logn" "length dst = length dst'"
  shows "comp_encode logn s dst = comp_encode logn s dst'"
proof -
  have "comp_encode logn s dst = Some out \<longleftrightarrow> comp_encode logn s dst' = Some out" for out
    unfolding comp_encode_iff [OF assms(1)] assms(2) ..
  then show ?thesis by (metis not_Some_eq)
qed

lemma sqbeta_bound: "logn \<le> 10 \<Longrightarrow> uint (sqbeta ! logn) < 2 ^ 31"
proof -
  assume "logn \<le> 10"
  then have "sqbeta ! logn \<in> set sqbeta" by (intro nth_mem) (simp add: sqbeta_def)
  then show ?thesis by (auto simp: sqbeta_def)
qed

lemma lattice_bounds:
  assumes "lattice_point logn f g F G (t0, t1)" "list_all (\<lambda>v :: u16. uint v < 12289) c" "length c = 2 ^ logn" "i < 2 ^ logn"
  shows "- (2 ^ 15) \<le> uint (c ! i) - sint (t0 ! i) \<and> uint (c ! i) - sint (t0 ! i) < 2 ^ 15" "\<bar>sint (t1 ! i)\<bar> \<le> 2 ^ 14"
proof -
  have "\<bar>sint (t0 ! i)\<bar> \<le> 16384" "\<bar>sint (t1 ! i)\<bar> \<le> 16384" using assms(1,4) unfolding lattice_point_def by auto
  moreover have "uint (c ! i) < 12289" using assms(2-4) by (simp add: list_all_length)
  moreover have "- (2 ^ 15) \<le> a - b \<and> a - b < 2 ^ 15" if "\<bar>b\<bar> \<le> 16384" "a < 12289" "0 \<le> a" for a b :: int using that by (simp add: abs_le_iff)
  ultimately show "- (2 ^ 15) \<le> uint (c ! i) - sint (t0 ! i) \<and> uint (c ! i) - sint (t0 ! i) < 2 ^ 15" "\<bar>sint (t1 ! i)\<bar> \<le> 2 ^ 14"
    using uint_ge_0 by (blast, simp)
qed

lemma sign_attempt_value:
  assumes n: "2 \<le> logn" "logn \<le> 10" and good: "xof_good shake" "hid = 0xFFFFFFFF \<or> length ctx \<le> 255 \<and> hash_oid hid \<noteq> None"
    and lat: "lattice_sampler ffs logn f g F G"
    and len: "length sig = nat (SignatureSize logn)" "length hm = 2 ^ logn" "length s2 = 2 ^ logn"
  shows "\<exists>c s2' r. length c = 2 ^ logn \<and> length s2' = 2 ^ logn \<and>
    sign_attempt shake ffs logn f g F G hvk ctx hid data seed sig k hm s2 = Some (Inr (c, s2', r)) \<and>
    (\<forall>s. r = Some s \<longleftrightarrow> sign_candidate shake ffs logn f g F G hvk ctx hid data seed k s)"
proof -
  let ?n = "2 ^ logn :: nat"
  define nonce where "nonce = xof_read shake (seed @ counter_bytes k) 0 40"
  define sub where "sub = xof_read shake (seed @ counter_bytes k) 40 56"
  obtain input where "hash_input nonce hvk ctx hid data = Inr input" using hash_input_ok [OF good(2)] by blast
  from hash_to_point_returns [OF good(1) this] obtain c where
    c: "\<And>c0. length c0 = ?n \<Longrightarrow> hash_to_point shake logn nonce hvk ctx hid data c0 = Some (None, c)"
      "length c = ?n" "list_all (\<lambda>v. uint v < 12289) c"
    by (metis length_replicate)
  obtain t0 t1 where t: "ffs logn f g F G c sub = (t0, t1)" by fastforce
  note b = lattice_bounds [OF lat [unfolded lattice_sampler_def, rule_format, of c sub, unfolded t, OF conjI [OF c(2,3)]] c(3,2)]
  let ?S = "(\<Sum>i<?n. (uint (c ! i) - sint (t0 ! i)) * (uint (c ! i) - sint (t0 ! i))) + (\<Sum>i<?n. sint (t1 ! i) * sint (t1 ! i))"
  obtain sqn s2' where s: "sign_norm ?n c t0 t1 s2 = (sqn, s2')" "length s2' = ?n" "\<forall>i<?n. sint (s2' ! i) = - sint (t1 ! i)"
    "uint sqn = (if ?S < 2 ^ 31 then ?S else 2 ^ 32 - 1)"
    using sign_norm_spec [OF len(3), of c t0 t1] b by blast
  have acc: "mqpoly_sqnorm_is_acceptable logn sqn \<longleftrightarrow> ?S \<le> uint (sqbeta ! logn)"
    using s(4) sqbeta_bound [OF n(2)] by (simp add: mqpoly_sqnorm_is_acceptable_def word_le_def)
  have uniq: "s2'' = s2'" if "length s2'' = ?n" "\<forall>i<?n. sint (s2'' ! i) = - sint (t1 ! i)" for s2'' :: "i16 list"
    proof -
    have "v = w" if "sint v = sint w" for v w :: i16 using that by (rule signed_word_eqI)
    then show ?thesis using that s(2,3) by (intro nth_equalityI) simp_all
  qed
  have enc: "comp_encode logn s2' (drop 41 sig) = comp_encode logn s2' (replicate (nat (SignatureSize logn) - 41) 0)"
    using len(1) s(2) by (intro comp_encode_any) simp_all
  define r where "r = (if ?S \<le> uint (sqbeta ! logn)
    then map_option (\<lambda>body. of_nat (0x30 + logn) # nonce @ body) (comp_encode logn s2' (drop 41 sig)) else None)"
  have "sign_attempt shake ffs logn f g F G hvk ctx hid data seed sig k hm s2 = Some (Inr (c, s2', r))"
    unfolding sign_attempt_def Let_def nonce_def [symmetric] sub_def [symmetric] c(1) [OF len(2)] option.case prod.case t s(1) sign_finish_def acc r_def
    by (cases "comp_encode logn s2' (drop 41 sig)") simp_all
  moreover have "r = Some s \<longleftrightarrow> sign_candidate shake ffs logn f g F G hvk ctx hid data seed k s" for s
  proof -
    have "sign_candidate shake ffs logn f g F G hvk ctx hid data seed k s \<longleftrightarrow>
      ?S \<le> uint (sqbeta ! logn) \<and> (\<exists>body. comp_encode logn s2' (drop 41 sig) = Some body \<and> s = of_nat (0x30 + logn) # nonce @ body)"
    proof
      assume "sign_candidate shake ffs logn f g F G hvk ctx hid data seed k s"
      then obtain c' t0' t1' s2'' body where "hash_to_point shake logn nonce hvk ctx hid data (replicate ?n 0) = Some (None, c')"
        and t': "ffs logn f g F G c' sub = (t0', t1')" and s2'': "length s2'' = ?n" "\<forall>k<?n. sint (s2'' ! k) = - sint (t1' ! k)"
        and rest: "(\<Sum>k<?n. (uint (c' ! k) - sint (t0' ! k)) * (uint (c' ! k) - sint (t0' ! k))) + (\<Sum>k<?n. sint (t1' ! k) * sint (t1' ! k)) \<le> uint (sqbeta ! logn)"
          "comp_encode logn s2'' (replicate (nat (SignatureSize logn) - 41) 0) = Some body" "s = of_nat (0x30 + logn) # nonce @ body"
        unfolding sign_candidate_def Let_def nonce_def [symmetric] sub_def [symmetric] by blast
      then have cc: "c' = c" using c(1) [OF length_replicate] by simp
      then have tt: "t0' = t0" "t1' = t1" using t t' by simp_all
      then have "s2'' = s2'" using uniq s2'' by simp
      then show "?S \<le> uint (sqbeta ! logn) \<and> (\<exists>body. comp_encode logn s2' (drop 41 sig) = Some body \<and> s = of_nat (0x30 + logn) # nonce @ body)"
        using rest unfolding cc tt enc by blast
    next
      assume "?S \<le> uint (sqbeta ! logn) \<and> (\<exists>body. comp_encode logn s2' (drop 41 sig) = Some body \<and> s = of_nat (0x30 + logn) # nonce @ body)"
      then show "sign_candidate shake ffs logn f g F G hvk ctx hid data seed k s"
        unfolding sign_candidate_def Let_def nonce_def [symmetric] sub_def [symmetric] enc
        using c(1) [OF length_replicate] t s(2,3) by blast
    qed
    then show ?thesis by (auto simp: r_def)
  qed
  ultimately show ?thesis using c(2) s(2) by blast
qed

lemma sign_loop_iff:
  fixes hvk data seed :: "u8 list"
  assumes n: "2 \<le> logn" "logn \<le> 10" and good: "xof_good shake" "hid = 0xFFFFFFFF \<or> length ctx \<le> 255 \<and> hash_oid hid \<noteq> None"
    and lat: "lattice_sampler ffs logn f g F G"
    and len: "length sig = nat (SignatureSize logn)" "length hm = 2 ^ logn" "length s2 = 2 ^ logn"
  defines "cand \<equiv> sign_candidate shake ffs logn f g F G hvk ctx hid data seed"
  shows "sign_loop (sign_attempt shake ffs logn f g F G hvk ctx hid data seed sig) 0 hm s2 = Some r \<longleftrightarrow>
    (\<exists>k s. r = Inr s \<and> cand k s \<and> (\<forall>j<k. \<nexists>s. cand j s))"
proof -
  note att = sign_attempt_value [where ffs = ffs and logn = logn and f = f and g = g and F = F and G = G and hvk = hvk and data = data and seed = seed,
      OF n good lat len(1)]
  have "\<exists>r. \<forall>s. r = Some s \<longleftrightarrow> cand k s" for k
    using att [of "replicate (2 ^ logn) 0" "replicate (2 ^ logn) 0" k] by (auto simp: cand_def)
  then obtain out where out: "\<And>k s. out k = Some s \<longleftrightarrow> cand k s" by metis
  have same: "r = out k" if "\<forall>s. r = Some s \<longleftrightarrow> cand k s" for r k
    using that out [of k] by (cases r; cases "out k") auto
  have step: "\<exists>c s2'. length c = 2 ^ logn \<and> length s2' = 2 ^ logn \<and>
      sign_attempt shake ffs logn f g F G hvk ctx hid data seed sig k hm s2 = Some (Inr (c, s2', out k))"
    if "length hm = 2 ^ logn" "length s2 = 2 ^ logn" for k hm s2
    using att [OF that, of k] same unfolding cand_def by blast
  have none: "out j = None \<longleftrightarrow> (\<nexists>s. cand j s)" for j by (simp flip: out)
  show ?thesis
  proof
    assume "sign_loop (sign_attempt shake ffs logn f g F G hvk ctx hid data seed sig) 0 hm s2 = Some r"
    from sign_loop_found [where out = out, OF step len(2,3) this] obtain d s where
      d: "r = Inr s" "out d = Some s" "\<forall>j<d. out j = None" unfolding add_0 by blast
    from d(2) have "cand d s" by (simp only: out)
    moreover from d(3) have "\<forall>j<d. \<nexists>s. cand j s" by (simp only: none)
    ultimately show "\<exists>k s. r = Inr s \<and> cand k s \<and> (\<forall>j<k. \<nexists>s. cand j s)" using d(1) by blast
  next
    assume "\<exists>k s. r = Inr s \<and> cand k s \<and> (\<forall>j<k. \<nexists>s. cand j s)"
    then obtain k s where k': "r = Inr s" "cand k s" "\<forall>j<k. \<nexists>s. cand j s" by blast
    then have k: "r = Inr s" "out (0 + k) = Some s" "\<And>j. j < k \<Longrightarrow> out (0 + j) = None" by (simp_all add: none) (simp only: out)
    from sign_loop_first [where out = out and d = k, OF step len(2,3) k(2,3)] show "sign_loop (sign_attempt shake ffs logn f g F G hvk ctx hid data seed sig) 0 hm s2 = Some r"
      using k(1) by simp
  qed
qed

section \<open>Signatures verify\<close>

lemma SignatureSize_min: "2 \<le> logn \<Longrightarrow> logn \<le> 10 \<Longrightarrow> 41 \<le> SignatureSize logn"
  using logn_range [of logn] by (auto simp: SignatureSize_def Let_def)

lemma center_le: "mq_center v * mq_center v \<le> v * v"
proof -
  have "\<bar>mq_center v\<bar> \<le> \<bar>v\<bar>"
  proof (cases "\<bar>v\<bar> \<le> 6144")
    case True
    then have "v mod 12289 = (if 0 \<le> v then v else v + 12289)"
      using mod_pos_pos_trivial [of v 12289] mod_pos_pos_trivial [of "v + 12289" 12289] by auto
    with True show ?thesis by (auto simp: mq_center_def)
  next
    case False
    with mq_center_bound [of v] show ?thesis by linarith
  qed
  then have "\<bar>mq_center v\<bar> * \<bar>mq_center v\<bar> \<le> \<bar>v\<bar> * \<bar>v\<bar>" by (intro mult_mono) simp_all
  then show ?thesis by (simp flip: abs_mult)
qed

lemma candidate_verifies:
  assumes n: "2 \<le> logn" "logn \<le> 10" "2 \<le> logn_min" "logn_min \<le> logn" "logn \<le> logn_max" "logn_max \<le> 10"
    and good: "xof_good shake" "hid = 0xFFFFFFFF \<or> length ctx \<le> 255 \<and> hash_oid hid \<noteq> None"
    and lat: "lattice_sampler ffs logn f g F G"
    and key: "secret_key logn f g F G" and h: "public_poly logn f g h" and vk: "encoded_public logn h vkey"
    and cand: "sign_candidate shake ffs logn f g F G (hash_verifying_key shake vkey) ctx hid data seed k sig"
  shows "verify_inner shake logn_min logn_max vkey ctx hid data sig
    = Some (comp_decode logn (drop 41 sig) (replicate (2 ^ logn) 0) \<noteq> Inr (replicate (2 ^ logn) 0))"
proof -
  let ?n = "2 ^ logn :: nat"
  define nonce where "nonce = xof_read shake (seed @ counter_bytes k) 0 40"
  define sub where "sub = xof_read shake (seed @ counter_bytes k) 40 56"
  obtain c t0 t1 s2 body where c0: "hash_to_point shake logn nonce (hash_verifying_key shake vkey) ctx hid data (replicate ?n 0) = Some (None, c)"
    and t: "ffs logn f g F G c sub = (t0, t1)" and s2: "length s2 = ?n" "\<And>i. i < ?n \<Longrightarrow> sint (s2 ! i) = - sint (t1 ! i)"
    and short: "(\<Sum>k<?n. (uint (c ! k) - sint (t0 ! k)) * (uint (c ! k) - sint (t0 ! k))) + (\<Sum>k<?n. sint (t1 ! k) * sint (t1 ! k)) \<le> uint (sqbeta ! logn)"
    and body: "comp_encode logn s2 (replicate (nat (SignatureSize logn) - 41) 0) = Some body" and sig: "sig = of_nat (0x30 + logn) # nonce @ body"
    using cand unfolding sign_candidate_def Let_def nonce_def sub_def by blast
  have nl: "length nonce = 40" by (simp add: nonce_def xof_read_def)
  have parts: "take 40 (drop 1 sig) = nonce" "drop 41 sig = body" using nl by (simp_all add: sig)
  obtain input where "hash_input nonce (hash_verifying_key shake vkey) ctx hid data = Inr input" using hash_input_ok [OF good(2)] by blast
  from hash_to_point_returns [OF good(1) this] c0 have
    c: "\<And>c0. length c0 = ?n \<Longrightarrow> hash_to_point shake logn nonce (hash_verifying_key shake vkey) ctx hid data c0 = Some (None, c)"
      "length c = ?n" "list_all (\<lambda>v. uint v < 12289) c"
    by (metis length_replicate option.inject prod.inject)+
  have bl: "length body = nat (SignatureSize logn) - 41" "comp_decode logn body (replicate ?n 0) = Inr s2"
    using body comp_encode_iff [OF s2(1)] comp_decode_iff [of "replicate ?n 0" logn body s2] s2(1) by auto
  obtain hv where hv: "vkey = of_nat logn # hv" "length hv = 7 * 2 ^ (logn - 2)" "bytes_bits hv = concat (map (bits_msb 14) h)"
    using vk by (auto simp: encoded_public_def)
  have hh: "length h = ?n" "list_all (\<lambda>v. uint v < 12289) h" using h by (simp_all add: public_poly_def)
  have dec: "modq_decode logn (drop 1 vkey) (replicate ?n 0) = Inr (7 * 2 ^ (logn - 2), h)"
    using modq_decode_iff [OF n(1), of "replicate ?n 0" "drop 1 vkey"] hv hh by simp
  have hd: "headers_ok logn_min logn_max vkey sig logn"
    using n hv(2) bl(1) nl SignatureSize_min [OF n(1,2)] by (simp add: headers_ok_def hv(1) sig key_sizes(3))
  note verdict = verify_inner_value [OF hd n(3,6) dec _ _ c(2,3), unfolded parts, OF bl(2) c(1)]
  have t0: "mq_eq logn (\<lambda>k. sint (t0 ! k)) (negconv ?n (\<lambda>i. uint (h ! i)) (\<lambda>k. - sint (t1 ! k)))"
    using lattice_public [OF n(2) key h lat [unfolded lattice_sampler_def, rule_format, OF conjI [OF c(2,3)], of sub]] t by simp
  have s1: "s1_coef ?n c h s2 k = mq_center (uint (c ! k) - sint (t0 ! k))" if k: "k < ?n" for k
  proof -
    have "negconv ?n (\<lambda>i. uint (h ! i)) (\<lambda>i. sint (s2 ! i)) k = negconv ?n (\<lambda>i. uint (h ! i)) (\<lambda>k. - sint (t1 ! k)) k"
      unfolding negconv_def using k s2(2) by (intro sum.cong) auto
    then show ?thesis unfolding s1_coef_def using t0 k
      by (intro mq_center_cong mod_diff_cong) (simp_all add: mq_eq_def)
  qed
  let ?N1 = "\<Sum>k<?n. s1_coef ?n c h s2 k * s1_coef ?n c h s2 k" and ?N2 = "\<Sum>k<?n. sint (s2 ! k) * sint (s2 ! k)"
  have "?N1 \<le> (\<Sum>k<?n. (uint (c ! k) - sint (t0 ! k)) * (uint (c ! k) - sint (t0 ! k)))"
    by (intro sum_mono) (simp add: s1 center_le)
  moreover have "?N2 = (\<Sum>k<?n. sint (t1 ! k) * sint (t1 ! k))" by (intro sum.cong) (simp_all add: s2(2))
  ultimately have "?N1 + ?N2 \<le> uint (sqbeta ! logn)" using short by simp
  moreover have "0 < ?N2 \<longleftrightarrow> s2 \<noteq> replicate ?n 0"
  proof -
    have "?N2 = 0 \<longleftrightarrow> (\<forall>k<?n. sint (s2 ! k) * sint (s2 ! k) = 0)" by (subst sum_nonneg_eq_0_iff) auto
    also have "\<dots> \<longleftrightarrow> s2 = replicate ?n 0" using s2(1) by (auto simp: list_eq_iff_nth_eq signed_eq_0_iff)
    finally show ?thesis using sum_nonneg [of "{..<?n}" "\<lambda>k. sint (s2 ! k) * sint (s2 ! k)"] by (auto simp: less_le)
  qed
  ultimately have "sig_short logn c h s2 \<longleftrightarrow> s2 \<noteq> replicate ?n 0" by (simp add: sig_short_def Let_def)
  then show ?thesis using verdict bl(2) parts by simp
qed

section \<open>Keys, signatures and their verification\<close>

lemma sign_inner_seeded_iff:
  fixes seed data :: "u8 list"
  assumes n: "2 \<le> logn_min" "logn_min \<le> logn" "logn \<le> logn_max" "logn_max \<le> 10"
    and good: "xof_good shake" "hid = 0xFFFFFFFF \<or> length ctx \<le> 255 \<and> hash_oid hid \<noteq> None"
    and lat: "lattice_sampler ffs logn f g F G"
    and key: "secret_key logn f g F G" "encode_keypair logn f g F G tmp = (skey, vkey)" "length tmp = 2 * 2 ^ logn"
  defines "cand \<equiv> sign_candidate shake ffs logn f g F G (hash_verifying_key shake vkey) ctx hid data seed"
  shows "encoded_public logn (pub_ext logn f g) vkey"
    and "sign_inner_seeded shake ffs logn_min logn_max seed skey ctx hid data = Some r \<longleftrightarrow>
      (\<exists>k s. r = Inr s \<and> cand k s \<and> (\<forall>j<k. \<nexists>s. cand j s))"
proof -
  have nn: "2 \<le> logn" "logn \<le> 10" using n by simp_all
  have enc: "encoded_secret logn f g F skey" "encoded_public logn (pub_ext logn f g) vkey"
    using encode_keypair_spec [OF nn key(1,3)] key(2) by simp_all
  then show "encoded_public logn (pub_ext logn f g) vkey" by simp
  note load = load_signing_key_spec [OF nn n(2,3) key(1) enc, of shake]
  have "length (take (nat (SignatureSize logn)) (replicate (nat (SignatureSize logn)) (0 :: u8))) = nat (SignatureSize logn)" by simp
  from sign_loop_iff [where data = data and seed = seed and hvk = "hash_verifying_key shake vkey" and r = r,
      OF nn good lat this pub_ext_length [OF nn(2)] length_replicate]
  show "sign_inner_seeded shake ffs logn_min logn_max seed skey ctx hid data = Some r \<longleftrightarrow>
      (\<exists>k s. r = Inr s \<and> cand k s \<and> (\<forall>j<k. \<nexists>s. cand j s))"
    by (simp only: sign_inner_seeded_def load sum.case prod.case Let_def sign_core_def cand_def)
qed

text \<open>C1: a signature made with an encoded key pair verifies. For every secret key in range that solves the NTRU equation,
  every random oracle, seed, context and message, and a sampler that returns points of the key's lattice, whatever signing
  returns with the encoded signing key is accepted by verification with the encoded verifying key, unless the second half of the
  signature is zero, which verification refuses.\<close>

theorem signature_verifies:
  assumes "2 \<le> logn_min" "logn_min \<le> logn" "logn \<le> logn_max" "logn_max \<le> 10"
    and "xof_good shake" "hid = 0xFFFFFFFF \<or> length ctx \<le> 255 \<and> hash_oid hid \<noteq> None"
    and "lattice_sampler ffs logn f g F G"
    and "secret_key logn f g F G" "encode_keypair logn f g F G tmp = (skey, vkey)" "length tmp = 2 * 2 ^ logn"
    and "sign_inner_seeded shake ffs logn_min logn_max seed skey ctx hid data = Some (Inr sig)"
  shows "verify_inner shake logn_min logn_max vkey ctx hid data sig
    = Some (comp_decode logn (drop 41 sig) (replicate (2 ^ logn) 0) \<noteq> Inr (replicate (2 ^ logn) 0))"
proof -
  have n: "2 \<le> logn" "logn \<le> 10" using assms(1-4) by simp_all
  have pub: "public_poly logn f g (pub_ext logn f g)" using assms(8) n by (intro pub_ext_public) (simp_all add: secret_key_def)
  note iff = sign_inner_seeded_iff(1) [OF assms(1-10)]
    sign_inner_seeded_iff(2) [where r = "Inr sig" and data = data and seed = seed, OF assms(1-10)]
  obtain k where "sign_candidate shake ffs logn f g F G (hash_verifying_key shake vkey) ctx hid data seed k sig"
    using iff(2) assms(11) by auto
  then show ?thesis by (rule candidate_verifies [OF n assms(1-6,7,8) pub iff(1)])
qed

text \<open>C3: signing ends exactly when some attempt gives a short and encodable candidate, and then it returns the first one;
  with a key in range, a hashable message and a lattice sampler it never reports an error.\<close>

theorem sign_returns_first_candidate:
  assumes "2 \<le> logn_min" "logn_min \<le> logn" "logn \<le> logn_max" "logn_max \<le> 10"
    and "xof_good shake" "hid = 0xFFFFFFFF \<or> length ctx \<le> 255 \<and> hash_oid hid \<noteq> None"
    and "lattice_sampler ffs logn f g F G"
    and "secret_key logn f g F G" "encode_keypair logn f g F G tmp = (skey, vkey)" "length tmp = 2 * 2 ^ logn"
  shows "(sign_inner_seeded shake ffs logn_min logn_max seed skey ctx hid data = Some (Inr sig) \<longleftrightarrow>
      (\<exists>k. sign_candidate shake ffs logn f g F G (hash_verifying_key shake vkey) ctx hid data seed k sig \<and>
        (\<forall>j<k. \<nexists>s. sign_candidate shake ffs logn f g F G (hash_verifying_key shake vkey) ctx hid data seed j s))) \<and>
    sign_inner_seeded shake ffs logn_min logn_max seed skey ctx hid data \<noteq> Some (Inl e)"
  using sign_inner_seeded_iff(2) [where data = data and seed = seed, OF assms] by auto

section \<open>A small key\<close>

definition demo_sampler :: ffsampler where
  "demo_sampler logn f g F G hm sub = ([123, 0, 0, 0], [- 1, 0, 0, 0])"

lemma demo_lattice: "lattice_sampler demo_sampler 2 [100, 0, 0, 0] [11, 0, 0, 0] [1, 0, 0, 0] [123, 0, 0, 0]"
  unfolding lattice_sampler_def lattice_point_def
  by (rule allI, rule allI, rule impI, rule exI [of _ "\<lambda>i. 0"], rule exI [of _ "\<lambda>i. if i = 0 then 1 else 0"])
     (simp add: all4 demo_sampler_def negconv_def set4 poly_of_def)

text \<open>With the all-zero stream the hashed message is zero, and the first attempt is kept.\<close>

definition zero_xof :: xof where
  "zero_xof input i = 0"

lemma zero_xof_good: "xof_good zero_xof"
proof -
  have "accepted (\<lambda>i. 0) pos m = replicate m 0" for pos m
    by (induction m arbitrary: pos) (simp_all add: accepted_Suc read_pair_def, simp add: accepted_def)
  moreover have "zero_xof input = (\<lambda>i. 0)" for input by (simp add: zero_xof_def fun_eq_iff)
  ultimately show ?thesis by (auto simp: xof_good_def)
qed

lemma zero_xof_hash: "hash_to_point zero_xof 2 nonce hvk [] 0 data (replicate (2 ^ 2) 0) = Some (None, [0, 0, 0, 0])"
proof -
  have "accepted (\<lambda>i. 0) pos m = replicate m 0" for pos m
    by (induction m arbitrary: pos) (simp_all add: accepted_Suc read_pair_def, simp add: accepted_def)
  moreover have "reduce_q 0 = 0" by (subst reduce_q.simps) (simp add: q_def)
  ultimately have "point_loop (\<lambda>i. 0) 4 0 0 [0, 0, 0, 0] = Some [0, 0, 0, 0]"
    using point_loop_returns [of 4 0 "\<lambda>i. 0" 0 4 "[0, 0, 0, 0]"] by (simp add: numeral_eq_Suc)
  moreover have "replicate (2 ^ 2) 0 = [0, 0, 0, 0 :: u16]" "zero_xof input = (\<lambda>i. 0)" for input
    by (simp add: numeral_eq_Suc, simp add: zero_xof_def fun_eq_iff)
  ultimately show ?thesis by (simp add: hash_to_point_def hash_input_def hash_oid_def)
qed

definition demo_sig :: "u8 list" where
  "demo_sig = 0x32 # replicate 40 0 @ [0x01, 0x80, 0x40, 0x20, 0x10, 0]"

lemma demo_comp: "comp_encode 2 [1, 0, 0, 0] (replicate 6 0) = Some [0x01, 0x80, 0x40, 0x20, 0x10, 0]"
  and demo_decode: "comp_decode 2 (drop 41 demo_sig) (replicate (2 ^ 2) 0) = Inr [1, 0, 0, 0]"
proof -
  have b: "bytes_bits [0x01, 0x80, 0x40, 0x20, 0x10, 0] = (comp_bits 1 @ comp_bits 0 @ comp_bits 0 @ comp_bits 0) @ replicate 12 False" by code_simp
  have l: "length (comp_bits 1) = 9" "length (comp_bits 0) = 9" by code_simp+
  show "comp_encode 2 [1, 0, 0, 0] (replicate 6 0) = Some [0x01, 0x80, 0x40, 0x20, 0x10, 0]"
    using b l by (subst comp_encode_iff) simp_all
  show "comp_decode 2 (drop 41 demo_sig) (replicate (2 ^ 2) 0) = Inr [1, 0, 0, 0]"
    using b by (subst comp_decode_iff) (auto simp: demo_sig_def)
qed

lemma demo_candidate:
  "sign_candidate zero_xof demo_sampler 2 [100, 0, 0, 0] [11, 0, 0, 0] [1, 0, 0, 0] [123, 0, 0, 0] hvk [] 0 [77] seed 0 demo_sig"
proof -
  have "nat (SignatureSize 2) - 41 = 6" by (simp add: SignatureSize_def)
  moreover have "xof_read zero_xof input 0 40 = replicate 40 0" for input
    by (simp add: xof_read_def zero_xof_def map_replicate_const)
  ultimately show ?thesis
    unfolding sign_candidate_def Let_def
    by (intro exI [of _ "[0, 0, 0, 0]"] exI [of _ "[123, 0, 0, 0]"] exI [of _ "[- 1, 0, 0, 0]"] exI [of _ "[1, 0, 0, 0]"]
          exI [of _ "[0x01, 0x80, 0x40, 0x20, 0x10, 0]"])
       (simp add: zero_xof_hash [simplified] demo_sampler_def demo_sig_def demo_comp all4 set4 sqbeta_def)
qed

lemma demo_first: "\<exists>k. sign_candidate zero_xof demo_sampler 2 [100, 0, 0, 0] [11, 0, 0, 0] [1, 0, 0, 0] [123, 0, 0, 0] hvk [] 0 [77] [5] k demo_sig \<and>
    (\<forall>j<k. \<nexists>s. sign_candidate zero_xof demo_sampler 2 [100, 0, 0, 0] [11, 0, 0, 0] [1, 0, 0, 0] [123, 0, 0, 0] hvk [] 0 [77] [5] j s)"
  by (intro exI [of _ 0]) (simp add: demo_candidate)

lemma demo_hash: "0 = (0xFFFFFFFF :: nat) \<or> length ([] :: u8 list) \<le> 255 \<and> hash_oid 0 \<noteq> None"
  by (simp add: hash_oid_def)

lemma demo_sizes: "2 \<le> (2 :: nat)" "2 \<le> (8 :: nat)" "(8 :: nat) \<le> 10" "length (replicate 8 0) = 2 * 2 ^ 2"
  by simp_all

theorem signature_verifies_witness:
  "\<exists>skey vkey. encode_keypair 2 [100, 0, 0, 0] [11, 0, 0, 0] [1, 0, 0, 0] [123, 0, 0, 0] (replicate 8 0) = (skey, vkey) \<and>
     sign_inner_seeded zero_xof demo_sampler 2 8 [5] skey [] 0 [77] = Some (Inr demo_sig) \<and>
     verify_inner zero_xof 2 8 vkey [] 0 [77] demo_sig = Some True"
proof -
  obtain skey vkey where e: "encode_keypair 2 [100, 0, 0, 0] [11, 0, 0, 0] [1, 0, 0, 0] [123, 0, 0, 0] (replicate 8 0) = (skey, vkey)" by fastforce
  note demo = demo_sizes(1,1-3) zero_xof_good demo_hash demo_lattice demo_key e demo_sizes(4)
  have s: "sign_inner_seeded zero_xof demo_sampler 2 8 [5] skey [] 0 [77] = Some (Inr demo_sig)"
    unfolding sign_inner_seeded_iff(2) [OF demo] using demo_first by blast
  have "[1, 0, 0, 0] \<noteq> replicate (2 ^ 2) (0 :: i16)" by (simp add: numeral_eq_Suc)
  then have "verify_inner zero_xof 2 8 vkey [] 0 [77] demo_sig = Some True"
    using signature_verifies [OF demo s] unfolding demo_decode by simp
  with e s show ?thesis by blast
qed

theorem sign_returns_first_candidate_witness:
  "\<exists>skey vkey. encode_keypair 2 [100, 0, 0, 0] [11, 0, 0, 0] [1, 0, 0, 0] [123, 0, 0, 0] (replicate 8 0) = (skey, vkey) \<and>
     sign_inner_seeded zero_xof demo_sampler 2 8 [5] skey [] 0 [77] = Some (Inr demo_sig)"
proof -
  obtain skey vkey where e: "encode_keypair 2 [100, 0, 0, 0] [11, 0, 0, 0] [1, 0, 0, 0] [123, 0, 0, 0] (replicate 8 0) = (skey, vkey)" by fastforce
  note demo = demo_sizes(1,1-3) zero_xof_good demo_hash demo_lattice demo_key e demo_sizes(4)
  have "sign_inner_seeded zero_xof demo_sampler 2 8 [5] skey [] 0 [77] = Some (Inr demo_sig)"
    using sign_returns_first_candidate [OF demo] demo_first by blast
  with e show ?thesis by blast
qed

end
