(* ===== verification/Mp31.thy ===== *)
theory Mp31
  imports Prelude
begin

unbundle bit_operations_syntax

text \<open>
  Computation modulo a prime of 31 bits (\<^verbatim>\<open>backend/pkg/fndsa/kgen_mp31.go\<close>), the bottom layer of key generation: addition,
  halving, Montgomery multiplication, powers of two and division by a binary GCD of 62 rounds. The modulus is an
  argument of every operation. Each is shown to keep the range from 0 to the modulus and to compute what it is
  named after; the division is shown to have finished after its fixed number of rounds.
\<close>

section \<open>The operations\<close>

definition tbmask :: "u32 \<Rightarrow> u32" where
  "tbmask x = signed_drop_bit 31 x"

definition mp_set :: "i32 \<Rightarrow> u32 \<Rightarrow> u32" where
  "mp_set v p = v + (p AND tbmask v)"

definition mp_norm :: "u32 \<Rightarrow> u32 \<Rightarrow> i32" where
  "mp_norm x p = x - (p AND tbmask (drop_bit 1 p - x))"

definition mp_R :: "u32 \<Rightarrow> u32" where
  "mp_R p = - (push_bit 1 p)"

definition mp_hR :: "u32 \<Rightarrow> u32" where
  "mp_hR p = push_bit 31 1 - p"

definition mp_add :: "u32 \<Rightarrow> u32 \<Rightarrow> u32 \<Rightarrow> u32" where
  "mp_add a b p = (let d = a + b - p in d + (p AND tbmask d))"

definition mp_sub :: "u32 \<Rightarrow> u32 \<Rightarrow> u32 \<Rightarrow> u32" where
  "mp_sub a b p = (let d = a - b in d + (p AND tbmask d))"

definition mp_half :: "u32 \<Rightarrow> u32 \<Rightarrow> u32" where
  "mp_half a p = drop_bit 1 (a + (p AND - (a AND 1)))"

definition mp_mmul :: "u32 \<Rightarrow> u32 \<Rightarrow> u32 \<Rightarrow> u32 \<Rightarrow> u32" where
  "mp_mmul a b p p0i =
     (let z = (ucast a :: u64) * ucast b;
          w = (ucast z :: u32) * p0i;
          d = ucast (drop_bit 32 (z + ucast w * ucast p)) - p
      in d + (p AND tbmask d))"

text \<open>The loop of \<^verbatim>\<open>mp_Rx31\<close>; exponents are not negative.\<close>

function rx31_loop :: "nat \<Rightarrow> u32 \<Rightarrow> u32 \<Rightarrow> u32 \<Rightarrow> u32 \<Rightarrow> u32" where
  "rx31_loop e x d p p0i =
     (let d = (if odd e then mp_mmul d x p p0i else d); e = e div 2
      in if e = 0 then d else rx31_loop e (mp_mmul x x p p0i) d p p0i)"
  by pat_completeness auto
termination by (relation "measure fst") auto

declare rx31_loop.simps [simp del]

definition mp_Rx31 :: "nat \<Rightarrow> u32 \<Rightarrow> u32 \<Rightarrow> u32 \<Rightarrow> u32" where
  "mp_Rx31 e p p0i r2 = rx31_loop e (mp_half r2 p) 1 p p0i"

definition div_step :: "u32 \<Rightarrow> u32 \<times> u32 \<times> u32 \<times> u32 \<Rightarrow> u32 \<times> u32 \<times> u32 \<times> u32" where
  "div_step p st =
     (let (a, b, u, v) = st;
          a_odd = - (a AND 1);
          swap = tbmask (a - b) AND a_odd;
          t1 = swap AND (a XOR b);
          a = a XOR t1;
          b = b XOR t1;
          t2 = swap AND (u XOR v);
          u = u XOR t2;
          v = v XOR t2;
          a = a - (a_odd AND b);
          u = mp_sub u (a_odd AND v) p;
          a = drop_bit 1 a;
          u = mp_half u p
      in (a, b, u, v))"

definition mp_div :: "u32 \<Rightarrow> u32 \<Rightarrow> u32 \<Rightarrow> u32" where
  "mp_div x y p =
     (let (a, b, u, v) = fold (\<lambda>i. div_step p) [0..<62] (y, p, x, 0)
      in v AND tbmask (b - 2))"

section \<open>Masks\<close>

lemma div_int_eqI:
  assumes "b * m \<le> a" "a < b * m + b"
  shows "a div b = (m :: int)"
proof -
  have "a div b = (a - b * m + m * b) div b" by (simp add: algebra_simps)
  also have "\<dots> = m + (a - b * m) div b" using assms by (intro div_mult_self1) simp
  also have "(a - b * m) div b = 0" using assms by (intro div_pos_pos_trivial) simp_all
  finally show ?thesis by simp
qed

lemma sint_u32: "sint x = (if uint x < 2 ^ 31 then uint x else uint x - 2 ^ 32)" for x :: u32
proof (cases "uint x < 2 ^ 31")
  case True
  have "- (2 ^ 31) \<le> uint x" by (rule order_trans [OF _ uint_ge_0]) simp
  then have "sint x = uint x" by (intro sint_of_int_eqI) (use True in simp_all)
  then show ?thesis using True by simp
next
  case False
  have "sint x = uint x - 2 ^ 32"
    by (rule sint_of_int_eqI) (use False uint_lt2p [of x] in simp_all)
  then show ?thesis using False by simp
qed

lemma uint_all_ones: "uint (- 1 :: u32) = 2 ^ 32 - 1"
  by (simp add: unsigned_minus_1_eq_mask mask_eq_exp_minus_1)

lemma tbmask_eq: "tbmask x = (if uint x < 2 ^ 31 then 0 else - 1)"
proof -
  have x: "uint x < 2 ^ 32" "0 \<le> uint x" using uint_lt2p [of x] by simp_all
  have "(uint x - 2 ^ 32) div 2 ^ 31 = - 1" if "\<not> uint x < 2 ^ 31"
    using that x by (intro div_int_eqI) simp_all
  moreover have "uint x div 2 ^ 31 = 0" if "uint x < 2 ^ 31" using that x by (intro div_pos_pos_trivial) simp_all
  ultimately have "sint x div 2 ^ 31 = (if uint x < 2 ^ 31 then 0 else - 1)" unfolding sint_u32 by simp
  then have "sint (tbmask x) = (if uint x < 2 ^ 31 then 0 else - 1)"
    by (simp add: tbmask_def sint_signed_drop_bit_eq drop_bit_eq_div)
  then have "sint (tbmask x) = sint (if uint x < 2 ^ 31 then 0 else - 1 :: u32)" by simp
  then show ?thesis by (rule signed_word_eqI)
qed

lemma mask_and: "p AND (if c then 0 else - 1) = (if c then 0 else p)" for p :: u32
  by simp

text \<open>The correction that brings a number between minus the modulus and the modulus into range.\<close>

lemma mp_corrected:
  fixes d p :: u32
  assumes d: "d = word_of_int k" and k: "- uint p \<le> k" "k < uint p" and p: "uint p < 2 ^ 31"
  shows "uint (d + (p AND tbmask d)) = k mod uint p"
proof (cases "0 \<le> k")
  case True
  have "uint d = k" by (rule uint_of_int_eqI [OF d True]) (use k p in simp)
  then show ?thesis using True k p by (simp add: tbmask_eq)
next
  case False
  have "d = word_of_int (k + 2 ^ 32)" using d by simp
  then have "uint d = k + 2 ^ 32" by (rule uint_of_int_eqI) (use False k p in simp_all)
  then have m: "p AND tbmask d = p" using k p False by (simp add: tbmask_eq)
  have "d + p = word_of_int (k + uint p)" using d by simp
  then have "uint (d + p) = k + uint p" by (rule uint_of_int_eqI) (use False k p in simp_all)
  moreover have "k mod uint p = (k + uint p) mod uint p" by simp
  moreover have "(k + uint p) mod uint p = k + uint p" using False k by (intro mod_pos_pos_trivial) simp_all
  ultimately show ?thesis unfolding m by simp
qed

section \<open>What the operations compute\<close>

definition mp_modulus :: "u32 \<Rightarrow> bool" where
  "mp_modulus p \<longleftrightarrow> odd (uint p) \<and> 2 ^ 32 < 3 * uint p \<and> uint p < 2 ^ 31"

lemma mp_modulusD:
  "mp_modulus p \<Longrightarrow> uint p < 2 ^ 31" "mp_modulus p \<Longrightarrow> 0 < uint p" "mp_modulus p \<Longrightarrow> 1 < uint p" "mp_modulus p \<Longrightarrow> odd (uint p)"
  by (auto simp: mp_modulus_def)

lemma mp_add_uint:
  assumes "mp_modulus p" "uint a < uint p" "uint b < uint p"
  shows "uint (mp_add a b p) = (uint a + uint b) mod uint p"
proof -
  have "a + b - p = word_of_int (uint a + uint b - uint p)" by simp
  then have "uint (mp_add a b p) = (uint a + uint b - uint p) mod uint p"
    unfolding mp_add_def Let_def by (rule mp_corrected) (use assms in \<open>auto simp: mp_modulus_def\<close>)
  then show ?thesis by simp
qed

lemma mp_sub_uint:
  assumes "mp_modulus p" "uint a < uint p" "uint b < uint p"
  shows "uint (mp_sub a b p) = (uint a - uint b) mod uint p"
proof -
  have "a - b = word_of_int (uint a - uint b)" by simp
  then show ?thesis unfolding mp_sub_def Let_def
    by (rule mp_corrected) (use assms uint_ge_0 [of a] uint_ge_0 [of b] in \<open>unfold mp_modulus_def, linarith+\<close>)
qed

lemma mp_half_uint:
  assumes "mp_modulus p" "uint a < uint p"
  shows "uint (mp_half a p) = (if even (uint a) then uint a else uint a + uint p) div 2"
proof -
  have "uint (a + p) = uint a + uint p" by (rule uint_add_lt) (use assms in \<open>auto simp: mp_modulus_def\<close>)
  then show ?thesis by (simp add: mp_half_def word_and_one uint_drop_bit)
qed

lemma mp_half_lt:
  assumes "mp_modulus p" "uint a < uint p"
  shows "uint (mp_half a p) < uint p"
proof -
  have "a' div 2 < p'" "(a' + p') div 2 < p'" if "0 \<le> a'" "a' < p'" for a' p' :: int using that by arith+
  then show ?thesis unfolding mp_half_uint [OF assms] using assms(2) by auto
qed

lemma mp_half_val:
  assumes "mp_modulus p" "uint a < uint p"
  shows "2 * uint (mp_half a p) mod uint p = uint a mod uint p"
proof (cases "even (uint a)")
  case False
  then have "2 * uint (mp_half a p) = uint a + uint p" using assms by (auto simp: mp_half_uint mp_modulus_def)
  then show ?thesis by simp
qed (use assms in \<open>simp add: mp_half_uint\<close>)

lemma mp_odd_cancel: "mp_modulus p \<Longrightarrow> uint p dvd 2 * k \<Longrightarrow> uint p dvd k"
  by (metis coprime_dvd_mult_right_iff coprime_right_2_iff_odd mp_modulusD(4))

text \<open>Montgomery multiplication multiplies by the inverse of \<open>2 ^ 32\<close>, which the constant of the modulus gives.\<close>

definition mp_mont :: "u32 \<Rightarrow> u32 \<Rightarrow> bool" where
  "mp_mont p p0i \<longleftrightarrow> mp_modulus p \<and> uint p * uint p0i mod 2 ^ 32 = 2 ^ 32 - 1"

definition mp_Ri :: "u32 \<Rightarrow> u32 \<Rightarrow> int" where
  "mp_Ri p p0i = (uint p * uint p0i + 1) div 2 ^ 32"

lemma mp_Ri_inverse:
  assumes "mp_mont p p0i"
  shows "2 ^ 32 * mp_Ri p p0i = uint p * uint p0i + 1" "2 ^ 32 * mp_Ri p p0i mod uint p = 1"
proof -
  have "(uint p * uint p0i + 1) mod 2 ^ 32 = (uint p * uint p0i mod 2 ^ 32 + 1) mod 2 ^ 32"
    by (rule mod_add_left_eq [symmetric])
  then have "(uint p * uint p0i + 1) mod 2 ^ 32 = 0" using assms by (simp add: mp_mont_def)
  then show e: "2 ^ 32 * mp_Ri p p0i = uint p * uint p0i + 1" unfolding mp_Ri_def by auto
  show "2 ^ 32 * mp_Ri p p0i mod uint p = 1"
    unfolding e using mp_modulusD(3) [of p] assms by (simp add: mp_mont_def)
qed

lemma mp_mmul_uint:
  assumes m: "mp_mont p p0i" and ab: "uint a * uint b < uint p * 2 ^ 32"
  shows "uint (mp_mmul a b p p0i) = uint a * uint b * mp_Ri p p0i mod uint p"
proof -
  have p: "uint p < 2 ^ 31" "mp_modulus p" "0 < uint p" using m by (auto simp: mp_mont_def mp_modulus_def)
  define z where "z = uint a * uint b"
  define w where "w = z * uint p0i mod 2 ^ 32"
  have z0: "0 \<le> z" and zlt: "z < uint p * 2 ^ 32" using ab by (simp_all add: z_def)
  have w: "0 \<le> w" "w < 2 ^ 32" by (simp_all add: w_def)
  have uz: "uint (ucast a * ucast b :: u64) = z"
    unfolding z_def by (subst uint_mult_lt) (use ab p in \<open>simp_all add: uint_up_ucast is_up\<close>)
  have uw: "uint (ucast (ucast a * ucast b :: u64) * p0i :: u32) = w"
    unfolding uint_word_ariths(3) [of "ucast (ucast a * ucast b :: u64) :: u32"] unsigned_ucast_eq uz
    by (simp add: w_def take_bit_eq_mod mod_mult_left_eq)
  define T where "T = (z + w * uint p) div 2 ^ 32"
  have wp: "w * uint p < uint p * 2 ^ 32" "0 \<le> w * uint p" using w p by (simp_all add: mult.commute [of "uint p"])
  have "w * uint p mod 2 ^ 32 = z * (uint p * uint p0i mod 2 ^ 32) mod 2 ^ 32"
    by (simp add: w_def mod_mult_left_eq mod_mult_right_eq ac_simps)
  also have "\<dots> = z * (- 1 mod 2 ^ 32) mod 2 ^ 32" using m by (simp add: mp_mont_def)
  also have "\<dots> = - z mod 2 ^ 32" unfolding mod_mult_right_eq by simp
  finally have "(z + w * uint p) mod 2 ^ 32 = (z + - z) mod 2 ^ 32" by (metis mod_add_right_eq)
  then have T: "2 ^ 32 * T = z + w * uint p" unfolding T_def by auto
  have "z + w * uint p < uint p * 2 ^ 32 + uint p * 2 ^ 32" by (rule add_strict_mono [OF zlt wp(1)])
  then have "0 \<le> 2 ^ 32 * T" "2 ^ 32 * T < 2 ^ 32 * (2 * uint p)" unfolding T using wp(2) z0 by simp_all
  then have Tb: "0 \<le> T" "T < 2 * uint p" by simp_all
  have p2: "uint p * 2 ^ 32 < 2 ^ 63" using p(1) by simp
  have wp64: "w * uint p < 2 ^ 64" "z + w * uint p < 2 ^ 64" using wp(1) zlt p2 by simp_all
  have uwp: "uint (ucast (ucast (ucast a * ucast b :: u64) * p0i :: u32) * ucast p :: u64) = w * uint p"
    by (subst uint_mult_lt) (use wp64 in \<open>simp_all add: uint_up_ucast is_up uw\<close>)
  have "uint (ucast a * ucast b + ucast (ucast (ucast a * ucast b :: u64) * p0i :: u32) * ucast p :: u64) = z + w * uint p"
    by (subst uint_add_lt) (use wp64 in \<open>simp_all add: uz uwp\<close>)
  then have "ucast (drop_bit 32 (ucast a * ucast b + ucast (ucast (ucast a * ucast b :: u64) * p0i :: u32) * ucast p :: u64))
      = (word_of_int T :: u32)"
    by (intro word_uint_eqI) (simp add: unsigned_ucast_eq uint_drop_bit T_def uint_word_of_int take_bit_eq_mod)
  then have "mp_mmul a b p p0i = (let d = word_of_int (T - uint p) in d + (p AND tbmask d))"
    by (simp add: mp_mmul_def Let_def)
  moreover have c: "- uint p \<le> T - uint p" "T - uint p < uint p" using Tb by simp_all
  ultimately have "uint (mp_mmul a b p p0i) = (T - uint p) mod uint p"
    unfolding Let_def by (simp only: mp_corrected [OF refl c p(1)])
  also have "\<dots> = T * (2 ^ 32 * mp_Ri p p0i) mod uint p"
    using mp_Ri_inverse(2) [OF m] by (metis mod_mult_right_eq mult.right_neutral minus_mod_self2)
  also have "T * (2 ^ 32 * mp_Ri p p0i) = (z + w * uint p) * mp_Ri p p0i" unfolding T [symmetric] by (simp only: ac_simps)
  also have "\<dots> = z * mp_Ri p p0i + w * mp_Ri p p0i * uint p" by (simp add: algebra_simps)
  also have "\<dots> mod uint p = z * mp_Ri p p0i mod uint p" by (rule mod_mult_self1)
  finally show ?thesis unfolding z_def .
qed

text \<open>Signed values: both conversions, and the two powers of two.\<close>

lemma mp_set_uint:
  assumes "mp_modulus p" "\<bar>sint v\<bar> < uint p"
  shows "uint (mp_set v p) = sint v mod uint p"
  unfolding mp_set_def by (rule mp_corrected) (use assms in \<open>auto simp: mp_modulus_def\<close>)

lemma mp_norm_sint:
  assumes "mp_modulus p" "uint x < uint p"
  shows "sint (mp_norm x p) = (if uint x \<le> uint p div 2 then uint x else uint x - uint p)"
proof -
  define k where "k = uint p div 2 - uint x"
  have p: "uint p < 2 ^ 31" using assms(1) by (simp add: mp_modulus_def)
  have kb: "- (2 ^ 31) \<le> k" "k < 2 ^ 31" using assms(2) p uint_ge_0 [of x] unfolding k_def by linarith+
  have "word_of_int (uint p div 2) = drop_bit 1 p"
    by (rule word_uint_eqI) (use p in \<open>simp add: uint_drop_bit uint_word_of_int take_bit_eq_mod\<close>)
  then have e: "drop_bit 1 p - x = word_of_int k" by (simp add: k_def)
  have m: "tbmask (drop_bit 1 p - x) = (if 0 \<le> k then 0 else - 1)"
  proof (cases "0 \<le> k")
    case True
    then have "uint (drop_bit 1 p - x) = k" by (intro uint_of_int_eqI [OF e]) (use kb in simp_all)
    then show ?thesis using True kb by (simp add: tbmask_eq)
  next
    case False
    have "drop_bit 1 p - x = word_of_int (k + 2 ^ 32)" using e by simp
    then have "uint (drop_bit 1 p - x) = k + 2 ^ 32" by (rule uint_of_int_eqI) (use False kb in simp_all)
    then show ?thesis using False kb by (simp add: tbmask_eq)
  qed
  let ?v = "if uint x \<le> uint p div 2 then uint x else uint x - uint p"
  have "mp_norm x p = word_of_int ?v" unfolding mp_norm_def m k_def by simp
  then show ?thesis
    by (rule sint_of_int_eqI) (use p assms(2) order_trans [OF _ uint_ge_0, of "- (2 ^ 31)" x] in auto)
qed

lemma mp_set_norm:
  assumes "mp_modulus p" "uint x < uint p"
  shows "mp_set (mp_norm x p) p = x"
proof (rule word_uint_eqI)
  have s: "\<bar>sint (mp_norm x p)\<bar> < uint p"
    unfolding mp_norm_sint [OF assms] using assms(2) uint_ge_0 [of x] by auto
  show "uint (mp_set (mp_norm x p) p) = uint x"
    unfolding mp_set_uint [OF assms(1) s] mp_norm_sint [OF assms] using assms(2) by simp
qed

lemma mp_R_uint:
  assumes "mp_modulus p"
  shows "uint (mp_R p) = 2 ^ 32 mod uint p"
proof -
  have p: "2 ^ 32 < 3 * uint p" "uint p < 2 ^ 31" using assms by (simp_all add: mp_modulus_def)
  have "mp_R p = word_of_int (2 ^ 32 - 2 * uint p)" by (simp add: mp_R_def push_bit_eq_mult mult.commute)
  then have "uint (mp_R p) = 2 ^ 32 - 2 * uint p" by (rule uint_of_int_eqI) (use p in simp_all)
  also have "\<dots> = (2 ^ 32 - 2 * uint p) mod uint p" by (rule mod_pos_pos_trivial [symmetric]) (use p in simp_all)
  also have "\<dots> = 2 ^ 32 mod uint p" by (metis mod_diff_right_eq mod_mult_self2_is_0 diff_zero)
  finally show ?thesis .
qed

lemma mp_hR_uint:
  assumes "mp_modulus p"
  shows "uint (mp_hR p) = 2 ^ 31 mod uint p"
proof -
  have p: "2 ^ 32 < 3 * uint p" "uint p < 2 ^ 31" using assms by (simp_all add: mp_modulus_def)
  have "mp_hR p = word_of_int (2 ^ 31 - uint p)" by (simp add: mp_hR_def push_bit_eq_mult)
  then have "uint (mp_hR p) = 2 ^ 31 - uint p" by (rule uint_of_int_eqI) (use p in simp_all)
  also have "\<dots> = (2 ^ 31 - uint p) mod uint p" by (rule mod_pos_pos_trivial [symmetric]) (use p in simp_all)
  also have "\<dots> = 2 ^ 31 mod uint p" by simp
  finally show ?thesis .
qed

section \<open>Powers of two\<close>

lemma mp_mmul_in_range:
  assumes m: "mp_mont p p0i" and ab: "uint a < uint p" "uint b < uint p"
  shows "uint (mp_mmul a b p p0i) = uint a * uint b * mp_Ri p p0i mod uint p" "uint (mp_mmul a b p p0i) < uint p"
proof -
  have p: "0 < uint p" using m by (simp add: mp_mont_def mp_modulusD)
  have "uint a * uint b \<le> uint p * uint b" using ab by (intro mult_right_mono) simp_all
  also have "\<dots> < uint p * 2 ^ 32" using p uint_lt2p [of b] by simp
  finally show e: "uint (mp_mmul a b p p0i) = uint a * uint b * mp_Ri p p0i mod uint p" by (rule mp_mmul_uint [OF m])
  show "uint (mp_mmul a b p p0i) < uint p" unfolding e using p by simp
qed

lemma mod_pow_step: "a mod P * (b mod P * r) ^ n mod P = a * (b * r) ^ n mod P" for P :: int
proof -
  have "(b mod P * r) mod P = b * r mod P" by (rule mod_mult_left_eq)
  then have "(b mod P * r) ^ n mod P = (b * r) ^ n mod P" by (metis power_mod)
  then show ?thesis by (metis mod_mult_eq mod_mod_trivial)
qed

lemma rx31_loop_uint:
  assumes "mp_mont p p0i" "uint x < uint p" "uint d < uint p"
  shows "uint (rx31_loop e x d p p0i) = uint d * (uint x * mp_Ri p p0i) ^ e mod uint p"
  using assms
proof (induction e x d p p0i rule: rx31_loop.induct)
  case (1 e x d p p0i)
  let ?R = "mp_Ri p p0i" and ?d = "if odd e then mp_mmul d x p p0i else d"
  have d: "uint ?d = uint d * (uint x * ?R) ^ (e mod 2) mod uint p"
    using mp_mmul_in_range [of p p0i d x] 1 by (simp add: odd_iff_mod_2_eq_one mult.assoc)
  have dlt: "uint ?d < uint p" using mp_mmul_in_range [of p p0i d x] 1 by simp
  show ?case
  proof (cases "e div 2 = 0")
    case True
    then have "e mod 2 = e" by simp
    then show ?thesis using True d by (subst rx31_loop.simps) (simp add: Let_def)
  next
    case False
    note x = mp_mmul_in_range [of p p0i x x, OF 1(2,3,3)]
    have "uint (rx31_loop e x d p p0i) = uint (rx31_loop (e div 2) (mp_mmul x x p p0i) ?d p p0i)"
      by (subst rx31_loop.simps) (use False in \<open>simp add: Let_def\<close>)
    also have "\<dots> = uint ?d * (uint (mp_mmul x x p p0i) * ?R) ^ (e div 2) mod uint p"
      by (rule 1(1)) (use False 1 x dlt in simp_all)
    also have "\<dots> = uint d * (uint x * ?R) ^ (e mod 2) * (uint x * uint x * ?R * ?R) ^ (e div 2) mod uint p"
      unfolding d x(1) by (rule mod_pow_step)
    also have "uint x * uint x * ?R * ?R = (uint x * ?R) ^ 2" by (simp add: power2_eq_square)
    also have "uint d * (uint x * ?R) ^ (e mod 2) * ((uint x * ?R) ^ 2) ^ (e div 2) = uint d * (uint x * ?R) ^ (e mod 2 + 2 * (e div 2))"
      by (simp only: power_add power_mult mult.assoc)
    finally show ?thesis by simp
  qed
qed

text \<open>Half of \<open>2 ^ 64\<close> is \<open>2 ^ 31\<close> in Montgomery form.\<close>

lemma mp_half_r2:
  assumes m: "mp_mont p p0i" and r2: "uint r2 = 2 ^ 64 mod uint p"
  shows "uint (mp_half r2 p) < uint p" "uint (mp_half r2 p) * mp_Ri p p0i mod uint p = 2 ^ 31 mod uint p"
proof -
  let ?x = "mp_half r2 p" and ?R = "mp_Ri p p0i"
  have p: "mp_modulus p" "uint r2 < uint p" using m r2 by (simp_all add: mp_mont_def mp_modulusD)
  show "uint ?x < uint p" by (rule mp_half_lt [OF p])
  have "2 * uint ?x mod uint p = 2 * 2 ^ 63 mod uint p" using mp_half_val [OF p] r2 by simp
  then have "uint p dvd 2 * (uint ?x - 2 ^ 63)" by (simp add: mod_eq_dvd_iff right_diff_distrib)
  then have "uint p dvd uint ?x - 2 ^ 63" using mp_odd_cancel [OF p(1)] by blast
  then have "uint ?x mod uint p = 2 ^ 63 mod uint p" by (simp add: mod_eq_dvd_iff)
  then have "uint ?x * ?R mod uint p = 2 ^ 63 * ?R mod uint p" by (metis mod_mult_left_eq)
  also have "2 ^ 63 * ?R = 2 ^ 31 * (2 ^ 32 * ?R)" by simp
  also have "\<dots> mod uint p = 2 ^ 31 mod uint p" using mp_Ri_inverse(2) [OF m] by (metis mod_mult_right_eq mult.right_neutral)
  finally show "uint ?x * ?R mod uint p = 2 ^ 31 mod uint p" .
qed

lemma mp_Rx31_uint:
  assumes m: "mp_mont p p0i" and r2: "uint r2 = 2 ^ 64 mod uint p"
  shows "uint (mp_Rx31 e p p0i r2) = 2 ^ (31 * e) mod uint p"
proof -
  let ?x = "mp_half r2 p" and ?R = "mp_Ri p p0i"
  note x = mp_half_r2 [OF m r2]
  have p: "1 < uint p" using m by (simp add: mp_mont_def mp_modulusD)
  have xR: "(uint ?x * ?R) ^ e mod uint p = (2 ^ 31) ^ e mod uint p" using x(2) by (metis power_mod)
  have "uint (mp_Rx31 e p p0i r2) = uint (1 :: u32) * (uint ?x * ?R) ^ e mod uint p"
    unfolding mp_Rx31_def by (rule rx31_loop_uint [OF m x(1)]) (use p in simp)
  then show ?thesis using xR by (simp add: power_mult)
qed

section \<open>Division\<close>

text \<open>One round of the binary GCD on the represented numbers.\<close>

lemma mask_odd: "- (a AND 1) = (if odd (uint a) then - 1 else 0)" for a :: "'a :: len word"
  by (simp add: word_and_one)

lemma masked_swap:
  fixes x y :: "'a :: len word"
  shows "x XOR ((if c then - 1 else 0) AND (x XOR y)) = (if c then y else x)"
    and "y XOR ((if c then - 1 else 0) AND (x XOR y)) = (if c then x else y)"
  by (simp_all add: xor.commute xor.left_commute)

lemma div_step_cases:
  assumes "uint a < 2 ^ 31" "uint b < 2 ^ 31"
  shows "div_step p (a, b, u, v) =
    (if even (uint a) then (drop_bit 1 a, b, mp_half (mp_sub u 0 p) p, v)
     else if uint b \<le> uint a then (drop_bit 1 (a - b), b, mp_half (mp_sub u v p) p, v)
     else (drop_bit 1 (b - a), a, mp_half (mp_sub v u p) p, u))"
proof -
  have t: "tbmask (a - b) = (if uint b \<le> uint a then 0 else - 1)"
  proof (cases "uint b \<le> uint a")
    case True
    then have "uint (a - b) < 2 ^ 31" using assms uint_ge_0 [of b] by (simp only: uint_sub_le)
    then show ?thesis using True by (simp add: tbmask_eq)
  next
    case False
    have "a - b = word_of_int (uint a - uint b + 2 ^ 32)" by simp
    moreover have "0 \<le> i - j + 2 ^ 32 \<and> i - j + 2 ^ 32 < 2 ^ 32 \<and> \<not> i - j + 2 ^ 32 < 2 ^ 31" if "0 \<le> i" "\<not> j \<le> i" "j < 2 ^ 31" for i j :: int
      using that by simp
    from this [OF uint_ge_0 False assms(2)] have "0 \<le> uint a - uint b + 2 ^ 32" "uint a - uint b + 2 ^ 32 < 2 ^ 32"
      and low: "\<not> uint a - uint b + 2 ^ 32 < 2 ^ 31" by blast+
    ultimately have "uint (a - b) = uint a - uint b + 2 ^ 32" by (intro uint_of_int_eqI) simp_all
    then show ?thesis using False low by (simp only: tbmask_eq if_False)
  qed
  show ?thesis
  proof (cases "odd (uint a) \<and> \<not> uint b \<le> uint a")
    case True
    then have "tbmask (a - b) = - 1" using t by simp
    then show ?thesis using True by (simp add: div_step_def mask_odd masked_swap [where c = True, simplified])
  next
    case False
    then show ?thesis using t by (auto simp: div_step_def mask_odd)
  qed
qed

text \<open>
  What the rounds keep: both numbers stay below the modulus with the second odd, their greatest common divisor is
  that of the divisor and the modulus, each number is the divisor times its cofactor over the dividend, and the
  product of the two has been halved once per round.
\<close>

definition div_inv :: "u32 \<Rightarrow> u32 \<Rightarrow> u32 \<Rightarrow> nat \<Rightarrow> u32 \<times> u32 \<times> u32 \<times> u32 \<Rightarrow> bool" where
  "div_inv x y p i st =
     (case st of (a, b, u, v) \<Rightarrow>
        uint a \<le> uint p \<and> uint b \<le> uint p \<and> odd (uint b) \<and> uint u < uint p \<and> uint v < uint p \<and>
        gcd (uint a) (uint b) = gcd (uint y) (uint p) \<and>
        uint p dvd uint a * uint x - uint u * uint y \<and> uint p dvd uint b * uint x - uint v * uint y \<and>
        uint a * uint b * 2 ^ i \<le> uint y * uint p)"

lemma div_invI:
  "uint a \<le> uint p \<Longrightarrow> uint b \<le> uint p \<Longrightarrow> odd (uint b) \<Longrightarrow> uint u < uint p \<Longrightarrow> uint v < uint p \<Longrightarrow>
   gcd (uint a) (uint b) = gcd (uint y) (uint p) \<Longrightarrow>
   uint p dvd uint a * uint x - uint u * uint y \<Longrightarrow> uint p dvd uint b * uint x - uint v * uint y \<Longrightarrow>
   uint a * uint b * 2 ^ i \<le> uint y * uint p \<Longrightarrow> div_inv x y p i (a, b, u, v)"
  by (simp add: div_inv_def)

lemma gcd_halve: "odd (b :: int) \<Longrightarrow> even a \<Longrightarrow> gcd (a div 2) b = gcd a b"
  by (metis coprime_commute coprime_left_2_iff_odd dvd_div_mult_self gcd_mult_right_right_cancel gcd.commute)

text \<open>Halving the cofactor halves what it stands for.\<close>

lemma div_half_cofactor:
  assumes p: "mp_modulus p" and w: "uint w < uint p" and k: "uint p dvd 2 * k * X - uint w * Y"
  shows "uint p dvd k * X - uint (mp_half w p) * Y"
proof -
  have "2 * uint (mp_half w p) mod uint p = uint w mod uint p" by (rule mp_half_val [OF p w])
  then have "uint p dvd (2 * uint (mp_half w p) - uint w) * Y" by (simp add: mod_eq_dvd_iff)
  with k have "uint p dvd 2 * k * X - uint w * Y - (2 * uint (mp_half w p) - uint w) * Y" by (rule dvd_diff)
  also have "\<dots> = 2 * (k * X - uint (mp_half w p) * Y)" by (simp add: algebra_simps)
  finally show ?thesis by (rule mp_odd_cancel [OF p])
qed

lemma div_sub_cofactor:
  assumes p: "mp_modulus p" and w: "uint u < uint p" "uint v < uint p"
    and k: "uint p dvd A * X - uint u * Y" "uint p dvd B * X - uint v * Y"
  shows "uint p dvd (A - B) * X - uint (mp_sub u v p) * Y" "uint (mp_sub u v p) < uint p"
proof -
  have s: "uint (mp_sub u v p) = (uint u - uint v) mod uint p" by (rule mp_sub_uint [OF p w])
  then show "uint (mp_sub u v p) < uint p" using mp_modulusD(2) [OF p] by simp
  have "uint (mp_sub u v p) mod uint p = (uint u - uint v) mod uint p" by (simp add: s)
  then have "uint p dvd (uint (mp_sub u v p) - (uint u - uint v)) * Y" by (simp add: mod_eq_dvd_iff)
  with dvd_diff [OF k] have "uint p dvd A * X - uint u * Y - (B * X - uint v * Y) - (uint (mp_sub u v p) - (uint u - uint v)) * Y"
    by (rule dvd_diff)
  also have "\<dots> = (A - B) * X - uint (mp_sub u v p) * Y" by (simp add: algebra_simps)
  finally show "uint p dvd (A - B) * X - uint (mp_sub u v p) * Y" .
qed

text \<open>The three moves of a round: exchange, subtract and halve.\<close>

lemma div_inv_exchange: "div_inv x y p i (a, b, u, v) \<Longrightarrow> odd (uint a) \<Longrightarrow> div_inv x y p i (b, a, v, u)"
  by (simp add: div_inv_def gcd.commute mult.commute [of "uint b"] mult.assoc)

lemma div_inv_subtract:
  assumes p: "mp_modulus p" and I: "div_inv x y p i (a, b, u, v)" and le: "uint b \<le> uint a"
  shows "div_inv x y p i (a - b, b, mp_sub u v p, v)"
proof -
  have d: "uint (a - b) = uint a - uint b" by (rule uint_sub_le [OF le])
  have k: "uint u < uint p" "uint v < uint p" "uint p dvd uint a * uint x - uint u * uint y"
    "uint p dvd uint b * uint x - uint v * uint y" using I by (simp_all add: div_inv_def)
  show ?thesis
  proof (rule div_invI)
    show "uint (a - b) \<le> uint p" using I d uint_ge_0 [of b] unfolding div_inv_def prod.case by linarith
    show "gcd (uint (a - b)) (uint b) = gcd (uint y) (uint p)"
      using I by (simp add: d div_inv_def gcd_diff1)
    show "uint p dvd uint (a - b) * uint x - uint (mp_sub u v p) * uint y" "uint (mp_sub u v p) < uint p"
      using div_sub_cofactor [OF p k] by (simp_all add: d)
    have "uint (a - b) * uint b * 2 ^ i \<le> uint a * uint b * 2 ^ i"
      by (intro mult_right_mono) (simp_all add: d)
    then show "uint (a - b) * uint b * 2 ^ i \<le> uint y * uint p" using I by (simp add: div_inv_def)
  qed (use I in \<open>simp_all add: div_inv_def\<close>)
qed

lemma div_inv_halve:
  assumes p: "mp_modulus p" and I: "div_inv x y p i (a, b, u, v)" and even: "even (uint a)"
  shows "div_inv x y p (Suc i) (drop_bit 1 a, b, mp_half u p, v)"
proof -
  have d: "uint (drop_bit 1 a) = uint a div 2" by (simp add: uint_drop_bit)
  have two: "2 * (uint a div 2) = uint a" using even by simp
  have u: "uint u < uint p" using I by (simp add: div_inv_def)
  show ?thesis
  proof (rule div_invI)
    show "uint (drop_bit 1 a) \<le> uint p" using I uint_ge_0 [of a] unfolding d div_inv_def prod.case by linarith
    show "gcd (uint (drop_bit 1 a)) (uint b) = gcd (uint y) (uint p)"
      unfolding d using I even by (simp add: div_inv_def gcd_halve)
    show "uint (mp_half u p) < uint p" by (rule mp_half_lt [OF p u])
    show "uint p dvd uint (drop_bit 1 a) * uint x - uint (mp_half u p) * uint y"
      unfolding d by (rule div_half_cofactor [OF p u]) (use I two in \<open>simp add: div_inv_def\<close>)
    have e: "uint (drop_bit 1 a) * uint b * 2 ^ Suc i = 2 * (uint a div 2) * uint b * 2 ^ i" unfolding d by simp
    have "uint a * uint b * 2 ^ i \<le> uint y * uint p" using I by (simp add: div_inv_def)
    then show "uint (drop_bit 1 a) * uint b * 2 ^ Suc i \<le> uint y * uint p" by (simp only: e two)
  qed (use I in \<open>simp_all add: div_inv_def\<close>)
qed

lemma div_inv_step:
  assumes p: "mp_modulus p" and I: "div_inv x y p i (a, b, u, v)"
  shows "div_inv x y p (Suc i) (div_step p (a, b, u, v))"
proof -
  have ab: "uint a \<le> uint p" "uint b \<le> uint p" "odd (uint b)" "uint u < uint p" using I by (simp_all add: div_inv_def)
  then have lt: "uint a < 2 ^ 31" "uint b < 2 ^ 31" using mp_modulusD(1) [OF p] by simp_all
  have u0: "mp_sub u 0 p = u" by (rule word_uint_eqI) (use mp_sub_uint [OF p ab(4), of 0] ab(4) mp_modulusD(2) [OF p] in simp)
  consider "even (uint a)" | "odd (uint a)" "uint b \<le> uint a" | "odd (uint a)" "uint a \<le> uint b" "\<not> uint b \<le> uint a"
    by linarith
  then show ?thesis
  proof cases
    case 1
    then show ?thesis using div_inv_halve [OF p I] by (simp add: div_step_cases [OF lt] u0)
  next
    case 2
    have "even (uint (a - b))" using 2 ab(3) by (simp add: uint_sub_le)
    from div_inv_halve [OF p div_inv_subtract [OF p I 2(2)] this] show ?thesis using 2 by (simp add: div_step_cases [OF lt])
  next
    case 3
    have "even (uint (b - a))" using 3 ab(3) by (simp add: uint_sub_le)
    from div_inv_halve [OF p div_inv_subtract [OF p div_inv_exchange [OF I 3(1)] 3(2)] this]
    show ?thesis using 3 by (simp add: div_step_cases [OF lt])
  qed
qed

lemma div_inv_rounds:
  assumes p: "mp_modulus p" and xy: "uint x < uint p" "uint y < uint p"
  shows "div_inv x y p n (fold (\<lambda>i. div_step p) [0..<n] (y, p, x, 0))"
proof (induction n)
  case 0
  show ?case using xy mp_modulusD [OF p] by (simp add: div_inv_def mult.commute)
next
  case (Suc n)
  obtain a b u v where e: "fold (\<lambda>i. div_step p) [0..<n] (y, p, x, 0) = (a, b, u, v)" by (rule prod_cases4)
  show ?case using div_inv_step [OF p Suc [unfolded e]] by (simp add: e)
qed

text \<open>
  After 62 rounds the first number is zero, so the second is the greatest common divisor: this bound on the number
  of rounds is what makes the fixed loop a terminating binary GCD.
\<close>

lemma div_rounds_done:
  assumes p: "mp_modulus p" and xy: "uint x < uint p" "uint y < uint p"
    and e: "fold (\<lambda>i. div_step p) [0..<62] (y, p, x, 0) = (a, b, u, v)"
  shows "uint a = 0" "uint b = gcd (uint y) (uint p)"
proof -
  have I: "div_inv x y p 62 (a, b, u, v)" using div_inv_rounds [OF p xy, of 62] unfolding e .
  have P: "0 < uint p" "uint p < 2 ^ 31" using mp_modulusD [OF p] by simp_all
  have "uint a * uint b * 2 ^ 62 \<le> uint y * uint p" using I by (simp add: div_inv_def)
  also have "\<dots> < 2 ^ 31 * 2 ^ 31" by (intro mult_strict_mono) (use xy P in simp_all)
  finally have "uint a * uint b * 2 ^ 62 < 1 * 2 ^ 62" by simp
  then have "uint a * uint b < 1" by (simp only: mult_less_cancel_right) simp
  moreover have "0 < uint b" using I uint_ge_0 [of b] unfolding div_inv_def by (auto simp: less_le)
  moreover have "0 \<le> uint a" by simp
  ultimately show a: "uint a = 0" by (metis int_one_le_iff_zero_less le_less mult_pos_pos not_less)
  show "uint b = gcd (uint y) (uint p)" using I a by (simp add: div_inv_def)
qed

lemma mp_div_spec:
  assumes p: "mp_modulus p" and xy: "uint x < uint p" "uint y < uint p"
  shows "uint (mp_div x y p) < uint p"
    and "coprime (uint y) (uint p) \<Longrightarrow> uint (mp_div x y p) * uint y mod uint p = uint x"
    and "\<not> coprime (uint y) (uint p) \<Longrightarrow> mp_div x y p = 0"
proof -
  obtain a b u v where e: "fold (\<lambda>i. div_step p) [0..<62] (y, p, x, 0) = (a, b, u, v)" by (rule prod_cases4)
  have I: "div_inv x y p 62 (a, b, u, v)" using div_inv_rounds [OF p xy, of 62] unfolding e .
  have g: "uint b = gcd (uint y) (uint p)" by (rule div_rounds_done(2) [OF p xy e])
  have r: "mp_div x y p = v AND tbmask (b - 2)" unfolding mp_div_def e by simp
  have P: "0 < uint p" "uint p < 2 ^ 31" "odd (uint p)" using mp_modulusD [OF p] by simp_all
  have v: "uint v < uint p" "odd (uint b)" "uint b \<le> uint p" "uint p dvd uint b * uint x - uint v * uint y"
    using I by (simp_all add: div_inv_def)
  have inv: "mp_div x y p = v \<and> uint v * uint y mod uint p = uint x" if "coprime (uint y) (uint p)"
  proof -
    have "uint b = uint (1 :: u32)" using that g by (simp add: coprime_iff_gcd_eq_1)
    then have b: "b = 1" by (simp only: word_uint_eq_iff)
    have "uint x mod uint p = uint v * uint y mod uint p" using v(4) by (simp add: b mod_eq_dvd_iff)
    then show ?thesis using xy(1) by (simp add: r b tbmask_eq uint_all_ones)
  qed
  have none: "mp_div x y p = 0" if "\<not> coprime (uint y) (uint p)"
  proof -
    have "uint b \<noteq> 1" "0 < uint b" using that g P by (simp_all add: coprime_iff_gcd_eq_1)
    with v(2) have three: "3 \<le> uint b" by presburger
    then have "uint (b - 2) = uint b - 2" by (subst uint_sub_le) simp_all
    then have "tbmask (b - 2) = 0" using three v(3) P by (simp add: tbmask_eq)
    then show ?thesis by (simp add: r)
  qed
  show "uint (mp_div x y p) < uint p" using inv none v(1) P(1) by (cases "coprime (uint y) (uint p)") auto
  show "coprime (uint y) (uint p) \<Longrightarrow> uint (mp_div x y p) * uint y mod uint p = uint x" using inv by auto
  show "\<not> coprime (uint y) (uint p) \<Longrightarrow> mp_div x y p = 0" by (rule none)
qed

text \<open>C28: the division by 62 rounds of the binary GCD is finished and correct. For every odd modulus in the range the
  key generator uses, the loop has reduced its first number to zero, the result is below the modulus, it is the
  quotient whenever the divisor is invertible, and 0 when it is not.\<close>

theorem mp_div_correct:
  assumes p: "mp_modulus p" and xy: "uint x < uint p" "uint y < uint p"
  shows "fst (fold (\<lambda>i. div_step p) [0..<62] (y, p, x, 0)) = 0 \<and> uint (mp_div x y p) < uint p
    \<and> (if coprime (uint y) (uint p) then uint (mp_div x y p) * uint y mod uint p = uint x else mp_div x y p = 0)"
proof -
  obtain a b u v where e: "fold (\<lambda>i. div_step p) [0..<62] (y, p, x, 0) = (a, b, u, v)" by (rule prod_cases4)
  have "a = 0" using div_rounds_done(1) [OF p xy e] by (simp add: word_uint_eq_iff)
  then show ?thesis using mp_div_spec [OF p xy] by (simp add: e)
qed

theorem mp_div_correct_witness: "uint (mp_div 5 2 2147473409) * 2 mod 2147473409 = (5 :: int)"
  using mp_div_correct [of 2147473409 5 2] by (simp add: mp_modulus_def)

end
