(* ===== verification/Zint.thy ===== *)
theory Zint
  imports Mp31
begin

unbundle bit_operations_syntax

text \<open>
  Big integers of the key generator (\<^verbatim>\<open>backend/pkg/fndsa/kgen_zint31.go\<close>), as words of 31 bits, low to high, every
  \<open>stride\<close>-th word of a slice. A slice is a list and an update gives the new list; words outside the integer keep their
  values. Strides are at least 1, so the word \<open>i\<close> of the loops, which the source reaches by adding the stride, is the
  element \<open>i * stride\<close>. The loops that run from the low word up keep one equation, between the integer written so far,
  the carry and the words still to come; it is proved once (\<open>carry_loop\<close>) for every such loop.
\<close>

section \<open>Integers in slices\<close>

definition zval :: "nat \<Rightarrow> nat \<Rightarrow> u32 list \<Rightarrow> int" where
  "zval stride n d = (\<Sum>i<n. uint (d ! (i * stride)) * 2 ^ (31 * i))"

definition zlimbs :: "nat \<Rightarrow> nat \<Rightarrow> u32 list \<Rightarrow> bool" where
  "zlimbs stride n d \<longleftrightarrow> list_all (\<lambda>i. i * stride < length d \<and> uint (d ! (i * stride)) < 2 ^ 31) [0..<n]"

text \<open>The signed reading: two's complement, bit 30 of the last word being the sign.\<close>

definition zsval :: "nat \<Rightarrow> nat \<Rightarrow> u32 list \<Rightarrow> int" where
  "zsval stride n d = (if n = 0 then 0 else if uint (d ! ((n - 1) * stride)) < 2 ^ 30 then zval stride n d
     else zval stride n d - 2 ^ (31 * n))"

section \<open>The operations\<close>

definition zint_mul_small :: "u32 list \<Rightarrow> nat \<Rightarrow> u32 \<Rightarrow> u32 list \<times> u32" where
  "zint_mul_small m mlen x =
     fold (\<lambda>i (m, cc).
       let z = ucast (m ! i) * ucast x + ucast cc :: u64
       in (m[i := ucast z AND 0x7FFFFFFF], ucast (drop_bit 31 z)))
     [0..<mlen] (m, 0)"

definition zint_mod_small_unsigned :: "u32 list \<Rightarrow> nat \<Rightarrow> nat \<Rightarrow> u32 \<Rightarrow> u32 \<Rightarrow> u32 \<Rightarrow> u32" where
  "zint_mod_small_unsigned d dlen stride p p0i r2 =
     (if dlen = 0 then 0
      else let z = mp_half r2 p
           in fold (\<lambda>i x.
                let w = d ! (i * stride) - p;
                    w = w + (p AND tbmask w);
                    x = mp_mmul x z p p0i
                in mp_add x w p)
              (rev [0..<dlen]) 0)"

definition zint_mod_small_signed :: "u32 list \<Rightarrow> nat \<Rightarrow> nat \<Rightarrow> u32 \<Rightarrow> u32 \<Rightarrow> u32 \<Rightarrow> u32 \<Rightarrow> u32" where
  "zint_mod_small_signed d dlen stride p p0i r2 rx =
     (if dlen = 0 then 0
      else let z = zint_mod_small_unsigned d dlen stride p p0i r2
           in mp_sub z (rx AND - drop_bit 30 (d ! ((dlen - 1) * stride))) p)"

definition zint_add_mul_small :: "u32 list \<Rightarrow> nat \<Rightarrow> nat \<Rightarrow> u32 list \<Rightarrow> u32 \<Rightarrow> u32 list" where
  "zint_add_mul_small d dlen dstride a s =
     (let (d, cc) = fold (\<lambda>i (d, cc).
          let dw = d ! (i * dstride);
              aw = a ! i;
              z = ucast aw * ucast s + ucast dw + ucast cc :: u64
          in (d[i * dstride := ucast z AND 0x7FFFFFFF], ucast (drop_bit 31 z)))
        [0..<dlen] (d, 0 :: u32)
      in d[dlen * dstride := cc])"

definition zint_negate :: "u32 list \<Rightarrow> nat \<Rightarrow> u32 \<Rightarrow> u32 list" where
  "zint_negate a alen ctl =
     (let m = drop_bit 1 ctl
      in fst (fold (\<lambda>i (a, cc).
           let aw = (a ! i XOR m) + cc
           in (a[i := aw AND 0x7FFFFFFF], drop_bit 31 aw))
         [0..<alen] (a, - ctl)))"

section \<open>Loops with a carry\<close>

lemma zval_0 [simp]: "zval st 0 d = 0"
  by (simp add: zval_def)

lemma zval_Suc: "zval st (Suc n) d = zval st n d + uint (d ! (n * st)) * 2 ^ (31 * n)"
  by (simp add: zval_def)

lemma zlimbs_nth: "zlimbs st n d \<Longrightarrow> i < n \<Longrightarrow> uint (d ! (i * st)) < 2 ^ 31" "zlimbs st n d \<Longrightarrow> i < n \<Longrightarrow> i * st < length d"
  by (simp_all add: zlimbs_def list_all_iff)

lemma zlimbsI: "(\<And>i. i < n \<Longrightarrow> i * st < length d \<and> uint (d ! (i * st)) < 2 ^ 31) \<Longrightarrow> zlimbs st n d"
  by (simp add: zlimbs_def list_all_iff)

lemma zlimbs_less: "zlimbs st n d \<Longrightarrow> k \<le> n \<Longrightarrow> zlimbs st k d"
  by (simp add: zlimbs_def list_all_iff)

lemma zval_cong: "(\<And>i. i < n \<Longrightarrow> d ! (i * st) = d' ! (i * st)) \<Longrightarrow> zval st n d = zval st n d'"
  by (simp add: zval_def)

lemma zval_nonneg: "0 \<le> zval st n d"
  by (simp add: zval_def sum_nonneg)

lemma limb_power: "(2::int) ^ (31 * Suc n) = 2 ^ 31 * 2 ^ (31 * n)"
  by (simp only: mult_Suc_right power_add)

lemma zval_lt: "zlimbs st n d \<Longrightarrow> zval st n d < 2 ^ (31 * n)"
proof (induction n)
  case (Suc n)
  have "zval st (Suc n) d < (uint (d ! (n * st)) + 1) * 2 ^ (31 * n)"
    unfolding zval_Suc distrib_right using Suc.IH zlimbs_less [OF Suc.prems, of n] by linarith
  also have "\<dots> \<le> 2 ^ 31 * 2 ^ (31 * n)"
    by (intro mult_right_mono) (use zlimbs_nth(1) [OF Suc.prems, of n] in simp_all)
  also have "\<dots> = 2 ^ (31 * Suc n)" by (rule limb_power [symmetric])
  finally show ?case .
qed simp

text \<open>
  A loop from the low word up: step \<open>i\<close> reads the word there, writes \<open>lo i w cc\<close> and passes on the carry
  \<open>hi i w cc\<close>. \<open>num\<close> is the number a carry stands for and \<open>V i\<close> what the step adds at its place.
\<close>

lemma carry_loop:
  fixes lo :: "nat \<Rightarrow> u32 \<Rightarrow> 'c \<Rightarrow> u32" and hi :: "nat \<Rightarrow> u32 \<Rightarrow> 'c \<Rightarrow> 'c" and num :: "'c \<Rightarrow> int" and V :: "nat \<Rightarrow> int"
    and ok :: "nat \<Rightarrow> 'c \<Rightarrow> bool" and d :: "u32 list"
  assumes st: "0 < st" and len: "\<And>i. i < n \<Longrightarrow> i * st < length d" and ok0: "ok 0 cinit"
    and step: "\<And>i c. i < n \<Longrightarrow> ok i c \<Longrightarrow> uint (lo i (d ! (i * st)) c) < 2 ^ 31 \<and> ok (Suc i) (hi i (d ! (i * st)) c) \<and>
      uint (lo i (d ! (i * st)) c) + 2 ^ 31 * num (hi i (d ! (i * st)) c) = V i + num c"
  defines "F \<equiv> fold (\<lambda>i (d, c). (d[i * st := lo i (d ! (i * st)) c], hi i (d ! (i * st)) c)) [0..<n] (d, cinit)"
  shows "ok n (snd F)" "zlimbs st n (fst F)" "length (fst F) = length d"
    "\<And>p. (\<And>i. i < n \<Longrightarrow> p \<noteq> i * st) \<Longrightarrow> fst F ! p = d ! p"
    "zval st n (fst F) + 2 ^ (31 * n) * num (snd F) = (\<Sum>i<n. V i * 2 ^ (31 * i)) + num cinit"
proof -
  define G where "G = (\<lambda>k. fold (\<lambda>i (d, c). (d[i * st := lo i (d ! (i * st)) c], hi i (d ! (i * st)) c)) [0..<k] (d, cinit))"
  have "k \<le> n \<Longrightarrow> ok k (snd (G k)) \<and> zlimbs st k (fst (G k)) \<and> length (fst (G k)) = length d \<and>
      (\<forall>p. (\<forall>i<k. p \<noteq> i * st) \<longrightarrow> fst (G k) ! p = d ! p) \<and>
      zval st k (fst (G k)) + 2 ^ (31 * k) * num (snd (G k)) = (\<Sum>i<k. V i * 2 ^ (31 * i)) + num cinit" for k
  proof (induction k)
    case 0
    then show ?case using ok0 by (simp add: G_def zlimbs_def)
  next
    case (Suc k)
    obtain e c where e: "G k = (e, c)" by (rule prod.exhaust)
    from Suc e have IH: "ok k c" "zlimbs st k e" "length e = length d" "\<And>p. (\<forall>i<k. p \<noteq> i * st) \<Longrightarrow> e ! p = d ! p"
      "zval st k e + 2 ^ (31 * k) * num c = (\<Sum>i<k. V i * 2 ^ (31 * i)) + num cinit" by simp_all
    let ?lo = "lo k (d ! (k * st)) c" and ?hi = "hi k (d ! (k * st)) c"
    have at: "e ! (k * st) = d ! (k * st)" by (rule IH(4)) (use st in auto)
    have G: "G (Suc k) = (e[k * st := ?lo], ?hi)" using e at by (simp add: G_def)
    have lt: "k * st < length e" using len Suc.prems IH(3) by simp
    have s: "uint ?lo < 2 ^ 31" "ok (Suc k) ?hi" "uint ?lo + 2 ^ 31 * num ?hi = V k + num c"
      using step [of k c] Suc.prems IH(1) by simp_all
    have other: "e[k * st := ?lo] ! (i * st) = e ! (i * st)" if "i < k" for i using that st by simp
    have "zval st (Suc k) (e[k * st := ?lo]) = zval st k e + uint ?lo * 2 ^ (31 * k)"
      unfolding zval_Suc using lt zval_cong [of k "e[k * st := ?lo]" st e, OF other] by simp
    moreover have "uint ?lo * 2 ^ (31 * k) + 2 ^ (31 * Suc k) * num ?hi = (uint ?lo + 2 ^ 31 * num ?hi) * 2 ^ (31 * k)"
      unfolding limb_power by (simp only: distrib_right mult.assoc mult.left_commute [of "2 ^ 31"] mult.commute [of "2 ^ (31 * k)"])
    ultimately have "zval st (Suc k) (e[k * st := ?lo]) + 2 ^ (31 * Suc k) * num ?hi = (\<Sum>i<Suc k. V i * 2 ^ (31 * i)) + num cinit"
      using IH(5) unfolding s(3) by (simp add: algebra_simps)
    moreover have "zlimbs st (Suc k) (e[k * st := ?lo])"
    proof (rule zlimbsI)
      fix i assume "i < Suc k"
      then consider "i = k" | "i < k" by linarith
      then show "i * st < length (e[k * st := ?lo]) \<and> uint (e[k * st := ?lo] ! (i * st)) < 2 ^ 31"
        by cases (use lt s(1) other zlimbs_nth [OF IH(2)] in simp_all)
    qed
    moreover have "e[k * st := ?lo] ! p = d ! p" if "\<forall>i<Suc k. p \<noteq> i * st" for p
    proof -
      have "k * st \<noteq> p" "\<forall>i<k. p \<noteq> i * st" using that by (metis lessI, simp)
      then show ?thesis using IH(4) [of p] by simp
    qed
    ultimately show ?case unfolding G using s(2) IH(3) by simp
  qed
  from this [of n] show "ok n (snd F)" "zlimbs st n (fst F)" "length (fst F) = length d"
    "\<And>p. (\<And>i. i < n \<Longrightarrow> p \<noteq> i * st) \<Longrightarrow> fst F ! p = d ! p"
    "zval st n (fst F) + 2 ^ (31 * n) * num (snd F) = (\<Sum>i<n. V i * 2 ^ (31 * i)) + num cinit"
    by (simp_all add: F_def G_def)
qed

section \<open>Low word and carry of a product\<close>

lemma low31: "uint (w AND 0x7FFFFFFF) = uint w mod 2 ^ 31" for w :: u32
proof -
  have "(0x7FFFFFFF :: u32) = mask 31" by (simp add: mask_eq_exp_minus_1)
  then have "w AND 0x7FFFFFFF = take_bit 31 w" by (simp only: take_bit_eq_mask)
  then show ?thesis using unsigned_take_bit_eq [of 31 w, where 'a = int] take_bit_eq_mod [of 31 "uint w"] by metis
qed

lemma low31_wide: "uint (ucast z AND 0x7FFFFFFF :: u32) = uint z mod 2 ^ 31" for z :: u64
proof -
  have "uint (ucast z :: u32) = uint z mod 2 ^ 32" by (simp add: unsigned_ucast_eq take_bit_eq_mod)
  then show ?thesis unfolding low31 by (simp add: mod_mod_cancel)
qed

lemma high31_wide:
  fixes z :: u64
  assumes "uint z < 2 ^ 63"
  shows "uint (ucast (drop_bit 31 z) :: u32) = uint z div 2 ^ 31"
proof -
  have "uint z div 2 ^ 31 < 2 ^ 32" using assms by (simp add: div_less_iff_less_mult)
  moreover have "0 \<le> uint z div 2 ^ 31" by (intro pos_imp_zdiv_nonneg_iff [THEN iffD2]) simp_all
  ultimately show ?thesis by (simp add: unsigned_ucast_eq take_bit_eq_mod uint_drop_bit)
qed

lemma mod_div_31: "k mod 2 ^ 31 + 2 ^ 31 * (k div 2 ^ 31) = (k :: int)"
  by simp

lemma uint_wide: "uint (ucast w :: u64) = uint w" for w :: u32
  by (simp add: uint_up_ucast is_up)

lemma mult31_bound:
  fixes a b :: int
  assumes "0 \<le> a" "a < 2 ^ 31" "0 \<le> b" "b < 2 ^ 31"
  shows "0 \<le> a * b" "a * b \<le> 2 ^ 62 - 2 ^ 32 + 1"
proof -
  show "0 \<le> a * b" using assms by simp
  have "a * b \<le> (2 ^ 31 - 1) * (2 ^ 31 - 1)" by (intro mult_mono) (use assms in simp_all)
  then show "a * b \<le> 2 ^ 62 - 2 ^ 32 + 1" by simp
qed

text \<open>The value of \<^verbatim>\<open>aw*s + dw + cc\<close> in 64 bits.\<close>

lemma mul_add_wide:
  fixes a s d c :: u32
  assumes "uint a < 2 ^ 31" "uint s < 2 ^ 31" "uint d < 2 ^ 31" "uint c < 2 ^ 31"
  shows "uint (ucast a * ucast s + ucast d + ucast c :: u64) = uint a * uint s + uint d + uint c"
    "uint a * uint s + uint d + uint c < 2 ^ 62"
proof -
  note m = mult31_bound [OF uint_ge_0 assms(1) uint_ge_0 assms(2)]
  show b: "uint a * uint s + uint d + uint c < 2 ^ 62" using m(2) assms(3,4) by simp
  have p: "uint (ucast a * ucast s :: u64) = uint a * uint s"
    by (subst uint_mult_lt) (use m in \<open>simp_all add: uint_wide\<close>)
  have "uint (ucast a * ucast s + ucast d :: u64) = uint a * uint s + uint d"
    by (subst uint_add_lt) (use m assms in \<open>simp_all add: p uint_wide\<close>)
  then show "uint (ucast a * ucast s + ucast d + ucast c :: u64) = uint a * uint s + uint d + uint c"
    by (subst uint_add_lt) (use b in \<open>simp_all add: uint_wide\<close>)
qed

lemma mul_add_limb:
  fixes a s d c :: u32
  assumes "uint a < 2 ^ 31" "uint s < 2 ^ 31" "uint d < 2 ^ 31" "uint c < 2 ^ 31"
  defines "z \<equiv> ucast a * ucast s + ucast d + ucast c :: u64"
  shows "uint (ucast z AND 0x7FFFFFFF :: u32) < 2 ^ 31 \<and> uint (ucast (drop_bit 31 z) :: u32) < 2 ^ 31 \<and>
    uint (ucast z AND 0x7FFFFFFF :: u32) + 2 ^ 31 * uint (ucast (drop_bit 31 z) :: u32) = uint a * uint s + uint d + uint c"
proof -
  note v = mul_add_wide [OF assms(1-4), folded z_def]
  have h: "uint (ucast (drop_bit 31 z) :: u32) = uint z div 2 ^ 31" by (rule high31_wide) (use v in simp)
  have "uint z div 2 ^ 31 < 2 ^ 31" using v by (simp add: div_less_iff_less_mult)
  then show ?thesis unfolding h low31_wide using v(1) mod_div_31 [of "uint z"] by simp
qed

text \<open>Low word and borrow of a difference.\<close>

lemma signed_limb:
  fixes v :: u32
  assumes v: "v = word_of_int k" and k: "- (2 ^ 31) \<le> k" "k < 2 ^ 31"
  shows "uint (drop_bit 31 v) = (if k < 0 then 1 else 0)"
    "uint (v AND 0x7FFFFFFF) - 2 ^ 31 * uint (drop_bit 31 v) = k"
    "uint (v AND 0x7FFFFFFF) < 2 ^ 31"
proof -
  show "uint (v AND 0x7FFFFFFF) < 2 ^ 31" unfolding low31 by simp
  have "uint v mod 2 ^ 31 = k mod 2 ^ 31" unfolding v uint_word_of_int by (simp add: mod_mod_cancel)
  then have l: "uint (v AND 0x7FFFFFFF) = k mod 2 ^ 31" unfolding low31 .
  show b: "uint (drop_bit 31 v) = (if k < 0 then 1 else 0)"
  proof (cases "k < 0")
    case True
    have "v = word_of_int (k + 2 ^ 32)" using v by simp
    then have "uint v = k + 2 ^ 32" by (rule uint_of_int_eqI) (use True k in simp_all)
    moreover have "(k + 2 ^ 32) div 2 ^ 31 = 1" by (rule div_int_eqI) (use True k in simp_all)
    ultimately show ?thesis using True by (simp add: uint_drop_bit)
  next
    case False
    then have "uint v = k" by (intro uint_of_int_eqI [OF v]) (use k in simp_all)
    then show ?thesis using False k by (simp add: uint_drop_bit)
  qed
  have "k mod 2 ^ 31 = (if k < 0 then k + 2 ^ 31 else k)"
    using k mod_pos_pos_trivial [of "k + 2 ^ 31" "2 ^ 31"] by auto
  then show "uint (v AND 0x7FFFFFFF) - 2 ^ 31 * uint (drop_bit 31 v) = k" unfolding l b by simp
qed

lemma sub_limb:
  fixes w m c :: u32
  assumes "uint w < 2 ^ 31" "uint m < 2 ^ 31" "uint c \<le> 1"
  shows "uint ((w - m - c) AND 0x7FFFFFFF) < 2 ^ 31 \<and> uint (drop_bit 31 (w - m - c)) \<le> 1 \<and>
    uint ((w - m - c) AND 0x7FFFFFFF) - 2 ^ 31 * uint (drop_bit 31 (w - m - c)) = uint w - uint m - uint c"
proof -
  have v: "w - m - c = word_of_int (uint w - uint m - uint c)" by simp
  have "- (2 ^ 31) \<le> i - j - k \<and> i - j - k < 2 ^ 31" if "0 \<le> i" "i < 2 ^ 31" "0 \<le> j" "j < 2 ^ 31" "0 \<le> k" "k \<le> 1" for i j k :: int
    using that by simp
  from this [OF uint_ge_0 assms(1) uint_ge_0 assms(2) uint_ge_0 assms(3)]
  have k: "- (2 ^ 31) \<le> uint w - uint m - uint c" "uint w - uint m - uint c < 2 ^ 31" by blast+
  show ?thesis using signed_limb [OF v k] by simp
qed

section \<open>What the operations compute\<close>

lemma sum_scaled: "(\<Sum>i<n. f i * s * 2 ^ (31 * i)) = (\<Sum>i<n. f i * 2 ^ (31 * i)) * (s :: int)"
  unfolding sum_distrib_right by (rule sum.cong) (simp_all only: ac_simps)

lemma zint_mul_small_spec:
  assumes m: "zlimbs 1 n m" and x: "uint x < 2 ^ 31"
  shows "zlimbs 1 n (fst (zint_mul_small m n x))" "uint (snd (zint_mul_small m n x)) < 2 ^ 31"
    "length (fst (zint_mul_small m n x)) = length m"
    "\<And>i. n \<le> i \<Longrightarrow> fst (zint_mul_small m n x) ! i = m ! i"
    "zval 1 n (fst (zint_mul_small m n x)) + 2 ^ (31 * n) * uint (snd (zint_mul_small m n x)) = zval 1 n m * uint x"
proof -
  define lo where "lo = (\<lambda>(i :: nat) (w :: u32) (c :: u32). ucast (ucast w * ucast x + ucast (0 :: u32) + ucast c :: u64) AND 0x7FFFFFFF :: u32)"
  define hi where "hi = (\<lambda>(i :: nat) (w :: u32) (c :: u32). ucast (drop_bit 31 (ucast w * ucast x + ucast (0 :: u32) + ucast c :: u64)) :: u32)"
  have e: "zint_mul_small m n x = fold (\<lambda>i (d, c). (d[i * 1 := lo i (d ! (i * 1)) c], hi i (d ! (i * 1)) c)) [0..<n] (m, 0)"
    unfolding zint_mul_small_def lo_def hi_def by (simp add: Let_def)
  have step: "uint (lo i (m ! (i * 1)) c) < 2 ^ 31 \<and> uint (hi i (m ! (i * 1)) c) < 2 ^ 31 \<and>
      uint (lo i (m ! (i * 1)) c) + 2 ^ 31 * uint (hi i (m ! (i * 1)) c) = uint (m ! (i * 1)) * uint x + uint c"
    if "i < n" "uint c < 2 ^ 31" for i c
    using mul_add_limb [of "m ! (i * 1)" x 0 c] zlimbs_nth(1) [OF m that(1)] x that(2) unfolding lo_def hi_def by simp
  note L = carry_loop [where st = 1 and ok = "\<lambda>_ c. uint c < 2 ^ 31" and num = uint and lo = lo and hi = hi and cinit = "0 :: u32"
      and d = m and n = n and V = "\<lambda>i. uint (m ! (i * 1)) * uint x", OF _ zlimbs_nth(2) [OF m] _ step, folded e]
  show "zlimbs 1 n (fst (zint_mul_small m n x))" by (rule L(2)) simp_all
  show "uint (snd (zint_mul_small m n x)) < 2 ^ 31" by (rule L(1)) simp_all
  show "length (fst (zint_mul_small m n x)) = length m" by (rule L(3)) simp_all
  show "fst (zint_mul_small m n x) ! i = m ! i" if "n \<le> i" for i by (rule L(4)) (use that in simp_all)
  show "zval 1 n (fst (zint_mul_small m n x)) + 2 ^ (31 * n) * uint (snd (zint_mul_small m n x)) = zval 1 n m * uint x"
    by (subst L(5)) (simp_all add: zval_def sum_scaled)
qed

lemma zint_add_mul_small_spec:
  assumes st: "0 < st" and d: "zlimbs st n d" "n * st < length d" and a: "zlimbs 1 n a" and s: "uint s < 2 ^ 31"
  shows "zlimbs st (Suc n) (zint_add_mul_small d n st a s)"
    "zval st (Suc n) (zint_add_mul_small d n st a s) = zval st n d + zval 1 n a * uint s"
    "length (zint_add_mul_small d n st a s) = length d"
    "(\<And>i. i \<le> n \<Longrightarrow> p \<noteq> i * st) \<Longrightarrow> zint_add_mul_small d n st a s ! p = d ! p"
proof -
  define lo where "lo = (\<lambda>(i :: nat) (w :: u32) (c :: u32). ucast (ucast (a ! i) * ucast s + ucast w + ucast c :: u64) AND 0x7FFFFFFF :: u32)"
  define hi where "hi = (\<lambda>(i :: nat) (w :: u32) (c :: u32). ucast (drop_bit 31 (ucast (a ! i) * ucast s + ucast w + ucast c :: u64)) :: u32)"
  let ?F = "fold (\<lambda>i (d, c). (d[i * st := lo i (d ! (i * st)) c], hi i (d ! (i * st)) c)) [0..<n] (d, 0)"
  have e: "zint_add_mul_small d n st a s = (fst ?F)[n * st := snd ?F]"
    unfolding zint_add_mul_small_def lo_def hi_def by (simp add: Let_def split_beta)
  have step: "uint (lo i (d ! (i * st)) c) < 2 ^ 31 \<and> uint (hi i (d ! (i * st)) c) < 2 ^ 31 \<and>
      uint (lo i (d ! (i * st)) c) + 2 ^ 31 * uint (hi i (d ! (i * st)) c) = (uint (a ! i) * uint s + uint (d ! (i * st))) + uint c"
    if "i < n" "uint c < 2 ^ 31" for i c
    using mul_add_limb [of "a ! i" s "d ! (i * st)" c] zlimbs_nth(1) [OF d(1) that(1)] zlimbs_nth(1) [OF a that(1)] s that(2)
    unfolding lo_def hi_def by simp
  note L = carry_loop [where st = st and ok = "\<lambda>_ c. uint c < 2 ^ 31" and num = uint and lo = lo and hi = hi and cinit = "0 :: u32"
      and d = d and n = n and V = "\<lambda>i. uint (a ! i) * uint s + uint (d ! (i * st))", OF st zlimbs_nth(2) [OF d(1)] _ step]
  have c: "uint (snd ?F) < 2 ^ 31" by (rule L(1)) simp_all
  have len: "length (fst ?F) = length d" by (rule L(3)) simp_all
  have lim: "zlimbs st n (fst ?F)" by (rule L(2)) simp_all
  have at: "zint_add_mul_small d n st a s ! (n * st) = snd ?F" unfolding e using d(2) len by simp
  have below: "zint_add_mul_small d n st a s ! (i * st) = fst ?F ! (i * st)" if "i < n" for i
    unfolding e using that st by simp
  show l: "length (zint_add_mul_small d n st a s) = length d" unfolding e by (simp add: len)
  show "zlimbs st (Suc n) (zint_add_mul_small d n st a s)"
  proof (rule zlimbsI)
    fix i assume "i < Suc n"
    then consider "i = n" | "i < n" by linarith
    then show "i * st < length (zint_add_mul_small d n st a s) \<and> uint (zint_add_mul_small d n st a s ! (i * st)) < 2 ^ 31"
      by cases (use c d(2) zlimbs_nth [OF lim] len in \<open>simp_all only: l at below simp_thms\<close>)
  qed
  have V: "(\<Sum>i<n. (uint (a ! i) * uint s + uint (d ! (i * st))) * 2 ^ (31 * i)) = zval 1 n a * uint s + zval st n d"
    by (simp add: zval_def distrib_right sum.distrib sum_scaled)
  have "zval st (Suc n) (zint_add_mul_small d n st a s) = zval st n (fst ?F) + uint (snd ?F) * 2 ^ (31 * n)"
    unfolding zval_Suc at using zval_cong [of n _ st, OF below] by simp
  also have "\<dots> = zval st n (fst ?F) + 2 ^ (31 * n) * uint (snd ?F)" by simp
  also have "\<dots> = zval 1 n a * uint s + zval st n d + uint (0 :: u32)" unfolding V [symmetric] by (rule L(5)) simp_all
  finally show "zval st (Suc n) (zint_add_mul_small d n st a s) = zval st n d + zval 1 n a * uint s" by simp
  assume p: "\<And>i. i \<le> n \<Longrightarrow> p \<noteq> i * st"
  have "fst ?F ! p = d ! p" by (rule L(4)) (use p in simp_all)
  then show "zint_add_mul_small d n st a s ! p = d ! p" unfolding e using p [of n] by simp
qed

text \<open>Reduction runs from the high word down: each round multiplies by \<open>2 ^ 31\<close> and adds a word.\<close>

lemma mp_reduce_word:
  assumes p: "mp_modulus p" and w: "uint w < 2 ^ 31"
  shows "uint ((w - p) + (p AND tbmask (w - p))) = uint w mod uint p"
proof -
  have "w - p = word_of_int (uint w - uint p)" by simp
  moreover have "uint w - uint p < uint p" using p w by (simp add: mp_modulus_def)
  moreover have "- uint p \<le> uint w - uint p" by simp
  ultimately have "uint ((w - p) + (p AND tbmask (w - p))) = (uint w - uint p) mod uint p"
    using mp_modulusD(1) [OF p] by (intro mp_corrected)
  then show ?thesis by simp
qed

lemma mod_small_round:
  assumes m: "mp_mont p p0i" and r2: "uint r2 = 2 ^ 64 mod uint p" and w: "uint w < 2 ^ 31" and x: "uint x < uint p"
  shows "uint (mp_add (mp_mmul x (mp_half r2 p) p p0i) ((w - p) + (p AND tbmask (w - p))) p) = (uint x * 2 ^ 31 + uint w) mod uint p"
    "uint (mp_add (mp_mmul x (mp_half r2 p) p p0i) ((w - p) + (p AND tbmask (w - p))) p) < uint p"
proof -
  have p: "mp_modulus p" "0 < uint p" using m by (simp_all add: mp_mont_def mp_modulusD)
  note h = mp_half_r2 [OF m r2] and wr = mp_reduce_word [OF p(1) w]
  note y = mp_mmul_in_range [OF m x h(1)]
  have wlt: "uint ((w - p) + (p AND tbmask (w - p))) < uint p" unfolding wr using p(2) by simp
  have "uint (mp_mmul x (mp_half r2 p) p p0i) = uint x * (uint (mp_half r2 p) * mp_Ri p p0i) mod uint p"
    unfolding y(1) by (simp only: mult.assoc)
  also have "\<dots> = uint x * 2 ^ 31 mod uint p" using h(2) by (metis mod_mult_right_eq)
  finally have v: "uint (mp_mmul x (mp_half r2 p) p p0i) = uint x * 2 ^ 31 mod uint p" .
  show e: "uint (mp_add (mp_mmul x (mp_half r2 p) p p0i) ((w - p) + (p AND tbmask (w - p))) p) = (uint x * 2 ^ 31 + uint w) mod uint p"
    unfolding mp_add_uint [OF p(1) y(2) wlt] v wr by (rule mod_add_eq)
  show "uint (mp_add (mp_mmul x (mp_half r2 p) p p0i) ((w - p) + (p AND tbmask (w - p))) p) < uint p"
    unfolding e using p(2) by simp
qed

lemma mod_small_loop:
  assumes m: "mp_mont p p0i" and r2: "uint r2 = 2 ^ 64 mod uint p"
  defines "f \<equiv> \<lambda>d stride i x. mp_add (mp_mmul x (mp_half r2 p) p p0i)
    ((d ! (i * stride) - p) + (p AND tbmask (d ! (i * stride) - p))) p"
  shows "zlimbs st n d \<Longrightarrow> uint x < uint p \<Longrightarrow>
    uint (fold (f d st) (rev [0..<n]) x) = (uint x * 2 ^ (31 * n) + zval st n d) mod uint p"
proof (induction n arbitrary: x)
  case (Suc n)
  note r = mod_small_round [OF m r2 zlimbs_nth(1) [OF Suc.prems(1) lessI] Suc.prems(2), folded f_def]
  have "uint (fold (f d st) (rev [0..<Suc n]) x) = (uint (f d st n x) * 2 ^ (31 * n) + zval st n d) mod uint p"
    using Suc.IH [OF zlimbs_less [OF Suc.prems(1), of n], of "f d st n x"] r(2) unfolding f_def by simp
  also have "uint (f d st n x) = (uint x * 2 ^ 31 + uint (d ! (n * st))) mod uint p" using r(1) unfolding f_def .
  also have "((uint x * 2 ^ 31 + uint (d ! (n * st))) mod uint p * 2 ^ (31 * n) + zval st n d) mod uint p
      = ((uint x * 2 ^ 31 + uint (d ! (n * st))) * 2 ^ (31 * n) + zval st n d) mod uint p"
    by (rule mod_add_cong [OF mod_mult_left_eq refl])
  also have "(uint x * 2 ^ 31 + uint (d ! (n * st))) * 2 ^ (31 * n) + zval st n d = uint x * 2 ^ (31 * Suc n) + zval st (Suc n) d"
    unfolding zval_Suc limb_power by (simp only: distrib_right mult.assoc add.commute add.left_commute)
  finally show ?case .
qed simp

lemma zint_mod_small_unsigned_spec:
  assumes m: "mp_mont p p0i" and r2: "uint r2 = 2 ^ 64 mod uint p" and d: "zlimbs st n d"
  shows "uint (zint_mod_small_unsigned d n st p p0i r2) = zval st n d mod uint p"
proof (cases "n = 0")
  case True
  then show ?thesis by (simp add: zint_mod_small_unsigned_def)
next
  case False
  have "0 < uint p" using m by (simp add: mp_mont_def mp_modulusD)
  then show ?thesis using mod_small_loop [OF m r2 d, of 0] False
    by (simp add: zint_mod_small_unsigned_def Let_def)
qed

text \<open>The sign: bit 30 of the top word is the size of the number.\<close>

lemma zval_top:
  assumes "zlimbs st n d" "0 < n"
  shows "uint (d ! ((n - 1) * st)) < 2 ^ 30 \<longleftrightarrow> 2 * zval st n d < 2 ^ (31 * n)"
proof -
  obtain k where n: "n = Suc k" using assms(2) by (cases n) simp_all
  let ?t = "uint (d ! (k * st))" and ?B = "2 ^ (31 * k) :: int"
  have z: "0 \<le> zval st k d" "zval st k d < ?B" using zval_nonneg zval_lt [OF zlimbs_less [OF assms(1)], of k] n by simp_all
  have v: "2 * zval st n d = 2 * zval st k d + (2 * ?t) * ?B" unfolding n zval_Suc by simp
  have P: "2 ^ (31 * n) = (2 ^ 31) * ?B" unfolding n by (rule limb_power)
  show ?thesis
  proof (cases "?t < 2 ^ 30")
    case True
    then have "(2 * ?t + 2) * ?B \<le> 2 ^ 31 * ?B" by (intro mult_right_mono) simp_all
    then have "2 * zval st n d < 2 ^ (31 * n)" unfolding v P using z by (simp only: distrib_right)
    then show ?thesis using True n by simp
  next
    case False
    then have "2 ^ 31 * ?B \<le> (2 * ?t) * ?B" by (intro mult_right_mono) simp_all
    then have "\<not> 2 * zval st n d < 2 ^ (31 * n)" unfolding v P using z by linarith
    then show ?thesis using False n by simp
  qed
qed

lemma zsval_alt:
  assumes "zlimbs st n d"
  shows "zsval st n d = (if 2 * zval st n d < 2 ^ (31 * n) then zval st n d else zval st n d - 2 ^ (31 * n))"
  using zval_top [OF assms] by (cases "n = 0") (simp_all add: zsval_def)

lemma zint_mod_small_signed_spec:
  assumes m: "mp_mont p p0i" and r2: "uint r2 = 2 ^ 64 mod uint p" and rx: "uint rx = 2 ^ (31 * n) mod uint p" and d: "zlimbs st n d"
  shows "uint (zint_mod_small_signed d n st p p0i r2 rx) = zsval st n d mod uint p"
proof (cases "n = 0")
  case True
  then show ?thesis by (simp add: zint_mod_small_signed_def zsval_def)
next
  case False
  have p: "mp_modulus p" "0 < uint p" using m by (simp_all add: mp_mont_def mp_modulusD)
  let ?t = "d ! ((n - 1) * st)" and ?z = "zint_mod_small_unsigned d n st p p0i r2"
  have t: "uint ?t < 2 ^ 31" using zlimbs_nth(1) [OF d, of "n - 1"] False by simp
  have hi: "drop_bit 30 ?t = (if uint ?t < 2 ^ 30 then 0 else 1)"
  proof (rule word_uint_eqI)
    have "uint ?t div 2 ^ 30 = (if uint ?t < 2 ^ 30 then 0 else 1)"
      using t by (auto intro!: div_pos_pos_trivial div_int_eqI)
    then show "uint (drop_bit 30 ?t) = uint (if uint ?t < 2 ^ 30 then 0 else 1 :: u32)" unfolding uint_drop_bit by simp
  qed
  have z: "uint ?z = zval st n d mod uint p" by (rule zint_mod_small_unsigned_spec [OF m r2 d])
  have zlt: "uint ?z < uint p" "uint rx < uint p" unfolding z rx using p(2) by simp_all
  have "uint (zint_mod_small_signed d n st p p0i r2 rx) = (uint ?z - (if uint ?t < 2 ^ 30 then 0 else uint rx)) mod uint p"
    using False zlt p(2) mp_sub_uint [OF p(1) zlt(1), of 0] mp_sub_uint [OF p(1) zlt]
    by (simp add: zint_mod_small_signed_def Let_def hi [unfolded One_nat_def])
  also have "\<dots> = zsval st n d mod uint p"
    using False by (simp add: z rx zsval_def mod_diff_eq)
  finally show ?thesis .
qed

section \<open>Negation\<close>

lemma xor_ones31:
  fixes w :: u32
  assumes "uint w < 2 ^ 31"
  shows "uint (w XOR 0x7FFFFFFF) = 2 ^ 31 - 1 - uint w"
proof -
  have m: "(0x7FFFFFFF :: u32) = mask 31" by (simp add: mask_eq_exp_minus_1)
  have t: "take_bit 31 w = w" 
    by (rule word_uint_eqI, unfold unsigned_take_bit_eq, rule take_bit_int_eq_self) (use assms in simp_all)
  have b: "i < 31" if "bit w i" for i using that by (subst (asm) t [symmetric]) (simp add: bit_take_bit_iff)
  have "w AND (w XOR 0x7FFFFFFF) = 0" unfolding m by (rule bit_word_eqI) (use b in \<open>auto simp: bit_simps\<close>)
  then have "w + (w XOR 0x7FFFFFFF) = w OR (w XOR 0x7FFFFFFF)" by (rule disjunctive_add_eq_or)
  also have "\<dots> = 0x7FFFFFFF" unfolding m by (rule bit_word_eqI) (use b in \<open>auto simp: bit_simps\<close>)
  finally have "w XOR 0x7FFFFFFF = 0x7FFFFFFF - w" by (simp add: eq_diff_eq add.commute)
  then show ?thesis using assms by (simp add: uint_sub_le)
qed

lemma zval_ones: "(\<Sum>i<n. (2 ^ 31 - 1) * 2 ^ (31 * i)) = (2 :: int) ^ (31 * n) - 1"
proof (induction n)
  case (Suc n)
  then show ?case unfolding limb_power by simp
qed simp

lemma zint_negate_0: "zlimbs 1 n a \<Longrightarrow> n \<le> length a \<Longrightarrow> zint_negate a n 0 = a"
proof -
  assume a: "zlimbs 1 n a" "n \<le> length a"
  have "fold (\<lambda>i (a, cc). let aw = (a ! i XOR 0) + cc in (a[i := aw AND 0x7FFFFFFF], drop_bit 31 aw)) [0..<k] (a, 0) = (a, 0)"
    if "k \<le> n" for k
    using that
  proof (induction k)
    case (Suc k)
    have w: "uint (a ! k) < 2 ^ 31" using zlimbs_nth(1) [OF a(1), of k] Suc.prems by simp
    then have "a ! k AND 0x7FFFFFFF = a ! k" "drop_bit 31 (a ! k) = 0"
      by (auto intro!: word_uint_eqI simp: low31 uint_drop_bit)
    then show ?case using Suc by simp
  qed simp
  from this [OF order.refl] show ?thesis by (simp add: zint_negate_def Let_def)
qed

lemma zint_negate_spec:
  assumes a: "zlimbs 1 n a"
  shows "zlimbs 1 n (zint_negate a n (- 1))" "length (zint_negate a n (- 1)) = length a"
    "zval 1 n (zint_negate a n (- 1)) = - zval 1 n a mod 2 ^ (31 * n)"
    "\<And>i. n \<le> i \<Longrightarrow> zint_negate a n (- 1) ! i = a ! i"
proof -
  define lo where "lo = (\<lambda>(i :: nat) (w :: u32) (c :: u32). ((w XOR 0x7FFFFFFF) + c) AND 0x7FFFFFFF)"
  define hi where "hi = (\<lambda>(i :: nat) (w :: u32) (c :: u32). drop_bit 31 ((w XOR 0x7FFFFFFF) + c))"
  let ?F = "fold (\<lambda>i (d, c). (d[i * 1 := lo i (d ! (i * 1)) c], hi i (d ! (i * 1)) c)) [0..<n] (a, 1)"
  have "drop_bit 1 (- 1 :: u32) = 0x7FFFFFFF" by code_simp
  then have e: "zint_negate a n (- 1) = fst ?F"
    unfolding zint_negate_def lo_def hi_def Let_def by simp
  have step: "uint (lo i (a ! (i * 1)) c) < 2 ^ 31 \<and> uint (hi i (a ! (i * 1)) c) \<le> 1 \<and>
      uint (lo i (a ! (i * 1)) c) + 2 ^ 31 * uint (hi i (a ! (i * 1)) c) = (2 ^ 31 - 1 - uint (a ! (i * 1))) + uint c"
    if "i < n" "uint c \<le> 1" for i c
  proof -
    let ?v = "2 ^ 31 - 1 - uint (a ! (i * 1)) + uint c"
    have w: "uint (a ! (i * 1)) < 2 ^ 31" by (rule zlimbs_nth(1) [OF a that(1)])
    have b: "0 \<le> ?v" "?v \<le> 2 ^ 31" using w that(2) uint_ge_0 [of c] uint_ge_0 [of "a ! (i * 1)"] by linarith+
    have v: "uint ((a ! (i * 1) XOR 0x7FFFFFFF) + c) = ?v"
      using b(2) unfolding xor_ones31 [OF w, symmetric] by (intro uint_add_lt) simp
    have "?v div 2 ^ 31 \<le> 2 ^ 31 div 2 ^ 31" by (rule zdiv_mono1 [OF b(2)]) simp
    then show ?thesis unfolding lo_def hi_def low31 uint_drop_bit v using mod_div_31 [of ?v] by simp
  qed
  note L = carry_loop [where st = 1 and ok = "\<lambda>_ c. uint c \<le> 1" and num = uint and lo = lo and hi = hi and cinit = "1 :: u32"
      and d = a and n = n and V = "\<lambda>i. 2 ^ 31 - 1 - uint (a ! (i * 1))", OF _ zlimbs_nth(2) [OF a] _ step, folded e]
  show lim: "zlimbs 1 n (zint_negate a n (- 1))" by (rule L(2)) simp_all
  show "length (zint_negate a n (- 1)) = length a" by (rule L(3)) simp_all
  show "zint_negate a n (- 1) ! i = a ! i" if "n \<le> i" for i by (rule L(4)) (use that in simp_all)
  have "(\<Sum>i<n. (2 ^ 31 - 1 - uint (a ! (i * 1))) * 2 ^ (31 * i)) = 2 ^ (31 * n) - 1 - zval 1 n a"
    unfolding left_diff_distrib [of "2 ^ 31 - 1"] sum_subtractf zval_ones by (simp add: zval_def)
  then have "zval 1 n (zint_negate a n (- 1)) + 2 ^ (31 * n) * uint (snd ?F) = 2 ^ (31 * n) - zval 1 n a"
    by (subst L(5)) simp_all
  then have "zval 1 n (zint_negate a n (- 1)) = - zval 1 n a + 2 ^ (31 * n) * (1 - uint (snd ?F))" by (simp add: algebra_simps)
  then have "zval 1 n (zint_negate a n (- 1)) mod 2 ^ (31 * n) = - zval 1 n a mod 2 ^ (31 * n)" by (simp only: mod_mult_self2)
  then show "zval 1 n (zint_negate a n (- 1)) = - zval 1 n a mod 2 ^ (31 * n)"
    using zval_lt [OF lim] zval_nonneg by simp
qed

end
