(* ===== verification/Mp31Ntt.thy ===== *)
theory Mp31Ntt
  imports Mp31 Mp31Tables NttRing
begin

text \<open>
  Polynomials modulo a prime of 31 bits (the second half of \<^verbatim>\<open>backend/pkg/fndsa/kgen_mp31.go\<close>): the tables of roots
  that key generation computes for each prime, and the transforms that use them, the loops of \<^verbatim>\<open>Ntt\<close> over 32-bit
  elements. The tables are shown to satisfy the laws of the locale \<open>butterfly\<close> for every prime of the source's list
  and every degree, so the transforms are inverse to each other and turn pointwise products into products of
  polynomials.
\<close>

section \<open>The operations\<close>

definition mp_mkgmigm ::
  "nat \<Rightarrow> u32 list \<Rightarrow> u32 list \<Rightarrow> u32 \<Rightarrow> u32 \<Rightarrow> u32 \<Rightarrow> u32 \<Rightarrow> u32 list \<times> u32 list" where
  "mp_mkgmigm logn gm igm g ig p p0i =
     (let n = 2 ^ logn;
          (g, ig) = fold (\<lambda>j (g, ig). (mp_mmul g g p p0i, mp_mmul ig ig p p0i)) [logn..<10] (g, ig);
          k = 10 - logn;
          (gm, igm, x1, x2) = fold (\<lambda>i (gm, igm, x1, x2).
              let j = rev10 ! (i * 2 ^ k)
              in (gm[j := x1], igm[j := x2], mp_mmul x1 g p p0i, mp_mmul x2 ig p p0i))
            [0..<n] (gm, igm, mp_R p, mp_hR p)
      in (gm, igm))"

definition mp_mkgm :: "nat \<Rightarrow> u32 list \<Rightarrow> u32 \<Rightarrow> u32 \<Rightarrow> u32 \<Rightarrow> u32 list" where
  "mp_mkgm logn gm g p p0i =
     (let n = 2 ^ logn;
          g = fold (\<lambda>j g. mp_mmul g g p p0i) [logn..<10] g;
          k = 10 - logn;
          (gm, x1) = fold (\<lambda>i (gm, x1). let j = rev10 ! (i * 2 ^ k) in (gm[j := x1], mp_mmul x1 g p p0i))
            [0..<n] (gm, mp_R p)
      in gm)"

definition mp_mkigm :: "nat \<Rightarrow> u32 list \<Rightarrow> u32 \<Rightarrow> u32 \<Rightarrow> u32 \<Rightarrow> u32 list" where
  "mp_mkigm logn igm ig p p0i =
     (let n = 2 ^ logn;
          ig = fold (\<lambda>j ig. mp_mmul ig ig p p0i) [logn..<10] ig;
          k = 10 - logn;
          (igm, x2) = fold (\<lambda>i (igm, x2). let j = rev10 ! (i * 2 ^ k) in (igm[j := x2], mp_mmul x2 ig p p0i))
            [0..<n] (igm, mp_hR p)
      in igm)"

text \<open>One step of the inner loop of each transform.\<close>

definition mp_bf :: "u32 \<Rightarrow> u32 \<Rightarrow> u32 \<Rightarrow> u32 \<Rightarrow> u32 \<Rightarrow> u32 \<times> u32" where
  "mp_bf p p0i s x1 x2 = (let x2 = mp_mmul x2 s p p0i in (mp_add x1 x2 p, mp_sub x1 x2 p))"

definition mp_ibf :: "u32 \<Rightarrow> u32 \<Rightarrow> u32 \<Rightarrow> u32 \<Rightarrow> u32 \<Rightarrow> u32 \<times> u32" where
  "mp_ibf p p0i s x1 x2 = (mp_half (mp_add x1 x2 p) p, mp_mmul (mp_sub x1 x2 p) s p p0i)"

definition mp_NTT :: "nat \<Rightarrow> u32 list \<Rightarrow> u32 list \<Rightarrow> u32 \<Rightarrow> u32 \<Rightarrow> u32 list" where
  "mp_NTT logn a gm p p0i = (if logn = 0 then a else ntt_fwd (mp_bf p p0i) gm logn a)"

definition mp_iNTT :: "nat \<Rightarrow> u32 list \<Rightarrow> u32 list \<Rightarrow> u32 \<Rightarrow> u32 \<Rightarrow> u32 list" where
  "mp_iNTT logn a igm p p0i = (if logn = 0 then a else ntt_inv (mp_ibf p p0i) igm logn a)"

section \<open>Bit reversal\<close>

lemma rv_lt: "rv n i < 2 ^ n"
proof (induction n arbitrary: i)
  case (Suc n)
  have "i mod 2 * 2 ^ n \<le> 1 * 2 ^ n" by (intro mult_right_mono) simp_all
  from add_less_le_mono [OF Suc [of "i div 2"] this] show ?case by simp
qed simp

lemma rv_zero: "rv n 0 = 0"
  by (induction n) simp_all

lemma rv_high: "x < 2 ^ n \<Longrightarrow> e \<le> 1 \<Longrightarrow> rv (Suc n) (x + e * 2 ^ n) = 2 * rv n x + e"
proof (induction n arbitrary: x)
  case 0
  then show ?case by (cases e) simp_all
next
  case (Suc n)
  have d: "(x + e * 2 ^ Suc n) div 2 = x div 2 + e * 2 ^ n" "(x + e * 2 ^ Suc n) mod 2 = x mod 2"
    using mod_mult_self1 [of x "e * 2 ^ n" 2] by (simp_all add: ac_simps)
  have "rv (Suc (Suc n)) (x + e * 2 ^ Suc n) = rv (Suc n) (x div 2 + e * 2 ^ n) + x mod 2 * 2 ^ Suc n"
    by (simp only: rv.simps(2) [of "Suc n"] d)
  also have "rv (Suc n) (x div 2 + e * 2 ^ n) = 2 * rv n (x div 2) + e" using Suc by (intro Suc.IH) simp_all
  finally show ?case by simp
qed

lemma rv_low: "x < 2 ^ n \<Longrightarrow> rv (Suc n) x = 2 * rv n x"
  using rv_high [of x n 0] by simp

lemma rv_rv: "i < 2 ^ n \<Longrightarrow> rv n (rv n i) = i"
proof (induction n arbitrary: i)
  case (Suc n)
  have "rv (Suc n) (rv (Suc n) i) = 2 * rv n (rv n (i div 2)) + i mod 2"
    unfolding rv.simps(2) [of n i] by (rule rv_high) (simp_all add: rv_lt)
  then show ?case using Suc by simp
qed simp

lemma rv_shift: "rv (n + k) (i * 2 ^ k) = rv n i"
proof (induction k)
  case (Suc k)
  have "i * 2 ^ Suc k div 2 = i * 2 ^ k" by simp
  then show ?case using Suc by simp
qed simp

text \<open>The two children of a node of the tree have the two square roots.\<close>

lemma rv_child: "j < 2 ^ n \<Longrightarrow> e \<le> 1 \<Longrightarrow> 2 * rv (Suc n) (2 * j + e) = rv (Suc n) j + e * 2 ^ Suc n"
  using rv_low [of j n] by (cases e) simp_all

lemma rvlist_rv: "rvlist n = map (\<lambda>i. int (rv n i)) [0..<2 ^ n]"
proof (induction n)
  case (Suc n)
  have "[0..<2 ^ Suc n] = [0..<2 ^ n] @ map (\<lambda>x. x + 2 ^ n) [0..<2 ^ n]"
    by (simp add: mult_2 upt_add_eq_append [of 0 "2 ^ n" "2 ^ n"] map_add_upt)
  moreover have "map (\<lambda>i. int (rv (Suc n) i)) [0..<2 ^ n] = map (\<lambda>i. 2 * int (rv n i)) [0..<2 ^ n]"
    by (intro map_cong refl) (simp del: rv.simps add: rv_low)
  moreover have "map (\<lambda>i. int (rv (Suc n) (i + 2 ^ n))) [0..<2 ^ n] = map (\<lambda>i. 2 * int (rv n i) + 1) [0..<2 ^ n]"
    by (intro map_cong refl) (use rv_high [where e = 1] in \<open>simp del: rv.simps\<close>)
  ultimately show ?case by (simp add: Suc comp_def del: rv.simps)
qed simp

lemma rev10_nth:
  assumes "logn \<le> 10" "i < 2 ^ logn"
  shows "rev10 ! (i * 2 ^ (10 - logn)) = rv logn i"
proof -
  have e: "(2::nat) ^ logn * 2 ^ (10 - logn) = 1024" using assms(1) by (simp flip: power_add)
  have "i * 2 ^ (10 - logn) < 2 ^ logn * 2 ^ (10 - logn)" using assms(2) by simp
  then have "rev10 ! (i * 2 ^ (10 - logn)) = rv 10 (i * 2 ^ (10 - logn))"
    unfolding e rev10_def rev10_rvlist [symmetric] rvlist_rv by simp
  then show ?thesis using rv_shift [of logn "10 - logn" i] assms(1) by simp
qed

section \<open>The primes of the list\<close>

text \<open>The residue a word stands for in Montgomery form.\<close>

definition mp_val :: "u32 \<Rightarrow> u32 \<Rightarrow> u32 \<Rightarrow> int" where
  "mp_val p p0i s = uint s * mp_Ri p p0i mod uint p"

definition mp_prime :: "small_prime \<Rightarrow> bool" where
  "mp_prime e \<longleftrightarrow> mp_mont (sp_p e) (sp_p0i e) \<and> uint (sp_r2 e) = 2 ^ 64 mod uint (sp_p e) \<and>
     uint (sp_g e) < uint (sp_p e) \<and> uint (sp_ig e) < uint (sp_p e) \<and>
     mp_val (sp_p e) (sp_p0i e) (sp_g e) ^ 1024 mod uint (sp_p e) = (- 1) mod uint (sp_p e) \<and>
     mp_val (sp_p e) (sp_p0i e) (sp_g e) * mp_val (sp_p e) (sp_p0i e) (sp_ig e) mod uint (sp_p e) = 1"

lemma squarings_pow: "squarings n P x mod P = x ^ 2 ^ n mod P"
proof (induction n arbitrary: x)
  case (Suc n)
  have "squarings (Suc n) P x mod P = (x * x mod P) ^ 2 ^ n mod P" by (simp add: Suc)
  also have "\<dots> = (x * x) ^ 2 ^ n mod P" by (rule power_mod)
  finally show ?case by (simp add: power_mult power2_eq_square)
qed simp

lemma prime_entry_mp_prime:
  assumes "prime_entry_ok e"
  shows "mp_prime (small_prime_of e)"
proof -
  obtain p p0i r2 g ig s where e: "e = (p, p0i, r2, g, ig, s)" by (rule prod_cases6)
  let ?r = "(p * p0i + 1) div 2 ^ 32"
  have ok: "odd p" "2 ^ 32 < 3 * p" "p < 2 ^ 31" "0 \<le> p0i" "p0i < 2 ^ 32" "p * p0i mod 2 ^ 32 = 2 ^ 32 - 1"
    "r2 = 2 ^ 64 mod p" "0 \<le> g" "g < p" "0 \<le> ig" "ig < p" "squarings 10 p (g * ?r mod p) = p - 1"
    "(g * ?r mod p) * (ig * ?r mod p) mod p = 1" using assms by (simp_all add: e)
  have u: "uint (word_of_int k :: u32) = k" if "0 \<le> k" "k < p" for k
    by (rule uint_of_int_eqI [OF refl]) (use that ok(3) in simp_all)
  have up: "uint (word_of_int p :: u32) = p" by (rule uint_of_int_eqI [OF refl]) (use ok(2,3) in simp_all)
  have ui: "uint (word_of_int p0i :: u32) = p0i" by (rule uint_of_int_eqI [OF refl]) (use ok(4,5) in simp_all)
  have ur: "uint (word_of_int r2 :: u32) = r2" by (rule u) (use ok(2,7) in simp_all)
  have "(g * ?r mod p) ^ 2 ^ 10 mod p = (p - 1) mod p" using squarings_pow [of 10 p "g * ?r mod p"] ok(12) by simp
  also have "\<dots> = (- 1) mod p" by (rule minus_mod_self1)
  finally have pow: "(g * ?r mod p) ^ 1024 mod p = (- 1) mod p" by simp
  show ?thesis
    unfolding mp_prime_def small_prime_of_def e prod.case small_prime.simps mp_val_def mp_mont_def mp_modulus_def mp_Ri_def up ui ur
      u [OF ok(8,9)] u [OF ok(10,11)] by (intro conjI ok pow)
qed

lemma primes_mp_prime: "e \<in> set primes \<Longrightarrow> mp_prime e"
  using primes_entries_ok prime_entry_mp_prime by (auto simp: primes_def list_all_iff)

lemma mp_primeD:
  assumes "mp_prime e"
  shows "mp_mont (sp_p e) (sp_p0i e)" "mp_modulus (sp_p e)" "uint (sp_r2 e) = 2 ^ 64 mod uint (sp_p e)"
  using assms by (simp_all add: mp_prime_def mp_mont_def)

section \<open>Montgomery form\<close>

lemma mp_val_mmul:
  assumes "mp_mont p p0i" "uint a < uint p" "uint b < uint p"
  shows "mp_val p p0i (mp_mmul a b p p0i) = mp_val p p0i a * mp_val p p0i b mod uint p"
proof -
  have "mp_val p p0i (mp_mmul a b p p0i) = uint a * uint b * mp_Ri p p0i * mp_Ri p p0i mod uint p"
    unfolding mp_val_def mp_mmul_in_range(1) [OF assms] by (rule mod_mult_left_eq)
  also have "\<dots> = (uint a * mp_Ri p p0i) * (uint b * mp_Ri p p0i) mod uint p" by (simp add: ac_simps)
  finally show ?thesis unfolding mp_val_def by (simp add: mod_mult_eq)
qed

lemma mp_val_R:
  assumes m: "mp_mont p p0i"
  shows "uint (mp_R p) < uint p" "mp_val p p0i (mp_R p) = 1"
    "uint (mp_hR p) < uint p" "2 * mp_val p p0i (mp_hR p) mod uint p = 1"
proof -
  have p: "mp_modulus p" "0 < uint p" using m by (simp_all add: mp_mont_def mp_modulusD)
  show "uint (mp_R p) < uint p" "uint (mp_hR p) < uint p" using p by (simp_all add: mp_R_uint mp_hR_uint)
  show "mp_val p p0i (mp_R p) = 1" unfolding mp_val_def mp_R_uint [OF p(1)] mod_mult_left_eq by (rule mp_Ri_inverse(2) [OF m])
  have "2 * mp_val p p0i (mp_hR p) mod uint p = 2 * (2 ^ 31 * mp_Ri p p0i) mod uint p"
    unfolding mp_val_def mp_hR_uint [OF p(1)] mod_mult_left_eq by (rule mod_mult_right_eq)
  also have "2 * (2 ^ 31 * mp_Ri p p0i) = 2 ^ 32 * mp_Ri p p0i" by simp
  finally show "2 * mp_val p p0i (mp_hR p) mod uint p = 1" using mp_Ri_inverse(2) [OF m] by simp
qed

text \<open>The repeated squaring before the tables are filled, and the powers the filling loop runs through.\<close>

lemma mp_squared:
  assumes m: "mp_mont p p0i" and g: "uint g < uint p"
  shows "uint (fold (\<lambda>j g. mp_mmul g g p p0i) js g) < uint p \<and>
    mp_val p p0i (fold (\<lambda>j g. mp_mmul g g p p0i) js g) mod uint p = mp_val p p0i g ^ 2 ^ length js mod uint p"
  using g
proof (induction js arbitrary: g)
  case (Cons j js)
  note s = mp_mmul_in_range(2) [OF m Cons.prems Cons.prems] mp_val_mmul [OF m Cons.prems Cons.prems]
  have "(mp_val p p0i g * mp_val p p0i g mod uint p) ^ 2 ^ length js mod uint p = mp_val p p0i g ^ 2 ^ length (j # js) mod uint p"
    unfolding power_mod by (simp add: power_mult power2_eq_square)
  then show ?case using Cons.IH [OF s(1)] s(2) by simp
qed simp

definition mp_pow :: "u32 \<Rightarrow> u32 \<Rightarrow> u32 \<Rightarrow> u32 \<Rightarrow> nat \<Rightarrow> u32" where
  "mp_pow p p0i x g i = fold (\<lambda>j x. mp_mmul x g p p0i) [0..<i] x"

lemma mp_pow_val:
  assumes m: "mp_mont p p0i" and x: "uint x < uint p" and g: "uint g < uint p"
  shows "uint (mp_pow p p0i x g i) < uint p \<and>
    mp_val p p0i (mp_pow p p0i x g i) mod uint p = mp_val p p0i x * mp_val p p0i g ^ i mod uint p"
proof (induction i)
  case 0
  show ?case using x by (simp add: mp_pow_def)
next
  case (Suc i)
  let ?y = "mp_pow p p0i x g i"
  have e: "mp_pow p p0i x g (Suc i) = mp_mmul ?y g p p0i" by (simp add: mp_pow_def)
  have "mp_val p p0i ?y * mp_val p p0i g mod uint p = mp_val p p0i x * mp_val p p0i g ^ i * mp_val p p0i g mod uint p"
    using Suc by (metis mod_mult_left_eq)
  then show ?case unfolding e using mp_mmul_in_range(2) [OF m _ g, of ?y] mp_val_mmul [OF m _ g, of ?y] Suc
    by (simp add: ac_simps)
qed

lemma mp_fill:
  fixes gm :: "u32 list" and x g p p0i :: u32
  assumes "c \<le> 2 ^ logn" "2 ^ logn \<le> length gm" "logn \<le> 10"
  defines "f \<equiv> \<lambda>i (gm, x). let j = rev10 ! (i * 2 ^ (10 - logn)) in (gm[j := x], mp_mmul x g p p0i)"
  shows "snd (fold f [0..<c] (gm, x)) = mp_pow p p0i x g c \<and> length (fst (fold f [0..<c] (gm, x))) = length gm \<and>
    (\<forall>i < c. fst (fold f [0..<c] (gm, x)) ! rv logn i = mp_pow p p0i x g i)"
  using assms(1)
proof (induction c)
  case 0
  show ?case by (simp add: mp_pow_def)
next
  case (Suc c)
  obtain gm' y where e: "fold f [0..<c] (gm, x) = (gm', y)" by (rule prod.exhaust)
  from Suc e have IH: "y = mp_pow p p0i x g c" "length gm' = length gm"
    "\<And>i. i < c \<Longrightarrow> gm' ! rv logn i = mp_pow p p0i x g i" by simp_all
  have step: "fold f [0..<Suc c] (gm, x) = (gm'[rv logn c := y], mp_mmul y g p p0i)"
    using e rev10_nth [OF assms(3), of c] Suc.prems by (simp add: f_def)
  have lt: "rv logn c < length gm'" using rv_lt [of logn c] assms(2) IH(2) by simp
  have ne: "rv logn c \<noteq> rv logn i" if "i < c" for i
    using that Suc.prems rv_rv [of i logn] rv_rv [of c logn] by (metis less_le_trans less_Suc_eq_le less_irrefl less_trans Suc_le_eq)
  show ?case unfolding step using IH lt ne by (auto simp: less_Suc_eq mp_pow_def)
qed

section \<open>The tables of roots\<close>

lemma mp_mkgm_length:
  assumes "2 ^ logn \<le> length gm" "logn \<le> 10"
  shows "length (mp_mkgm logn gm g p p0i) = length gm" "length (mp_mkigm logn gm g p p0i) = length gm"
  using mp_fill [OF order.refl assms, THEN conjunct2, THEN conjunct1]
  by (simp_all add: mp_mkgm_def mp_mkigm_def split_beta del: fold_simps)

text \<open>Filling both tables at once is filling them one after the other.\<close>

lemma mp_mkgmigm_eq: "mp_mkgmigm logn gm igm g ig p p0i = (mp_mkgm logn gm g p p0i, mp_mkigm logn igm ig p p0i)"
proof -
  have sq: "fold (\<lambda>j (g, ig). (mp_mmul g g p p0i, mp_mmul ig ig p p0i)) js (g, ig)
      = (fold (\<lambda>j g. mp_mmul g g p p0i) js g, fold (\<lambda>j ig. mp_mmul ig ig p p0i) js ig)" for js g ig
    by (induction js arbitrary: g ig) simp_all
  have fill: "fold (\<lambda>i (gm, igm, x1, x2). let j = rev10 ! f i in (gm[j := x1], igm[j := x2], mp_mmul x1 g p p0i, mp_mmul x2 ig p p0i))
        js (gm, igm, x1, x2)
      = (let A = fold (\<lambda>i (gm, x1). let j = rev10 ! f i in (gm[j := x1], mp_mmul x1 g p p0i)) js (gm, x1);
             B = fold (\<lambda>i (igm, x2). let j = rev10 ! f i in (igm[j := x2], mp_mmul x2 ig p p0i)) js (igm, x2)
         in (fst A, fst B, snd A, snd B))" for js gm igm x1 x2 g ig and f :: "nat \<Rightarrow> nat"
    by (induction js arbitrary: gm igm x1 x2) (simp_all add: Let_def)
  show ?thesis unfolding mp_mkgmigm_def mp_mkgm_def mp_mkigm_def Let_def sq prod.case
    using fill [of "\<lambda>i. i * 2 ^ (10 - logn)"] by (simp add: Let_def split_beta)
qed

text \<open>The entry of a node is a power of the root for the degree, in Montgomery form.\<close>

lemma pow_mod_cong: "a mod P = b mod P \<Longrightarrow> a ^ i mod P = b ^ i mod P" for P :: int
  by (metis power_mod)

lemma mod_mult_twice: "x mod P = y mod P \<Longrightarrow> 2 * x mod P = 2 * y mod P" for P :: int
  by (metis mod_mult_right_eq)

lemma mp_mkgm_val:
  assumes m: "mp_mont p p0i" and g: "uint g < uint p" and n: "logn \<le> 10" "2 ^ logn \<le> length gm" and k: "k < 2 ^ logn"
  shows "uint (mp_mkgm logn gm g p p0i ! k) < uint p"
    "mp_val p p0i (mp_mkgm logn gm g p p0i ! k) = (mp_val p p0i g ^ 2 ^ (10 - logn)) ^ rv logn k mod uint p"
    "uint (mp_mkigm logn gm g p p0i ! k) < uint p"
    "2 * mp_val p p0i (mp_mkigm logn gm g p p0i ! k) mod uint p = (mp_val p p0i g ^ 2 ^ (10 - logn)) ^ rv logn k mod uint p"
proof -
  let ?g = "fold (\<lambda>j g. mp_mmul g g p p0i) [logn..<10] g"
  have sq: "uint ?g < uint p" "mp_val p p0i ?g mod uint p = mp_val p p0i g ^ 2 ^ (10 - logn) mod uint p"
    using mp_squared [OF m g, of "[logn..<10]"] by simp_all
  have G: "mp_val p p0i ?g ^ i mod uint p = (mp_val p p0i g ^ 2 ^ (10 - logn)) ^ i mod uint p" for i
    by (rule pow_mod_cong [OF sq(2)])
  have i: "rv logn k < 2 ^ logn" by (rule rv_lt)
  have at: "mp_mkgm logn gm g p p0i ! k = mp_pow p p0i (mp_R p) ?g (rv logn k)"
    "mp_mkigm logn gm g p p0i ! k = mp_pow p p0i (mp_hR p) ?g (rv logn k)"
    using mp_fill [OF order.refl n(2,1), THEN conjunct2, THEN conjunct2, rule_format, OF i] rv_rv [OF k]
    by (simp_all add: mp_mkgm_def mp_mkigm_def split_beta del: fold_simps)
  note R = mp_val_R [OF m]
  have vm: "mp_val p p0i s mod uint p = mp_val p p0i s" for s by (simp add: mp_val_def)
  have P: "mp_val p p0i (mp_pow p p0i (mp_R p) ?g (rv logn k)) = mp_val p p0i ?g ^ rv logn k mod uint p"
    using mp_pow_val [OF m R(1) sq(1), THEN conjunct2] by (simp add: vm R(2))
  show "uint (mp_mkgm logn gm g p p0i ! k) < uint p" "uint (mp_mkigm logn gm g p p0i ! k) < uint p"
    unfolding at using mp_pow_val [OF m R(1) sq(1)] mp_pow_val [OF m R(3) sq(1)] by blast+
  show "mp_val p p0i (mp_mkgm logn gm g p p0i ! k) = (mp_val p p0i g ^ 2 ^ (10 - logn)) ^ rv logn k mod uint p"
    unfolding at P by (rule G)
  have "2 * mp_val p p0i (mp_pow p p0i (mp_hR p) ?g (rv logn k)) mod uint p
      = 2 * (mp_val p p0i (mp_hR p) * mp_val p p0i ?g ^ rv logn k) mod uint p"
    by (rule mod_mult_twice [OF mp_pow_val [OF m R(3) sq(1), THEN conjunct2]])
  also have "\<dots> = (2 * mp_val p p0i (mp_hR p)) mod uint p * mp_val p p0i ?g ^ rv logn k mod uint p"
    unfolding mult.assoc [symmetric] by (rule mod_mult_left_eq [symmetric])
  finally show "2 * mp_val p p0i (mp_mkigm logn gm g p p0i ! k) mod uint p = (mp_val p p0i g ^ 2 ^ (10 - logn)) ^ rv logn k mod uint p"
    unfolding at R(4) using G by simp
qed

section \<open>The laws of the butterflies\<close>

lemma mp_bf_spec:
  assumes m: "mp_mont p p0i" and s: "uint s < uint p" and x: "uint x < uint p" and y: "uint y < uint p"
  shows "uint (fst (mp_bf p p0i s x y)) < uint p \<and> uint (snd (mp_bf p p0i s x y)) < uint p"
    "uint (fst (mp_bf p p0i s x y)) = (uint x + mp_val p p0i s * uint y) mod uint p"
    "uint (snd (mp_bf p p0i s x y)) = (uint x - mp_val p p0i s * uint y) mod uint p"
proof -
  have p: "mp_modulus p" "0 < uint p" using m by (simp_all add: mp_mont_def mp_modulusD)
  note w = mp_mmul_in_range [OF m y s]
  have v: "uint (mp_mmul y s p p0i) = mp_val p p0i s * uint y mod uint p"
    unfolding w(1) mp_val_def mod_mult_left_eq by (simp add: ac_simps)
  show a: "uint (fst (mp_bf p p0i s x y)) = (uint x + mp_val p p0i s * uint y) mod uint p"
    unfolding mp_bf_def Let_def fst_conv mp_add_uint [OF p(1) x w(2)] v by (rule mod_add_right_eq)
  show b: "uint (snd (mp_bf p p0i s x y)) = (uint x - mp_val p p0i s * uint y) mod uint p"
    unfolding mp_bf_def Let_def snd_conv mp_sub_uint [OF p(1) x w(2)] v by (rule mod_diff_right_eq)
  show "uint (fst (mp_bf p p0i s x y)) < uint p \<and> uint (snd (mp_bf p p0i s x y)) < uint p"
    unfolding a b using p(2) by simp
qed

lemma mp_half_mod:
  assumes p: "mp_modulus p" and a: "uint a < uint p"
  shows "uint (mp_half a p) = uint a * ((uint p + 1) div 2) mod uint p"
proof -
  have two: "2 * ((uint p + 1) div 2) = uint p + 1" using mp_modulusD(4) [OF p] by presburger
  have "uint a * (2 * ((uint p + 1) div 2)) mod uint p = uint a mod uint p"
    unfolding two by (simp add: distrib_left)
  then have "2 * uint (mp_half a p) mod uint p = 2 * (uint a * ((uint p + 1) div 2)) mod uint p"
    using mp_half_val [OF p a] by (simp only: mult.left_commute [of "uint a" 2])
  then have "uint p dvd 2 * (uint (mp_half a p) - uint a * ((uint p + 1) div 2))"
    by (simp only: mod_eq_dvd_iff right_diff_distrib)
  then have "uint (mp_half a p) mod uint p = uint a * ((uint p + 1) div 2) mod uint p"
    by (simp only: mp_odd_cancel [OF p] mod_eq_dvd_iff)
  then show ?thesis using mp_half_lt [OF p a] by simp
qed

lemma mp_ibf_spec:
  assumes m: "mp_mont p p0i" and s: "uint s < uint p" and x: "uint x < uint p" and y: "uint y < uint p"
  shows "uint (fst (mp_ibf p p0i s x y)) < uint p \<and> uint (snd (mp_ibf p p0i s x y)) < uint p"
    "uint (fst (mp_ibf p p0i s x y)) = (uint x + uint y) * ((uint p + 1) div 2) mod uint p"
    "uint (snd (mp_ibf p p0i s x y)) = (uint x - uint y) * mp_val p p0i s mod uint p"
proof -
  have p: "mp_modulus p" "0 < uint p" using m by (simp_all add: mp_mont_def mp_modulusD)
  have ad: "uint (mp_add x y p) < uint p" "uint (mp_sub x y p) < uint p"
    using p(2) by (simp_all add: mp_add_uint [OF p(1) x y] mp_sub_uint [OF p(1) x y])
  show a: "uint (fst (mp_ibf p p0i s x y)) = (uint x + uint y) * ((uint p + 1) div 2) mod uint p"
    unfolding mp_ibf_def fst_conv mp_half_mod [OF p(1) ad(1)] mp_add_uint [OF p(1) x y] by (rule mod_mult_left_eq)
  have "uint (snd (mp_ibf p p0i s x y)) = (uint x - uint y) mod uint p * (uint s * mp_Ri p p0i) mod uint p"
    unfolding mp_ibf_def snd_conv mp_mmul_in_range(1) [OF m ad(2) s] mp_sub_uint [OF p(1) x y] by (simp only: mult.assoc)
  also have "\<dots> = (uint x - uint y) * mp_val p p0i s mod uint p"
    unfolding mp_val_def mod_mult_left_eq mod_mult_right_eq by (rule refl)
  finally show b: "uint (snd (mp_ibf p p0i s x y)) = (uint x - uint y) * mp_val p p0i s mod uint p" .
  show "uint (fst (mp_ibf p p0i s x y)) < uint p \<and> uint (snd (mp_ibf p p0i s x y)) < uint p"
    unfolding a b using p(2) by simp
qed

text \<open>The laws of the tables, from those of the powers of a root of \<open>-1\<close>.\<close>

lemma root_tree:
  assumes G: "G ^ 2 ^ n mod P = (- 1) mod (P :: int)" and k: "1 \<le> k" "k < 2 ^ n"
  shows "G ^ rv n k * G ^ rv n k mod P = (if k = 1 then - 1 else if even k then G ^ rv n (k div 2) else - (G ^ rv n (k div 2))) mod P"
proof -
  obtain n' where n: "n = Suc n'" using k by (cases n) simp_all
  define e where "e = k mod 2"
  have ke: "k = 2 * (k div 2) + e" "e \<le> 1" "k div 2 < 2 ^ n'" using k n by (simp_all add: e_def)
  have r: "2 * rv n k = rv n (k div 2) + e * 2 ^ n"
    unfolding n by (subst ke(1)) (rule rv_child [OF ke(3,2)])
  have sq: "G ^ rv n k * G ^ rv n k = G ^ rv n (k div 2) * G ^ (e * 2 ^ n)"
    unfolding power_add [symmetric] by (rule arg_cong [of _ _ "(^) G"]) (use r in simp)
  show ?thesis
  proof (cases "k = 1")
    case True
    then have "rv n (k div 2) = 0" "e = 1" using rv_lt by (simp_all add: e_def rv_zero)
    then show ?thesis using sq G True by simp
  next
    case False
    show ?thesis
    proof (cases "even k")
      case True
      then show ?thesis using sq False by (simp add: e_def)
    next
      case odd: False
      then have "e = 1" by (simp add: e_def odd_iff_mod_2_eq_one)
      then have "G ^ rv n k * G ^ rv n k mod P = G ^ rv n (k div 2) * (- 1) mod P"
        unfolding sq using G by (metis mod_mult_right_eq mult_1)
      then show ?thesis using False odd by simp
    qed
  qed
qed

text \<open>Every prime of the list and every degree gives an instance of the contract of \<^verbatim>\<open>Ntt\<close>.\<close>

abbreviation mp_gm :: "small_prime \<Rightarrow> nat \<Rightarrow> u32 list \<Rightarrow> u32 list" where
  "mp_gm e logn gm \<equiv> mp_mkgm logn gm (sp_g e) (sp_p e) (sp_p0i e)"

abbreviation mp_igm :: "small_prime \<Rightarrow> nat \<Rightarrow> u32 list \<Rightarrow> u32 list" where
  "mp_igm e logn igm \<equiv> mp_mkigm logn igm (sp_ig e) (sp_p e) (sp_p0i e)"

lemma mp_table_root:
  assumes e: "mp_prime e" and n: "logn \<le> 10" "2 ^ logn \<le> length gm" and k: "1 \<le> k" "k < 2 ^ logn"
  shows "mp_val (sp_p e) (sp_p0i e) (mp_gm e logn gm ! k) * mp_val (sp_p e) (sp_p0i e) (mp_gm e logn gm ! k) mod uint (sp_p e)
    = node_const (uint (sp_p e)) (\<lambda>i. mp_val (sp_p e) (sp_p0i e) (mp_gm e logn gm ! i)) k"
proof -
  let ?P = "uint (sp_p e)" and ?v = "mp_val (sp_p e) (sp_p0i e)"
  define G where "G = ?v (sp_g e) ^ 2 ^ (10 - logn)"
  have "2 ^ (10 - logn) * 2 ^ logn = (1024 :: nat)" using n(1) by (simp flip: power_add)
  then have G: "G ^ 2 ^ logn mod ?P = (- 1) mod ?P"
    using e by (simp add: G_def mp_prime_def flip: power_mult)
  have g: "uint (sp_g e) < ?P" using e by (simp add: mp_prime_def)
  note at = mp_mkgm_val(2) [OF mp_primeD(1) [OF e] g n, folded G_def]
  have h: "k div 2 < 2 ^ logn" using k(2) by simp
  show ?thesis
    unfolding node_const_def at [OF k(2)] at [OF h] mod_mult_eq root_tree [OF G k] by (auto simp: mod_minus_eq)
qed

lemma mp_table_inverse:
  assumes e: "mp_prime e" and n: "logn \<le> 10" "2 ^ logn \<le> length gm" "2 ^ logn \<le> length igm" and k: "k < 2 ^ logn"
  shows "2 * mp_val (sp_p e) (sp_p0i e) (mp_gm e logn gm ! k) * mp_val (sp_p e) (sp_p0i e) (mp_igm e logn igm ! k)
    mod uint (sp_p e) = 1"
proof -
  let ?P = "uint (sp_p e)" and ?v = "mp_val (sp_p e) (sp_p0i e)" and ?N = "2 ^ (10 - logn) * rv logn k"
  have g: "uint (sp_g e) < ?P" "uint (sp_ig e) < ?P" "?v (sp_g e) * ?v (sp_ig e) mod ?P = 1"
    using e by (simp_all add: mp_prime_def)
  have a: "?v (mp_gm e logn gm ! k) = ?v (sp_g e) ^ ?N mod ?P"
    "2 * ?v (mp_igm e logn igm ! k) mod ?P = ?v (sp_ig e) ^ ?N mod ?P"
    using mp_mkgm_val(2) [OF mp_primeD(1) [OF e] g(1) n(1,2) k] mp_mkgm_val(4) [OF mp_primeD(1) [OF e] g(2) n(1,3) k]
    by (simp_all only: power_mult)
  have "2 * ?v (mp_gm e logn gm ! k) * ?v (mp_igm e logn igm ! k) mod ?P
      = ?v (mp_gm e logn gm ! k) * (2 * ?v (mp_igm e logn igm ! k) mod ?P) mod ?P"
    unfolding mod_mult_right_eq by (simp only: ac_simps)
  also have "\<dots> = ?v (sp_g e) ^ ?N * ?v (sp_ig e) ^ ?N mod ?P" unfolding a by (rule mod_mult_eq)
  also have "\<dots> = (?v (sp_g e) * ?v (sp_ig e) mod ?P) ^ ?N mod ?P" unfolding power_mod by (simp only: power_mult_distrib)
  also have "\<dots> = 1" unfolding g(3) using mp_modulusD(3) [OF mp_primeD(2) [OF e]] by simp
  finally show ?thesis .
qed

theorem mp_butterfly:
  assumes e: "mp_prime e" and n: "logn \<le> 10" "2 ^ logn \<le> length gm" "2 ^ logn \<le> length igm"
  shows "butterfly (uint (sp_p e)) (\<lambda>x. uint x < uint (sp_p e)) (\<lambda>x. uint x mod uint (sp_p e))
    (\<lambda>v. word_of_int (v mod uint (sp_p e))) (mp_bf (sp_p e) (sp_p0i e)) (mp_ibf (sp_p e) (sp_p0i e))
    (mp_gm e logn gm) (mp_igm e logn igm) (mp_val (sp_p e) (sp_p0i e)) (mp_val (sp_p e) (sp_p0i e))
    ((uint (sp_p e) + 1) div 2) (2 ^ logn)"
proof
  let ?P = "uint (sp_p e)"
  have m: "mp_mont (sp_p e) (sp_p0i e)" "mp_modulus (sp_p e)" by (rule mp_primeD [OF e])+
  have P: "1 < ?P" "odd ?P" "?P < 2 ^ 31" using mp_modulusD [OF m(2)] by simp_all
  have g: "uint (sp_g e) < ?P" "uint (sp_ig e) < ?P" using e by (simp_all add: mp_prime_def)
  show "1 < ?P" by (rule P)
  fix k :: nat and x y :: u32 and v :: int
  show "uint x mod ?P mod ?P = uint x mod ?P" by simp
  show "uint x < ?P \<Longrightarrow> uint y < ?P \<Longrightarrow> uint x mod ?P = uint y mod ?P \<Longrightarrow> x = y"
    by (simp add: word_uint_eq_iff)
  have vm: "0 \<le> v mod ?P" "v mod ?P < ?P" using P(1) by simp_all
  then have r: "uint (word_of_int (v mod ?P) :: u32) = v mod ?P"
    by (intro uint_of_int_eqI [OF refl]) (use P(3) in simp_all)
  show "uint (word_of_int (v mod ?P) :: u32) < ?P" unfolding r by (rule vm)
  show "uint (word_of_int (v mod ?P) :: u32) mod ?P = v mod ?P" unfolding r by simp
  have "2 * ((?P + 1) div 2) = 1 + ?P" using P(2) by presburger
  then show "2 * ((?P + 1) div 2) mod ?P = 1" using P(1) by simp
  assume k: "1 \<le> k" "k < 2 ^ logn"
  have s: "uint (mp_gm e logn gm ! k) < ?P" "uint (mp_igm e logn igm ! k) < ?P"
    by (rule mp_mkgm_val [OF m(1) g(1) n(1,2) k(2)], rule mp_mkgm_val [OF m(1) g(2) n(1,3) k(2)])
  show "2 * mp_val (sp_p e) (sp_p0i e) (mp_gm e logn gm ! k) * mp_val (sp_p e) (sp_p0i e) (mp_igm e logn igm ! k) mod ?P = 1"
    by (rule mp_table_inverse [OF e n k(2)])
  show "mp_val (sp_p e) (sp_p0i e) (mp_gm e logn gm ! k) * mp_val (sp_p e) (sp_p0i e) (mp_gm e logn gm ! k) mod ?P
      = node_const ?P (\<lambda>i. mp_val (sp_p e) (sp_p0i e) (mp_gm e logn gm ! i)) k"
    by (rule mp_table_root [OF e n(1,2) k])
  assume x: "uint x < ?P" and y: "uint y < ?P"
  have xm: "uint x mod ?P = uint x" "uint y mod ?P = uint y" using x y by simp_all
  note bf = mp_bf_spec [OF m(1) s(1) x y] and ibf = mp_ibf_spec [OF m(1) s(2) x y]
  show "uint (fst (mp_bf (sp_p e) (sp_p0i e) (mp_gm e logn gm ! k) x y)) < ?P \<and>
      uint (snd (mp_bf (sp_p e) (sp_p0i e) (mp_gm e logn gm ! k) x y)) < ?P" by (rule bf)
  show "uint (fst (mp_ibf (sp_p e) (sp_p0i e) (mp_igm e logn igm ! k) x y)) < ?P \<and>
      uint (snd (mp_ibf (sp_p e) (sp_p0i e) (mp_igm e logn igm ! k) x y)) < ?P" by (rule ibf)
  show "uint (fst (mp_bf (sp_p e) (sp_p0i e) (mp_gm e logn gm ! k) x y)) mod ?P
      = (uint x mod ?P + mp_val (sp_p e) (sp_p0i e) (mp_gm e logn gm ! k) * (uint y mod ?P)) mod ?P \<and>
      uint (snd (mp_bf (sp_p e) (sp_p0i e) (mp_gm e logn gm ! k) x y)) mod ?P
      = (uint x mod ?P - mp_val (sp_p e) (sp_p0i e) (mp_gm e logn gm ! k) * (uint y mod ?P)) mod ?P"
    unfolding xm bf(2,3) by (simp only: mod_mod_trivial)
  show "uint (fst (mp_ibf (sp_p e) (sp_p0i e) (mp_igm e logn igm ! k) x y)) mod ?P
      = (uint x mod ?P + uint y mod ?P) * ((?P + 1) div 2) mod ?P \<and>
      uint (snd (mp_ibf (sp_p e) (sp_p0i e) (mp_igm e logn igm ! k) x y)) mod ?P
      = (uint x mod ?P - uint y mod ?P) * mp_val (sp_p e) (sp_p0i e) (mp_igm e logn igm ! k) mod ?P"
    unfolding xm ibf(2,3) by (simp only: mod_mod_trivial)
qed

section \<open>The transforms\<close>

definition mp_poly :: "small_prime \<Rightarrow> nat \<Rightarrow> u32 list \<Rightarrow> bool" where
  "mp_poly e logn a \<longleftrightarrow> length a = 2 ^ logn \<and> list_all (\<lambda>x. uint x < uint (sp_p e)) a"

text \<open>The pointwise product of two transformed polynomials, as key generation forms it.\<close>

definition mp_pointwise :: "small_prime \<Rightarrow> u32 list \<Rightarrow> u32 list \<Rightarrow> u32 list" where
  "mp_pointwise e a b = map2 (\<lambda>x y. mp_mmul (mp_mmul x y (sp_p e) (sp_p0i e)) (sp_r2 e) (sp_p e) (sp_p0i e)) a b"

lemma mp_polyD: "mp_poly e logn a \<Longrightarrow> length a = 2 ^ logn" "mp_poly e logn a \<Longrightarrow> \<forall>x \<in> set a. uint x < uint (sp_p e)"
  by (simp_all add: mp_poly_def list_all_iff)

lemma mp_polyI: "length a = 2 ^ logn \<Longrightarrow> \<forall>x \<in> set a. uint x < uint (sp_p e) \<Longrightarrow> mp_poly e logn a"
  by (simp add: mp_poly_def list_all_iff)

lemma mp_poly_nth: "mp_poly e logn a \<Longrightarrow> i < 2 ^ logn \<Longrightarrow> uint (a ! i) < uint (sp_p e)"
  by (simp add: mp_poly_def list_all_length)

lemma ntt_no_layers: "ntt_fwd bf gm 0 a = a" "ntt_inv ibf igm 0 a = a"
  by (simp_all add: ntt_fwd_def ntt_inv_def)

lemma mp_NTT_eq: "mp_NTT logn a gm p p0i = ntt_fwd (mp_bf p p0i) gm logn a"
  and mp_iNTT_eq: "mp_iNTT logn a igm p p0i = ntt_inv (mp_ibf p p0i) igm logn a"
  by (cases "logn = 0"; simp add: mp_NTT_def mp_iNTT_def ntt_no_layers)+

lemma mod_mult_unit: "c mod P = 1 \<Longrightarrow> z * (c * c) mod P = z mod P" for P :: int
  by (metis mod_mult_right_eq mult.right_neutral)

lemma mp_mul_val:
  assumes e: "mp_prime e" and x: "uint x < uint (sp_p e)" and y: "uint y < uint (sp_p e)"
  shows "uint (mp_mmul (mp_mmul x y (sp_p e) (sp_p0i e)) (sp_r2 e) (sp_p e) (sp_p0i e)) = uint x * uint y mod uint (sp_p e)"
proof -
  let ?p = "uint (sp_p e)" and ?R = "mp_Ri (sp_p e) (sp_p0i e)"
  note m = mp_primeD(1) [OF e]
  have p: "0 < ?p" using mp_modulusD(2) [OF mp_primeD(2) [OF e]] .
  have r2: "uint (sp_r2 e) = 2 ^ 64 mod ?p" "uint (sp_r2 e) < ?p" using mp_primeD(3) [OF e] p by simp_all
  note xy = mp_mmul_in_range [OF m x y]
  have "uint (mp_mmul (mp_mmul x y (sp_p e) (sp_p0i e)) (sp_r2 e) (sp_p e) (sp_p0i e))
      = (uint x * uint y * ?R mod ?p) * (2 ^ 64 mod ?p) * ?R mod ?p"
    unfolding mp_mmul_in_range(1) [OF m xy(2) r2(2)] xy(1) r2(1) by (rule refl)
  also have "\<dots> = (uint x * uint y * ?R) * 2 ^ 64 * ?R mod ?p"
    by (rule mod_mult_cong [OF mod_mult_eq refl])
  also have "(uint x * uint y * ?R) * 2 ^ 64 * ?R = uint x * uint y * ((2 ^ 32 * ?R) * (2 ^ 32 * ?R))" by simp
  also have "\<dots> mod ?p = uint x * uint y mod ?p" by (rule mod_mult_unit [OF mp_Ri_inverse(2) [OF m]])
  finally show ?thesis .
qed

lemma mp_poly_pointwise:
  assumes e: "mp_prime e" and a: "mp_poly e logn a" and b: "mp_poly e logn b"
  shows "mp_poly e logn (mp_pointwise e a b)"
    and "i < 2 ^ logn \<Longrightarrow> uint (mp_pointwise e a b ! i) = uint (a ! i) * uint (b ! i) mod uint (sp_p e)"
proof -
  have p: "0 < uint (sp_p e)" using mp_modulusD(2) [OF mp_primeD(2) [OF e]] .
  show at: "uint (mp_pointwise e a b ! i) = uint (a ! i) * uint (b ! i) mod uint (sp_p e)" if "i < 2 ^ logn" for i
    using that mp_mul_val [OF e mp_poly_nth [OF a that] mp_poly_nth [OF b that]]
    by (simp add: mp_pointwise_def mp_polyD(1) [OF a] mp_polyD(1) [OF b])
  show "mp_poly e logn (mp_pointwise e a b)"
    unfolding mp_poly_def list_all_length using at p by (simp add: mp_pointwise_def mp_polyD(1) [OF a] mp_polyD(1) [OF b])
qed

abbreviation mp_fwd :: "small_prime \<Rightarrow> nat \<Rightarrow> u32 list \<Rightarrow> u32 list \<Rightarrow> u32 list" where
  "mp_fwd e logn gm a \<equiv> mp_NTT logn a (mp_gm e logn gm) (sp_p e) (sp_p0i e)"

definition first_prime :: small_prime where
  "first_prime = small_prime_of (2147473409, 2042615807, 419348484, 1790111537, 786166065, 20478)"

lemma first_prime: "first_prime \<in> set primes"
  by (simp add: first_prime_def primes_def primes_entries_def primes_entries_1_def)

lemma upt_two: "[0..<2] = [0, 1 :: nat]"
  by (simp add: upt_rec)

lemma negconv_two: "negconv 2 f g 0 = f 0 * g 0 - f 1 * g 1" "negconv 2 f g (Suc 0) = f 0 * g 1 + f 1 * g 0"
proof -
  have two: "{..<2 :: nat} = {0, 1}" by auto
  show "negconv 2 f g 0 = f 0 * g 0 - f 1 * g 1" "negconv 2 f g (Suc 0) = f 0 * g 1 + f 1 * g 0"
    by (simp_all add: negconv_def two)
qed

text \<open>C24: multiplying polynomials modulo any prime of the key generator's list, in any degree up to 1024. With the tables
  of roots the code computes for the prime, transforming two polynomials, multiplying them pointwise with the
  Montgomery factor put back, and transforming the product back gives the coefficients of the product modulo \<open>X^n + 1\<close>.\<close>

theorem mp_ring_product:
  assumes e: "e \<in> set primes" and n: "logn \<le> 10" "2 ^ logn \<le> length gm" "2 ^ logn \<le> length igm"
    and a: "mp_poly e logn a" and b: "mp_poly e logn b"
  shows "map uint (mp_iNTT logn (mp_pointwise e (mp_fwd e logn gm a) (mp_fwd e logn gm b)) (mp_igm e logn igm) (sp_p e) (sp_p0i e))
    = map (\<lambda>k. negconv (2 ^ logn) (\<lambda>i. uint (a ! i)) (\<lambda>i. uint (b ! i)) k mod uint (sp_p e)) [0..<2 ^ logn]"
proof (rule nth_equalityI)
  note M = mp_butterfly [OF primes_mp_prime [OF e] n]
  let ?c = "mp_pointwise e (mp_fwd e logn gm a) (mp_fwd e logn gm b)" and ?P = "uint (sp_p e)"
  have N: "mp_poly e logn (mp_fwd e logn gm x)" if "mp_poly e logn x" for x
    using butterfly.ntt_fwd_keeps [OF M order.refl mp_polyD [OF that]]
    by (simp add: mp_poly_def list_all_iff mp_NTT_eq)
  have c: "mp_poly e logn ?c" by (rule mp_poly_pointwise(1) [OF primes_mp_prime [OF e] N [OF a] N [OF b]])
  have inv: "mp_poly e logn (mp_iNTT logn ?c (mp_igm e logn igm) (sp_p e) (sp_p0i e))"
    using butterfly.ntt_roundtrip_inv(2,3) [OF M order.refl mp_polyD [OF c]]
    by (simp add: mp_poly_def list_all_iff mp_iNTT_eq)
  show "length (map uint (mp_iNTT logn ?c (mp_igm e logn igm) (sp_p e) (sp_p0i e)))
      = length (map (\<lambda>k. negconv (2 ^ logn) (\<lambda>i. uint (a ! i)) (\<lambda>i. uint (b ! i)) k mod ?P) [0..<2 ^ logn])"
    using mp_polyD(1) [OF inv] by simp
  fix k assume "k < length (map uint (mp_iNTT logn ?c (mp_igm e logn igm) (sp_p e) (sp_p0i e)))"
  then have k: "k < 2 ^ logn" using mp_polyD(1) [OF inv] by simp
  have prod: "uint (?c ! i) mod ?P = (uint (mp_fwd e logn gm a ! i) mod ?P) * (uint (mp_fwd e logn gm b ! i) mod ?P) mod ?P" if "i < 2 ^ logn" for i
    using mp_poly_pointwise(2) [OF primes_mp_prime [OF e] N [OF a] N [OF b] that] by (simp add: mod_mult_eq)
  have val: "negconv (2 ^ logn) (\<lambda>i. uint (a ! i) mod ?P) (\<lambda>i. uint (b ! i) mod ?P) k
      = negconv (2 ^ logn) (\<lambda>i. uint (a ! i)) (\<lambda>i. uint (b ! i)) k"
    unfolding negconv_def by (rule sum.cong) (use mp_poly_nth [OF a] mp_poly_nth [OF b] k in auto)
  have "uint (mp_iNTT logn ?c (mp_igm e logn igm) (sp_p e) (sp_p0i e) ! k) mod ?P
      = negconv (2 ^ logn) (\<lambda>i. uint (a ! i) mod ?P) (\<lambda>i. uint (b ! i) mod ?P) k mod ?P"
    unfolding mp_iNTT_eq
    by (rule butterfly.ntt_product [OF M order.refl mp_polyD [OF a] mp_polyD [OF b] mp_polyD [OF c] _ k])
      (use prod in \<open>simp add: mp_NTT_eq\<close>)
  then show "map uint (mp_iNTT logn ?c (mp_igm e logn igm) (sp_p e) (sp_p0i e)) ! k
      = map (\<lambda>k. negconv (2 ^ logn) (\<lambda>i. uint (a ! i)) (\<lambda>i. uint (b ! i)) k mod ?P) [0..<2 ^ logn] ! k"
    using mp_poly_nth [OF inv k] k mp_polyD(1) [OF inv] by (simp add: val)
qed

theorem mp_ring_product_witness:
  "map uint (mp_iNTT 1 (mp_pointwise first_prime (mp_fwd first_prime 1 [0, 0] [1, 2]) (mp_fwd first_prime 1 [0, 0] [3, 4]))
     (mp_igm first_prime 1 [0, 0]) (sp_p first_prime) (sp_p0i first_prime)) = [2147473404, 10]"
  by (subst mp_ring_product [OF first_prime])
    (simp_all add: mp_poly_def first_prime_def small_prime_of_def negconv_two upt_two)

text \<open>The two transforms undo each other, for every prime of the list and every degree, and both fill arrays of
  residues in range; and the tables filled together are those filled one by one.\<close>

theorem mp_ntt_roundtrip:
  assumes e: "e \<in> set primes" and n: "logn \<le> 10" "2 ^ logn \<le> length gm" "2 ^ logn \<le> length igm"
    and a: "mp_poly e logn a"
    and t: "mp_mkgmigm logn gm igm (sp_g e) (sp_ig e) (sp_p e) (sp_p0i e) = (gm', igm')"
  shows "mp_iNTT logn (mp_NTT logn a gm' (sp_p e) (sp_p0i e)) igm' (sp_p e) (sp_p0i e) = a
    \<and> mp_NTT logn (mp_iNTT logn a igm' (sp_p e) (sp_p0i e)) gm' (sp_p e) (sp_p0i e) = a
    \<and> mp_poly e logn (mp_NTT logn a gm' (sp_p e) (sp_p0i e)) \<and> mp_poly e logn (mp_iNTT logn a igm' (sp_p e) (sp_p0i e))"
proof -
  note M = mp_butterfly [OF primes_mp_prime [OF e] n]
  have t: "gm' = mp_gm e logn gm" "igm' = mp_igm e logn igm" using t by (simp_all add: mp_mkgmigm_eq)
  show ?thesis unfolding t mp_NTT_eq mp_iNTT_eq
    using butterfly.ntt_roundtrip [OF M order.refl mp_polyD [OF a]] butterfly.ntt_roundtrip_inv [OF M order.refl mp_polyD [OF a]]
      butterfly.ntt_fwd_keeps [OF M order.refl mp_polyD [OF a]] by (simp add: mp_poly_def list_all_iff)
qed

theorem mp_ntt_roundtrip_witness:
  "mp_iNTT 1 (mp_NTT 1 [1, 2] (mp_gm first_prime 1 [0, 0]) (sp_p first_prime) (sp_p0i first_prime))
     (mp_igm first_prime 1 [0, 0]) (sp_p first_prime) (sp_p0i first_prime) = [1, 2]"
  using mp_ntt_roundtrip [OF first_prime, of 1 "[0, 0]" "[0, 0]" "[1, 2]"] mp_mkgmigm_eq
  by (simp add: mp_poly_def first_prime_def small_prime_of_def)

end
