(* ===== verification/ZintCrt.thy ===== *)
theory ZintCrt
  imports Zint Mp31Ntt
begin

unbundle bit_operations_syntax

text \<open>
  Rebuilding big integers from their residues (the rest of the first half of
  \<^verbatim>\<open>backend/pkg/fndsa/kgen_zint31.go\<close>): the normalisation of a modular integer around zero, which compares a number with
  half the modulus word by word from the top and then subtracts under a mask, and the reconstruction of interleaved
  sets of integers by the Chinese remainder theorem, one prime of the table at a time.
\<close>

section \<open>Normalisation around zero\<close>

definition norm_compare :: "u32 list \<Rightarrow> nat \<Rightarrow> nat \<Rightarrow> u32 list \<Rightarrow> u32 \<times> u32" where
  "norm_compare x xlen xstride m =
     fold (\<lambda>i (r, bb).
       let wx = x ! (i * xstride);
           wp = drop_bit 1 (m ! i) OR push_bit 30 bb;
           bb = m ! i AND 1;
           cc = wp - wx;
           cc = drop_bit 31 (- cc) OR - drop_bit 31 cc
       in (r OR (cc AND ((r AND 1) - 1)), bb))
     (rev [0..<xlen]) (0, 0)"

definition zint_norm_zero :: "u32 list \<Rightarrow> nat \<Rightarrow> nat \<Rightarrow> u32 list \<Rightarrow> u32 list" where
  "zint_norm_zero x xlen xstride m =
     (if xlen = 0 then x
      else let (r, bb) = norm_compare x xlen xstride m;
               s = tbmask r
           in fst (fold (\<lambda>i (x, cc).
                let xw = x ! (i * xstride);
                    w = xw - m ! i - cc;
                    cc = drop_bit 31 w;
                    xw = xw XOR (((w AND 0x7FFFFFFF) XOR xw) AND s)
                in (x[i * xstride := xw], cc))
              [0..<xlen] (x, 0)))"

text \<open>The three outcomes of a comparison, as the source encodes them.\<close>

definition sg :: "int \<Rightarrow> u32" where
  "sg k = (if k < 0 then - 1 else if k = 0 then 0 else 1)"

lemma compare_words:
  fixes wp wx :: u32
  assumes "uint wp < 2 ^ 31" "uint wx < 2 ^ 31"
  shows "drop_bit 31 (- (wp - wx)) OR - drop_bit 31 (wp - wx) = sg (uint wp - uint wx)"
proof -
  have top: "drop_bit 31 (a - b) = (if uint a < uint b then 1 else 0)" if "uint a < 2 ^ 31" "uint b < 2 ^ 31" for a b :: u32
  proof (rule word_uint_eqI)
    have v: "a - b = word_of_int (uint a - uint b)" by simp
    show "uint (drop_bit 31 (a - b)) = uint (if uint a < uint b then 1 else 0 :: u32)"
    proof (cases "uint a < uint b")
      case True
      have k: "2 ^ 31 \<le> uint a - uint b + 2 ^ 32" "uint a - uint b + 2 ^ 32 < 2 ^ 32"
        using that True order_trans [OF _ uint_ge_0, of "- 1" a] by simp_all
      have "uint (a - b) = uint a - uint b + 2 ^ 32" by (rule uint_of_int_eqI) (use v k in simp_all)
      moreover have "(uint a - uint b + 2 ^ 32) div 2 ^ 31 = 1" by (rule div_int_eqI) (use k in simp_all)
      ultimately show ?thesis using True by (simp add: uint_drop_bit)
    next
      case False
      have "i - j < 2 ^ 31" if "i < 2 ^ 31" "0 \<le> j" for i j :: int using that by simp
      from this [OF that(1) uint_ge_0] False have k: "0 \<le> uint a - uint b" "uint a - uint b < 2 ^ 31" by simp_all
      have "uint (a - b) = uint a - uint b" by (rule uint_of_int_eqI) (use v k in simp_all)
      moreover have "(uint a - uint b) div 2 ^ 31 = 0" by (rule div_pos_pos_trivial) (use k in simp_all)
      ultimately show ?thesis using False by (simp add: uint_drop_bit)
    qed
  qed
  have "- (wp - wx) = wx - wp" by simp
  then show ?thesis unfolding sg_def using top [OF assms] top [OF assms(2,1)] by simp
qed

lemma or_disjoint_uint: "a AND b = 0 \<Longrightarrow> uint a + uint b < 2 ^ 32 \<Longrightarrow> uint (a OR b) = uint a + uint b" for a b :: u32
  using uint_add_lt [of a b] by (simp add: disjunctive_add_eq_or)

lemma half_word:
  assumes "uint m < 2 ^ 31" "b \<le> 1"
  shows "uint (drop_bit 1 m OR push_bit 30 (of_nat b :: u32)) = uint m div 2 + of_nat b * 2 ^ 30" (is "uint (?l OR ?h) = _")
    "uint m div 2 + of_nat b * 2 ^ 30 < 2 ^ 31"
proof -
  have l: "uint ?l = uint m div 2" by (simp add: uint_drop_bit)
  have h: "uint ?h = of_nat b * 2 ^ 30" using assms(2) by (cases b) (simp_all add: push_bit_eq_mult)
  show lt: "uint m div 2 + of_nat b * 2 ^ 30 < 2 ^ 31" using assms by (cases b) (simp_all add: div_less_iff_less_mult)
  have low: "i < 30" if "bit ?l i" for i
  proof -
    have "uint ?l < 2 ^ 30" using assms(1) unfolding l by (simp add: div_less_iff_less_mult)
    then have "take_bit 30 ?l = ?l"
      by (intro word_uint_eqI, unfold unsigned_take_bit_eq, intro take_bit_int_eq_self) simp_all
    then show ?thesis using that by (metis bit_take_bit_iff)
  qed
  have "?l AND ?h = 0"
  proof (rule bit_word_eqI)
    fix i show "bit (?l AND ?h) i = bit 0 i"
      using low [of i] by (cases "bit ?l i") (simp_all only: bit_and_iff bit_push_bit_iff bit_0_eq, simp_all)
  qed
  then show "uint (?l OR ?h) = uint m div 2 + of_nat b * 2 ^ 30" using or_disjoint_uint [of ?l ?h] lt unfolding l h by simp
qed

lemma sg_refine:
  assumes "- (2 ^ 31) < k" "k < 2 ^ 31"
  shows "sg D OR (sg k AND ((sg D AND 1) - 1)) = sg (D * 2 ^ 31 + k)"
proof -
  consider "D < 0" | "D = 0" | "0 < D" by linarith
  then show ?thesis
  proof cases
    case 1
    then have "D * 2 ^ 31 + k < 0" using assms by simp
    then show ?thesis using 1 by (simp add: sg_def)
  next
    case 3
    then have "0 < D * 2 ^ 31 + k" using assms by simp
    then show ?thesis using 3 by (simp add: sg_def)
  qed (simp add: sg_def)
qed

text \<open>From the top word down, the comparison so far is that of the high parts \<open>hM div 2\<close> and \<open>hX\<close>.\<close>

lemma norm_compare_loop:
  assumes "zlimbs 1 n m" "zlimbs st n x"
  shows "fold (\<lambda>i (r, bb).
       let wx = x ! (i * st);
           wp = drop_bit 1 (m ! i) OR push_bit 30 bb;
           bb = m ! i AND 1;
           cc = wp - wx;
           cc = drop_bit 31 (- cc) OR - drop_bit 31 cc
       in (r OR (cc AND ((r AND 1) - 1)), bb))
     (rev [0..<n]) (sg (hM div 2 - hX), of_nat (nat (hM mod 2)))
   = (sg ((hM * 2 ^ (31 * n) + zval 1 n m) div 2 - (hX * 2 ^ (31 * n) + zval st n x)),
      of_nat (nat ((hM * 2 ^ (31 * n) + zval 1 n m) mod 2)))"
  using assms
proof (induction n arbitrary: hM hX)
  case (Suc n)
  let ?m = "m ! n" and ?x = "x ! (n * st)" and ?b = "nat (hM mod 2)"
  let ?hM = "hM * 2 ^ 31 + uint ?m" and ?hX = "hX * 2 ^ 31 + uint ?x"
  have w: "uint ?m < 2 ^ 31" "uint ?x < 2 ^ 31" using zlimbs_nth(1) [OF Suc.prems(1), of n] zlimbs_nth(1) [OF Suc.prems(2), of n] by simp_all
  have b: "?b \<le> 1" "int ?b = hM mod 2" by simp_all
  note p = half_word [OF w(1) b(1)]
  have "?hM div 2 = hM div 2 * 2 ^ 31 + (uint ?m div 2 + of_nat ?b * 2 ^ 30)"
  proof -
    have "hM * 2 ^ 31 + uint ?m = 2 * (hM div 2 * 2 ^ 31 + hM mod 2 * 2 ^ 30) + uint ?m"
      by simp presburger
    then show ?thesis unfolding b(2) by simp
  qed
  moreover have "- (2 ^ 31) < i - j \<and> i - j < 2 ^ 31" if "0 \<le> i" "i < 2 ^ 31" "0 \<le> j" "j < 2 ^ 31" for i j :: int
    using that by simp
  from this [OF _ p(2) uint_ge_0 w(2)]
  have "- (2 ^ 31) < uint ?m div 2 + of_nat ?b * 2 ^ 30 - uint ?x" "uint ?m div 2 + of_nat ?b * 2 ^ 30 - uint ?x < 2 ^ 31"
    by (simp_all add: pos_imp_zdiv_nonneg_iff)
  ultimately have r: "sg (hM div 2 - hX) OR (sg (uint ?m div 2 + of_nat ?b * 2 ^ 30 - uint ?x) AND ((sg (hM div 2 - hX) AND 1) - 1))
      = sg (?hM div 2 - ?hX)"
    using sg_refine [of "uint ?m div 2 + of_nat ?b * 2 ^ 30 - uint ?x" "hM div 2 - hX"] by (simp add: left_diff_distrib algebra_simps)
  have "?m AND 1 = of_nat (nat (?hM mod 2))" by (auto simp: word_and_one mod2_eq_if)
  moreover have "hM * 2 ^ (31 * Suc n) + zval 1 (Suc n) m = ?hM * 2 ^ (31 * n) + zval 1 n m"
    "hX * 2 ^ (31 * Suc n) + zval st (Suc n) x = ?hX * 2 ^ (31 * n) + zval st n x"
    unfolding zval_Suc limb_power by (simp_all add: algebra_simps)
  ultimately show ?case
    using Suc.IH [OF zlimbs_less [OF Suc.prems(1)] zlimbs_less [OF Suc.prems(2)], of ?hM ?hX]
      compare_words [of "drop_bit 1 ?m OR push_bit 30 (of_nat ?b)" ?x] p w(2) r
    by (simp add: Let_def)
qed simp

lemma norm_keep:
  fixes x m :: "u32 list"
  shows "fst (fold (\<lambda>i (x, cc). let xw = x ! (i * st); w = xw - m ! i - cc; cc = drop_bit 31 w;
      xw = xw XOR (((w AND 0x7FFFFFFF) XOR xw) AND 0) in (x[i * st := xw], cc)) [0..<n] (x, 0)) = x"
  by (induction n) (simp_all add: Let_def split_beta)

lemma norm_subtract:
  assumes st: "0 < st" and x: "zlimbs st n x" and m: "zlimbs 1 n m"
  defines "x' \<equiv> fst (fold (\<lambda>i (x, cc). let xw = x ! (i * st); w = xw - m ! i - cc; cc = drop_bit 31 w;
      xw = xw XOR (((w AND 0x7FFFFFFF) XOR xw) AND - 1) in (x[i * st := xw], cc)) [0..<n] (x, 0))"
  shows "zlimbs st n x'" "length x' = length x" "zval st n x' = (zval st n x - zval 1 n m) mod 2 ^ (31 * n)"
    "(\<And>i. i < n \<Longrightarrow> p \<noteq> i * st) \<Longrightarrow> x' ! p = x ! p"
proof -
  define lo where "lo = (\<lambda>(i :: nat) (w :: u32) (c :: u32). (w - m ! i - c) AND 0x7FFFFFFF)"
  define hi where "hi = (\<lambda>(i :: nat) (w :: u32) (c :: u32). drop_bit 31 (w - m ! i - c))"
  let ?F = "fold (\<lambda>i (d, c). (d[i * st := lo i (d ! (i * st)) c], hi i (d ! (i * st)) c)) [0..<n] (x, 0)"
  have e: "x' = fst ?F" unfolding x'_def lo_def hi_def by (simp add: Let_def masked_swap [where c = True, simplified] xor.left_commute xor.commute)
  have step: "uint (lo i (x ! (i * st)) c) < 2 ^ 31 \<and> uint (hi i (x ! (i * st)) c) \<le> 1 \<and>
      uint (lo i (x ! (i * st)) c) + 2 ^ 31 * (- uint (hi i (x ! (i * st)) c)) = (uint (x ! (i * st)) - uint (m ! i)) + (- uint c)"
    if "i < n" "uint c \<le> 1" for i c
    using sub_limb [OF zlimbs_nth(1) [OF x that(1)] zlimbs_nth(1) [OF m that(1), unfolded mult_1_right] that(2)]
    unfolding lo_def hi_def by simp
  note L = carry_loop [where st = st and ok = "\<lambda>_ c. uint c \<le> 1" and num = "\<lambda>c. - uint c" and lo = lo and hi = hi and cinit = "0 :: u32"
      and d = x and n = n and V = "\<lambda>i. uint (x ! (i * st)) - uint (m ! i)", OF st zlimbs_nth(2) [OF x] _ step, folded e]
  show lim: "zlimbs st n x'" by (rule L(2)) simp_all
  show "length x' = length x" by (rule L(3)) simp_all
  show "x' ! p = x ! p" if "\<And>i. i < n \<Longrightarrow> p \<noteq> i * st" by (rule L(4)) (use that in simp_all)
  have "zval st n x' + 2 ^ (31 * n) * (- uint (snd ?F)) = zval st n x - zval 1 n m"
    by (subst L(5)) (simp_all add: zval_def left_diff_distrib sum_subtractf)
  then have "zval st n x' = zval st n x - zval 1 n m + 2 ^ (31 * n) * uint (snd ?F)" by simp
  then have "zval st n x' mod 2 ^ (31 * n) = (zval st n x - zval 1 n m) mod 2 ^ (31 * n)" by (simp only: mod_mult_self2)
  then show "zval st n x' = (zval st n x - zval 1 n m) mod 2 ^ (31 * n)" using zval_lt [OF lim] zval_nonneg by simp
qed

text \<open>
  Normalisation: a number of \<open>0..m-1\<close> becomes, read as signed, its residue between minus half and half the modulus.
\<close>

lemma zint_norm_zero_spec:
  assumes st: "0 < st" and x: "zlimbs st n x" and m: "zlimbs 1 n m" and odd: "odd (zval 1 n m)" and lt: "zval st n x < zval 1 n m"
  shows "zlimbs st n (zint_norm_zero x n st m)" "length (zint_norm_zero x n st m) = length x"
    "zsval st n (zint_norm_zero x n st m)
       = (if zval st n x \<le> zval 1 n m div 2 then zval st n x else zval st n x - zval 1 n m)"
    "(\<And>i. i < n \<Longrightarrow> p \<noteq> i * st) \<Longrightarrow> zint_norm_zero x n st m ! p = x ! p"
proof -
  have n0: "n \<noteq> 0" using odd by (cases n) (simp_all add: zval_def)
  let ?X = "zval st n x" and ?M = "zval 1 n m" and ?B = "2 ^ (31 * n) :: int"
  have M: "?M < ?B" "0 \<le> ?X" by (rule zval_lt [OF m], rule zval_nonneg)
  have c: "norm_compare x n st m = (sg (?M div 2 - ?X), of_nat (nat (?M mod 2)))"
    using norm_compare_loop [OF m x, of 0 0] by (simp add: norm_compare_def sg_def)
  have s: "tbmask (sg k) = (if k < 0 then - 1 else 0)" for k by (simp add: tbmask_eq sg_def uint_all_ones)
  let ?s = "if ?M div 2 < ?X then - 1 else 0 :: u32"
  have e: "zint_norm_zero x n st m = fst (fold (\<lambda>i (x, cc). let xw = x ! (i * st); w = xw - m ! i - cc; cc = drop_bit 31 w;
      xw = xw XOR (((w AND 0x7FFFFFFF) XOR xw) AND ?s) in (x[i * st := xw], cc)) [0..<n] (x, 0))"
    unfolding zint_norm_zero_def c using n0 by (simp add: s)
  have two: "zint_norm_zero x n st m = x \<and> \<not> ?M div 2 < ?X \<or> ?M div 2 < ?X \<and> zint_norm_zero x n st m
      = fst (fold (\<lambda>i (x, cc). let xw = x ! (i * st); w = xw - m ! i - cc; cc = drop_bit 31 w;
          xw = xw XOR (((w AND 0x7FFFFFFF) XOR xw) AND - 1) in (x[i * st := xw], cc)) [0..<n] (x, 0))"
  proof (cases "?M div 2 < ?X")
    case True
    then have k: "?s = - 1" by simp
    show ?thesis unfolding e k using True by blast
  next
    case False
    then have k: "?s = 0" by simp
    show ?thesis unfolding e k norm_keep using False by blast
  qed
  show lim: "zlimbs st n (zint_norm_zero x n st m)" and "length (zint_norm_zero x n st m) = length x"
    using two norm_subtract(1,2) [OF st x m] x by (elim disjE conjE; simp only:)+
  show "zint_norm_zero x n st m ! p = x ! p" if "\<And>i. i < n \<Longrightarrow> p \<noteq> i * st"
    using two norm_subtract(4) [OF st x m that] by (elim disjE conjE; simp only:)
  have v: "zval st n (zint_norm_zero x n st m) = (if ?M div 2 < ?X then ?X - ?M + ?B else ?X)"
  proof (cases "?M div 2 < ?X")
    case True
    have "(?X - ?M) mod ?B = (?X - ?M + ?B) mod ?B" by simp
    also have "\<dots> = ?X - ?M + ?B" by (rule mod_pos_pos_trivial) (use M lt in simp_all)
    finally show ?thesis using two True norm_subtract(3) [OF st x m] by (elim disjE conjE; simp only: if_True)
  next
    case False
    then show ?thesis using two by (elim disjE conjE; simp only: if_False)
  qed
  have "2 * (?M div 2) + 1 = ?M" using odd by presburger
  moreover have "(X \<le> D \<longrightarrow> 2 * X < B) \<and> (D < X \<longrightarrow> \<not> 2 * (X - M + B) < B)"
    if "2 * D + 1 = M" "M < B" for D M B X :: int using that by auto
  ultimately have "?X \<le> ?M div 2 \<longrightarrow> 2 * ?X < ?B" "?M div 2 < ?X \<longrightarrow> \<not> 2 * (?X - ?M + ?B) < ?B" using M(1) by blast+
  then show "zsval st n (zint_norm_zero x n st m) = (if ?X \<le> ?M div 2 then ?X else ?X - ?M)"
    unfolding zsval_alt [OF lim] v by auto
qed

section \<open>Reconstruction from residues\<close>

text \<open>A callee that is given the slice \<^verbatim>\<open>xx[off:]\<close> and updates it.\<close>

definition at_slice :: "nat \<Rightarrow> (u32 list \<Rightarrow> u32 list) \<Rightarrow> u32 list \<Rightarrow> u32 list" where
  "at_slice off f xs = take off xs @ f (drop off xs)"

definition crt_word :: "small_prime \<Rightarrow> nat \<Rightarrow> nat \<Rightarrow> u32 list \<Rightarrow> nat \<Rightarrow> u32 list \<Rightarrow> u32 list" where
  "crt_word e i n tmp o1 xx =
     (let p = sp_p e; p0i = sp_p0i e; r2 = sp_r2 e; s = sp_s e;
          xp = xx ! (o1 + i * n);
          xq = zint_mod_small_unsigned (drop o1 xx) i n p p0i r2;
          xr = mp_mmul s (mp_sub xp xq p) p p0i
      in at_slice o1 (\<lambda>d. zint_add_mul_small d i n tmp xr) xx)"

definition zint_rebuild_CRT ::
  "u32 list \<Rightarrow> nat \<Rightarrow> nat \<Rightarrow> nat \<Rightarrow> bool \<Rightarrow> u32 list \<Rightarrow> u32 list \<times> u32 list" where
  "zint_rebuild_CRT xx xlen n num_sets normalize_signed tmp =
     (let tmp = tmp[0 := sp_p (primes ! 0)];
          (xx, tmp) = fold (\<lambda>i (xx, tmp).
              let (xx, kk) = fold (\<lambda>k (xx, kk).
                    (fold (\<lambda>j. crt_word (primes ! i) i n tmp (kk + j)) [0..<n] xx, kk + n * xlen))
                  [0..<num_sets] (xx, 0);
                  (m, c) = zint_mul_small tmp i (sp_p (primes ! i))
              in (xx, m[i := c]))
            [1..<xlen] (xx, tmp)
      in (if normalize_signed
          then fst (fold (\<lambda>k (xx, kk).
              (fold (\<lambda>j. at_slice (kk + j) (\<lambda>d. zint_norm_zero d xlen n tmp)) [0..<n] xx, kk + n * xlen))
            [0..<num_sets] (xx, 0))
          else xx, tmp))"

text \<open>The integers are visited set by set; \<open>starts\<close> lists where they begin.\<close>

definition starts :: "nat \<Rightarrow> nat \<Rightarrow> nat \<Rightarrow> nat list" where
  "starts xlen n num_sets = concat (map (\<lambda>k. map (\<lambda>j. k * (n * xlen) + j) [0..<n]) [0..<num_sets])"

lemma visit_starts:
  "fold (\<lambda>k (xx, kk). (fold (\<lambda>j. f (kk + j)) [0..<n] xx, kk + n * xlen)) [0..<num_sets] (xx, 0)
   = (fold f (starts xlen n num_sets) xx, num_sets * (n * xlen))"
proof (induction num_sets)
  case (Suc k)
  have "fold f (map (\<lambda>j. k * (n * xlen) + j) [0..<n]) ys = fold (\<lambda>j. f (k * (n * xlen) + j)) [0..<n] ys" for ys
    by (simp add: fold_map comp_def)
  then show ?case using Suc by (simp add: starts_def)
qed (simp add: starts_def)

text \<open>Word \<open>t\<close> of the integer at \<open>o1\<close> lies at \<open>o1 + t * n\<close>; different integers have no word in common.\<close>

lemma starts_iff: "o1 \<in> set (starts xlen n num_sets) \<longleftrightarrow> (\<exists>k j. k < num_sets \<and> j < n \<and> o1 = k * (n * xlen) + j)"
proof
  assume "o1 \<in> set (starts xlen n num_sets)"
  then obtain k where "k < num_sets" "k * (n * xlen) \<le> o1" "o1 < n + k * (n * xlen)" by (auto simp: starts_def)
  then show "\<exists>k j. k < num_sets \<and> j < n \<and> o1 = k * (n * xlen) + j"
    by (intro exI [of _ k] exI [of _ "o1 - k * (n * xlen)"]) auto
next
  assume "\<exists>k j. k < num_sets \<and> j < n \<and> o1 = k * (n * xlen) + j"
  then show "o1 \<in> set (starts xlen n num_sets)" by (force simp: starts_def)
qed

lemma start_word:
  fixes j k n t xlen :: nat
  assumes "j < n" "t < xlen"
  shows "(k * (n * xlen) + j + t * n) mod n = j" "(k * (n * xlen) + j + t * n) div n = k * xlen + t"
proof -
  have e: "k * (n * xlen) + j + t * n = j + (k * xlen + t) * n"
    by (simp add: distrib_right mult.assoc mult.commute [of xlen n])
  show "(k * (n * xlen) + j + t * n) mod n = j" unfolding e using assms(1) by simp
  show "(k * (n * xlen) + j + t * n) div n = k * xlen + t" unfolding e using assms(1) by simp
qed

lemma starts_disjoint:
  assumes "o1 \<in> set (starts xlen n num_sets)" "o2 \<in> set (starts xlen n num_sets)" "t < xlen" "t' < xlen"
    "o1 + t * n = o2 + t' * n"
  shows "o1 = o2 \<and> t = t'"
proof -
  obtain k j k' j' where o: "j < n" "o1 = k * (n * xlen) + j" "j' < n" "o2 = k' * (n * xlen) + j'"
    using assms(1,2) by (auto simp: starts_iff)
  note w = start_word [OF o(1) assms(3), of k, folded o(2)] start_word [OF o(3) assms(4), of k', folded o(4)]
  have "j = j'" "k * xlen + t = k' * xlen + t'"
    using w unfolding assms(5) by simp_all
  then have "(k * xlen + t) mod xlen = (k' * xlen + t') mod xlen" "(k * xlen + t) div xlen = (k' * xlen + t') div xlen" by simp_all
  then have "t = t'" "k = k'" using assms(3,4) by simp_all
  with \<open>j = j'\<close> show ?thesis using o by simp
qed

lemma starts_distinct: "0 < xlen \<Longrightarrow> distinct (starts xlen n num_sets)"
proof (induction num_sets)
  case (Suc k)
  have "(\<lambda>j. k * (n * xlen) + j) ` {0..<n} \<inter> set (starts xlen n k) = {}"
  proof (rule equals0I)
    fix x assume "x \<in> (\<lambda>j. k * (n * xlen) + j) ` {0..<n} \<inter> set (starts xlen n k)"
    then obtain j where x: "j < n" "x = k * (n * xlen) + j" and "x \<in> set (starts xlen n k)"
      by (elim IntE imageE) simp
    then obtain k' j' where x': "k' < k" "j' < n" "x = k' * (n * xlen) + j'" unfolding starts_iff by blast
    have "k * xlen + 0 = k' * xlen + 0"
      using start_word(2) [OF x(1) Suc.prems, of k, folded x(2)] start_word(2) [OF x'(2) Suc.prems, of k', folded x'(3)] by simp
    then show False using x'(1) Suc.prems by simp
  qed
  moreover have "distinct (map (\<lambda>j. k * (n * xlen) + j) [0..<n])" by (simp add: distinct_map inj_on_def)
  ultimately show ?case using Suc by (auto simp: starts_def)
qed (simp add: starts_def)

lemma start_in_range:
  assumes "o1 \<in> set (starts xlen n num_sets)" "t < xlen"
  shows "o1 + t * n < num_sets * (n * xlen)"
proof -
  obtain k j where o: "k < num_sets" "j < n" "o1 = k * (n * xlen) + j" using assms(1) by (auto simp: starts_iff)
  have "j + t * n < n + t * n" using o by simp
  also have "n + t * n = Suc t * n" by simp
  also have "\<dots> \<le> xlen * n" using assms(2) by (intro mult_right_mono) simp_all
  finally have "o1 + t * n < k * (n * xlen) + n * xlen" using o by (simp add: mult.commute)
  also have "\<dots> = Suc k * (n * xlen)" by simp
  also have "\<dots> \<le> num_sets * (n * xlen)" using o(1) by (intro mult_right_mono) simp_all
  finally show ?thesis .
qed

text \<open>Updates at places that do not disturb each other take effect one by one.\<close>

lemma fold_frame:
  assumes step: "\<And>a xx. a \<in> S \<Longrightarrow> I xx \<Longrightarrow> A a xx \<Longrightarrow> I (f a xx) \<and> B a (f a xx)"
    and frame: "\<And>a b xx. a \<in> S \<Longrightarrow> b \<in> S \<Longrightarrow> a \<noteq> b \<Longrightarrow> I xx \<Longrightarrow> A a xx \<Longrightarrow> A b xx \<Longrightarrow> A b (f a xx)"
      "\<And>a b xx. a \<in> S \<Longrightarrow> b \<in> S \<Longrightarrow> a \<noteq> b \<Longrightarrow> I xx \<Longrightarrow> A a xx \<Longrightarrow> B b xx \<Longrightarrow> B b (f a xx)"
    and init: "I xx" "\<And>a. a \<in> S \<Longrightarrow> A a xx" and os: "distinct os" "set os \<subseteq> S"
  shows "I (fold f os xx) \<and> (\<forall>a \<in> set os. B a (fold f os xx)) \<and> (\<forall>a \<in> S - set os. A a (fold f os xx))"
  using os
proof (induction os rule: rev_induct)
  case Nil
  then show ?case using init by simp
next
  case (snoc a os)
  let ?x = "fold f os xx"
  from snoc have a: "a \<in> S" "a \<notin> set os" and IH: "I ?x" "\<And>b. b \<in> set os \<Longrightarrow> B b ?x" "\<And>b. b \<in> S \<Longrightarrow> b \<notin> set os \<Longrightarrow> A b ?x" and sub: "set os \<subseteq> S"
    by auto
  have Aa: "A a ?x" by (rule IH(3) [OF a])
  have "B b (f a ?x)" if "b \<in> set os" for b
    by (rule frame(2) [OF a(1) _ _ IH(1) Aa IH(2) [OF that]]) (use that a sub in auto)
  moreover have "A b (f a ?x)" if "b \<in> S" "b \<notin> set os" "b \<noteq> a" for b
    by (rule frame(1) [OF a(1) that(1) _ IH(1) Aa IH(3) [OF that(1,2)]]) (use that in auto)
  ultimately show ?case using step [OF a(1) IH(1) Aa] by auto
qed

subsection \<open>One word of one integer\<close>

lemma at_slice_length: "length (f (drop off xs)) = length (drop off xs) \<Longrightarrow> length (at_slice off f xs) = length xs"
  by (auto simp: at_slice_def)

lemma at_slice_drop: "off \<le> length xs \<Longrightarrow> drop off (at_slice off f xs) = f (drop off xs)"
  by (simp add: at_slice_def)

lemma at_slice_other:
  assumes "off \<le> length xs" "off \<le> p \<Longrightarrow> f (drop off xs) ! (p - off) = drop off xs ! (p - off)"
  shows "at_slice off f xs ! p = xs ! p"
  using assms by (auto simp: at_slice_def nth_append)

lemma crt_word_spec:
  assumes e: "mp_prime e" and s: "uint (sp_s e) < uint (sp_p e)" "uint (sp_s e) * Q mod uint (sp_p e) = 2 ^ 32 mod uint (sp_p e)"
    and tmp: "zlimbs 1 i tmp" "zval 1 i tmp = Q" and n: "0 < n" and len: "o1 + i * n < length xx"
    and d: "zlimbs n i (drop o1 xx)" "zval n i (drop o1 xx) < Q" "uint (xx ! (o1 + i * n)) < uint (sp_p e)"
  shows "length (crt_word e i n tmp o1 xx) = length xx"
    "zlimbs n (Suc i) (drop o1 (crt_word e i n tmp o1 xx))"
    "zval n (Suc i) (drop o1 (crt_word e i n tmp o1 xx)) < Q * uint (sp_p e)"
    "zval n (Suc i) (drop o1 (crt_word e i n tmp o1 xx)) mod uint (sp_p e) = uint (xx ! (o1 + i * n))"
    "\<exists>c. zval n (Suc i) (drop o1 (crt_word e i n tmp o1 xx)) = zval n i (drop o1 xx) + Q * c"
    "(\<And>t. t \<le> i \<Longrightarrow> a \<noteq> o1 + t * n) \<Longrightarrow> crt_word e i n tmp o1 xx ! a = xx ! a"
proof -
  let ?p = "uint (sp_p e)" and ?R = "mp_Ri (sp_p e) (sp_p0i e)"
  let ?d = "drop o1 xx" and ?xp = "xx ! (o1 + i * n)"
  let ?xq = "zint_mod_small_unsigned ?d i n (sp_p e) (sp_p0i e) (sp_r2 e)"
  let ?xr = "mp_mmul (sp_s e) (mp_sub ?xp ?xq (sp_p e)) (sp_p e) (sp_p0i e)"
  note m = mp_primeD [OF e]
  have p: "0 < ?p" "?p < 2 ^ 31" using mp_modulusD [OF m(2)] by simp_all
  have X: "0 \<le> zval n i ?d" by (rule zval_nonneg)
  have xq: "uint ?xq = zval n i ?d mod ?p" by (rule zint_mod_small_unsigned_spec [OF m(1,3) d(1)])
  have xqlt: "uint ?xq < ?p" unfolding xq using p by simp
  have sb: "uint (mp_sub ?xp ?xq (sp_p e)) = (uint ?xp - zval n i ?d) mod ?p"
    unfolding mp_sub_uint [OF m(2) d(3) xqlt] xq by (rule mod_diff_right_eq)
  have sblt: "uint (mp_sub ?xp ?xq (sp_p e)) < ?p" unfolding sb using p by simp
  note xr = mp_mmul_in_range [OF m(1) s(1) sblt]
  have Q: "0 \<le> Q" using X d(2) by linarith
  have off: "o1 \<le> length xx" "i * n < length ?d" using len by simp_all
  have w: "crt_word e i n tmp o1 xx = at_slice o1 (\<lambda>d. zint_add_mul_small d i n tmp ?xr) xx"
    by (simp add: crt_word_def Let_def)
  have "uint ?xr < 2 ^ 31" using xr(2) p(2) by simp
  note A = zint_add_mul_small_spec [OF n d(1) off(2) tmp(1) this, unfolded tmp(2)]
  have dr: "drop o1 (crt_word e i n tmp o1 xx) = zint_add_mul_small ?d i n tmp ?xr" unfolding w by (rule at_slice_drop [OF off(1)])
  have v: "zval n (Suc i) (drop o1 (crt_word e i n tmp o1 xx)) = zval n i ?d + Q * uint ?xr" unfolding dr by (rule A(2))
  show "length (crt_word e i n tmp o1 xx) = length xx" unfolding w by (rule at_slice_length) (rule A(3))
  show "zlimbs n (Suc i) (drop o1 (crt_word e i n tmp o1 xx))" unfolding dr by (rule A(1))
  show "\<exists>c. zval n (Suc i) (drop o1 (crt_word e i n tmp o1 xx)) = zval n i ?d + Q * c" using v by blast
  have "Q * uint ?xr \<le> Q * (?p - 1)" using xr(2) Q by (intro mult_left_mono) simp_all
  then show "zval n (Suc i) (drop o1 (crt_word e i n tmp o1 xx)) < Q * ?p" unfolding v right_diff_distrib using d(2) by linarith
  have "Q * uint ?xr mod ?p = Q * (uint (sp_s e) * ((uint ?xp - zval n i ?d) mod ?p) * ?R) mod ?p"
    unfolding xr(1) sb by (rule mod_mult_right_eq)
  also have "Q * (uint (sp_s e) * ((uint ?xp - zval n i ?d) mod ?p) * ?R) = (uint (sp_s e) * Q) * (((uint ?xp - zval n i ?d) mod ?p) * ?R)"
    by (simp only: ac_simps)
  also have "\<dots> mod ?p = 2 ^ 32 * (((uint ?xp - zval n i ?d) mod ?p) * ?R) mod ?p" by (rule mod_mult_cong [OF s(2) refl])
  also have "2 ^ 32 * (((uint ?xp - zval n i ?d) mod ?p) * ?R) = (2 ^ 32 * ?R) * ((uint ?xp - zval n i ?d) mod ?p)" by (simp only: ac_simps)
  also have "\<dots> mod ?p = (2 ^ 32 * ?R mod ?p) * (uint ?xp - zval n i ?d) mod ?p" unfolding mod_mult_left_eq mod_mult_right_eq by (rule refl)
  finally have "Q * uint ?xr mod ?p = (uint ?xp - zval n i ?d) mod ?p" unfolding mp_Ri_inverse(2) [OF m(1)] by simp
  then have "(zval n i ?d + Q * uint ?xr) mod ?p = (zval n i ?d + (uint ?xp - zval n i ?d)) mod ?p" by (rule mod_add_cong [OF refl])
  then show "zval n (Suc i) (drop o1 (crt_word e i n tmp o1 xx)) mod ?p = uint ?xp" unfolding v using d(3) by simp
  assume a: "\<And>t. t \<le> i \<Longrightarrow> a \<noteq> o1 + t * n"
  have "zint_add_mul_small ?d i n tmp ?xr ! (a - o1) = ?d ! (a - o1)" if "o1 \<le> a"
  proof (rule A(4))
    fix t assume "t \<le> i"
    then show "a - o1 \<noteq> t * n" using a [of t] that by linarith
  qed
  then show "crt_word e i n tmp o1 xx ! a = xx ! a" unfolding w by (rule at_slice_other [OF off(1)])
qed

subsection \<open>All integers, prime by prime\<close>

definition crt_prod :: "nat \<Rightarrow> int" where
  "crt_prod i = prod_list (map (\<lambda>e. uint (sp_p e)) (take i primes))"

text \<open>What the last constant of an entry must be: \<open>2 ^ 32\<close> over the product of the moduli before it.\<close>

definition crt_ok :: "nat \<Rightarrow> bool" where
  "crt_ok L \<longleftrightarrow> L \<le> length primes \<and> list_all (\<lambda>i. uint (sp_s (primes ! i)) < uint (sp_p (primes ! i)) \<and>
     uint (sp_s (primes ! i)) * crt_prod i mod uint (sp_p (primes ! i)) = 2 ^ 32 mod uint (sp_p (primes ! i))) [0..<L]"

lemma crt_okD:
  assumes "crt_ok L" "i < L"
  shows "mp_prime (primes ! i)" "i < length primes" "uint (sp_s (primes ! i)) < uint (sp_p (primes ! i))"
    "uint (sp_s (primes ! i)) * crt_prod i mod uint (sp_p (primes ! i)) = 2 ^ 32 mod uint (sp_p (primes ! i))"
    "crt_prod (Suc i) = crt_prod i * uint (sp_p (primes ! i))"
  using assms primes_mp_prime by (auto simp: crt_ok_def list_all_iff crt_prod_def take_Suc_conv_app_nth)

lemma crt_prod_dvd: "crt_ok L \<Longrightarrow> t < i \<Longrightarrow> i \<le> L \<Longrightarrow> uint (sp_p (primes ! t)) dvd crt_prod i"
proof (induction i)
  case (Suc i)
  then show ?case using crt_okD(5) [of L i] by (cases "t = i") (auto simp: less_Suc_eq)
qed simp

lemma crt_prod_odd: "crt_ok L \<Longrightarrow> i \<le> L \<Longrightarrow> odd (crt_prod i)"
proof (induction i)
  case (Suc i)
  then show ?case using crt_okD(1,5) [of L i] by (simp add: mp_modulusD mp_primeD)
qed (simp add: crt_prod_def)

text \<open>
  The integer at \<open>o1\<close> after \<open>i\<close> primes: its first \<open>i\<close> words hold the number with the first \<open>i\<close> residues, the others
  still hold residues.
\<close>

definition crt_at :: "nat \<Rightarrow> nat \<Rightarrow> u32 list \<Rightarrow> nat \<Rightarrow> nat \<Rightarrow> u32 list \<Rightarrow> bool" where
  "crt_at xlen n xx0 i o1 xx \<longleftrightarrow> length xx = length xx0 \<and> zlimbs n i (drop o1 xx) \<and> zval n i (drop o1 xx) < crt_prod i \<and>
     (\<forall>t<i. zval n i (drop o1 xx) mod uint (sp_p (primes ! t)) = uint (xx0 ! (o1 + t * n))) \<and>
     (\<forall>t. i \<le> t \<longrightarrow> t < xlen \<longrightarrow> xx ! (o1 + t * n) = xx0 ! (o1 + t * n))"

lemma drop_words:
  assumes "o1 \<le> length xx" "length xx' = length xx" "\<And>t. t < k \<Longrightarrow> xx' ! (o1 + t * n) = xx ! (o1 + t * n)"
  shows "zval n k (drop o1 xx') = zval n k (drop o1 xx)" "zlimbs n k (drop o1 xx') = zlimbs n k (drop o1 xx)"
  using assms by (simp_all add: zval_def zlimbs_def list_all_iff)

lemma crt_at_cong:
  assumes "crt_at xlen n xx0 i o1 xx" "i \<le> xlen" "o1 \<le> length xx" "length xx' = length xx"
    "\<And>t. t < xlen \<Longrightarrow> xx' ! (o1 + t * n) = xx ! (o1 + t * n)"
  shows "crt_at xlen n xx0 i o1 xx'"
proof -
  have e: "xx' ! (o1 + t * n) = xx ! (o1 + t * n)" if "t < i" for t using assms(2,5) that by simp
  have "zval n i (drop o1 xx') = zval n i (drop o1 xx)" "zlimbs n i (drop o1 xx') = zlimbs n i (drop o1 xx)"
    by (rule drop_words [OF assms(3,4) e], assumption)+
  then show ?thesis using assms(1,4,5) by (simp add: crt_at_def)
qed

lemma crt_round:
  assumes ok: "crt_ok xlen" and i: "i < xlen" and n: "0 < n" and len: "num_sets * (n * xlen) \<le> length xx0"
    and res: "\<And>o1 t. o1 \<in> set (starts xlen n num_sets) \<Longrightarrow> t < xlen \<Longrightarrow> uint (xx0 ! (o1 + t * n)) < uint (sp_p (primes ! t))"
    and tmp: "zlimbs 1 i tmp" "zval 1 i tmp = crt_prod i"
    and inv: "\<And>o1. o1 \<in> set (starts xlen n num_sets) \<Longrightarrow> crt_at xlen n xx0 i o1 xx"
  shows "\<forall>o1 \<in> set (starts xlen n num_sets). crt_at xlen n xx0 (Suc i) o1 (fold (crt_word (primes ! i) i n tmp) (starts xlen n num_sets) xx)"
proof -
  let ?S = "set (starts xlen n num_sets)" and ?e = "primes ! i"
  have inr: "o1 + t * n < length ys" if "o1 \<in> ?S" "t < xlen" "length ys = length xx0" for o1 t and ys :: "u32 list"
    using start_in_range [OF that(1,2)] len that(3) by simp
  have word: "length (crt_word ?e i n tmp o1 ys) = length ys \<and> crt_at xlen n xx0 (Suc i) o1 (crt_word ?e i n tmp o1 ys) \<and>
      (\<forall>a. (\<forall>t\<le>i. a \<noteq> o1 + t * n) \<longrightarrow> crt_word ?e i n tmp o1 ys ! a = ys ! a)"
    if o1: "o1 \<in> ?S" and A: "crt_at xlen n xx0 i o1 ys" for o1 ys
  proof -
    have l: "length ys = length xx0" and A': "zlimbs n i (drop o1 ys)" "zval n i (drop o1 ys) < crt_prod i"
      "\<And>t. t < i \<Longrightarrow> zval n i (drop o1 ys) mod uint (sp_p (primes ! t)) = uint (xx0 ! (o1 + t * n))"
      "\<And>t. i \<le> t \<Longrightarrow> t < xlen \<Longrightarrow> ys ! (o1 + t * n) = xx0 ! (o1 + t * n)" using A by (auto simp: crt_at_def)
    have r: "uint (ys ! (o1 + i * n)) < uint (sp_p ?e)" using res [OF o1 i] A'(4) [OF order.refl i] by simp
    note W = crt_word_spec [OF crt_okD(1,3,4) [OF ok i] tmp n inr [OF o1 i l] A'(1,2) r]
    have keep: "crt_word ?e i n tmp o1 ys ! (o1 + t * n) = ys ! (o1 + t * n)" if "Suc i \<le> t" for t
      by (rule W(6)) (use that n in auto)
    obtain c where c: "zval n (Suc i) (drop o1 (crt_word ?e i n tmp o1 ys)) = zval n i (drop o1 ys) + crt_prod i * c" using W(5) ..
    have "zval n (Suc i) (drop o1 (crt_word ?e i n tmp o1 ys)) mod uint (sp_p (primes ! t)) = uint (xx0 ! (o1 + t * n))"
      if "t < Suc i" for t
    proof (cases "t = i")
      case True
      then show ?thesis using W(4) A'(4) [OF order.refl i] by simp
    next
      case False
      then have t: "t < i" using that by simp
      obtain k where "crt_prod i = uint (sp_p (primes ! t)) * k" using crt_prod_dvd [OF ok t] i by (auto elim: dvdE)
      then show ?thesis unfolding c using A'(3) [OF t] by (simp add: mult.assoc)
    qed
    then show ?thesis using W(1,2,3,6) keep A'(4) l crt_okD(5) [OF ok i] by (auto simp: crt_at_def)
  qed
  have frame: "crt_at xlen n xx0 k b (crt_word ?e i n tmp a ys)"
    if "a \<in> ?S" "b \<in> ?S" "a \<noteq> b" "crt_at xlen n xx0 i a ys" "crt_at xlen n xx0 k b ys" "k \<le> xlen" for a b k ys
  proof (rule crt_at_cong [OF that(5,6)])
    note W = word [OF that(1,4)]
    have l: "length ys = length xx0" using that(4) by (simp add: crt_at_def)
    show "length (crt_word ?e i n tmp a ys) = length ys" using W by blast
    show "b \<le> length ys" using inr [OF that(2) i l] by simp
    fix t assume t: "t < xlen"
    have "b + t * n \<noteq> a + t' * n" if "t' \<le> i" for t'
      using starts_disjoint [of a xlen n num_sets b t' t] \<open>a \<in> ?S\<close> \<open>b \<in> ?S\<close> \<open>a \<noteq> b\<close> that i t by auto
    then show "crt_word ?e i n tmp a ys ! (b + t * n) = ys ! (b + t * n)" using W by blast
  qed
  have "distinct (starts xlen n num_sets)" by (rule starts_distinct) (use i in simp)
  then have "True \<and> (\<forall>o1 \<in> ?S. crt_at xlen n xx0 (Suc i) o1 (fold (crt_word ?e i n tmp) (starts xlen n num_sets) xx)) \<and>
      (\<forall>o1 \<in> ?S - ?S. crt_at xlen n xx0 i o1 (fold (crt_word ?e i n tmp) (starts xlen n num_sets) xx))"
    by (intro fold_frame [where S = ?S]) (use word frame inv i in \<open>simp_all\<close>)
  then show ?thesis by blast
qed

definition crt_step :: "nat \<Rightarrow> nat \<Rightarrow> nat \<Rightarrow> nat \<Rightarrow> u32 list \<times> u32 list \<Rightarrow> u32 list \<times> u32 list" where
  "crt_step xlen n num_sets i st =
     (let (xx, tmp) = st; (m, c) = zint_mul_small tmp i (sp_p (primes ! i))
      in (fold (crt_word (primes ! i) i n tmp) (starts xlen n num_sets) xx, m[i := c]))"

lemma zint_rebuild_CRT_eq:
  "zint_rebuild_CRT xx xlen n num_sets ns tmp =
     (let (xx, tmp) = fold (crt_step xlen n num_sets) [1..<xlen] (xx, tmp[0 := sp_p (primes ! 0)])
      in (if ns then fold (\<lambda>o1. at_slice o1 (\<lambda>d. zint_norm_zero d xlen n tmp)) (starts xlen n num_sets) xx else xx, tmp))"
proof -
  have s: "(\<lambda>i (xx, tmp).
      let (xx, kk) = fold (\<lambda>k (xx, kk). (fold (\<lambda>j. crt_word (primes ! i) i n tmp (kk + j)) [0..<n] xx, kk + n * xlen)) [0..<num_sets] (xx, 0);
          (m, c) = zint_mul_small tmp i (sp_p (primes ! i))
      in (xx, m[i := c])) = crt_step xlen n num_sets"
    by (intro ext) (simp add: crt_step_def visit_starts [of "crt_word _ _ _ _"] split_beta)
  show ?thesis
    unfolding zint_rebuild_CRT_def s visit_starts [of "\<lambda>o1. at_slice o1 (\<lambda>d. zint_norm_zero d xlen n _)"]
    by (cases ns) (simp_all add: Let_def split_beta)
qed

lemma crt_prod_step:
  assumes "crt_ok L" "i < L" "zlimbs 1 i tmp" "zval 1 i tmp = crt_prod i" "i < length tmp"
  shows "case zint_mul_small tmp i (sp_p (primes ! i)) of (m, c) \<Rightarrow>
    zlimbs 1 (Suc i) (m[i := c]) \<and> zval 1 (Suc i) (m[i := c]) = crt_prod (Suc i) \<and> length (m[i := c]) = length tmp"
proof -
  obtain m c where mc: "zint_mul_small tmp i (sp_p (primes ! i)) = (m, c)" by (rule prod.exhaust)
  have "uint (sp_p (primes ! i)) < 2 ^ 31" by (rule mp_modulusD(1) [OF mp_primeD(2) [OF crt_okD(1) [OF assms(1,2)]]])
  note M = zint_mul_small_spec [OF assms(3) this, unfolded mc fst_conv snd_conv assms(4)]
  have at: "m[i := c] ! (i * 1) = c" "\<And>t. t < i \<Longrightarrow> m[i := c] ! (t * 1) = m ! (t * 1)" using assms(5) M(3) by simp_all
  have "zlimbs 1 (Suc i) (m[i := c])"
  proof (rule zlimbsI)
    fix t assume "t < Suc i"
    then consider "t = i" | "t < i" by linarith
    then show "t * 1 < length (m[i := c]) \<and> uint (m[i := c] ! (t * 1)) < 2 ^ 31"
      by cases (use at M(2,3) assms(5) zlimbs_nth [OF M(1)] in \<open>simp_all only: length_list_update\<close>, simp_all)
  qed
  moreover have z: "zval 1 i (m[i := c]) = zval 1 i m" by (rule zval_cong) (rule at(2))
  have "zval 1 (Suc i) (m[i := c]) = crt_prod (Suc i)"
    unfolding zval_Suc at(1) crt_okD(5) [OF assms(1,2)] M(5) [symmetric] z by simp
  ultimately show ?thesis unfolding mc using M(3) by simp
qed

lemma crt_rounds:
  assumes ok: "crt_ok xlen" and n: "0 < n" and len: "num_sets * (n * xlen) \<le> length xx0" and tl: "xlen \<le> length tmp"
    and res: "\<And>o1 t. o1 \<in> set (starts xlen n num_sets) \<Longrightarrow> t < xlen \<Longrightarrow> uint (xx0 ! (o1 + t * n)) < uint (sp_p (primes ! t))"
    and i: "1 \<le> i" "i \<le> xlen"
  shows "case fold (crt_step xlen n num_sets) [1..<i] (xx0, tmp[0 := sp_p (primes ! 0)]) of (xx', tmp') \<Rightarrow>
    (\<forall>o1 \<in> set (starts xlen n num_sets). crt_at xlen n xx0 i o1 xx') \<and>
    zlimbs 1 i tmp' \<and> zval 1 i tmp' = crt_prod i \<and> length tmp' = length tmp"
  using i
proof (induction i rule: dec_induct)
  case base
  have 0: "0 < xlen" using i by simp
  have p: "uint (sp_p (primes ! 0)) < 2 ^ 31" by (rule mp_modulusD(1) [OF mp_primeD(2) [OF crt_okD(1) [OF ok 0]]])
  have P1: "crt_prod (Suc 0) = uint (sp_p (primes ! 0))" using crt_okD(5) [OF ok 0] by (simp add: crt_prod_def)
  have "crt_at xlen n xx0 1 o1 xx0" if o1: "o1 \<in> set (starts xlen n num_sets)" for o1
  proof -
    have l: "o1 < length xx0" using start_in_range [OF o1 0] len by simp
    have r: "uint (xx0 ! o1) < uint (sp_p (primes ! 0))" using res [OF o1 0] by simp
    have "zlimbs n 1 (drop o1 xx0)" by (rule zlimbsI) (use l r p in simp)
    then show ?thesis using l r by (simp add: crt_at_def P1 zval_def)
  qed
  moreover have t: "0 < length tmp" using tl 0 by linarith
  then have at0: "tmp[0 := sp_p (primes ! 0)] ! 0 = sp_p (primes ! 0)" by (rule nth_list_update_eq)
  with t have "zlimbs 1 1 (tmp[0 := sp_p (primes ! 0)])" by (intro zlimbsI) (use p in simp)
  ultimately show ?case using at0 by (simp add: P1 zval_def)
next
  case (step i)
  let ?F = "fold (crt_step xlen n num_sets) [1..<i] (xx0, tmp[0 := sp_p (primes ! 0)])"
  obtain xx' tmp' where F: "?F = (xx', tmp')" by (rule prod.exhaust)
  have i: "i < xlen" using step.prems by simp
  from step F have A: "\<And>o1. o1 \<in> set (starts xlen n num_sets) \<Longrightarrow> crt_at xlen n xx0 i o1 xx'"
    and T: "zlimbs 1 i tmp'" "zval 1 i tmp' = crt_prod i" "length tmp' = length tmp" by simp_all
  obtain m c where mc: "zint_mul_small tmp' i (sp_p (primes ! i)) = (m, c)" by (rule prod.exhaust)
  have "fold (crt_step xlen n num_sets) [1..<Suc i] (xx0, tmp[0 := sp_p (primes ! 0)])
      = (fold (crt_word (primes ! i) i n tmp') (starts xlen n num_sets) xx', m[i := c])"
    using F step.hyps by (simp add: crt_step_def mc)
  then show ?case
    using crt_round [OF ok i n len res T(1,2) A] crt_prod_step [OF ok i T(1,2)] T(3) tl i unfolding mc by simp
qed

text \<open>Normalising every integer in place.\<close>

lemma norm_pass:
  assumes n: "0 < n" and x0: "0 < xlen" and len: "num_sets * (n * xlen) \<le> length xx"
    and m: "zlimbs 1 xlen tmp" "odd (zval 1 xlen tmp)"
    and x: "\<And>o1. o1 \<in> set (starts xlen n num_sets) \<Longrightarrow>
      zlimbs n xlen (drop o1 xx) \<and> zval n xlen (drop o1 xx) = X o1 \<and> X o1 < zval 1 xlen tmp"
  shows "\<forall>o1 \<in> set (starts xlen n num_sets).
    let d = drop o1 (fold (\<lambda>o1. at_slice o1 (\<lambda>d. zint_norm_zero d xlen n tmp)) (starts xlen n num_sets) xx)
    in zlimbs n xlen d \<and> zsval n xlen d = (if X o1 \<le> zval 1 xlen tmp div 2 then X o1 else X o1 - zval 1 xlen tmp)"
proof -
  let ?S = "set (starts xlen n num_sets)" and ?f = "\<lambda>o1. at_slice o1 (\<lambda>d. zint_norm_zero d xlen n tmp)"
  let ?A = "\<lambda>o1 ys. zlimbs n xlen (drop o1 ys) \<and> zval n xlen (drop o1 ys) = X o1 \<and> X o1 < zval 1 xlen tmp"
  let ?B = "\<lambda>o1 ys. zlimbs n xlen (drop o1 ys) \<and>
    zsval n xlen (drop o1 ys) = (if X o1 \<le> zval 1 xlen tmp div 2 then X o1 else X o1 - zval 1 xlen tmp)"
  have inr: "o1 \<le> length ys" if "o1 \<in> ?S" "length ys = length xx" for o1 and ys :: "u32 list"
    using start_in_range [OF that(1) x0] len that(2) by simp
  have step: "length (?f a ys) = length ys \<and> ?B a (?f a ys)" if "a \<in> ?S" "length ys = length xx" "?A a ys" for a ys
  proof -
    note N = zint_norm_zero_spec [OF n _ m(1,2), of "drop a ys"]
    have d: "drop a (?f a ys) = zint_norm_zero (drop a ys) xlen n tmp" by (rule at_slice_drop [OF inr [OF that(1,2)]])
    show ?thesis unfolding d using at_slice_length [of "\<lambda>d. zint_norm_zero d xlen n tmp", OF N(2)] N(1,3) that(3) by simp
  qed
  have same: "\<forall>t<xlen. ?f a ys ! (b + t * n) = ys ! (b + t * n)"
    if "a \<in> ?S" "b \<in> ?S" "a \<noteq> b" "length ys = length xx" "?A a ys" for a b ys
  proof (intro allI impI)
    fix t assume t: "t < xlen"
    note N = zint_norm_zero_spec(4) [OF n _ m(1,2), of "drop a ys" "b + t * n - a"]
    have ne: "b + t * n \<noteq> a + t' * n" if "t' < xlen" for t'
      using starts_disjoint [of a xlen n num_sets b t' t] \<open>a \<in> ?S\<close> \<open>b \<in> ?S\<close> \<open>a \<noteq> b\<close> that t by auto
    show "?f a ys ! (b + t * n) = ys ! (b + t * n)"
    proof (rule at_slice_other [OF inr [OF that(1,4)]])
      assume "a \<le> b + t * n"
      then have "b + t * n - a \<noteq> t' * n" if "t' < xlen" for t' using ne [OF that] by linarith
      then show "zint_norm_zero (drop a ys) xlen n tmp ! (b + t * n - a) = drop a ys ! (b + t * n - a)"
        using N \<open>?A a ys\<close> by simp
    qed
  qed
  have keep: "zval n xlen (drop b (?f a ys)) = zval n xlen (drop b ys)" "zlimbs n xlen (drop b (?f a ys)) = zlimbs n xlen (drop b ys)"
    "zsval n xlen (drop b (?f a ys)) = zsval n xlen (drop b ys)"
    if "a \<in> ?S" "b \<in> ?S" "a \<noteq> b" "length ys = length xx" "?A a ys" for a b ys
  proof -
    have l: "length (?f a ys) = length ys" using step [OF that(1,4,5)] by blast
    note w = drop_words [OF inr [OF that(2,4)] l, of xlen n] and sm = same [OF that]
    show v: "zval n xlen (drop b (?f a ys)) = zval n xlen (drop b ys)" "zlimbs n xlen (drop b (?f a ys)) = zlimbs n xlen (drop b ys)"
      using w sm by blast+
    have "drop b (?f a ys) ! ((xlen - 1) * n) = drop b ys ! ((xlen - 1) * n)"
      using sm x0 inr [OF that(2,4)] l by simp
    then show "zsval n xlen (drop b (?f a ys)) = zsval n xlen (drop b ys)" by (simp add: zsval_def v)
  qed
  have "distinct (starts xlen n num_sets)" by (rule starts_distinct [OF x0])
  then have "length (fold ?f (starts xlen n num_sets) xx) = length xx \<and> (\<forall>o1 \<in> ?S. ?B o1 (fold ?f (starts xlen n num_sets) xx)) \<and>
      (\<forall>o1 \<in> ?S - ?S. ?A o1 (fold ?f (starts xlen n num_sets) xx))"
    by (intro fold_frame [where S = ?S]) (use step keep x in \<open>simp_all\<close>)
  then show ?thesis unfolding Let_def by blast
qed

subsection \<open>The constants of the first primes\<close>

text \<open>
  The check of the last constants takes a product of all smaller indices for every entry; it is run here for the first
  27 primes, enough for the integers of the recursion down to polynomials of 8 coefficients.
\<close>

fun crt_check :: "int list \<Rightarrow> (int \<times> int \<times> int \<times> int \<times> int \<times> int) list \<Rightarrow> bool" where
  "crt_check qs [] \<longleftrightarrow> True"
| "crt_check qs ((p, p0i, r2, g, ig, s) # es) \<longleftrightarrow>
     fold (\<lambda>j x. x * j mod p) qs s mod p = 4294967296 mod p \<and> crt_check (p # qs) es"

lemma crt_check_27: "crt_check [] (take 27 primes_entries_1)"
  unfolding primes_entries_1_def by code_simp

lemma fold_mod_prod: "fold (\<lambda>j x. x * j mod P) qs s mod P = s * prod_list qs mod P" for P :: int
proof (induction qs arbitrary: s)
  case (Cons j qs)
  have "fold (\<lambda>j x. x * j mod P) (j # qs) s mod P = (s * j mod P) * prod_list qs mod P" by (simp add: Cons)
  then show ?case by (simp add: mod_mult_left_eq mult.assoc)
qed simp

lemma crt_check_nth:
  "crt_check qs es \<Longrightarrow> i < length es \<Longrightarrow>
    snd (snd (snd (snd (snd (es ! i))))) * (prod_list qs * prod_list (map fst (take i es))) mod fst (es ! i) = 2 ^ 32 mod fst (es ! i)"
proof (induction qs es arbitrary: i rule: crt_check.induct)
  case (2 qs p p0i r2 g ig s es)
  then show ?case by (cases i) (simp_all add: fold_mod_prod mult.assoc mult.left_commute [of p])
qed simp

lemma small_prime_of_uint:
  assumes "prime_entry_ok e"
  shows "uint (sp_p (small_prime_of e)) = fst e" "uint (sp_s (small_prime_of e)) = snd (snd (snd (snd (snd e))))"
    "snd (snd (snd (snd (snd e)))) < fst e"
proof -
  obtain p p0i r2 g ig s where e: "e = (p, p0i, r2, g, ig, s)" by (rule prod_cases6)
  have "0 < p" "p < 2 ^ 31" "0 \<le> s" "s < p" using assms by (simp_all add: e)
  moreover from this have "uint (word_of_int p :: u32) = p" "uint (word_of_int s :: u32) = s"
    by (auto intro!: uint_of_int_eqI)
  ultimately show "uint (sp_p (small_prime_of e)) = fst e" "uint (sp_s (small_prime_of e)) = snd (snd (snd (snd (snd e))))"
    "snd (snd (snd (snd (snd e)))) < fst e" by (simp_all add: e small_prime_of_def)
qed

lemma crt_ok_27: "L \<le> 27 \<Longrightarrow> crt_ok L"
proof -
  assume L: "L \<le> 27"
  have len: "length primes_entries_1 = 44" by (simp add: primes_entries_1_def)
  have at: "primes ! i = small_prime_of (take 27 primes_entries_1 ! i)" if "i < 27" for i
    using that len by (simp add: primes_def primes_entries_def nth_append)
  have ok: "prime_entry_ok (take 27 primes_entries_1 ! i)" if "i < 27" for i
    using that len primes_entries_ok_1 by (simp add: list_all_length)
  have tk: "take i primes = map small_prime_of (take i (take 27 primes_entries_1))" if "i < 27" for i
    using that len by (simp add: primes_def primes_entries_def take_map)
  have prod: "crt_prod i = prod_list (map fst (take i (take 27 primes_entries_1)))" if i: "i < 27" for i
  proof -
    have "map (\<lambda>e. uint (sp_p e)) (map small_prime_of (take i (take 27 primes_entries_1))) = map fst (take i (take 27 primes_entries_1))"
      unfolding map_map
    proof (rule map_cong [OF refl])
      fix e assume "e \<in> set (take i (take 27 primes_entries_1))"
      then have "prime_entry_ok e" using primes_entries_ok_1 by (auto simp only: list_all_iff dest!: in_set_takeD)
      then show "((\<lambda>e. uint (sp_p e)) \<circ> small_prime_of) e = fst e" by (simp only: comp_def small_prime_of_uint(1))
    qed
    then show ?thesis unfolding crt_prod_def tk [OF i] by (simp only:)
  qed
  have "uint (sp_s (primes ! i)) < uint (sp_p (primes ! i)) \<and>
      uint (sp_s (primes ! i)) * crt_prod i mod uint (sp_p (primes ! i)) = 2 ^ 32 mod uint (sp_p (primes ! i))" if i: "i < 27" for i
    unfolding at [OF i] small_prime_of_uint(1,2) [OF ok [OF i]] prod [OF i]
    using small_prime_of_uint(3) [OF ok [OF i]] crt_check_nth [OF crt_check_27, of i] i len by simp
  moreover have "27 \<le> length primes" using len by (simp add: primes_def primes_entries_def)
  ultimately show ?thesis using L by (auto simp: crt_ok_def list_all_iff)
qed

subsection \<open>Correctness\<close>

text \<open>C26: rebuilding integers from residues is the Chinese remainder theorem. For interleaved sets of integers of any
  length whose constants in the prime table are right, every integer whose words are residues modulo the first primes
  becomes the number below their product, or, when asked for, the number between minus half and half the product,
  that has these residues; the scratch area ends up holding the product.\<close>

theorem zint_rebuild_CRT_correct:
  assumes ok: "crt_ok xlen" and x0: "0 < xlen" and n: "0 < n"
    and len: "num_sets * (n * xlen) \<le> length xx" "xlen \<le> length tmp"
    and res: "\<forall>o1 \<in> set (starts xlen n num_sets). \<forall>t<xlen. uint (xx ! (o1 + t * n)) < uint (sp_p (primes ! t))"
    and o1: "o1 \<in> set (starts xlen n num_sets)"
    and run: "zint_rebuild_CRT xx xlen n num_sets normalize_signed tmp = (xx', tmp')"
  defines "v \<equiv> if normalize_signed then zsval n xlen (drop o1 xx') else zval n xlen (drop o1 xx')"
  shows "zlimbs n xlen (drop o1 xx')
    \<and> (\<forall>t<xlen. v mod uint (sp_p (primes ! t)) = uint (xx ! (o1 + t * n)))
    \<and> (if normalize_signed then 2 * \<bar>v\<bar> < crt_prod xlen else 0 \<le> v \<and> v < crt_prod xlen)
    \<and> zval 1 xlen tmp' = crt_prod xlen"
proof -
  have x1: "1 \<le> xlen" using x0 by simp
  obtain ys us where F: "fold (crt_step xlen n num_sets) [1..<xlen] (xx, tmp[0 := sp_p (primes ! 0)]) = (ys, us)" by (rule prod.exhaust)
  have R: "\<And>o1. o1 \<in> set (starts xlen n num_sets) \<Longrightarrow> crt_at xlen n xx xlen o1 ys" "zlimbs 1 xlen us" "zval 1 xlen us = crt_prod xlen"
    using crt_rounds [OF ok n len _ x1 order.refl] res unfolding F by auto
  have l: "length ys = length xx" using R(1) [OF o1] by (simp add: crt_at_def)
  have e: "tmp' = us" "xx' = (if normalize_signed then fold (\<lambda>o1. at_slice o1 (\<lambda>d. zint_norm_zero d xlen n us)) (starts xlen n num_sets) ys else ys)"
    using run unfolding zint_rebuild_CRT_eq F by auto
  have odd: "odd (zval 1 xlen us)" unfolding R(3) by (rule crt_prod_odd [OF ok order.refl])
  have A: "zlimbs n xlen (drop o1 ys)" "zval n xlen (drop o1 ys) < crt_prod xlen"
    "\<And>t. t < xlen \<Longrightarrow> zval n xlen (drop o1 ys) mod uint (sp_p (primes ! t)) = uint (xx ! (o1 + t * n))"
    using R(1) [OF o1] by (simp_all add: crt_at_def)
  show ?thesis
  proof (cases normalize_signed)
    case False
    then show ?thesis using A R(3) zval_nonneg [of n xlen "drop o1 ys"] by (simp add: v_def e)
  next
    case True
    have P: "\<forall>o1 \<in> set (starts xlen n num_sets).
        let d = drop o1 xx' in zlimbs n xlen d \<and> zsval n xlen d = (if zval n xlen (drop o1 ys) \<le> zval 1 xlen us div 2
          then zval n xlen (drop o1 ys) else zval n xlen (drop o1 ys) - zval 1 xlen us)"
      using norm_pass [OF n x0 _ R(2) odd, where X = "\<lambda>o1. zval n xlen (drop o1 ys)" and xx = ys and num_sets = num_sets] R(1,3) len(1) l True
      by (simp add: e crt_at_def)
    then have V: "zlimbs n xlen (drop o1 xx')" "v = (if zval n xlen (drop o1 ys) \<le> crt_prod xlen div 2
        then zval n xlen (drop o1 ys) else zval n xlen (drop o1 ys) - crt_prod xlen)"
      using o1 True R(3) by (simp_all add: Let_def v_def)
    have "v mod uint (sp_p (primes ! t)) = uint (xx ! (o1 + t * n))" if t: "t < xlen" for t
    proof -
      obtain k where "crt_prod xlen = uint (sp_p (primes ! t)) * k" using crt_prod_dvd [OF ok t order.refl] by (auto elim: dvdE)
      moreover have "(z - p * k) mod p = z mod p" for z p :: int using mod_mult_self2 [of z p "- k"] by simp
      ultimately show ?thesis using A(3) [OF t] unfolding V(2) by simp
    qed
    moreover have "2 * \<bar>v\<bar> < crt_prod xlen"
      using odd A(2) zval_nonneg [of n xlen "drop o1 ys"] unfolding V(2) R(3) by (auto split: if_splits; presburger)
    ultimately show ?thesis using True V(1) R(3) by (simp add: e)
  qed
qed

lemma first_moduli: "uint (sp_p (primes ! 0)) = 2147473409" "uint (sp_p (primes ! Suc 0)) = 2147389441"
  by (simp_all add: primes_def primes_entries_def primes_entries_1_def small_prime_of_def)

theorem zint_rebuild_CRT_correct_witness:
  "zval 1 2 (fst (zint_rebuild_CRT [5, 7] 2 1 1 False [0, 0])) mod 2147389441 = 7"
proof -
  have o1: "0 \<in> set (starts 2 1 1)" by (simp add: starts_def)
  have "uint ([5, 7 :: u32] ! (o1 + t * 1)) < uint (sp_p (primes ! t))" if "o1 \<in> set (starts 2 1 1)" "t < 2" for o1 t
    using that by (auto simp: starts_def less_2_cases_iff first_moduli)
  then have "\<forall>t<2. zval 1 2 (fst (zint_rebuild_CRT [5, 7] 2 1 1 False [0, 0])) mod uint (sp_p (primes ! t)) = uint ([5, 7 :: u32] ! (0 + t * 1))"
    using zint_rebuild_CRT_correct [of 2 1 1 "[5, 7]" "[0, 0]" 0 False, OF crt_ok_27 _ _ _ _ _ o1 prod.collapse [symmetric]]
    by auto
  from this [rule_format, of 1] show ?thesis by (simp add: first_moduli)
qed

end
