(* ===== verification/ZintGcd.thy ===== *)
theory ZintGcd
  imports Zint
begin

unbundle bit_operations_syntax

text \<open>
  The extended binary GCD of \<^verbatim>\<open>backend/pkg/fndsa/kgen_zint31.go\<close>: simultaneous reduction of two big integers by a matrix of
  small coefficients, the same reduction modulo a third integer in Montgomery style, and \<^verbatim>\<open>zint_bezout\<close>, which runs 31
  rounds of the binary GCD on approximations of its operands and applies the resulting matrix, until their size is
  exhausted. Whatever the quality of the approximations, the relation between numbers and cofactors is kept exactly, so a
  positive answer comes with correct cofactors.
\<close>

section \<open>The operations\<close>

text \<open>One step of the loops that write word \<open>i - 1\<close> while reading word \<open>i\<close>: \<open>z\<close> is the sum formed at word \<open>i\<close>.\<close>

definition shift_word :: "nat \<Rightarrow> u64 \<Rightarrow> u32 list \<Rightarrow> u32 list" where
  "shift_word i z a = (if 0 < i then a[i - 1 := ucast z AND 0x7FFFFFFF] else a)"

definition co_reduce_step :: "i64 \<Rightarrow> i64 \<Rightarrow> i64 \<Rightarrow> i64 \<Rightarrow> nat \<Rightarrow> u32 list \<times> u32 list \<times> i64 \<times> i64 \<Rightarrow> u32 list \<times> u32 list \<times> i64 \<times> i64" where
  "co_reduce_step xa xb ya yb i st =
     (let (a, b, cca, ccb) = st;
          wa = a ! i; wb = b ! i;
          za = ucast wa * xa + ucast wb * xb + cca;
          zb = ucast wa * ya + ucast wb * yb + ccb
      in (shift_word i za a, shift_word i zb b, signed_drop_bit 31 za, signed_drop_bit 31 zb))"

definition zint_co_reduce ::
  "u32 list \<Rightarrow> u32 list \<Rightarrow> nat \<Rightarrow> i64 \<Rightarrow> i64 \<Rightarrow> i64 \<Rightarrow> i64 \<Rightarrow> u32 list \<times> u32 list \<times> u32" where
  "zint_co_reduce a b vlen xa xb ya yb =
     (let (a, b, cca, ccb) = fold (co_reduce_step xa xb ya yb) [0..<vlen] (a, b, 0, 0);
          a = a[vlen - 1 := ucast cca AND 0x7FFFFFFF];
          b = b[vlen - 1 := ucast ccb AND 0x7FFFFFFF];
          nega = ucast (signed_drop_bit 63 cca);
          negb = ucast (signed_drop_bit 63 ccb)
      in (zint_negate a vlen nega, zint_negate b vlen negb, - nega OR push_bit 1 (- negb)))"

definition zint_finish_mod :: "u32 list \<Rightarrow> u32 list \<Rightarrow> nat \<Rightarrow> u32 \<Rightarrow> u32 list" where
  "zint_finish_mod a m vlen neg =
     (let cc = fold (\<lambda>i cc. drop_bit 31 (a ! i - m ! i - cc)) [0..<vlen] 0;
          xm = drop_bit 1 (- neg);
          ym = - (neg OR (1 - cc))
      in fst (fold (\<lambda>i (a, cc).
           let mw = (m ! i XOR xm) AND ym;
               aw = a ! i - mw - cc
           in (a[i := aw AND 0x7FFFFFFF], drop_bit 31 aw))
         [0..<vlen] (a, neg)))"

definition co_reduce_mod_step :: "u32 list \<Rightarrow> u64 \<Rightarrow> u64 \<Rightarrow> i64 \<Rightarrow> i64 \<Rightarrow> i64 \<Rightarrow> i64 \<Rightarrow> nat \<Rightarrow> u32 list \<times> u32 list \<times> i64 \<times> i64 \<Rightarrow> u32 list \<times> u32 list \<times> i64 \<times> i64" where
  "co_reduce_mod_step m fa fb xa xb ya yb i st =
     (let (a, b, cca, ccb) = st;
          wa = ucast (a ! i); wb = ucast (b ! i); wm = ucast (m ! i);
          za = wa * xa + wb * xb + wm * fa + cca;
          zb = wa * ya + wb * yb + wm * fb + ccb
      in (shift_word i za a, shift_word i zb b, signed_drop_bit 31 za, signed_drop_bit 31 zb))"

definition zint_co_reduce_mod ::
  "u32 list \<Rightarrow> u32 list \<Rightarrow> u32 list \<Rightarrow> nat \<Rightarrow> u32 \<Rightarrow> i64 \<Rightarrow> i64 \<Rightarrow> i64 \<Rightarrow> i64 \<Rightarrow> u32 list \<times> u32 list" where
  "zint_co_reduce_mod a b m vlen m0i xa xb ya yb =
     (let fa = ucast (((a ! 0 * ucast xa + b ! 0 * ucast xb) * m0i) AND 0x7FFFFFFF);
          fb = ucast (((a ! 0 * ucast ya + b ! 0 * ucast yb) * m0i) AND 0x7FFFFFFF);
          (a, b, cca, ccb) = fold (co_reduce_mod_step m fa fb xa xb ya yb) [0..<vlen] (a, b, 0, 0);
          a = a[vlen - 1 := ucast cca];
          b = b[vlen - 1 := ucast ccb]
      in (zint_finish_mod a m vlen (ucast (drop_bit 63 cca)), zint_finish_mod b m vlen (ucast (drop_bit 63 ccb))))"

definition mp_ninv31 :: "u32 \<Rightarrow> u32" where
  "mp_ninv31 x =
     (let y = 2 - x;
          y = y * (2 - x * y);
          y = y * (2 - x * y);
          y = y * (2 - x * y);
          y = y * (2 - x * y)
      in (- y) AND 0x7FFFFFFF)"

section \<open>Loops that divide by the word size\<close>

text \<open>
  The sum \<open>V i\<close> of word \<open>i\<close> plus the carry is split into its low 31 bits, stored one place lower, and the rest. The low bits of
  the first word are lost.
\<close>

lemma low31_signed: "uint (ucast z AND 0x7FFFFFFF :: u32) = sint z mod 2 ^ 31" for z :: u64
proof -
  have "uint z mod 2 ^ 31 = sint z mod 2 ^ 31"
    by (simp only: uint_sint take_bit_eq_mod) (simp add: mod_mod_cancel)
  then show ?thesis unfolding low31_wide .
qed

fun carries :: "(nat \<Rightarrow> int) \<Rightarrow> nat \<Rightarrow> int" where
  "carries V 0 = 0"
| "carries V (Suc i) = (V i + carries V i) div 2 ^ 31"

definition low_part :: "(nat \<Rightarrow> int) \<Rightarrow> nat \<Rightarrow> int" where
  "low_part V i = (V i + carries V i) mod 2 ^ 31"

lemma limb_split: "l * 2 ^ (31 * k) + 2 ^ (31 * Suc k) * c = (l + 2 ^ 31 * c) * (2 :: int) ^ (31 * k)"
  unfolding limb_power by (simp only: distrib_right mult.assoc mult.left_commute [of "2 ^ 31"] mult.commute [of "2 ^ (31 * k)"])

lemma carries_sum: "(\<Sum>i<n. low_part V i * 2 ^ (31 * i)) + 2 ^ (31 * n) * carries V n = (\<Sum>i<n. V i * 2 ^ (31 * i))"
proof (induction n)
  case (Suc n)
  have "low_part V n + 2 ^ 31 * carries V (Suc n) = V n + carries V n" unfolding low_part_def carries.simps by simp
  then have "low_part V n * 2 ^ (31 * n) + 2 ^ (31 * Suc n) * carries V (Suc n) = V n * 2 ^ (31 * n) + 2 ^ (31 * n) * carries V n"
    unfolding limb_split by (simp only: distrib_right mult.commute [of "2 ^ (31 * n)"])
  then show ?case using Suc unfolding sum.lessThan_Suc by linarith
qed simp

lemma carries_bound:
  assumes "\<And>i. i < n \<Longrightarrow> \<bar>V i\<bar> \<le> K * (2 ^ 31 - 1)" "0 \<le> K"
  shows "\<bar>carries V n\<bar> \<le> K"
  using assms(1)
proof (induction n)
  case (Suc n)
  have "\<bar>carries V n\<bar> \<le> K" "\<bar>V n\<bar> \<le> K * (2 ^ 31 - 1)" using Suc.IH Suc.prems by simp_all
  then have "\<bar>V n + carries V n\<bar> \<le> K * 2 ^ 31" unfolding right_diff_distrib by linarith
  then have "- K * 2 ^ 31 div 2 ^ 31 \<le> (V n + carries V n) div 2 ^ 31" "(V n + carries V n) div 2 ^ 31 \<le> K * 2 ^ 31 div 2 ^ 31"
    by (auto intro!: zdiv_mono1)
  then have "- K \<le> carries V (Suc n)" "carries V (Suc n) \<le> K" by simp_all
  then show ?case by linarith
qed (use assms in simp)

text \<open>When the low bits of the first word are zero, the words and the last carry hold the quotient.\<close>

lemma carries_quotient:
  assumes "0 < n" and dv: "2 ^ 31 dvd (\<Sum>i<n. V i * 2 ^ (31 * i))"
  shows "(\<Sum>i<n - 1. low_part V (Suc i) * 2 ^ (31 * i)) + 2 ^ (31 * (n - 1)) * carries V n = (\<Sum>i<n. V i * 2 ^ (31 * i)) div 2 ^ 31"
proof -
  obtain k where n: "n = Suc k" using assms(1) by (cases n) simp_all
  have e: "(\<Sum>i<Suc k. low_part V i * 2 ^ (31 * i)) = low_part V 0 + 2 ^ 31 * (\<Sum>i<k. low_part V (Suc i) * 2 ^ (31 * i))"
    unfolding sum.lessThan_Suc_shift limb_power sum_distrib_left by (simp add: mult.left_commute)
  let ?T = "(\<Sum>i<k. low_part V (Suc i) * 2 ^ (31 * i)) + 2 ^ (31 * k) * carries V n"
  have s: "(\<Sum>i<n. V i * 2 ^ (31 * i)) = low_part V 0 + 2 ^ 31 * ?T"
    unfolding carries_sum [where n = n and V = V, symmetric] unfolding n e limb_power by (simp only: distrib_left mult.assoc add.assoc)
  have "2 ^ 31 dvd low_part V 0" using dv unfolding s by (simp add: dvd_add_left_iff)
  moreover have "0 \<le> low_part V 0" "low_part V 0 < 2 ^ 31" by (simp_all add: low_part_def)
  ultimately have z: "low_part V 0 = 0" using zdvd_imp_le [of "2 ^ 31" "low_part V 0"] by linarith
  have "(\<Sum>i<n. V i * 2 ^ (31 * i)) div 2 ^ 31 = ?T" unfolding s z by simp
  then show ?thesis by (simp add: n)
qed

lemma shift_word_nth:
  "length (shift_word i z a) = length a"
  "j < length a \<Longrightarrow> shift_word i z a ! j = (if Suc j = i then ucast z AND 0x7FFFFFFF else a ! j)"
  by (auto simp: shift_word_def nth_list_update)

text \<open>Both numbers are shifted in one loop; neither sees the words the loop has written.\<close>

lemma shift_loop:
  fixes f g :: "nat \<Rightarrow> u32 \<Rightarrow> u32 \<Rightarrow> i64 \<Rightarrow> u64" and a b :: "u32 list"
  assumes len: "n \<le> length a" "n \<le> length b"
    and fV: "\<And>i c. i < n \<Longrightarrow> sint c = carries V i \<Longrightarrow> sint (f i (a ! i) (b ! i) c) = V i + carries V i"
    and gW: "\<And>i c. i < n \<Longrightarrow> sint c = carries W i \<Longrightarrow> sint (g i (a ! i) (b ! i) c) = W i + carries W i"
  defines "F \<equiv> \<lambda>k. fold (\<lambda>i (a', b', cca, ccb).
      (shift_word i (f i (a' ! i) (b' ! i) cca) a', shift_word i (g i (a' ! i) (b' ! i) ccb) b',
       signed_drop_bit 31 (f i (a' ! i) (b' ! i) cca), signed_drop_bit 31 (g i (a' ! i) (b' ! i) ccb))) [0..<k] (a, b, 0, 0)"
  shows "k \<le> n \<Longrightarrow> (case F k of (a', b', cca, ccb) \<Rightarrow> sint cca = carries V k \<and> sint ccb = carries W k \<and> length a' = length a \<and> length b' = length b
    \<and> (\<forall>j<length a. uint (a' ! j) = (if Suc j < k then low_part V (Suc j) else uint (a ! j)))
    \<and> (\<forall>j<length b. uint (b' ! j) = (if Suc j < k then low_part W (Suc j) else uint (b ! j))))"
proof (induction k)
  case 0
  then show ?case by (simp add: F_def)
next
  case (Suc k)
  obtain a' b' cca ccb where e: "F k = (a', b', cca, ccb)" by (rule prod_cases4)
  from Suc e have IH: "sint cca = carries V k" "sint ccb = carries W k" "length a' = length a" "length b' = length b"
    "\<And>j. j < length a \<Longrightarrow> uint (a' ! j) = (if Suc j < k then low_part V (Suc j) else uint (a ! j))"
    "\<And>j. j < length b \<Longrightarrow> uint (b' ! j) = (if Suc j < k then low_part W (Suc j) else uint (b ! j))" by auto
  have at: "a' ! k = a ! k" "b' ! k = b ! k" using IH(5,6) [of k] len Suc.prems by (simp_all add: word_uint_eq_iff)
  let ?x = "f k (a ! k) (b ! k) cca" and ?y = "g k (a ! k) (b ! k) ccb"
  have F: "F (Suc k) = (shift_word k ?x a', shift_word k ?y b', signed_drop_bit 31 ?x, signed_drop_bit 31 ?y)"
    using e at by (simp add: F_def)
  have s: "sint ?x = V k + carries V k" "sint ?y = W k + carries W k" using fV gW IH(1,2) Suc.prems by simp_all
  have l: "uint (ucast ?x AND 0x7FFFFFFF :: u32) = low_part V k" "uint (ucast ?y AND 0x7FFFFFFF :: u32) = low_part W k"
    by (simp_all only: low31_signed s low_part_def)
  have "uint (shift_word k ?x a' ! j) = (if Suc j < Suc k then low_part V (Suc j) else uint (a ! j))" if "j < length a" for j
    using IH(5) [OF that] that l(1) by (auto simp: shift_word_nth(2) IH(3))
  moreover have "uint (shift_word k ?y b' ! j) = (if Suc j < Suc k then low_part W (Suc j) else uint (b ! j))" if "j < length b" for j
    using IH(6) [OF that] that l(2) by (auto simp: shift_word_nth(2) IH(4))
  moreover have "sint (signed_drop_bit 31 ?x) = carries V (Suc k)" "sint (signed_drop_bit 31 ?y) = carries W (Suc k)"
    by (simp_all only: sint_signed_drop_bit_eq drop_bit_eq_div s carries.simps)
  ultimately show ?case unfolding F by (simp only: prod.case shift_word_nth(1) IH(3,4)) blast
qed

lemma shift_loop_run:
  fixes f g :: "nat \<Rightarrow> u32 \<Rightarrow> u32 \<Rightarrow> i64 \<Rightarrow> u64" and a b :: "u32 list"
  assumes len: "n \<le> length a" "n \<le> length b"
    and fV: "\<forall>i c. i < n \<longrightarrow> sint c = carries V i \<longrightarrow> sint (f i (a ! i) (b ! i) c) = V i + carries V i"
    and gW: "\<forall>i c. i < n \<longrightarrow> sint c = carries W i \<longrightarrow> sint (g i (a ! i) (b ! i) c) = W i + carries W i"
    and run: "fold (\<lambda>i (a', b', cca, ccb).
      (shift_word i (f i (a' ! i) (b' ! i) cca) a', shift_word i (g i (a' ! i) (b' ! i) ccb) b',
       signed_drop_bit 31 (f i (a' ! i) (b' ! i) cca), signed_drop_bit 31 (g i (a' ! i) (b' ! i) ccb))) [0..<n] (a, b, 0, 0) = (e, h, cca, ccb)"
  shows "sint cca = carries V n" "sint ccb = carries W n" "length e = length a" "length h = length b"
    "\<forall>j. Suc j < n \<longrightarrow> uint (e ! j) = low_part V (Suc j)" "\<forall>j. Suc j < n \<longrightarrow> uint (h ! j) = low_part W (Suc j)"
  using shift_loop [of n a b V f W g n] fV gW len unfolding run by simp_all

lemma quotient_sign:
  fixes l B c :: int
  assumes "0 \<le> l" "l < B"
  shows "c < 0 \<longleftrightarrow> l + B * c < 0"
proof (cases "c < 0")
  case True
  then have "B * c \<le> B * - 1" by (intro mult_left_mono) (use assms in simp_all)
  then show ?thesis using True assms by simp
next
  case False
  then have "0 \<le> B * c" using assms by simp
  then show ?thesis using False assms by linarith
qed

text \<open>What the loop leaves behind, with the last word stored: the quotient modulo the range, and its sign in the carry.\<close>

lemma shifted_value:
  fixes a a' :: "u32 list" and V :: "nat \<Rightarrow> int" and n :: nat
  assumes n: "0 < n" "n \<le> length a'" and w: "\<forall>j. Suc j < n \<longrightarrow> uint (a' ! j) = low_part V (Suc j)"
    and dv: "2 ^ 31 dvd (\<Sum>i<n. V i * 2 ^ (31 * i))"
  defines "T \<equiv> (\<Sum>i<n. V i * 2 ^ (31 * i)) div 2 ^ 31"
  shows "zval 1 n (a'[n - 1 := t]) = T + (uint t - carries V n) * 2 ^ (31 * (n - 1))"
    "carries V n < 0 \<longleftrightarrow> T < 0"
    "uint t < 2 ^ 31 \<Longrightarrow> zlimbs 1 n (a'[n - 1 := t])"
proof -
  obtain k where k: "n = Suc k" using n(1) by (cases n) simp_all
  let ?L = "\<Sum>i<k. low_part V (Suc i) * 2 ^ (31 * i)"
  have T: "T = ?L + 2 ^ (31 * k) * carries V n" using carries_quotient [OF n(1) dv] by (simp only: T_def k diff_Suc_1)
  have z: "zval 1 k a' = ?L" unfolding zval_def by (rule sum.cong) (use w k in simp_all)
  have "zval 1 n (a'[n - 1 := t]) = zval 1 k (a'[k := t]) + uint (a'[k := t] ! k) * 2 ^ (31 * k)" by (simp add: k zval_Suc)
  also have "zval 1 k (a'[k := t]) = zval 1 k a'" by (rule zval_cong) simp
  finally show "zval 1 n (a'[n - 1 := t]) = T + (uint t - carries V n) * 2 ^ (31 * (n - 1))"
    using n(2) unfolding z T by (simp add: k algebra_simps del: carries.simps)
  have lim: "zlimbs 1 k a'" by (rule zlimbsI) (use w n(2) k in \<open>simp add: low_part_def\<close>)
  have "0 \<le> ?L" "?L < 2 ^ (31 * k)" using zval_nonneg [of 1 k a'] zval_lt [OF lim] z by simp_all
  then show "carries V n < 0 \<longleftrightarrow> T < 0" unfolding T by (rule quotient_sign)
  show "zlimbs 1 n (a'[n - 1 := t])" if "uint t < 2 ^ 31"
    by (rule zlimbsI) (use zlimbs_nth(1) [OF lim] that n(2) k in \<open>auto simp: nth_list_update\<close>)
qed

section \<open>Simultaneous reduction\<close>

lemma lincomb_bound:
  fixes w v x y :: int
  assumes "0 \<le> w" "w < 2 ^ 31" "0 \<le> v" "v < 2 ^ 31"
  shows "\<bar>w * x + v * y\<bar> \<le> (\<bar>x\<bar> + \<bar>y\<bar>) * (2 ^ 31 - 1)"
proof -
  have "\<bar>w * x + v * y\<bar> \<le> w * \<bar>x\<bar> + v * \<bar>y\<bar>" using abs_triangle_ineq [of "w * x" "v * y"] assms by (simp add: abs_mult)
  also have "\<dots> \<le> (2 ^ 31 - 1) * \<bar>x\<bar> + (2 ^ 31 - 1) * \<bar>y\<bar>" by (intro add_mono mult_right_mono) (use assms in simp_all)
  finally show ?thesis by (simp add: algebra_simps)
qed

lemma lincomb_sint:
  fixes wa wb :: u32 and xa xb c :: i64
  assumes "uint wa < 2 ^ 31" "uint wb < 2 ^ 31" "\<bar>sint xa\<bar> + \<bar>sint xb\<bar> \<le> 2 ^ 31" "\<bar>sint c\<bar> \<le> 2 ^ 31"
  shows "sint (ucast wa * xa + ucast wb * xb + c :: u64) = uint wa * sint xa + uint wb * sint xb + sint c"
proof (rule sint_of_int_eqI)
  show "ucast wa * xa + ucast wb * xb + c = word_of_int (uint wa * sint xa + uint wb * sint xb + sint c)" by simp
  have "\<bar>uint wa * sint xa + uint wb * sint xb\<bar> \<le> 2 ^ 31 * (2 ^ 31 - 1)"
    by (rule order_trans [OF lincomb_bound mult_right_mono [OF assms(3)]]) (use assms in simp_all)
  then show "- (2 ^ (LENGTH(64) - 1)) \<le> uint wa * sint xa + uint wb * sint xb + sint c"
    "uint wa * sint xa + uint wb * sint xb + sint c < 2 ^ (LENGTH(64) - 1)" using assms(4) by simp_all
qed

lemma sum_lincomb: "(\<Sum>i<n. (uint (a ! i) * x + uint (b ! i) * y) * 2 ^ (31 * i)) = zval 1 n a * x + zval 1 n b * y"
  by (simp add: zval_def sum.distrib sum_distrib_left algebra_simps)

lemma co_reduce_step_eq:
  "co_reduce_step xa xb ya yb = (\<lambda>i (a, b, cca, ccb).
     (shift_word i (ucast (a ! i) * xa + ucast (b ! i) * xb + cca) a, shift_word i (ucast (a ! i) * ya + ucast (b ! i) * yb + ccb) b,
      signed_drop_bit 31 (ucast (a ! i) * xa + ucast (b ! i) * xb + cca), signed_drop_bit 31 (ucast (a ! i) * ya + ucast (b ! i) * yb + ccb)))"
  by (simp add: fun_eq_iff co_reduce_step_def Let_def split_beta)

text \<open>The sign of the carry decides whether the number just stored is negated.\<close>

lemma negated_value:
  fixes V :: "nat \<Rightarrow> int" and cc :: i64
  assumes n: "0 < n" "n \<le> length a'" and w: "\<forall>j. Suc j < n \<longrightarrow> uint (a' ! j) = low_part V (Suc j)"
    and dv: "2 ^ 31 dvd (\<Sum>i<n. V i * 2 ^ (31 * i))" and cc: "sint cc = carries V n"
  defines "T \<equiv> (\<Sum>i<n. V i * 2 ^ (31 * i)) div 2 ^ 31"
  assumes T: "\<bar>T\<bar> < 2 ^ (31 * n)"
  defines "ng \<equiv> ucast (signed_drop_bit 63 cc) :: u32"
  defines "r \<equiv> zint_negate (a'[n - 1 := ucast cc AND 0x7FFFFFFF]) n ng"
  shows "zlimbs 1 n r" "zval 1 n r = \<bar>T\<bar>" "length r = length a'" "- ng = (if T < 0 then 1 else 0)"
proof -
  let ?t = "ucast cc AND 0x7FFFFFFF :: u32" and ?B = "2 ^ (31 * n) :: int"
  let ?d = "a'[n - 1 := ?t]"
  have t: "uint ?t = carries V n mod 2 ^ 31" "uint ?t < 2 ^ 31" unfolding low31_signed cc by simp_all
  note v = shifted_value [OF n w dv, folded T_def]
  obtain k where k: "n = Suc k" using n(1) by (cases n) simp_all
  have "carries V n = uint ?t + 2 ^ 31 * (carries V n div 2 ^ 31)" unfolding t by simp
  then have e: "uint ?t - carries V n = - (2 ^ 31 * (carries V n div 2 ^ 31))" by linarith
  have "zval 1 n ?d = T + (uint ?t - carries V n) * 2 ^ (31 * (n - 1))" by (rule v(1))
  also have "\<dots> = T + - (carries V n div 2 ^ 31) * ?B" unfolding e unfolding k limb_power diff_Suc_1
    by (simp add: mult_ac del: carries.simps)
  finally have "zval 1 n ?d = T + - (carries V n div 2 ^ 31) * ?B" .
  then have "zval 1 n ?d mod ?B = T mod ?B" by (simp only: mod_mult_self1)
  then have z: "zval 1 n ?d = T mod ?B" using zval_nonneg zval_lt [OF v(3) [OF t(2)]] by simp
  have ng: "ng = (if T < 0 then - 1 else 0)"
  proof -
    have s: "sint (signed_drop_bit 63 cc) = carries V n div 2 ^ 63" by (simp only: sint_signed_drop_bit_eq drop_bit_eq_div cc)
    have "- (2 ^ 63) \<le> carries V n" "carries V n < 2 ^ 63" using sint_greater_eq [of cc] sint_less [of cc] cc by simp_all
    then have "carries V n div 2 ^ 63 = (if carries V n < 0 then - 1 else 0)" by (intro div_int_eqI) simp_all
    then have "sint (signed_drop_bit 63 cc) = sint (if carries V n < 0 then - 1 else 0 :: i64)" by (simp add: s)
    then have "signed_drop_bit 63 cc = (if carries V n < 0 then - 1 else 0)" by (rule signed_word_eqI)
    moreover have "ucast (- 1 :: i64) = (- 1 :: u32)" by code_simp
    ultimately show ?thesis using v(2) by (simp add: ng_def)
  qed
  then show "- ng = (if T < 0 then 1 else 0)" by simp
  note N = zint_negate_spec [OF v(3) [OF t(2)]]
  have "zlimbs 1 n r \<and> zval 1 n r = \<bar>T\<bar> \<and> length r = length a'"
  proof (cases "T < 0")
    case True
    have "zval 1 n (zint_negate ?d n (- 1)) = - T" unfolding N(3) z using True T by (simp add: mod_minus_eq mod_pos_pos_trivial)
    then show ?thesis using True ng N(1,2) by (simp add: r_def)
  next
    case False
    then have "r = ?d" using zint_negate_0 [OF v(3) [OF t(2)]] n(2) ng by (simp add: r_def)
    moreover have "zval 1 n ?d = T" unfolding z using False T by simp
    ultimately show ?thesis using False v(3) [OF t(2)] by simp
  qed
  then show "zlimbs 1 n r" "zval 1 n r = \<bar>T\<bar>" "length r = length a'" by simp_all
qed

lemma abs_div_less:
  fixes a b :: int
  assumes "\<bar>a\<bar> \<le> b * 2 ^ 31" "2 ^ 31 dvd a"
  shows "\<bar>a div 2 ^ 31\<bar> \<le> b"
proof -
  obtain k where k: "a = 2 ^ 31 * k" using assms(2) by (elim dvdE)
  show ?thesis using assms(1) by (simp add: k abs_mult)
qed

lemma lincomb_values:
  fixes A B x y M :: int
  assumes "0 \<le> A" "A \<le> M" "0 \<le> B" "B \<le> M" "\<bar>x\<bar> + \<bar>y\<bar> \<le> 2 ^ 31"
  shows "\<bar>A * x + B * y\<bar> \<le> M * 2 ^ 31"
proof -
  have "\<bar>A * x + B * y\<bar> \<le> A * \<bar>x\<bar> + B * \<bar>y\<bar>" using abs_triangle_ineq [of "A * x" "B * y"] assms by (simp add: abs_mult)
  also have "\<dots> \<le> M * \<bar>x\<bar> + M * \<bar>y\<bar>" by (intro add_mono mult_right_mono) (use assms in simp_all)
  also have "\<dots> = M * (\<bar>x\<bar> + \<bar>y\<bar>)" by (simp only: distrib_left)
  also have "\<dots> \<le> M * 2 ^ 31" by (rule mult_left_mono) (use assms in simp_all)
  finally show ?thesis .
qed

text \<open>
  With coefficients whose sizes add up to at most \<open>2 ^ 31\<close> and divisible combinations, the two numbers become the absolute
  values of the quotients, and the result tells which of them were negative.
\<close>

lemma zint_co_reduce_spec:
  assumes n: "0 < n" "n \<le> length a" "n \<le> length b" and lim: "zlimbs 1 n a" "zlimbs 1 n b"
    and x: "\<bar>sint xa\<bar> + \<bar>sint xb\<bar> \<le> 2 ^ 31" and y: "\<bar>sint ya\<bar> + \<bar>sint yb\<bar> \<le> 2 ^ 31"
    and dx: "2 ^ 31 dvd zval 1 n a * sint xa + zval 1 n b * sint xb" and dy: "2 ^ 31 dvd zval 1 n a * sint ya + zval 1 n b * sint yb"
    and r: "zint_co_reduce a b n xa xb ya yb = (a', b', s)"
  defines "Ta \<equiv> (zval 1 n a * sint xa + zval 1 n b * sint xb) div 2 ^ 31"
    and "Tb \<equiv> (zval 1 n a * sint ya + zval 1 n b * sint yb) div 2 ^ 31"
  shows "zlimbs 1 n a' \<and> zval 1 n a' = \<bar>Ta\<bar> \<and> length a' = length a" "zlimbs 1 n b' \<and> zval 1 n b' = \<bar>Tb\<bar> \<and> length b' = length b"
    "s = (if Ta < 0 then 1 else 0) OR push_bit 1 (if Tb < 0 then 1 else 0)"
proof -
  define V where "V = (\<lambda>i. uint (a ! i) * sint xa + uint (b ! i) * sint xb)"
  define W where "W = (\<lambda>i. uint (a ! i) * sint ya + uint (b ! i) * sint yb)"
  have w: "uint (a ! i) < 2 ^ 31" "uint (b ! i) < 2 ^ 31" if "i < n" for i
    using zlimbs_nth(1) [OF lim(1) that] zlimbs_nth(1) [OF lim(2) that] by simp_all
  have S: "(\<Sum>i<n. V i * 2 ^ (31 * i)) = zval 1 n a * sint xa + zval 1 n b * sint xb"
    "(\<Sum>i<n. W i * 2 ^ (31 * i)) = zval 1 n a * sint ya + zval 1 n b * sint yb"
    unfolding V_def W_def by (rule sum_lincomb)+
  have bound: "\<bar>carries U i\<bar> \<le> 2 ^ 31"
    if U: "U = (\<lambda>i. uint (a ! i) * sint p + uint (b ! i) * sint p')" and p: "\<bar>sint p\<bar> + \<bar>sint p'\<bar> \<le> 2 ^ 31" and i: "i \<le> n" for U i and p p' :: i64
  proof (rule carries_bound)
    show "\<bar>U j\<bar> \<le> 2 ^ 31 * (2 ^ 31 - 1)" if j: "j < i" for j
      unfolding U by (rule order_trans [OF lincomb_bound mult_right_mono [OF p]]) (use w j i in simp_all)
  qed simp
  have step: "sint (ucast (a ! i) * p + ucast (b ! i) * p' + c) = U i + carries U i"
    if "U = (\<lambda>i. uint (a ! i) * sint p + uint (b ! i) * sint p')" "\<bar>sint p\<bar> + \<bar>sint p'\<bar> \<le> 2 ^ 31" "i < n" "sint c = carries U i" for U i and p p' c :: i64
    using lincomb_sint [OF w(1,2) [OF that(3)] that(2)] bound [OF that(1,2), of i] that(1,3,4) by simp
  obtain e f cca ccb where F: "fold (co_reduce_step xa xb ya yb) [0..<n] (a, b, 0, 0) = (e, f, cca, ccb)" by (rule prod_cases4)
  note L = shift_loop_run [where f = "\<lambda>i wa wb c. ucast wa * xa + ucast wb * xb + c" and g = "\<lambda>i wa wb c. ucast wa * ya + ucast wb * yb + c",
      OF n(2,3) _ _ F [unfolded co_reduce_step_eq], of V W]
  have sV: "\<forall>i c. i < n \<longrightarrow> sint c = carries V i \<longrightarrow> sint (ucast (a ! i) * xa + ucast (b ! i) * xb + c) = V i + carries V i"
    by (blast intro: step [OF V_def x])
  have sW: "\<forall>i c. i < n \<longrightarrow> sint c = carries W i \<longrightarrow> sint (ucast (a ! i) * ya + ucast (b ! i) * yb + c) = W i + carries W i"
    by (blast intro: step [OF W_def y])
  note L = L [OF sV sW]
  have ab: "\<bar>zval 1 n a * sint p + zval 1 n b * sint p'\<bar> \<le> (2 ^ (31 * n) - 1) * 2 ^ 31" if "\<bar>sint p\<bar> + \<bar>sint p'\<bar> \<le> 2 ^ 31" for p p' :: i64
    by (rule lincomb_values) (use zval_nonneg zval_lt [OF lim(1)] zval_lt [OF lim(2)] that in simp_all)
  have T: "\<bar>Ta\<bar> < 2 ^ (31 * n)" "\<bar>Tb\<bar> < 2 ^ (31 * n)"
    using abs_div_less [OF ab [OF x] dx] abs_div_less [OF ab [OF y] dy] by (simp_all add: Ta_def Tb_def)
  note A = negated_value [of n e V cca, unfolded S, folded Ta_def, OF n(1) _ L(5) dx L(1) T(1)]
  note B = negated_value [of n f W ccb, unfolded S, folded Tb_def, OF n(1) _ L(6) dy L(2) T(2)]
  show "zlimbs 1 n a' \<and> zval 1 n a' = \<bar>Ta\<bar> \<and> length a' = length a" "zlimbs 1 n b' \<and> zval 1 n b' = \<bar>Tb\<bar> \<and> length b' = length b"
    using r A B n(2,3) L(3,4) by (simp_all add: zint_co_reduce_def F Let_def)
  have "s = - ucast (signed_drop_bit 63 cca) OR push_bit 1 (- ucast (signed_drop_bit 63 ccb))"
    using r by (simp only: zint_co_reduce_def F Let_def prod.case prod.inject)
  then show "s = (if Ta < 0 then 1 else 0) OR push_bit 1 (if Tb < 0 then 1 else 0)"
    using A(4) B(4) n(2,3) L(3,4) by (simp only:)
qed

section \<open>Reduction modulo a third integer\<close>

text \<open>The borrow of the comparison tells which number is larger.\<close>

lemma compare_loop:
  assumes a: "zlimbs 1 n a" and m: "zlimbs 1 n m"
  defines "c \<equiv> fold (\<lambda>i cc. drop_bit 31 (a ! i - m ! i - cc)) [0..<n] (0 :: u32)"
  shows "uint c \<le> 1" "0 \<le> zval 1 n a - zval 1 n m + uint c * 2 ^ (31 * n)"
    "zval 1 n a - zval 1 n m + uint c * 2 ^ (31 * n) < 2 ^ (31 * n)"
proof -
  have "uint (fold (\<lambda>i cc. drop_bit 31 (a ! i - m ! i - cc)) [0..<k] (0 :: u32)) \<le> 1 \<and>
      0 \<le> zval 1 k a - zval 1 k m + uint (fold (\<lambda>i cc. drop_bit 31 (a ! i - m ! i - cc)) [0..<k] (0 :: u32)) * 2 ^ (31 * k) \<and>
      zval 1 k a - zval 1 k m + uint (fold (\<lambda>i cc. drop_bit 31 (a ! i - m ! i - cc)) [0..<k] (0 :: u32)) * 2 ^ (31 * k) < 2 ^ (31 * k)"
    if "k \<le> n" for k using that
  proof (induction k)
    case (Suc k)
    define c' where "c' = fold (\<lambda>i cc. drop_bit 31 (a ! i - m ! i - cc)) [0..<k] (0 :: u32)"
    have IH: "uint c' \<le> 1" "0 \<le> zval 1 k a - zval 1 k m + uint c' * 2 ^ (31 * k)"
      "zval 1 k a - zval 1 k m + uint c' * 2 ^ (31 * k) < 2 ^ (31 * k)" using Suc by (simp_all add: c'_def)
    let ?v = "a ! k - m ! k - c'"
    have F: "fold (\<lambda>i cc. drop_bit 31 (a ! i - m ! i - cc)) [0..<Suc k] (0 :: u32) = drop_bit 31 ?v" by (simp add: c'_def)
    have s: "uint (?v AND 0x7FFFFFFF) < 2 ^ 31" "uint (drop_bit 31 ?v) \<le> 1"
      "uint (?v AND 0x7FFFFFFF) - 2 ^ 31 * uint (drop_bit 31 ?v) = uint (a ! k) - uint (m ! k) - uint c'"
      using sub_limb [of "a ! k" "m ! k" c'] zlimbs_nth(1) [OF a, of k] zlimbs_nth(1) [OF m, of k] IH(1) Suc.prems by simp_all
    let ?X = "zval 1 k a - zval 1 k m + uint c' * 2 ^ (31 * k)" and ?l = "uint (?v AND 0x7FFFFFFF)" and ?B = "2 ^ (31 * k) :: int"
    have "uint (a ! k) * ?B - uint (m ! k) * ?B - uint c' * ?B = ?l * ?B - 2 ^ 31 * uint (drop_bit 31 ?v) * ?B"
      by (simp only: s(3) [symmetric] left_diff_distrib [symmetric])
    then have e: "zval 1 (Suc k) a - zval 1 (Suc k) m + uint (drop_bit 31 ?v) * 2 ^ (31 * Suc k) = ?X + ?l * ?B"
      unfolding zval_Suc limb_power by (simp add: mult_ac)
    have "0 \<le> ?l * ?B" by simp
    moreover have "?l * ?B \<le> (2 ^ 31 - 1) * ?B" by (rule mult_right_mono) (use s(1) in simp_all)
    ultimately have "0 \<le> ?X + ?l * ?B" "?X + ?l * ?B < 2 ^ 31 * ?B" using IH(2,3) unfolding left_diff_distrib mult_1 by linarith+
    then show ?case unfolding F e unfolding limb_power using s(2) by blast
  qed simp
  from this [OF order.refl] show "uint c \<le> 1" "0 \<le> zval 1 n a - zval 1 n m + uint c * 2 ^ (31 * n)"
    "zval 1 n a - zval 1 n m + uint c * 2 ^ (31 * n) < 2 ^ (31 * n)" by (simp_all add: c_def)
qed

text \<open>A subtraction word by word, from a number whose last word may use 32 bits.\<close>

lemma sub_loop:
  fixes w :: "nat \<Rightarrow> u32"
  assumes n: "n \<le> length a" and a: "zlimbs 1 (n - 1) a" and w: "\<And>i. i < n \<Longrightarrow> uint (w i) < 2 ^ 31" and c: "uint cinit \<le> 1"
  defines "r \<equiv> fst (fold (\<lambda>i (a, cc). (a[i := (a ! i - w i - cc) AND 0x7FFFFFFF], drop_bit 31 (a ! i - w i - cc))) [0..<n] (a, cinit))"
  shows "zlimbs 1 n r" "length r = length a"
    "zval 1 n r = (zval 1 n a - (\<Sum>i<n. uint (w i) * 2 ^ (31 * i)) - uint cinit) mod 2 ^ (31 * n)"
proof -
  let ?lo = "\<lambda>i (x :: u32) (c :: u32). (x - w i - c) AND 0x7FFFFFFF" and ?hi = "\<lambda>i (x :: u32) (c :: u32). drop_bit 31 (x - w i - c)"
  let ?W = "\<Sum>i<n. uint (w i) * 2 ^ (31 * i)" and ?B = "2 ^ (31 * n) :: int"
  have "zlimbs 1 n r \<and> length r = length a \<and> zval 1 n r mod ?B = (zval 1 n a - ?W - uint cinit) mod ?B"
  proof (cases n)
    case (Suc k)
    obtain b c where F: "fold (\<lambda>i (a, c). (a[i * 1 := ?lo i (a ! (i * 1)) c], ?hi i (a ! (i * 1)) c)) [0..<k] (a, cinit) = (b, c)"
      by (rule prod.exhaust)
    have ak: "zlimbs 1 k a" using a Suc by simp
    have step: "uint (?lo i (a ! (i * 1)) c) < 2 ^ 31 \<and> uint (?hi i (a ! (i * 1)) c) \<le> 1 \<and>
        uint (?lo i (a ! (i * 1)) c) + 2 ^ 31 * - uint (?hi i (a ! (i * 1)) c) = (uint (a ! (i * 1)) - uint (w i)) + - uint c"
      if "i < k" "uint c \<le> 1" for i c
      using sub_limb [OF zlimbs_nth(1) [OF ak that(1)] w that(2), of i] that(1) Suc by simp
    note L = carry_loop [where st = 1 and ok = "\<lambda>_ c. uint c \<le> 1" and num = "\<lambda>c. - uint c" and lo = ?lo and hi = ?hi and cinit = cinit
        and d = a and n = k and V = "\<lambda>i. uint (a ! (i * 1)) - uint (w i)", OF _ zlimbs_nth(2) [OF ak] c step, unfolded F, simplified]
    let ?t = "(a ! k - w k - c) AND 0x7FFFFFFF"
    have bk: "b ! k = a ! k" by (rule L(4)) simp_all
    have r: "r = b[k := ?t]" using F bk by (simp add: r_def Suc)
    have lt: "k < length b" using L(3) n Suc by simp
    have lim: "zlimbs 1 n r"
      by (rule zlimbsI) (use zlimbs_nth(1) [OF L(2)] lt Suc in \<open>auto simp: r nth_list_update low31 less_Suc_eq\<close>)
    have "a ! k - w k - c = word_of_int (uint (a ! k) - uint (w k) - uint c)" by simp
    then have "uint (a ! k - w k - c) = (uint (a ! k) - uint (w k) - uint c) mod 2 ^ 32" by (simp only: uint_word_of_int) simp
    then have t: "uint ?t = (uint (a ! k) - uint (w k) - uint c) mod 2 ^ 31" unfolding low31 by (simp add: mod_mod_cancel)
    have rk: "zval 1 k r = zval 1 k b" unfolding r by (rule zval_cong) simp
    have zv: "zval 1 n r = zval 1 k b + uint ?t * 2 ^ (31 * k)" unfolding Suc zval_Suc rk using lt by (simp add: r)
    let ?D = "uint (a ! k) - uint (w k) - uint c"
    have "uint ?t = ?D + - (?D div 2 ^ 31) * 2 ^ 31" unfolding t by (simp add: minus_div_mult_eq_mod [symmetric])
    then have "uint ?t * 2 ^ (31 * k) = (?D + - (?D div 2 ^ 31) * 2 ^ 31) * 2 ^ (31 * k)" by (simp only:)
    also have "\<dots> = ?D * 2 ^ (31 * k) + - (?D div 2 ^ 31) * ?B" by (simp only: Suc limb_power distrib_right mult.assoc)
    finally have "uint ?t * 2 ^ (31 * k) = ?D * 2 ^ (31 * k) + - (?D div 2 ^ 31) * ?B" .
    moreover have "zval 1 k b - 2 ^ (31 * k) * uint c = zval 1 k a - (\<Sum>i<k. uint (w i) * 2 ^ (31 * i)) - uint cinit"
      using L(5) by (simp add: zval_def left_diff_distrib sum_subtractf)
    ultimately have "zval 1 n r = zval 1 n a - ?W - uint cinit + - (?D div 2 ^ 31) * ?B"
      unfolding zv unfolding Suc zval_Suc sum.lessThan_Suc by (simp add: left_diff_distrib mult.commute)
    then have "zval 1 n r mod ?B = (zval 1 n a - ?W - uint cinit) mod ?B" by (simp only: mod_mult_self1)
    moreover have "length r = length a" using L(3) by (simp add: r)
    ultimately show ?thesis using lim by blast
  qed (simp add: r_def zlimbs_def)
  then show "zlimbs 1 n r" "length r = length a"
    "zval 1 n r = (zval 1 n a - ?W - uint cinit) mod ?B"
    using zval_nonneg [of 1 n r] zval_lt [of 1 n r] by simp_all
qed

text \<open>
  The last correction of a modular number: \<open>T\<close> lies between \<open>- m\<close> and \<open>2 * m\<close> and its sign is known; the words hold it
  modulo the range, where the last word may use 32 bits if it is not negative.
\<close>

lemma zint_finish_mod_spec:
  assumes n: "0 < n" "n \<le> length a" and a: "zlimbs 1 (n - 1) a" and m: "zlimbs 1 n m"
    and neg: "neg = (if T < 0 then 1 else 0)" and T: "- zval 1 n m \<le> T" "T < 2 * zval 1 n m"
    and v: "0 \<le> T \<Longrightarrow> zval 1 n a = T" "T < 0 \<Longrightarrow> zval 1 n a mod 2 ^ (31 * n) = T mod 2 ^ (31 * n)"
  shows "zlimbs 1 n (zint_finish_mod a m n neg)" "length (zint_finish_mod a m n neg) = length a"
    "zval 1 n (zint_finish_mod a m n neg) = (if T < 0 then T + zval 1 n m else if T < zval 1 n m then T else T - zval 1 n m)"
proof -
  let ?B = "2 ^ (31 * n) :: int" and ?M = "zval 1 n m"
  obtain k where k: "n = Suc k" using n(1) by (cases n) simp_all
  define c where "c = fold (\<lambda>i cc. drop_bit 31 (a ! i - m ! i - cc)) [0..<n] (0 :: u32)"
  define xm where "xm = drop_bit 1 (- neg)"
  define ym where "ym = - (neg OR (1 - c))"
  define w where "w = (\<lambda>i. (m ! i XOR xm) AND ym)"
  have M: "0 \<le> ?M" "?M < ?B" using zval_nonneg zval_lt [OF m] by simp_all
  have ml: "uint (m ! i) < 2 ^ 31" if "i < n" for i using zlimbs_nth(1) [OF m that] by simp
  have e: "zint_finish_mod a m n neg = fst (fold (\<lambda>i (a, cc). (a[i := (a ! i - w i - cc) AND 0x7FFFFFFF], drop_bit 31 (a ! i - w i - cc))) [0..<n] (a, neg))"
    by (simp add: zint_finish_mod_def Let_def w_def xm_def ym_def c_def)
  have c: "uint c = (if T < ?M then 1 else 0)" if T0: "0 \<le> T"
  proof -
    define c' where "c' = fold (\<lambda>i cc. drop_bit 31 (a ! i - m ! i - cc)) [0..<k] (0 :: u32)"
    have C: "uint c' \<le> 1" "0 \<le> zval 1 k a - zval 1 k m + uint c' * 2 ^ (31 * k)"
      "zval 1 k a - zval 1 k m + uint c' * 2 ^ (31 * k) < 2 ^ (31 * k)"
      using compare_loop [of k a m] a zlimbs_less [OF m, of k] by (simp_all add: k c'_def)
    let ?d = "uint (a ! k) - uint (m ! k) - uint c'" and ?P = "2 ^ (31 * k) :: int"
    have TM: "T - ?M = (zval 1 k a - zval 1 k m + uint c' * ?P) + ?P * ?d"
      unfolding v(1) [OF T0, symmetric] unfolding k zval_Suc by (simp add: algebra_simps)
    have neg: "?d < 0 \<longleftrightarrow> T - ?M < 0" unfolding TM by (rule quotient_sign [OF C(2,3)])
    have "T - ?M < 2 ^ 31 * ?P" using T(2) M(2) unfolding k limb_power by linarith
    then have "?P * ?d < ?P * 2 ^ 31" using C(2) TM by (simp only: mult.commute [of "2 ^ 31"])
    then have d: "?d < 2 ^ 31" by simp
    have "uint (m ! k) < 2 ^ 31" by (rule ml) (simp add: k)
    then have d': "- (2 ^ 31) \<le> ?d" using C(1) uint_ge_0 [of "a ! k"] by linarith
    have "a ! k - m ! k - c' = word_of_int ?d" by simp
    from signed_limb(1) [OF this d' d] neg show ?thesis by (simp add: c_def k c'_def)
  qed
  have c01: "c = (if T < ?M then 1 else 0)" if "0 \<le> T" using c [OF that] by (simp add: word_uint_eq_iff)
  have c1: "c = 0 \<or> c = 1"
  proof -
    have "uint (drop_bit 31 x) \<le> 1" for x :: u32
      using zdiv_mono1 [of "uint x" "2 ^ 32 - 1" "2 ^ 31"] uint_lt2p [of x] by (simp add: uint_drop_bit)
    then have "uint c \<le> 1" by (simp add: c_def k)
    then have "uint c = 0 \<or> uint c = 1" using uint_ge_0 [of c] by linarith
    then show ?thesis by (simp add: word_uint_eq_iff)
  qed
  have "neg = 0 \<or> neg = 1" using neg by simp
  then have "uint neg \<le> 1" by auto
  note R = sub_loop [OF n(2) a _ this, of w, folded e]
  consider (neg) "T < 0" | (keep) "0 \<le> T" "T < ?M" | (sub) "0 \<le> T" "?M \<le> T" by linarith
  then have "(\<forall>i<n. uint (w i) < 2 ^ 31) \<and> (zval 1 n a - (\<Sum>i<n. uint (w i) * 2 ^ (31 * i)) - uint neg) mod ?B =
      (if T < 0 then T + ?M else if T < ?M then T else T - ?M)"
  proof cases
    case neg
    have "xm = 0x7FFFFFFF" "ym = - 1" using c1 \<open>neg = _\<close> neg unfolding xm_def ym_def by (auto; code_simp)+
    then have w: "uint (w i) = 2 ^ 31 - 1 - uint (m ! i)" if "i < n" for i using xor_ones31 [OF ml [OF that]] by (simp add: w_def)
    have wl: "uint (w i) < 2 ^ 31" if "i < n" for i using w [OF that] uint_ge_0 [of "m ! i"] by linarith
    have W: "(\<Sum>i<n. uint (w i) * 2 ^ (31 * i)) = ?B - 1 - ?M"
      unfolding zval_ones [symmetric] zval_def by (simp add: w left_diff_distrib sum_subtractf)
    have "(zval 1 n a - (\<Sum>i<n. uint (w i) * 2 ^ (31 * i)) - uint neg) mod ?B = (zval 1 n a + ?M + - 1 * ?B) mod ?B"
      unfolding W using neg \<open>neg = _\<close> by (simp add: algebra_simps)
    also have "\<dots> = (zval 1 n a + ?M) mod ?B" by (rule mod_mult_self1)
    also have "\<dots> = (T + ?M) mod ?B" using v(2) [OF neg] by (rule mod_add_cong) (rule refl)
    also have "\<dots> = T + ?M" using T(1) M neg by simp
    finally show ?thesis using neg wl by simp
  next
    case keep
    have "xm = 0" "ym = 0" using \<open>neg = _\<close> keep c01 by (simp_all add: xm_def ym_def)
    then have "w = (\<lambda>i. 0)" by (simp add: w_def fun_eq_iff)
    then show ?thesis using keep \<open>neg = _\<close> v(1) M by simp
  next
    case sub
    have "xm = 0" "ym = - 1" using \<open>neg = _\<close> sub c01 by (simp_all add: xm_def ym_def)
    then have "w = (\<lambda>i. m ! i)" by (simp add: w_def fun_eq_iff)
    then show ?thesis using sub \<open>neg = _\<close> v(1) M T ml by (simp add: zval_def)
  qed
  then show "zlimbs 1 n (zint_finish_mod a m n neg)" "length (zint_finish_mod a m n neg) = length a"
    "zval 1 n (zint_finish_mod a m n neg) = (if T < 0 then T + zval 1 n m else if T < zval 1 n m then T else T - zval 1 n m)"
    using R by simp_all
qed

text \<open>Newton's iteration for the inverse of an odd number squares the error \<open>1 - x * y\<close> in every step.\<close>

lemma newton_error:
  fixes x y :: "'a :: comm_ring_1"
  shows "1 - x * (y * (2 - x * y)) = (1 - x * y) ^ 2"
  by (simp add: power2_eq_square algebra_simps)

lemma mp_ninv31_spec:
  assumes x: "odd (uint x)"
  shows "uint x * uint (mp_ninv31 x) mod 2 ^ 31 = - 1 mod 2 ^ 31"
proof -
  define step where "step = (\<lambda>y :: u32. y * (2 - x * y))"
  define y where "y = step (step (step (step (2 - x))))"
  have m: "mp_ninv31 x = - y AND 0x7FFFFFFF" by (simp only: mp_ninv31_def Let_def y_def step_def)
  have e: "1 - x * step z = (1 - x * z) ^ 2" for z unfolding step_def by (rule newton_error)
  have "1 - x * (2 - x) = (1 - x) ^ 2" using newton_error [of x 1] by simp
  then have "1 - x * y = (1 - x) ^ 32" unfolding y_def e by (simp flip: power_mult)
  moreover have "even (1 - x)"
  proof -
    have "odd x" using x by (simp add: even_iff_mod_2_eq_zero word_uint_eq_iff uint_mod_distrib)
    then show ?thesis by simp
  qed
  then obtain t where "1 - x = 2 * t" by (elim evenE)
  ultimately have "1 - x * y = 2 ^ 32 * t ^ 32" by (simp only: power_mult_distrib)
  moreover have "(2 :: u32) ^ 32 = 0" by (simp add: exp_eq_zero_iff)
  ultimately have "1 - x * y = 0" by (simp only: mult_zero_left)
  then have "x * y = 1" by simp
  then have "x * - y = - 1" by simp
  then have "uint (x * - y) = 2 ^ 32 - 1" by (simp only: uint_all_ones)
  then have "uint x * uint (- y) mod 2 ^ 32 = 2 ^ 32 - 1" unfolding uint_word_ariths(3) by simp
  then have "uint x * uint (- y) mod 2 ^ 32 mod 2 ^ 31 = (2 ^ 32 - 1) mod 2 ^ 31" by (simp only:)
  then have "uint x * uint (- y) mod 2 ^ 31 = - 1 mod 2 ^ 31" by (simp add: mod_mod_cancel)
  then show ?thesis unfolding m low31 by (simp add: mod_mult_right_eq)
qed

lemma finished_value:
  fixes V :: "nat \<Rightarrow> int" and cc :: i64
  assumes n: "0 < n" "n \<le> length a'" and w: "\<forall>j. Suc j < n \<longrightarrow> uint (a' ! j) = low_part V (Suc j)"
    and dv: "2 ^ 31 dvd (\<Sum>i<n. V i * 2 ^ (31 * i))" and cc: "sint cc = carries V n" "\<bar>carries V n\<bar> < 2 ^ 32"
    and m: "zlimbs 1 n m"
  defines "T \<equiv> (\<Sum>i<n. V i * 2 ^ (31 * i)) div 2 ^ 31"
  assumes T: "- zval 1 n m \<le> T" "T < 2 * zval 1 n m"
  defines "r \<equiv> zint_finish_mod (a'[n - 1 := ucast cc]) m n (ucast (drop_bit 63 cc))"
  shows "zlimbs 1 n r" "length r = length a'"
    "zval 1 n r = (if T < 0 then T + zval 1 n m else if T < zval 1 n m then T else T - zval 1 n m)"
proof -
  let ?t = "ucast cc :: u32" and ?B = "2 ^ (31 * n) :: int"
  let ?d = "a'[n - 1 := ?t]"
  obtain k where k: "n = Suc k" using n(1) by (cases n) simp_all
  note v = shifted_value [OF n w dv, folded T_def]
  have s: "uint cc mod 2 ^ 32 = carries V n mod 2 ^ 32" "uint cc = carries V n mod 2 ^ 64"
    unfolding uint_sint cc(1) by (simp_all add: take_bit_eq_mod mod_mod_cancel)
  have t: "uint ?t = carries V n mod 2 ^ 32" using s(1) by (simp add: unsigned_ucast_eq take_bit_eq_mod)
  have d: "zval 1 n ?d = T + (uint ?t - carries V n) * 2 ^ (31 * (n - 1))" by (rule v(1))
  have neg: "ucast (drop_bit 63 cc) = (if T < 0 then 1 else 0 :: u32)"
  proof -
    have "uint (drop_bit 63 cc) = (if carries V n < 0 then 1 else 0)"
    proof (cases "carries V n < 0")
      case True
      have "uint cc = carries V n + 2 ^ 64" unfolding s(2) using True cc(2) mod_pos_pos_trivial [of "carries V n + 2 ^ 64" "2 ^ 64"] by simp
      then have "uint cc div 2 ^ 63 = 1" using True cc(2) by (intro div_int_eqI) simp_all
      then show ?thesis using True by (simp add: uint_drop_bit)
    next
      case False
      then have "uint cc = carries V n" unfolding s(2) using cc(2) by simp
      then show ?thesis using False cc(2) by (simp add: uint_drop_bit)
    qed
    then have "drop_bit 63 cc = (if carries V n < 0 then 1 else 0)" by (simp add: word_uint_eq_iff)
    then show ?thesis using v(2) by simp
  qed
  have lim: "zlimbs 1 (n - 1) ?d"
    by (rule zlimbsI) (use w n(2) k in \<open>auto simp: low_part_def\<close>)
  have pos: "zval 1 n ?d = T" if "0 \<le> T"
  proof -
    have "uint ?t = carries V n" unfolding t using that v(2) cc(2) by simp
    then show ?thesis using d by simp
  qed
  have "zval 1 n ?d mod ?B = T mod ?B"
  proof -
    have "carries V n = uint ?t + 2 ^ 32 * (carries V n div 2 ^ 32)" unfolding t by simp
    then have e: "uint ?t - carries V n = - (2 ^ 31 * (2 * (carries V n div 2 ^ 32)))" by simp
    have "zval 1 n ?d = T + - (2 * (carries V n div 2 ^ 32)) * ?B" unfolding d e unfolding k limb_power diff_Suc_1
      by (simp add: mult_ac del: carries.simps)
    then show ?thesis by (simp only: mod_mult_self1)
  qed
  note F = zint_finish_mod_spec [OF n(1) _ lim m neg T pos this]
  show "zlimbs 1 n r" "length r = length a'"
    "zval 1 n r = (if T < 0 then T + zval 1 n m else if T < zval 1 n m then T else T - zval 1 n m)"
    using F n(2) by (simp_all add: r_def)
qed

lemma co_reduce_mod_step_eq:
  "co_reduce_mod_step m fa fb xa xb ya yb = (\<lambda>i (a, b, cca, ccb).
     (shift_word i (ucast (a ! i) * xa + ucast (b ! i) * xb + ucast (m ! i) * fa + cca) a,
      shift_word i (ucast (a ! i) * ya + ucast (b ! i) * yb + ucast (m ! i) * fb + ccb) b,
      signed_drop_bit 31 (ucast (a ! i) * xa + ucast (b ! i) * xb + ucast (m ! i) * fa + cca),
      signed_drop_bit 31 (ucast (a ! i) * ya + ucast (b ! i) * yb + ucast (m ! i) * fb + ccb)))"
  by (simp add: fun_eq_iff co_reduce_mod_step_def Let_def split_beta)

lemma lincomb3_sint:
  fixes wa wb wm :: u32 and xa xb c :: i64 and f :: u64
  assumes "uint wa < 2 ^ 31" "uint wb < 2 ^ 31" "uint wm < 2 ^ 31" "\<bar>sint xa\<bar> + \<bar>sint xb\<bar> \<le> 2 ^ 31" "uint f < 2 ^ 31"
  defines "V \<equiv> uint wa * sint xa + uint wb * sint xb + uint wm * uint f"
  shows "\<bar>V\<bar> \<le> (2 ^ 32 - 1) * (2 ^ 31 - 1)"
    "\<bar>sint c\<bar> \<le> 2 ^ 32 - 1 \<Longrightarrow> sint (ucast wa * xa + ucast wb * xb + ucast wm * f + c :: u64) = V + sint c"
proof -
  have "\<bar>uint wa * sint xa + uint wb * sint xb\<bar> \<le> 2 ^ 31 * (2 ^ 31 - 1)"
    by (rule order_trans [OF lincomb_bound mult_right_mono [OF assms(4)]]) (use assms(1,2) in simp_all)
  moreover have "0 \<le> uint wm * uint f" by simp
  moreover have "uint wm * uint f \<le> (2 ^ 31 - 1) * (2 ^ 31 - 1)" by (intro mult_mono) (use assms(3,5) in simp_all)
  moreover have "\<bar>p + r\<bar> \<le> P + R" if "\<bar>p\<bar> \<le> P" "0 \<le> r" "r \<le> R" for p r P R :: int using that by linarith
  ultimately have "\<bar>V\<bar> \<le> 2 ^ 31 * (2 ^ 31 - 1) + (2 ^ 31 - 1) * (2 ^ 31 - 1)" unfolding V_def by blast
  then show b: "\<bar>V\<bar> \<le> (2 ^ 32 - 1) * (2 ^ 31 - 1)" by simp
  show "sint (ucast wa * xa + ucast wb * xb + ucast wm * f + c :: u64) = V + sint c" if c: "\<bar>sint c\<bar> \<le> 2 ^ 32 - 1"
  proof (rule sint_of_int_eqI)
    show "ucast wa * xa + ucast wb * xb + ucast wm * f + c = word_of_int (V + sint c)" by (simp add: V_def)
    show "- (2 ^ (LENGTH(64) - 1)) \<le> V + sint c" "V + sint c < 2 ^ (LENGTH(64) - 1)" using b c by simp_all
  qed
qed

lemma sum_lincomb3:
  "(\<Sum>i<n. (uint (a ! i) * x + uint (b ! i) * y + uint (m ! i) * f) * 2 ^ (31 * i)) = zval 1 n a * x + zval 1 n b * y + zval 1 n m * f"
  by (simp add: zval_def sum.distrib sum_distrib_left algebra_simps)

text \<open>The Montgomery factor makes the combination divisible.\<close>

lemma mont_factor:
  fixes a b m0i :: u32 and x y :: i64 and M :: int
  assumes "uint m * uint m0i mod 2 ^ 31 = - 1 mod 2 ^ 31"
  defines "f \<equiv> ucast (((a * ucast x + b * ucast y) * m0i) AND 0x7FFFFFFF) :: u64"
  shows "uint f < 2 ^ 31" "2 ^ 31 dvd uint a * sint x + uint b * sint y + uint m * uint f"
proof -
  let ?w = "(a * ucast x + b * ucast y) * m0i" and ?k = "uint a * sint x + uint b * sint y"
  have f: "uint f = uint ?w mod 2 ^ 31" unfolding f_def by (simp only: uint_wide low31)
  then show "uint f < 2 ^ 31" by simp
  have "scast z = (ucast z :: u32)" for z :: i64 by (simp add: down_cast_same is_down)
  then have "?w = word_of_int (?k * uint m0i)" by simp
  then have "uint ?w = (?k * uint m0i) mod 2 ^ 32" by (simp only: uint_word_of_int) simp
  then have f: "uint f = (?k * uint m0i) mod 2 ^ 31" unfolding f by (simp add: mod_mod_cancel)
  have g: "(k + u * (k * i mod P)) mod P = 0" if "u * i mod P = - 1 mod P" for k u i P :: int
  proof -
    have "u * (k * i mod P) mod P = k * (u * i) mod P" by (simp only: mod_mult_right_eq mult.left_commute)
    also have "\<dots> = k * (- 1 mod P) mod P" by (simp only: that [symmetric] mod_mult_right_eq)
    also have "\<dots> = k * - 1 mod P" by (rule mod_mult_right_eq)
    finally have "u * (k * i mod P) mod P = k * - 1 mod P" .
    then have "(k + u * (k * i mod P)) mod P = (k + k * - 1) mod P" by (intro mod_add_cong refl)
    then show ?thesis by simp
  qed
  show "2 ^ 31 dvd ?k + uint m * uint f" unfolding f using g [OF assms(1), of ?k] by (simp only: mod_eq_0_iff_dvd)
qed

lemma low_word_dvd:
  fixes V :: "nat \<Rightarrow> int"
  assumes "2 ^ 31 dvd V 0" "0 < n"
  shows "2 ^ 31 dvd (\<Sum>i<n. V i * 2 ^ (31 * i))"
proof (rule dvd_sum)
  fix i assume "i \<in> {..<n}"
  show "2 ^ 31 dvd V i * 2 ^ (31 * i)"
  proof (cases i)
    case (Suc j)
    then show ?thesis unfolding Suc limb_power by simp
  qed (use assms in simp)
qed

text \<open>The quotient stays between \<open>- M\<close> and \<open>2 * M\<close>, and it is the combination divided by \<open>2 ^ 31\<close> modulo \<open>M\<close>.\<close>

lemma reduce_range:
  fixes K M f :: int
  assumes "\<bar>K\<bar> \<le> M * 2 ^ 31" "0 \<le> f" "f < 2 ^ 31" "0 < M" "2 ^ 31 dvd K + M * f"
  defines "T \<equiv> (K + M * f) div 2 ^ 31"
  shows "- M \<le> T" "T < 2 * M" "2 ^ 31 * T = K + M * f"
proof -
  show T: "2 ^ 31 * T = K + M * f" unfolding T_def using assms(5) by (rule dvd_mult_div_cancel)
  have "0 \<le> M * f" using assms by simp
  moreover have "M * f < M * 2 ^ 31" by (rule mult_strict_left_mono) (use assms in simp_all)
  ultimately have "2 ^ 31 * - M \<le> 2 ^ 31 * T" "2 ^ 31 * T < 2 ^ 31 * (2 * M)" unfolding T using assms(1) by simp_all
  then show "- M \<le> T" "T < 2 * M" by simp_all
qed

definition mod_pair :: "int \<Rightarrow> int \<Rightarrow> int \<Rightarrow> bool" where
  "mod_pair M v K \<longleftrightarrow> 0 \<le> v \<and> v < M \<and> 2 ^ 31 * v mod M = K mod M"

lemma corrected_pair:
  fixes M K T u :: int
  assumes "- M \<le> T" "T < 2 * M" "2 ^ 31 * T = K + M * u"
  shows "mod_pair M (if T < 0 then T + M else if T < M then T else T - M) K"
proof -
  have T: "2 ^ 31 * T mod M = K mod M" unfolding assms(3) by simp
  have "2 ^ 31 * (T + M) mod M = K mod M" unfolding distrib_left using T by simp
  moreover have "2 ^ 31 * (T - M) mod M = K mod M"
    unfolding right_diff_distrib using T mod_mult_self1 [of "2 ^ 31 * T" "- (2 ^ 31)" M] by simp
  ultimately show ?thesis using T assms(1,2) by (simp add: mod_pair_def)
qed

lemma zint_co_reduce_mod_spec:
  assumes n: "0 < n" "n \<le> length a" "n \<le> length b" and lim: "zlimbs 1 n a" "zlimbs 1 n b" "zlimbs 1 n m"
    and x: "\<bar>sint xa\<bar> + \<bar>sint xb\<bar> \<le> 2 ^ 31" and y: "\<bar>sint ya\<bar> + \<bar>sint yb\<bar> \<le> 2 ^ 31"
    and M: "0 < zval 1 n m" "zval 1 n a \<le> zval 1 n m" "zval 1 n b \<le> zval 1 n m"
    and m0i: "uint (m ! 0) * uint m0i mod 2 ^ 31 = - 1 mod 2 ^ 31"
    and r: "zint_co_reduce_mod a b m n m0i xa xb ya yb = (a', b')"
  shows "zlimbs 1 n a' \<and> length a' = length a \<and> mod_pair (zval 1 n m) (zval 1 n a') (zval 1 n a * sint xa + zval 1 n b * sint xb)"
    "zlimbs 1 n b' \<and> length b' = length b \<and> mod_pair (zval 1 n m) (zval 1 n b') (zval 1 n a * sint ya + zval 1 n b * sint yb)"
proof -
  let ?M = "zval 1 n m"
  define fa where "fa = (ucast (((a ! 0 * ucast xa + b ! 0 * ucast xb) * m0i) AND 0x7FFFFFFF) :: u64)"
  define fb where "fb = (ucast (((a ! 0 * ucast ya + b ! 0 * ucast yb) * m0i) AND 0x7FFFFFFF) :: u64)"
  note f = mont_factor [OF m0i, of "a ! 0" xa "b ! 0" xb, folded fa_def] mont_factor [OF m0i, of "a ! 0" ya "b ! 0" yb, folded fb_def]
  define V where "V = (\<lambda>i. uint (a ! i) * sint xa + uint (b ! i) * sint xb + uint (m ! i) * uint fa)"
  define W where "W = (\<lambda>i. uint (a ! i) * sint ya + uint (b ! i) * sint yb + uint (m ! i) * uint fb)"
  have S: "(\<Sum>i<n. V i * 2 ^ (31 * i)) = zval 1 n a * sint xa + zval 1 n b * sint xb + ?M * uint fa"
    "(\<Sum>i<n. W i * 2 ^ (31 * i)) = zval 1 n a * sint ya + zval 1 n b * sint yb + ?M * uint fb"
    unfolding V_def W_def by (rule sum_lincomb3)+
  have dv: "2 ^ 31 dvd zval 1 n a * sint xa + zval 1 n b * sint xb + ?M * uint fa"
    "2 ^ 31 dvd zval 1 n a * sint ya + zval 1 n b * sint yb + ?M * uint fb"
    unfolding S [symmetric] by (intro low_word_dvd n(1); simp only: V_def W_def f)+
  have w: "uint (a ! i) < 2 ^ 31" "uint (b ! i) < 2 ^ 31" "uint (m ! i) < 2 ^ 31" if "i < n" for i
    using zlimbs_nth(1) [OF lim(1) that] zlimbs_nth(1) [OF lim(2) that] zlimbs_nth(1) [OF lim(3) that] by simp_all
  have cV: "\<bar>carries V i\<bar> \<le> 2 ^ 32 - 1" "\<bar>carries W i\<bar> \<le> 2 ^ 32 - 1" if "i \<le> n" for i
    by (rule carries_bound; use that lincomb3_sint(1) [OF w x f(1)] lincomb3_sint(1) [OF w y f(3)] in \<open>simp add: V_def W_def\<close>)+
  obtain e h cca ccb where F: "fold (co_reduce_mod_step m fa fb xa xb ya yb) [0..<n] (a, b, 0, 0) = (e, h, cca, ccb)" by (rule prod_cases4)
  note L = shift_loop_run [where f = "\<lambda>i wa wb c. ucast wa * xa + ucast wb * xb + ucast (m ! i) * fa + c"
      and g = "\<lambda>i wa wb c. ucast wa * ya + ucast wb * yb + ucast (m ! i) * fb + c", OF n(2,3) _ _ F [unfolded co_reduce_mod_step_eq], of V W]
  have sV: "\<forall>i c. i < n \<longrightarrow> sint c = carries V i \<longrightarrow> sint (ucast (a ! i) * xa + ucast (b ! i) * xb + ucast (m ! i) * fa + c) = V i + carries V i"
    using lincomb3_sint(2) [OF w x f(1)] cV(1) by (simp add: V_def)
  have sW: "\<forall>i c. i < n \<longrightarrow> sint c = carries W i \<longrightarrow> sint (ucast (a ! i) * ya + ucast (b ! i) * yb + ucast (m ! i) * fb + c) = W i + carries W i"
    using lincomb3_sint(2) [OF w y f(3)] cV(2) by (simp add: W_def)
  note L = L [OF sV sW]
  have nn: "0 \<le> zval 1 n a" "0 \<le> zval 1 n b" by (rule zval_nonneg)+
  note R = reduce_range [OF lincomb_values [OF nn(1) M(2) nn(2) M(3) x] uint_ge_0 f(1) M(1) dv(1)]
    reduce_range [OF lincomb_values [OF nn(1) M(2) nn(2) M(3) y] uint_ge_0 f(3) M(1) dv(2)]
  have c32: "\<bar>carries V n\<bar> < 2 ^ 32" "\<bar>carries W n\<bar> < 2 ^ 32" using cV [of n] by simp_all
  note A = finished_value [of n e V cca m, unfolded S, OF n(1) _ L(5) dv(1) L(1) c32(1) lim(3) R(1,2)]
  note B = finished_value [of n h W ccb m, unfolded S, OF n(1) _ L(6) dv(2) L(2) c32(2) lim(3) R(4,5)]
  have eq: "a' = zint_finish_mod (e[n - 1 := ucast cca]) m n (ucast (drop_bit 63 cca))" "b' = zint_finish_mod (h[n - 1 := ucast ccb]) m n (ucast (drop_bit 63 ccb))"
    using r F by (simp_all add: zint_co_reduce_mod_def Let_def fa_def fb_def)
  show "zlimbs 1 n a' \<and> length a' = length a \<and> mod_pair (zval 1 n m) (zval 1 n a') (zval 1 n a * sint xa + zval 1 n b * sint xb)"
    using A n(2) L(3) corrected_pair [OF R(1,2,3)] by (simp add: eq)
  show "zlimbs 1 n b' \<and> length b' = length b \<and> mod_pair (zval 1 n m) (zval 1 n b') (zval 1 n a * sint ya + zval 1 n b * sint yb)"
    using B n(3) L(4) corrected_pair [OF R(4,5,6)] by (simp add: eq)
qed

end
