(* ===== verification/ZintBezout.thy ===== *)
theory ZintBezout
  imports ZintGcd
begin

unbundle bit_operations_syntax

text \<open>
  \<^verbatim>\<open>zint_bezout\<close> of \<^verbatim>\<open>backend/pkg/fndsa/kgen_zint31.go\<close>: the extended binary GCD. Every round takes 63-bit approximations of the two
  numbers, runs 31 steps of the binary GCD on them while it collects the factors in the halves of two words, and applies
  the factors to the numbers and, modulo the inputs, to the cofactors.
\<close>

section \<open>The operations\<close>

text \<open>The number of leading zeros (\<^verbatim>\<open>kgen_poly.go\<close>).\<close>

definition lzcnt32 :: "u32 \<Rightarrow> u32" where
  "lzcnt32 x =
     (let y4 = drop_bit 16 x; m4 = drop_bit 16 (y4 - 1); r4 = m4 AND 0x10; x3 = y4 OR (m4 AND x);
          y3 = drop_bit 8 x3; m3 = drop_bit 8 (y3 - 1); r3 = r4 OR (m3 AND 0x08); x2 = y3 OR (m3 AND x3);
          y2 = drop_bit 4 x2; m2 = drop_bit 4 (y2 - 1); r2 = r3 OR (m2 AND 0x04); x1 = y2 OR (m2 AND x2);
          y1 = drop_bit 2 x1; m1 = drop_bit 2 (y1 - 1); r1 = r2 OR (m1 AND 0x02); x0 = y1 OR (m1 AND x1)
      in r1 + 2 + drop_bit 2 (x0 + 1) - x0)"

definition scan_word :: "u32 list \<Rightarrow> u32 list \<Rightarrow> nat \<Rightarrow> u32 \<times> u32 \<times> u32 \<times> u32 \<times> u32 \<times> u32 \<times> u32 \<Rightarrow> u32 \<times> u32 \<times> u32 \<times> u32 \<times> u32 \<times> u32 \<times> u32" where
  "scan_word a b j st =
     (let (a0, a1, b0, b1, c0, c1, cp) = st; aw = a ! j; bw = b ! j
      in (a0 XOR (c0 AND (a0 XOR aw)), a1 XOR (c1 AND (a1 XOR aw)),
          b0 XOR (c0 AND (b0 XOR bw)), b1 XOR (c1 AND (b1 XOR bw)),
          c1, c1 AND (drop_bit 31 ((aw OR bw) + 0x7FFFFFFF) - 1), c0))"

definition bezout_approx :: "u32 list \<Rightarrow> u32 list \<Rightarrow> nat \<Rightarrow> u64 \<times> u64" where
  "bezout_approx a b xlen =
     (let (a0, a1, b0, b1, c0, c1, cp) = fold (scan_word a b) (rev [0..<xlen]) (0, 0, 0, 0, - 1, - 1, - 1);
          s = lzcnt32 (a1 OR b1 OR drop_bit 1 (cp AND c0));
          ha = push_bit (unat s) a1 OR drop_bit (unat (31 - s)) a0;
          hb = push_bit (unat s) b1 OR drop_bit (unat (31 - s)) b0;
          ha' = (ha XOR (cp AND (ha XOR a1))) AND NOT c0;
          hb' = (hb XOR (cp AND (hb XOR b1))) AND NOT c0
      in (push_bit 31 (ucast ha') OR ucast (a ! 0), push_bit 31 (ucast hb') OR ucast (b ! 0)))"

definition inner_step :: "u64 \<times> u64 \<times> u64 \<times> u64 \<Rightarrow> u64 \<times> u64 \<times> u64 \<times> u64" where
  "inner_step st =
     (let (xa, xb, fg0, fg1) = st;
          a_odd = - (xa AND 1);
          dx = signed_drop_bit 63 (xa - xb);
          swap = a_odd AND dx;
          t1 = swap AND (xa XOR xb);
          xa1 = xa XOR t1;
          xb1 = xb XOR t1;
          t2 = swap AND (fg0 XOR fg1);
          fg01 = fg0 XOR t2;
          fg11 = fg1 XOR t2;
          xa2 = xa1 - (a_odd AND xb1);
          fg02 = fg01 - (a_odd AND fg11)
      in (drop_bit 1 xa2, xb1, fg02, push_bit 1 fg11))"

definition split_factor :: "u64 \<Rightarrow> i64 \<times> i64" where
  "split_factor fg =
     (let fg' = fg + 0x7FFFFFFF7FFFFFFF
      in ((fg' AND 0xFFFFFFFF) - 0x7FFFFFFF, drop_bit 32 fg' - 0x7FFFFFFF))"

definition flip_factor :: "i64 \<Rightarrow> u32 \<Rightarrow> i64" where
  "flip_factor f neg = f - ((f + f) AND - ucast neg)"

definition bezout_round ::
  "u32 list \<Rightarrow> u32 list \<Rightarrow> nat \<Rightarrow> u32 \<Rightarrow> u32 \<Rightarrow> u32 list \<times> u32 list \<times> u32 list \<times> u32 list \<times> u32 list \<times> u32 list
   \<Rightarrow> u32 list \<times> u32 list \<times> u32 list \<times> u32 list \<times> u32 list \<times> u32 list" where
  "bezout_round x y xlen x0i y0i st =
     (let (a, b, u0, u1, v0, v1) = st;
          (xa, xb) = bezout_approx a b xlen;
          (za, zb, fg0, fg1) = (inner_step ^^ 31) (xa, xb, 1, push_bit 32 1);
          (f0, g0) = split_factor fg0;
          (f1, g1) = split_factor fg1;
          (a', b', negab) = zint_co_reduce a b xlen f0 g0 f1 g1;
          f0' = flip_factor f0 (negab AND 1);
          g0' = flip_factor g0 (negab AND 1);
          f1' = flip_factor f1 (drop_bit 1 negab);
          g1' = flip_factor g1 (drop_bit 1 negab);
          (u0', u1') = zint_co_reduce_mod u0 u1 y xlen y0i f0' g0' f1' g1';
          (v0', v1') = zint_co_reduce_mod v0 v1 x xlen x0i f0' g0' f1' g1'
      in (a', b', u0', u1', v0', v1'))"

text \<open>
  The result, the slices \<open>u\<close> and \<open>v\<close>, and \<open>tmp\<close>, whose four parts are \<open>u0\<close>, \<open>v0\<close>, \<open>a\<close> and \<open>b\<close>. The counter of the source runs
  from \<open>62 * xlen + 31\<close> down to 31 in steps of 31.
\<close>

definition zint_bezout ::
  "u32 list \<Rightarrow> u32 list \<Rightarrow> u32 list \<Rightarrow> u32 list \<Rightarrow> nat \<Rightarrow> u32 list \<Rightarrow> bool \<times> u32 list \<times> u32 list \<times> u32 list" where
  "zint_bezout u v x y xlen tmp =
     (if xlen = 0 then (False, u, v, tmp)
      else let x0i = mp_ninv31 (x ! 0);
               y0i = mp_ninv31 (y ! 0);
               v1 = take xlen x @ drop xlen v;
               (a, b, u0, u1, v0, v1) = (bezout_round x y xlen x0i y0i ^^ (2 * xlen + 1))
                 (take xlen x, take xlen y, 1 # replicate (xlen - 1) 0, take xlen y @ drop xlen u,
                  replicate xlen 0, v1[0 := v1 ! 0 - 1]);
               r = fold (\<lambda>j r. r OR b ! j) [1..<xlen] (b ! 0 XOR 1) OR ((x ! 0 AND y ! 0 AND 1) XOR 1)
           in (r = 0, u1, v1, u0 @ v0 @ a @ b @ drop (4 * xlen) tmp))"

section \<open>The inner steps\<close>

lemma sign_of_difference:
  fixes a b :: u64
  assumes "uint a < 2 ^ 63" "uint b < 2 ^ 63"
  shows "signed_drop_bit 63 (a - b) = (if uint b \<le> uint a then 0 else - 1)"
proof -
  have "a - b = word_of_int (uint a - uint b)" by simp
  moreover have rg: "- P \<le> i - j \<and> i - j < P" if "0 \<le> i" "i < P" "0 \<le> j" "j < P" for i j P :: int using that by simp
  note rg = rg [OF uint_ge_0 assms(1) uint_ge_0 assms(2)]
  ultimately have "sint (a - b) = uint a - uint b" by (intro sint_of_int_eqI) simp_all
  then have "sint (signed_drop_bit 63 (a - b)) = (uint a - uint b) div 2 ^ 63" by (simp only: sint_signed_drop_bit_eq drop_bit_eq_div)
  also have "\<dots> = (if uint b \<le> uint a then 0 else - 1)"
    using rg by (intro div_int_eqI) (auto split: if_splits)
  also have "\<dots> = sint (if uint b \<le> uint a then 0 else - 1 :: u64)" by simp
  finally show ?thesis by (rule signed_word_eqI)
qed

lemma inner_step_cases:
  assumes "uint xa < 2 ^ 63" "uint xb < 2 ^ 63"
  shows "inner_step (xa, xb, p, s) =
    (if even (uint xa) then (drop_bit 1 xa, xb, p, push_bit 1 s)
     else if uint xb \<le> uint xa then (drop_bit 1 (xa - xb), xb, p - s, push_bit 1 s)
     else (drop_bit 1 (xb - xa), xa, s - p, push_bit 1 p))"
proof (cases "odd (uint xa) \<and> \<not> uint xb \<le> uint xa")
  case True
  then show ?thesis using masked_swap [where c = True and 'a = 64]
    by (simp add: inner_step_def mask_odd sign_of_difference [OF assms])
next
  case False
  then show ?thesis by (auto simp: inner_step_def mask_odd sign_of_difference [OF assms])
qed

text \<open>
  The factors are kept in the halves of a word, as a number \<open>f + 2 ^ 32 * g\<close> with signed \<open>f\<close> and \<open>g\<close>; after \<open>i\<close> steps
  their sizes add up to at most \<open>2 ^ i\<close>.
\<close>

definition factors :: "nat \<Rightarrow> u64 \<Rightarrow> int \<Rightarrow> int \<Rightarrow> bool" where
  "factors i w f g \<longleftrightarrow> w = word_of_int (f + 2 ^ 32 * g) \<and> \<bar>f\<bar> + \<bar>g\<bar> \<le> 2 ^ i \<and> - (2 ^ i) < f \<and> - (2 ^ i) < g"

definition inner_inv :: "nat \<Rightarrow> int \<Rightarrow> int \<Rightarrow> u64 \<times> u64 \<times> u64 \<times> u64 \<Rightarrow> bool" where
  "inner_inv i X Y = (\<lambda>(xa, xb, p, s). uint xa < 2 ^ 63 \<and> uint xb < 2 ^ 63 \<and> odd (uint xb) \<and>
     (\<exists>f0 g0 f1 g1. factors i p f0 g0 \<and> factors i s f1 g1 \<and> 2 ^ i * uint xa = f0 * X + g0 * Y \<and> 2 ^ i * uint xb = f1 * X + g1 * Y
       \<and> (0 < i \<longrightarrow> even f1 \<and> even g1)))"

lemma factors_weaken: "factors i w f g \<Longrightarrow> factors (Suc i) w f g"
  by (auto simp: factors_def intro: order_trans [of _ "2 ^ i"] less_le_trans)

lemma factors_double: "factors i w f g \<Longrightarrow> factors (Suc i) (push_bit 1 w) (2 * f) (2 * g)"
proof -
  assume a: "factors i w f g"
  then have "push_bit 1 w = word_of_int 2 * word_of_int (f + 2 ^ 32 * g)" unfolding factors_def push_bit_eq_mult by simp
  also have "\<dots> = word_of_int (2 * (f + 2 ^ 32 * g))" by (rule wi_hom_mult)
  also have "2 * (f + 2 ^ 32 * g) = 2 * f + 2 ^ 32 * (2 * g)" by simp
  finally show ?thesis using a by (simp add: factors_def abs_mult)
qed

lemma factors_diff:
  assumes "factors i w f g" "factors i w' f' g'"
  shows "factors (Suc i) (w - w') (f - f') (g - g')"
proof -
  have "w = word_of_int (f + 2 ^ 32 * g)" "w' = word_of_int (f' + 2 ^ 32 * g')" using assms by (simp_all only: factors_def)
  then have "w - w' = word_of_int (f + 2 ^ 32 * g - (f' + 2 ^ 32 * g'))" by (simp only: wi_hom_sub)
  also have "f + 2 ^ 32 * g - (f' + 2 ^ 32 * g') = f - f' + 2 ^ 32 * (g - g')" by simp
  finally have "w - w' = word_of_int (f - f' + 2 ^ 32 * (g - g'))" .
  moreover have "\<bar>f - f'\<bar> + \<bar>g - g'\<bar> \<le> 2 ^ Suc i"
    using assms abs_triangle_ineq4 [of f f'] abs_triangle_ineq4 [of g g'] by (simp add: factors_def)
  moreover have "- (2 ^ Suc i) < f - f'" "- (2 ^ Suc i) < g - g'"
    using assms abs_ge_self [of f'] abs_ge_self [of g'] abs_ge_zero [of f'] abs_ge_zero [of g'] unfolding factors_def power_Suc by linarith+
  ultimately show ?thesis unfolding factors_def by blast
qed

lemma inner_invI:
  assumes "uint xa < 2 ^ 63" "uint xb < 2 ^ 63" "odd (uint xb)" "factors i p f0 g0" "factors i s f1 g1"
    "2 ^ i * uint xa = f0 * X + g0 * Y" "2 ^ i * uint xb = f1 * X + g1 * Y" "0 < i \<longrightarrow> even f1 \<and> even g1"
  shows "inner_inv i X Y (xa, xb, p, s)"
  unfolding inner_inv_def prod.case using assms by blast

lemma half_uint: "even (uint w) \<Longrightarrow> 2 * uint (drop_bit 1 w) = uint w" for w :: "'a :: len word"
  by (simp add: uint_drop_bit)

lemma inner_inv_step:
  assumes "inner_inv i X Y st"
  shows "inner_inv (Suc i) X Y (inner_step st)"
proof -
  obtain xa xb p s where st: "st = (xa, xb, p, s)" by (rule prod_cases4)
  from assms st obtain f0 g0 f1 g1 where I: "uint xa < 2 ^ 63" "uint xb < 2 ^ 63" "odd (uint xb)"
    "factors i p f0 g0" "factors i s f1 g1" "2 ^ i * uint xa = f0 * X + g0 * Y" "2 ^ i * uint xb = f1 * X + g1 * Y"
    by (auto simp: inner_inv_def)
  have mk: "inner_inv (Suc i) X Y (drop_bit 1 a, b, p', push_bit 1 s')"
    if "uint a < 2 ^ 63" "uint b < 2 ^ 63" "even (uint a)" "odd (uint b)" "factors (Suc i) p' f g" "factors i s' f' g'"
      "2 ^ i * uint a = f * X + g * Y" "2 ^ i * uint b = f' * X + g' * Y" for a b p' s' f g f' g'
  proof -
    have "2 ^ Suc i * uint (drop_bit 1 a) = 2 ^ i * (2 * uint (drop_bit 1 a))" by simp
    then have "2 ^ Suc i * uint (drop_bit 1 a) = f * X + g * Y" unfolding half_uint [OF that(3)] that(7) .
    moreover have "2 ^ Suc i * uint b = 2 * f' * X + 2 * g' * Y" using that(8) by (simp add: algebra_simps)
    moreover have "uint (drop_bit 1 a) < 2 ^ 63" using that(1) half_uint [OF that(3)] uint_ge_0 [of a] by linarith
    ultimately show ?thesis by (intro inner_invI [OF _ that(2,4,5) factors_double [OF that(6)]]) simp_all
  qed
  have sub: "uint (a - b) = uint a - uint b" if "uint b \<le> uint a" for a b :: u64 using that by (rule uint_sub_le)
  show ?thesis
  proof (cases "even (uint xa)")
    case True
    then show ?thesis using mk [OF I(1,2) True I(3) factors_weaken [OF I(4)] I(5-7)] by (simp add: st inner_step_cases [OF I(1,2)])
  next
    case odd: False
    show ?thesis
    proof (cases "uint xb \<le> uint xa")
      case True
      have e: "2 ^ i * uint (xa - xb) = (f0 - f1) * X + (g0 - g1) * Y" unfolding sub [OF True] using I(6,7) by (simp add: algebra_simps)
      have lt: "uint (xa - xb) < 2 ^ 63" using sub [OF True] I(1) uint_ge_0 [of xb] by linarith
      from mk [OF lt I(2) _ I(3) factors_diff [OF I(4,5)] I(5) e I(7)] show ?thesis
        using True odd I(3) by (simp add: st inner_step_cases [OF I(1,2)] sub)
    next
      case False
      then have le: "uint xa \<le> uint xb" by simp
      have e: "2 ^ i * uint (xb - xa) = (f1 - f0) * X + (g1 - g0) * Y" unfolding sub [OF le] using I(6,7) by (simp add: algebra_simps)
      have lt: "uint (xb - xa) < 2 ^ 63" using sub [OF le] I(2) uint_ge_0 [of xa] by linarith
      from mk [OF lt I(1) _ _ factors_diff [OF I(5,4)] I(4) e I(6)] show ?thesis
        using False odd I(3) by (simp add: st inner_step_cases [OF I(1,2)] sub)
    qed
  qed
qed

text \<open>Reading the factors out of the two words.\<close>

lemma split_factor_sint:
  assumes "factors 31 w f g"
  shows "sint (fst (split_factor w)) = f" "sint (snd (split_factor w)) = g"
proof -
  let ?F = "f + (2 ^ 31 - 1)" and ?G = "g + (2 ^ 31 - 1)"
  have w: "w = word_of_int (f + 2 ^ 32 * g)" and b: "\<bar>f\<bar> + \<bar>g\<bar> \<le> 2 ^ 31" "- (2 ^ 31) < f" "- (2 ^ 31) < g" using assms by (simp_all add: factors_def)
  have F: "0 \<le> ?F" "?F < 2 ^ 32" "0 \<le> ?G" "?G < 2 ^ 32" using b by simp_all
  have e: "w + 0x7FFFFFFF7FFFFFFF = word_of_int (?F + 2 ^ 32 * ?G)" unfolding w by simp
  have "2 ^ 32 * ?G \<le> 2 ^ 32 * (2 ^ 32 - 1)" using F(4) by (intro mult_left_mono) simp_all
  then have u: "uint (w + 0x7FFFFFFF7FFFFFFF) = ?F + 2 ^ 32 * ?G" using F by (intro uint_of_int_eqI [OF e]) simp_all
  have "(0xFFFFFFFF :: u64) = mask 32" by (simp add: mask_eq_exp_minus_1)
  then have "uint ((w + 0x7FFFFFFF7FFFFFFF) AND 0xFFFFFFFF) = uint (w + 0x7FFFFFFF7FFFFFFF) mod 2 ^ 32"
    by (simp only: take_bit_eq_mask [symmetric] unsigned_take_bit_eq) (rule take_bit_eq_mod)
  also have "\<dots> = ?F mod 2 ^ 32" unfolding u by (rule mod_mult_self2)
  also have "\<dots> = ?F" using F(1,2) by (rule mod_pos_pos_trivial)
  finally have "(w + 0x7FFFFFFF7FFFFFFF) AND 0xFFFFFFFF = word_of_int ?F" by (metis word_of_int_uint)
  then have lo: "fst (split_factor w) = word_of_int f" by (simp add: split_factor_def Let_def)
  have "uint (drop_bit 32 (w + 0x7FFFFFFF7FFFFFFF)) = ?G" unfolding uint_drop_bit u using F(1,2) by simp
  then have "drop_bit 32 (w + 0x7FFFFFFF7FFFFFFF) = word_of_int ?G" by (metis word_of_int_uint)
  then have hi: "snd (split_factor w) = word_of_int g" by (simp add: split_factor_def Let_def)
  show "sint (fst (split_factor w)) = f" "sint (snd (split_factor w)) = g"
    using b unfolding lo hi by (auto intro!: sint_of_int_eqI)
qed

lemma flip_factor_sint:
  assumes "\<bar>sint f\<bar> \<le> 2 ^ 31" "neg = (if b then 1 else 0)"
  shows "sint (flip_factor f neg) = (if b then - sint f else sint f)"
proof (cases b)
  case True
  then have "flip_factor f neg = word_of_int (- sint f)" using assms(2) by (simp add: flip_factor_def)
  then have "sint (flip_factor f neg) = - sint f" by (rule sint_of_int_eqI) (use assms(1) in simp_all)
  then show ?thesis using True by simp
qed (use assms(2) in \<open>simp add: flip_factor_def\<close>)

lemma approx_value:
  fixes h w :: u32
  assumes "uint w < 2 ^ 31"
  shows "uint (push_bit 31 (ucast h) OR ucast w :: u64) = 2 ^ 31 * uint h + uint w"
proof -
  have "take_bit 31 w = w" using assms by (intro word_uint_eqI) (simp add: unsigned_take_bit_eq take_bit_int_eq_self)
  then have low: "bit w i \<Longrightarrow> i < 31" for i by (metis bit_take_bit_iff)
  have d: "push_bit 31 (ucast h) AND (ucast w :: u64) = 0"
    by (intro bit_word_eqI) (auto simp: bit_and_iff bit_push_bit_iff bit_unsigned_iff dest: low)
  have "uint h * 2 ^ 31 \<le> (2 ^ 32 - 1) * 2 ^ 31" using uint_lt2p [of h] by (intro mult_right_mono) simp_all
  then have l: "uint (push_bit 31 (ucast h) :: u64) = 2 ^ 31 * uint h" "2 ^ 31 * uint h + uint w < 2 ^ 64"
    using assms uint_mult_lt [of "ucast h :: u64" "2 ^ 31"] by (simp_all add: push_bit_eq_mult uint_wide)
  have "uint (push_bit 31 (ucast h) + ucast w :: u64) = 2 ^ 31 * uint h + uint w"
    by (subst uint_add_lt) (use l in \<open>simp_all add: uint_wide\<close>)
  then show ?thesis using d by (simp add: disjunctive_add_eq_or)
qed

text \<open>The steps on numbers instead of words: a plain binary GCD.\<close>

fun inner_int :: "nat \<Rightarrow> int \<times> int \<times> int \<times> int \<Rightarrow> int \<times> int \<times> int \<times> int" where
  "inner_int 0 st = st"
| "inner_int (Suc k) (a, b, p, s) = inner_int k
     (if even a then (a div 2, b, p, 2 * s) else if b \<le> a then ((a - b) div 2, b, p - s, 2 * s) else ((b - a) div 2, a, s - p, 2 * p))"

lemma uint63: "0 \<le> a \<Longrightarrow> a < 2 ^ 63 \<Longrightarrow> uint (word_of_int a :: u64) = a"
  by (rule uint_of_int_eqI [OF refl]) simp_all

lemma inner_step_int:
  assumes a: "0 \<le> a" "a < 2 ^ 63" and b: "0 \<le> b" "b < 2 ^ 63"
  shows "inner_step (word_of_int a, word_of_int b, word_of_int p, word_of_int s) =
    (if even a then (word_of_int (a div 2), word_of_int b, word_of_int p, word_of_int (2 * s))
     else if b \<le> a then (word_of_int ((a - b) div 2), word_of_int b, word_of_int (p - s), word_of_int (2 * s))
     else (word_of_int ((b - a) div 2), word_of_int a, word_of_int (s - p), word_of_int (2 * p)))"
proof -
  have h: "drop_bit 1 (word_of_int c) = (word_of_int (c div 2) :: u64)" if "0 \<le> c" "c < 2 ^ 63" for c
    by (rule word_uint_eqI) (use that in \<open>simp add: uint_drop_bit uint63 uint63 [of "c div 2"]\<close>)
  have d: "push_bit 1 (word_of_int c) = (word_of_int (2 * c) :: u64)" for c by (simp add: push_bit_eq_mult mult.commute)
  have u: "uint (word_of_int a :: u64) = a" "uint (word_of_int b :: u64) = b" using a b by (simp_all only: uint63)
  have ib: "uint (word_of_int a :: u64) < 2 ^ 63" "uint (word_of_int b :: u64) < 2 ^ 63" using a b by (simp_all only: u)
  show ?thesis unfolding inner_step_cases [OF ib] u d wi_hom_sub using h [of a] h [of "a - b"] h [of "b - a"] a b by simp
qed

lemma inner_step_funpow:
  assumes "0 \<le> a" "a < 2 ^ 63" "0 \<le> b" "b < 2 ^ 63"
  shows "(inner_step ^^ k) (word_of_int a, word_of_int b, word_of_int p, word_of_int s) =
    (case inner_int k (a, b, p, s) of (a', b', p', s') \<Rightarrow> (word_of_int a', word_of_int b', word_of_int p', word_of_int s'))"
  using assms
proof (induction k arbitrary: a b p s)
  case (Suc k)
  have h: "0 \<le> a div 2" "a div 2 < 2 ^ 63" "b \<le> a \<Longrightarrow> 0 \<le> (a - b) div 2 \<and> (a - b) div 2 < 2 ^ 63" "a \<le> b \<Longrightarrow> 0 \<le> (b - a) div 2 \<and> (b - a) div 2 < 2 ^ 63"
    using Suc.prems by auto
  show ?case
  proof (cases "even a")
    case True
    then show ?thesis unfolding funpow_Suc_right comp_def inner_step_int [OF Suc.prems] using Suc.IH [OF h(1,2) Suc.prems(3,4)]
      by (simp only: if_True inner_int.simps)
  next
    case odd: False
    show ?thesis
    proof (cases "b \<le> a")
      case True
      show ?thesis unfolding funpow_Suc_right comp_def inner_step_int [OF Suc.prems]
        using odd True Suc.IH [OF conjunct1 [OF h(3) [OF True]] conjunct2 [OF h(3) [OF True]] Suc.prems(3,4)]
        by (simp only: if_True if_False inner_int.simps)
    next
      case False
      then have le: "a \<le> b" by simp
      show ?thesis unfolding funpow_Suc_right comp_def inner_step_int [OF Suc.prems]
        using odd False Suc.IH [OF conjunct1 [OF h(4) [OF le]] conjunct2 [OF h(4) [OF le]] Suc.prems(1,2)]
        by (simp only: if_True if_False inner_int.simps)
    qed
  qed
qed simp

section \<open>The rounds\<close>

lemma zlimbs_length: "zlimbs 1 n d \<Longrightarrow> n \<le> length d"
  using zlimbs_nth(2) [of 1 n d "n - 1"] by (cases n) simp_all

lemma zval_low_word:
  assumes "0 < n" "zlimbs 1 n d"
  shows "zval 1 n d = uint (d ! 0) + 2 ^ 31 * (zval 1 n d div 2 ^ 31)" "uint (d ! 0) < 2 ^ 31" "odd (zval 1 n d) \<longleftrightarrow> odd (uint (d ! 0))"
proof -
  obtain k where n: "n = Suc k" using assms(1) by (cases n) simp_all
  have "zval 1 n d = uint (d ! 0) + 2 ^ 31 * (\<Sum>i<k. uint (d ! Suc i) * 2 ^ (31 * i))"
    unfolding n zval_def sum.lessThan_Suc_shift limb_power sum_distrib_left by (simp add: mult.left_commute)
  moreover show lt: "uint (d ! 0) < 2 ^ 31" using zlimbs_nth(1) [OF assms(2), of 0] n by simp
  ultimately have "zval 1 n d mod 2 ^ 31 = uint (d ! 0)" by simp
  then show e: "zval 1 n d = uint (d ! 0) + 2 ^ 31 * (zval 1 n d div 2 ^ 31)" by (metis mod_mult_div_eq)
  show "odd (zval 1 n d) \<longleftrightarrow> odd (uint (d ! 0))" by (subst e) simp
qed

lemma bezout_approx_value:
  assumes "uint (a ! 0) < 2 ^ 31" "uint (b ! 0) < 2 ^ 31" "bezout_approx a b n = (xa, xb)"
  obtains ha hb where "uint xa = 2 ^ 31 * ha + uint (a ! 0)" "uint xb = 2 ^ 31 * hb + uint (b ! 0)"
    "uint xa < 2 ^ 63" "uint xb < 2 ^ 63"
proof -
  obtain p s :: u32 where "xa = push_bit 31 (ucast p) OR ucast (a ! 0)" "xb = push_bit 31 (ucast s) OR ucast (b ! 0)"
    using assms(3) by (auto simp: bezout_approx_def Let_def split: prod.splits)
  then have "uint xa = 2 ^ 31 * uint p + uint (a ! 0)" "uint xb = 2 ^ 31 * uint s + uint (b ! 0)" using approx_value assms(1,2) by blast+
  moreover have "2 ^ 31 * uint h + l < 2 ^ 63" if "l < 2 ^ 31" for h :: u32 and l
    using that uint_lt2p [of h] by simp
  ultimately show ?thesis using assms(1,2) by (intro that) simp_all
qed

lemma inner_rounds:
  assumes "uint xa < 2 ^ 63" "uint xb < 2 ^ 63" "odd (uint xb)"
  shows "inner_inv i (uint xa) (uint xb) ((inner_step ^^ i) (xa, xb, 1, push_bit 32 1))"
proof (induction i)
  case 0
  have f: "factors 0 1 1 0" "factors 0 (push_bit 32 1) 0 1" by (simp_all add: factors_def push_bit_eq_mult)
  show ?case unfolding funpow_0 by (rule inner_invI [OF assms f]) simp_all
qed (simp add: inner_inv_step)

lemma cofactor_step:
  fixes A B A' U U' W f g c M :: int
  assumes "M dvd A - c * U" "M dvd B - c * U'" "2 ^ 31 * A' = f * A + g * B" "2 ^ 31 * W mod M = (U * f + U' * g) mod M" "odd M"
  shows "M dvd A' - c * W"
proof -
  have "M dvd 2 ^ 31 * W - (U * f + U' * g)" using assms(4) by (simp only: mod_eq_dvd_iff)
  then have "M dvd f * (A - c * U) + g * (B - c * U') - c * (2 ^ 31 * W - (U * f + U' * g))"
    by (rule dvd_diff [OF dvd_add [OF dvd_mult [OF assms(1)] dvd_mult [OF assms(2)]] dvd_mult])
  also have "f * (A - c * U) + g * (B - c * U') - c * (2 ^ 31 * W - (U * f + U' * g)) = 2 ^ 31 * (A' - c * W)"
    unfolding right_diff_distrib assms(3) by (simp add: algebra_simps)
  finally have "M dvd 2 ^ 31 * (A' - c * W)" .
  moreover have "coprime M (2 ^ 31)" using assms(5) by (simp only: coprime_power_right_iff coprime_right_2_iff_odd) simp
  ultimately show ?thesis by (simp only: coprime_dvd_mult_right_iff)
qed

text \<open>The effect of a round on the two numbers, and the factors it applies to the cofactors.\<close>

lemma reduce_step:
  assumes n: "0 < n" and I: "zlimbs 1 n a" "zlimbs 1 n b" "odd (zval 1 n b)"
    and ap: "bezout_approx a b n = (xa, xb)" and st: "(inner_step ^^ 31) (xa, xb, 1, push_bit 32 1) = (za, zb, p, s)"
    and sp: "split_factor p = (p0, q0)" "split_factor s = (p1, q1)"
    and cr: "zint_co_reduce a b n p0 q0 p1 q1 = (a', b', negab)"
  defines "f0 \<equiv> sint (flip_factor p0 (negab AND 1))" and "g0 \<equiv> sint (flip_factor q0 (negab AND 1))"
    and "f1 \<equiv> sint (flip_factor p1 (drop_bit 1 negab))" and "g1 \<equiv> sint (flip_factor q1 (drop_bit 1 negab))"
  shows "zlimbs 1 n a'" "zlimbs 1 n b'" "odd (zval 1 n b')"
    "2 ^ 31 * zval 1 n a' = f0 * zval 1 n a + g0 * zval 1 n b" "2 ^ 31 * zval 1 n b' = f1 * zval 1 n a + g1 * zval 1 n b"
    "\<bar>f0\<bar> + \<bar>g0\<bar> \<le> 2 ^ 31" "\<bar>f1\<bar> + \<bar>g1\<bar> \<le> 2 ^ 31"
proof -
  let ?v = "zval 1 n"
  note wa = zval_low_word [OF n I(1)] and wb = zval_low_word [OF n I(2)]
  obtain ha hb where h: "uint xa = 2 ^ 31 * ha + uint (a ! 0)" "uint xb = 2 ^ 31 * hb + uint (b ! 0)" "uint xa < 2 ^ 63" "uint xb < 2 ^ 63"
    by (rule bezout_approx_value [OF wa(2) wb(2) ap])
  have "odd (uint xb)" using I(3) wb(3) h(2) by simp
  from inner_rounds [OF h(3,4) this, of 31] st obtain e0 d0 e1 d1 where F: "odd (uint zb)" "factors 31 p e0 d0" "factors 31 s e1 d1"
    "2 ^ 31 * uint za = e0 * uint xa + d0 * uint xb" "2 ^ 31 * uint zb = e1 * uint xa + d1 * uint xb" "even e1" "even d1"
    by (auto simp: inner_inv_def)
  have sint: "sint p0 = e0" "sint q0 = d0" "sint p1 = e1" "sint q1 = d1"
    using split_factor_sint [OF F(2)] split_factor_sint [OF F(3)] by (simp_all add: sp)
  have fb: "\<bar>e0\<bar> + \<bar>d0\<bar> \<le> 2 ^ 31" "\<bar>e1\<bar> + \<bar>d1\<bar> \<le> 2 ^ 31" using F(2,3) by (simp_all add: factors_def)
  define ka kb where "ka = ?v a div 2 ^ 31 - ha" and "kb = ?v b div 2 ^ 31 - hb"
  have vab: "?v a = uint xa + 2 ^ 31 * ka" "?v b = uint xb + 2 ^ 31 * kb"
    using wa(1) wb(1) h(1,2) by (simp_all add: ka_def kb_def right_diff_distrib)
  have comb: "?v a * f + ?v b * g = 2 ^ 31 * (z + f * ka + g * kb)" if "2 ^ 31 * z = f * uint xa + g * uint xb" for z f g
    unfolding vab distrib_left that by (simp add: algebra_simps)
  let ?Ta = "uint za + e0 * ka + d0 * kb" and ?Tb = "uint zb + e1 * ka + d1 * kb"
  have dv: "2 ^ 31 dvd ?v a * e0 + ?v b * d0" "2 ^ 31 dvd ?v a * e1 + ?v b * d1"
    "(?v a * e0 + ?v b * d0) div 2 ^ 31 = ?Ta" "(?v a * e1 + ?v b * d1) div 2 ^ 31 = ?Tb"
    unfolding comb [OF F(4)] comb [OF F(5)] by simp_all
  note C = zint_co_reduce_spec [OF n zlimbs_length [OF I(1)] zlimbs_length [OF I(2)] I(1,2) _ _ _ _ cr, unfolded sint, OF fb dv(1,2), unfolded dv(3,4)]
  have ng: "negab AND 1 = (if ?Ta < 0 then 1 else 0)" "drop_bit 1 negab = (if ?Tb < 0 then 1 else 0)" unfolding C(3) by simp_all
  have le: "\<bar>e0\<bar> \<le> 2 ^ 31" "\<bar>d0\<bar> \<le> 2 ^ 31" "\<bar>e1\<bar> \<le> 2 ^ 31" "\<bar>d1\<bar> \<le> 2 ^ 31" using fb by linarith+
  have fl: "f0 = (if ?Ta < 0 then - e0 else e0)" "g0 = (if ?Ta < 0 then - d0 else d0)" "f1 = (if ?Tb < 0 then - e1 else e1)" "g1 = (if ?Tb < 0 then - d1 else d1)"
    using flip_factor_sint [of p0, unfolded sint, OF le(1) ng(1)] flip_factor_sint [of q0, unfolded sint, OF le(2) ng(1)]
      flip_factor_sint [of p1, unfolded sint, OF le(3) ng(2)] flip_factor_sint [of q1, unfolded sint, OF le(4) ng(2)]
    by (simp_all only: f0_def g0_def f1_def g1_def)
  show "\<bar>f0\<bar> + \<bar>g0\<bar> \<le> 2 ^ 31" "\<bar>f1\<bar> + \<bar>g1\<bar> \<le> 2 ^ 31" using fb by (simp_all add: fl)
  show "zlimbs 1 n a'" "zlimbs 1 n b'" using C(1,2) by simp_all
  have "odd ?Tb" using F(1,6,7) by simp
  then show "odd (?v b')" using C(2) by simp
  have "2 ^ 31 * \<bar>T\<bar> = (if T < 0 then - f else f) * A + (if T < 0 then - g else g) * B" if "A * f + B * g = 2 ^ 31 * T" for A B f g T :: int
    using that by (cases "T < 0") (simp_all add: mult.commute)
  then show "2 ^ 31 * ?v a' = f0 * ?v a + g0 * ?v b" "2 ^ 31 * ?v b' = f1 * ?v a + g1 * ?v b"
    using C(1,2) comb [OF F(4)] comb [OF F(5)] unfolding fl by metis+
qed

definition bezout_inv :: "nat \<Rightarrow> int \<Rightarrow> int \<Rightarrow> u32 list \<times> u32 list \<times> u32 list \<times> u32 list \<times> u32 list \<times> u32 list \<Rightarrow> bool" where
  "bezout_inv n X Y = (\<lambda>(a, b, u0, u1, v0, v1).
     list_all (zlimbs 1 n) [a, b, u0, u1, v0, v1] \<and> odd (zval 1 n b)
     \<and> zval 1 n u0 \<le> Y \<and> zval 1 n u1 \<le> Y \<and> zval 1 n v0 \<le> X \<and> zval 1 n v1 \<le> X
     \<and> Y dvd zval 1 n a - X * zval 1 n u0 \<and> Y dvd zval 1 n b - X * zval 1 n u1
     \<and> X dvd zval 1 n a - - Y * zval 1 n v0 \<and> X dvd zval 1 n b - - Y * zval 1 n v1)"

lemma bezout_round_inv:
  assumes n: "0 < n" and x: "zlimbs 1 n x" "odd (zval 1 n x)" and y: "zlimbs 1 n y" "odd (zval 1 n y)"
    and inv: "bezout_inv n (zval 1 n x) (zval 1 n y) (a, b, u0, u1, v0, v1)"
    and r: "bezout_round x y n (mp_ninv31 (x ! 0)) (mp_ninv31 (y ! 0)) (a, b, u0, u1, v0, v1) = (a', b', u0', u1', v0', v1')"
  shows "bezout_inv n (zval 1 n x) (zval 1 n y) (a', b', u0', u1', v0', v1') \<and> zval 1 n u1' < zval 1 n y \<and> zval 1 n v1' < zval 1 n x"
proof -
  let ?v = "zval 1 n" and ?X = "zval 1 n x" and ?Y = "zval 1 n y"
  from inv have I: "zlimbs 1 n a" "zlimbs 1 n b" "zlimbs 1 n u0" "zlimbs 1 n u1" "zlimbs 1 n v0" "zlimbs 1 n v1" "odd (?v b)"
    "?v u0 \<le> ?Y" "?v u1 \<le> ?Y" "?v v0 \<le> ?X" "?v v1 \<le> ?X"
    "?Y dvd ?v a - ?X * ?v u0" "?Y dvd ?v b - ?X * ?v u1" "?X dvd ?v a - - ?Y * ?v v0" "?X dvd ?v b - - ?Y * ?v v1"
    by (simp_all add: bezout_inv_def)
  obtain xa xb where ap: "bezout_approx a b n = (xa, xb)" by (rule prod.exhaust)
  obtain za zb p s where st: "(inner_step ^^ 31) (xa, xb, 1, push_bit 32 1) = (za, zb, p, s)" by (rule prod_cases4)
  obtain p0 q0 where s0: "split_factor p = (p0, q0)" by (rule prod.exhaust)
  obtain p1 q1 where s1: "split_factor s = (p1, q1)" by (rule prod.exhaust)
  obtain a2 b2 negab where cr: "zint_co_reduce a b n p0 q0 p1 q1 = (a2, b2, negab)" by (rule prod_cases3)
  let ?f = "\<lambda>f. flip_factor f (negab AND 1)" and ?g = "\<lambda>f. flip_factor f (drop_bit 1 negab)"
  obtain t0 t1 where cu: "zint_co_reduce_mod u0 u1 y n (mp_ninv31 (y ! 0)) (?f p0) (?f q0) (?g p1) (?g q1) = (t0, t1)" by (rule prod.exhaust)
  obtain w0 w1 where cv: "zint_co_reduce_mod v0 v1 x n (mp_ninv31 (x ! 0)) (?f p0) (?f q0) (?g p1) (?g q1) = (w0, w1)" by (rule prod.exhaust)
  have eq: "a' = a2" "b' = b2" "u0' = t0" "u1' = t1" "v0' = w0" "v1' = w1"
    using r by (simp_all only: bezout_round_def Let_def prod.case ap st s0 s1 cr cu cv prod.inject)
  note R = reduce_step [OF n I(1,2,7) ap st s0 s1 cr]
  have "odd k \<Longrightarrow> 0 \<le> k \<Longrightarrow> 0 < k" for k :: int by (cases "k = 0") simp_all
  note pos = this [OF x(2) zval_nonneg] this [OF y(2) zval_nonneg]
  have low: "odd (uint (x ! 0))" "odd (uint (y ! 0))" using zval_low_word(3) [OF n] x y by blast+
  note U = zint_co_reduce_mod_spec [OF n zlimbs_length [OF I(3)] zlimbs_length [OF I(4)] I(3,4) y(1) R(6,7) pos(2) I(8,9) mp_ninv31_spec [OF low(2)] cu]
  note V = zint_co_reduce_mod_spec [OF n zlimbs_length [OF I(5)] zlimbs_length [OF I(6)] I(5,6) x(1) R(6,7) pos(1) I(10,11) mp_ninv31_spec [OF low(1)] cv]
  from U V have m: "2 ^ 31 * ?v t0 mod ?Y = (?v u0 * sint (?f p0) + ?v u1 * sint (?f q0)) mod ?Y" "2 ^ 31 * ?v t1 mod ?Y = (?v u0 * sint (?g p1) + ?v u1 * sint (?g q1)) mod ?Y"
    "2 ^ 31 * ?v w0 mod ?X = (?v v0 * sint (?f p0) + ?v v1 * sint (?f q0)) mod ?X" "2 ^ 31 * ?v w1 mod ?X = (?v v0 * sint (?g p1) + ?v v1 * sint (?g q1)) mod ?X"
    by (simp_all add: mod_pair_def)
  note rel = cofactor_step [OF I(12,13) R(4) m(1) y(2)] cofactor_step [OF I(12,13) R(5) m(2) y(2)]
    cofactor_step [OF I(14,15) R(4) m(3) x(2)] cofactor_step [OF I(14,15) R(5) m(4) x(2)]
  show ?thesis unfolding eq bezout_inv_def prod.case using R(1-3) U V rel by (simp add: mod_pair_def)
qed

section \<open>The result\<close>

lemma or_loop_zero: "fold (\<lambda>j r. r OR f j) js z = 0 \<longleftrightarrow> z = 0 \<and> (\<forall>j\<in>set js. f j = 0)" for z :: u32
proof (induction js arbitrary: z)
  case (Cons j js)
  have "a OR b = 0 \<longleftrightarrow> a = 0 \<and> b = 0" for a b :: u32 by (rule or_eq_0_iff)
  then show ?case by (simp add: Cons)
qed simp

lemma xor_zero: "a XOR b = 0 \<longleftrightarrow> a = b" for a b :: u32
  by (auto simp: bit_eq_iff bit_xor_iff)

lemma zval_one:
  assumes "0 < n" "d ! 0 = 1" "\<And>j. 0 < j \<Longrightarrow> j < n \<Longrightarrow> d ! j = 0"
  shows "zval 1 n d = 1"
proof -
  obtain k where n: "n = Suc k" using assms(1) by (cases n) simp_all
  have "(\<Sum>i<k. uint (d ! Suc i) * 2 ^ (31 * Suc i)) = 0" by (rule sum.neutral) (use assms(3) n in simp)
  then show ?thesis unfolding n zval_def sum.lessThan_Suc_shift using assms(2) by simp
qed

lemma zval_copy: "zlimbs 1 n d \<Longrightarrow> zval 1 n (take n d @ e) = zval 1 n d" "zlimbs 1 n d \<Longrightarrow> zlimbs 1 n (take n d @ e)"
  using zlimbs_length [of n d]
  by (auto intro!: zval_cong zlimbsI simp: nth_append zlimbs_nth(1) [where st = 1, simplified])

lemma initial_state:
  assumes n: "0 < n" and x: "zlimbs 1 n x" "odd (zval 1 n x)" and y: "zlimbs 1 n y" "odd (zval 1 n y)"
  shows "bezout_inv n (zval 1 n x) (zval 1 n y) (take n x, take n y, 1 # replicate (n - 1) 0, take n y @ drop n u,
    replicate n 0, (take n x @ drop n v)[0 := x ! 0 - 1])"
proof -
  let ?v1 = "take n x @ drop n v" and ?w = "x ! 0 - 1"
  obtain k where k: "n = Suc k" using n by (cases n) simp_all
  have pos: "0 < zval 1 n d" if "odd (zval 1 n d)" for d
    using that zval_nonneg [of 1 n d] by (cases "zval 1 n d = 0") simp_all
  have "odd (uint (x ! 0))" using zval_low_word(3) [OF n x(1)] x(2) by simp
  moreover have "odd k \<Longrightarrow> 0 \<le> k \<Longrightarrow> 1 \<le> k" for k :: int by (cases "k = 0") simp_all
  ultimately have "1 \<le> uint (x ! 0)" using uint_ge_0 by blast
  then have w: "uint ?w = uint (x ! 0) - 1" using uint_sub_le [of 1 "x ! 0"] by simp
  have one: "zval 1 n (1 # replicate (n - 1) 0) = 1" "zlimbs 1 n (1 # replicate (n - 1) 0)"
    by (rule zval_one [OF n]; simp add: nth_Cons') (rule zlimbsI, use k in \<open>simp add: nth_Cons'\<close>)
  have zero: "zval 1 n (replicate n 0) = 0" "zlimbs 1 n (replicate n 0)" by (simp_all add: zval_def zlimbs_def list_all_iff)
  have len: "0 < length ?v1" using zlimbs_length [OF x(1)] k by simp
  have "zval 1 n (?v1[0 := ?w]) = zval 1 n ?v1 - 1"
    unfolding k zval_def sum.lessThan_Suc_shift using len w zlimbs_length [OF x(1)] k by (simp add: nth_append)
  then have v1: "zval 1 n (?v1[0 := ?w]) = zval 1 n x - 1" using zval_copy(1) [OF x(1), of "drop n v"] by simp
  have l1: "zlimbs 1 n (?v1[0 := ?w])"
  proof (rule zlimbsI)
    fix i assume "i < n"
    then show "i * 1 < length (?v1[0 := ?w]) \<and> uint (?v1[0 := ?w] ! (i * 1)) < 2 ^ 31"
      using zlimbs_nth [OF zval_copy(2) [OF x(1), of "drop n v"], of i] w zval_low_word(2) [OF n x(1)] len by (cases "i = 0") simp_all
  qed
  have "zval 1 n y - - zval 1 n y * (zval 1 n x - 1) = zval 1 n x * zval 1 n y" by (simp add: algebra_simps)
  then have "zval 1 n x dvd zval 1 n y - - zval 1 n y * zval 1 n (?v1[0 := ?w])" unfolding v1 by (simp only: dvd_triv_left)
  then show ?thesis unfolding bezout_inv_def
    using x y one zero v1 l1 pos [OF x(2)] pos [OF y(2)] zval_copy [OF x(1), of "[]"] zval_copy [OF y(1), of "[]"] zval_copy [OF y(1), of "drop n u"]
    by simp
qed

text \<open>The Bezout relation follows from the two congruences and the ranges, but for a modulus of 1.\<close>

lemma bezout_relation:
  fixes X Y U V :: int
  assumes "0 < X" "0 < Y" "0 \<le> U" "U < Y" "0 \<le> V" "V < X" "Y dvd 1 - X * U" "X dvd 1 - - Y * V"
  shows "coprime X Y" "X * U - Y * V = (if Y = 1 then 1 - X else 1)"
proof -
  show cp: "coprime X Y"
  proof (rule coprimeI)
    fix c assume "c dvd X" "c dvd Y"
    then have "c dvd 1 - X * U" "c dvd X * U" using assms(7) by (auto intro: dvd_trans)
    then have "c dvd (1 - X * U) + X * U" by (rule dvd_add)
    then show "is_unit c" by simp
  qed
  let ?D = "X * U - Y * V - 1"
  have "Y dvd - (1 - X * U)" using assms(7) by (simp only: dvd_minus_iff)
  then have "Y dvd - (1 - X * U) - Y * V" by (rule dvd_diff) simp
  moreover have "X dvd X * U - (1 - - Y * V)" by (rule dvd_diff [OF _ assms(8)]) simp
  ultimately have "Y dvd ?D" "X dvd ?D" by (simp_all add: algebra_simps)
  then have d: "X * Y dvd ?D" using cp by (intro divides_mult) simp_all
  have "X * U \<le> X * (Y - 1)" "Y * V \<le> Y * (X - 1)" by (intro mult_left_mono; use assms in simp)+
  moreover have "0 \<le> X * U" "0 \<le> Y * V" using assms by simp_all
  ultimately have b: "?D < X * Y" "- (X * Y) - 1 + Y \<le> ?D" using assms(1) by (simp_all add: right_diff_distrib mult.commute [of Y])
  show "X * U - Y * V = (if Y = 1 then 1 - X else 1)"
  proof (cases "Y = 1")
    case True
    then have "U = 0" using assms by simp
    moreover have "X dvd V + 1" using assms(8) True by (simp add: add.commute)
    then have "X \<le> V + 1" by (rule zdvd_imp_le) (use assms in simp)
    ultimately show ?thesis using True assms(6) by simp
  next
    case False
    then have "- (X * Y) < ?D" using b(2) assms(2) by simp
    have "?D = 0"
    proof (rule ccontr)
      assume "?D \<noteq> 0"
      then have "\<bar>X * Y\<bar> \<le> \<bar>?D\<bar>" using d by (rule dvd_imp_le_int)
      then show False using \<open>- (X * Y) < ?D\<close> b(1) by linarith
    qed
    then show ?thesis using False by simp
  qed
qed

text \<open>C25: a positive answer of the extended GCD comes with odd coprime inputs and reduced cofactors that satisfy the
  Bezout relation the source promises. The one exception is the second input 1, where the cofactors are 0 and the first
  input less one.\<close>

theorem zint_bezout_sound:
  assumes x: "zlimbs 1 n x" and y: "zlimbs 1 n y" and len: "n \<le> length u" "n \<le> length v" "4 * n \<le> length tmp"
    and run: "zint_bezout u v x y n tmp = (True, u', v', tmp')"
  shows "odd (zval 1 n x) \<and> odd (zval 1 n y) \<and> coprime (zval 1 n x) (zval 1 n y) \<and> zlimbs 1 n u' \<and> zlimbs 1 n v'
    \<and> zval 1 n u' < zval 1 n y \<and> zval 1 n v' < zval 1 n x
    \<and> zval 1 n x * zval 1 n u' - zval 1 n y * zval 1 n v' = (if zval 1 n y = 1 then 1 - zval 1 n x else 1)"
proof -
  let ?R = "bezout_round x y n (mp_ninv31 (x ! 0)) (mp_ninv31 (y ! 0))"
  let ?S = "(take n x, take n y, 1 # replicate (n - 1) 0, take n y @ drop n u, replicate n 0, (take n x @ drop n v)[0 := x ! 0 - 1])"
  have n: "0 < n" using run by (cases n) (simp_all add: zint_bezout_def)
  obtain a b u0 u1 v0 v1 where st: "(?R ^^ (2 * n + 1)) ?S = (a, b, u0, u1, v0, v1)" by (rule prod_cases6)
  have v1: "(take n x @ drop n v) ! 0 = x ! 0" using n zlimbs_length [OF x] by (simp add: nth_append)
  have res: "u' = u1" "v' = v1"
    and z: "fold (\<lambda>j r. r OR b ! j) [1..<n] (b ! 0 XOR 1) OR ((x ! 0 AND y ! 0 AND 1) XOR 1) = 0"
    using run n by (simp_all only: zint_bezout_def Let_def v1 st prod.case prod.inject less_not_refl3 if_False) simp_all
  have zz: "fold (\<lambda>j r. r OR b ! j) [1..<n] (b ! 0 XOR 1) = 0" "(x ! 0 AND y ! 0 AND 1) XOR 1 = 0" using z by (simp_all only: or_eq_0_iff)
  have b: "b ! 0 = 1" "\<And>j. 0 < j \<Longrightarrow> j < n \<Longrightarrow> b ! j = 0" using zz(1) unfolding or_loop_zero xor_zero by auto
  have odd: "odd (zval 1 n x)" "odd (zval 1 n y)"
    using zz(2) zval_low_word(3) [OF n x] zval_low_word(3) [OF n y] by (simp_all add: word_and_one and.assoc [symmetric] split: if_splits)
  have inv: "bezout_inv n (zval 1 n x) (zval 1 n y) ((?R ^^ k) ?S) \<and> (0 < k \<longrightarrow> (case (?R ^^ k) ?S of (a, b, u0, u1, v0, v1) \<Rightarrow>
      zval 1 n u1 < zval 1 n y \<and> zval 1 n v1 < zval 1 n x))" for k
  proof (induction k)
    case 0
    then show ?case using initial_state [OF n x odd(1) y odd(2)] by simp
  next
    case (Suc k)
    obtain p1 p2 p3 p4 p5 p6 where p: "(?R ^^ k) ?S = (p1, p2, p3, p4, p5, p6)" by (rule prod_cases6)
    obtain s1 s2 s3 s4 s5 s6 where s: "?R (p1, p2, p3, p4, p5, p6) = (s1, s2, s3, s4, s5, s6)" by (rule prod_cases6)
    show ?case using bezout_round_inv [OF n x odd(1) y odd(2) _ s] Suc p s by simp
  qed
  from inv [of "2 * n + 1"] st have I: "zlimbs 1 n u1" "zlimbs 1 n v1" "zval 1 n u1 < zval 1 n y" "zval 1 n v1 < zval 1 n x"
    "zval 1 n y dvd zval 1 n b - zval 1 n x * zval 1 n u1" "zval 1 n x dvd zval 1 n b - - zval 1 n y * zval 1 n v1"
    by (simp_all add: bezout_inv_def del: funpow.simps)
  have pos: "0 < zval 1 n x" "0 < zval 1 n y" using I(3,4) zval_nonneg [of 1 n u1] zval_nonneg [of 1 n v1] by linarith+
  have b1: "zval 1 n b = 1" by (rule zval_one [OF n b])
  note B = bezout_relation [OF pos zval_nonneg I(3) zval_nonneg I(4) I(5,6) [unfolded b1]]
  show ?thesis using odd I(1-4) B by (simp add: res)
qed

text \<open>The rounds on 7 and 5: the first one finds the answer, and the others keep it.\<close>

lemma sample_inner:
  "(inner_step ^^ 31) (7, 5, 1, 0x100000000) = (0, 1, 30064771067, word_of_int (- 4611686017353646080))"
  "(inner_step ^^ 31) (0, 1, 1, 0x100000000) = (0, 1, 1, 9223372036854775808)"
proof -
  have "inner_int 31 (7, 5, 1, 4294967296) = (0, 1, 30064771067, - 4611686017353646080)" by code_simp
  then show "(inner_step ^^ 31) (7, 5, 1, 0x100000000) = (0, 1, 30064771067, word_of_int (- 4611686017353646080))"
    using inner_step_funpow [of 7 5 31 1 4294967296] by simp
  have "inner_int 31 (0, 1, 1, 4294967296) = (0, 1, 1, 9223372036854775808)" by code_simp
  then show "(inner_step ^^ 31) (0, 1, 1, 0x100000000) = (0, 1, 1, 9223372036854775808)"
    using inner_step_funpow [of 0 1 31 1 4294967296] by simp
qed

lemma sample_split:
  "split_factor 30064771067 = (- 5, 7)" "split_factor (word_of_int (- 4611686017353646080)) = (1073741824, - 1073741824)"
  "split_factor 1 = (1, 0)" "split_factor 9223372036854775808 = (0, 2147483648)"
  by (simp_all add: split_factor_def)

lemma sample_approx: "bezout_approx [7] [5] 1 = (7, 5)" "bezout_approx [0] [1] 1 = (0, 1)"
proof -
  have "lzcnt32 0x7fffffff = 1" by (simp add: lzcnt32_def Let_def)
  then show "bezout_approx [7] [5] 1 = (7, 5)" "bezout_approx [0] [1] 1 = (0, 1)" by (simp_all add: bezout_approx_def scan_word_def Let_def)
qed

lemma sample_co_reduce:
  "zint_co_reduce [7] [5] 1 (- 5) 7 1073741824 (- 1073741824) = ([0], [1], 0)"
  "zint_co_reduce [0] [1] 1 1 0 0 2147483648 = ([0], [1], 0)"
  by (simp_all add: zint_co_reduce_def co_reduce_step_def shift_word_def zint_negate_def Let_def)

lemma sample_co_reduce_mod:
  "zint_co_reduce_mod [1] [5] [5] 1 858993459 (- 5) 7 1073741824 (- 1073741824) = ([0], [3])"
  "zint_co_reduce_mod [0] [6] [7] 1 1227133513 (- 5) 7 1073741824 (- 1073741824) = ([0], [4])"
  "zint_co_reduce_mod [0] [3] [5] 1 858993459 1 0 0 2147483648 = ([0], [3])"
  "zint_co_reduce_mod [0] [4] [7] 1 1227133513 1 0 0 2147483648 = ([0], [4])"
  by (simp_all add: zint_co_reduce_mod_def co_reduce_mod_step_def shift_word_def zint_finish_mod_def Let_def mask_eq_exp_minus_1)

lemma sample_rounds:
  "bezout_round [7] [5] 1 1227133513 858993459 ([7], [5], [1], [5], [0], [6]) = ([0], [1], [0], [3], [0], [4])"
  "bezout_round [7] [5] 1 1227133513 858993459 ([0], [1], [0], [3], [0], [4]) = ([0], [1], [0], [3], [0], [4])"
proof -
  have flip: "flip_factor f (0 AND 1) = f" "flip_factor f (drop_bit 1 0) = f" for f by (simp_all add: flip_factor_def)
  have one: "(push_bit 32 1 :: u64) = 0x100000000" by simp
  show "bezout_round [7] [5] 1 1227133513 858993459 ([7], [5], [1], [5], [0], [6]) = ([0], [1], [0], [3], [0], [4])"
    "bezout_round [7] [5] 1 1227133513 858993459 ([0], [1], [0], [3], [0], [4]) = ([0], [1], [0], [3], [0], [4])"
    by (simp_all only: bezout_round_def Let_def prod.case sample_approx one sample_inner sample_split sample_co_reduce flip sample_co_reduce_mod)
qed

lemma sample_bezout: "zint_bezout [0] [0] [7] [5] 1 [0, 0, 0, 0] = (True, [3], [4], [0, 0, 0, 1])"
proof -
  have ninv: "mp_ninv31 ([7] ! 0) = 1227133513" "mp_ninv31 ([5] ! 0) = 858993459" by (simp_all add: mp_ninv31_def Let_def)
  have init: "take 1 [7] = [7 :: u32]" "take 1 [5] = [5 :: u32]" "1 # replicate (1 - 1) 0 = [1 :: u32]" "take 1 [5] @ drop 1 [0] = [5 :: u32]"
    "replicate 1 0 = [0 :: u32]" "(take 1 [7] @ drop 1 [0])[0 := (take 1 [7] @ drop 1 [0]) ! 0 - 1] = [6 :: u32]" by simp_all
  have three: "2 * 1 + 1 = Suc (Suc (Suc 0))" by simp
  show ?thesis
    unfolding zint_bezout_def Let_def ninv init three funpow.simps comp_def id_apply by (simp add: sample_rounds [unfolded One_nat_def])
qed

theorem zint_bezout_sound_witness:
  "zval 1 1 [7] * zval 1 1 [3] - zval 1 1 [5] * zval 1 1 [4] = 1"
proof -
  have "zlimbs 1 1 [7]" "zlimbs 1 1 [5]" by (simp_all add: zlimbs_def)
  then show ?thesis using zint_bezout_sound [OF _ _ _ _ _ sample_bezout] by (simp add: zval_def)
qed

end
