(* ===== verification/ZintScaled.thy ===== *)
theory ZintScaled
  imports ZintGcd
begin

unbundle bit_operations_syntax

text \<open>
  Scaled additions of big integers (the end of \<^verbatim>\<open>backend/pkg/fndsa/kgen_zint31.go\<close>): adding to one signed integer a small
  multiple of another, shifted by any number of bits, and the special case of a subtraction. The shorter operand is
  extended by its sign; the result is exact modulo the size of the longer one.
\<close>

section \<open>The operations\<close>

definition scaled_word :: "u32 list \<Rightarrow> nat \<Rightarrow> nat \<Rightarrow> u32 \<Rightarrow> nat \<Rightarrow> u32" where
  "scaled_word y ylen stride ysign t = (if t < ylen then y ! (t * stride) else ysign)"

definition scaled_sign :: "u32 list \<Rightarrow> nat \<Rightarrow> nat \<Rightarrow> u32" where
  "scaled_sign y ylen stride = drop_bit 1 (- drop_bit 30 (y ! (stride * (ylen - 1))))"

definition zint_add_scaled_mul_small ::
  "u32 list \<Rightarrow> nat \<Rightarrow> u32 list \<Rightarrow> nat \<Rightarrow> nat \<Rightarrow> u32 \<Rightarrow> u32 \<Rightarrow> u32 \<Rightarrow> u32 list" where
  "zint_add_scaled_mul_small x xlen y ylen stride k sch scl =
     (if ylen = 0 then x
      else let ysign = scaled_sign y ylen stride
           in fst (fold (\<lambda>i (x, tw, cc).
                let wy = scaled_word y ylen stride ysign (i - unat sch);
                    wys = (push_bit (unat scl) wy AND 0x7FFFFFFF) OR tw;
                    z = ucast wys * scast k + ucast (x ! (i * stride)) + scast cc :: u64
                in (x[i * stride := ucast z AND 0x7FFFFFFF], drop_bit (unat (31 - scl)) wy, ucast (drop_bit 31 z)))
              [unat sch..<xlen] (x, 0, 0 :: u32)))"

definition zint_sub_scaled :: "u32 list \<Rightarrow> nat \<Rightarrow> u32 list \<Rightarrow> nat \<Rightarrow> nat \<Rightarrow> u32 \<Rightarrow> u32 \<Rightarrow> u32 list" where
  "zint_sub_scaled x xlen y ylen stride sch scl =
     (if ylen = 0 then x
      else let ysign = scaled_sign y ylen stride
           in fst (fold (\<lambda>i (x, tw, cc).
                let wy = scaled_word y ylen stride ysign (i - unat sch);
                    wys = (push_bit (unat scl) wy AND 0x7FFFFFFF) OR tw;
                    w = x ! (i * stride) - wys - cc
                in (x[i * stride := w AND 0x7FFFFFFF], drop_bit (unat (31 - scl)) wy, drop_bit 31 w))
              [unat sch..<xlen] (x, 0, 0)))"

section \<open>The words of the shifted operand\<close>

lemma or_below:
  fixes a t :: u32
  assumes t: "uint t < 2 ^ s" and a: "\<And>i. i < s \<Longrightarrow> \<not> bit a i" and lt: "uint a + uint t < 2 ^ 32"
  shows "uint (a OR t) = uint a + uint t"
proof -
  have "take_bit s t = t" using t by (intro word_uint_eqI) (simp add: unsigned_take_bit_eq take_bit_int_eq_self)
  then have low: "bit t i \<Longrightarrow> i < s" for i by (metis bit_take_bit_iff)
  have "a AND t = 0" by (intro bit_word_eqI) (auto simp: bit_and_iff dest: low a)
  then have "a OR t = a + t" by (simp add: disjunctive_add_eq_or)
  then show ?thesis using uint_add_lt [of a t] lt by simp
qed

lemma shifted_word:
  fixes w t :: u32
  assumes s: "s < 31" and w: "uint w < 2 ^ 31" and t: "uint t < 2 ^ s"
  shows "uint ((push_bit s w AND 0x7FFFFFFF) OR t) = (2 ^ s * uint w) mod 2 ^ 31 + uint t"
    "(2 ^ s * uint w) mod 2 ^ 31 + uint t < 2 ^ 31"
    "uint (drop_bit (31 - s) w) = (2 ^ s * uint w) div 2 ^ 31" "uint (drop_bit (31 - s) w) < 2 ^ s"
proof -
  have P: "(2 :: int) ^ 31 = 2 ^ s * 2 ^ (31 - s)" using s by (simp flip: power_add)
  have "uint (push_bit s w) = take_bit LENGTH(32) (push_bit s (uint w))" by (rule unsigned_push_bit_eq)
  then have "uint (push_bit s w) = (2 ^ s * uint w) mod 2 ^ 32"
    by (simp only: push_bit_eq_mult [of s "uint w"] take_bit_eq_mod mult.commute [of "2 ^ s"]) simp
  then have l: "uint (push_bit s w AND 0x7FFFFFFF) = (2 ^ s * uint w) mod 2 ^ 31" unfolding low31 by (simp add: mod_mod_cancel)
  have "(2 ^ s * uint w) mod 2 ^ 31 = 2 ^ s * (uint w mod 2 ^ (31 - s))" unfolding P by (rule mult_mod_right [symmetric])
  also have "\<dots> \<le> 2 ^ s * (2 ^ (31 - s) - 1)" by (rule mult_left_mono) simp_all
  also have "\<dots> = 2 ^ 31 - 2 ^ s" unfolding P by (simp add: right_diff_distrib)
  finally show b: "(2 ^ s * uint w) mod 2 ^ 31 + uint t < 2 ^ 31" using t by linarith
  show "uint ((push_bit s w AND 0x7FFFFFFF) OR t) = (2 ^ s * uint w) mod 2 ^ 31 + uint t" unfolding l [symmetric]
    by (rule or_below [OF t]) (use b in \<open>simp_all add: l bit_and_iff bit_push_bit_iff\<close>)
  show e: "uint (drop_bit (31 - s) w) = (2 ^ s * uint w) div 2 ^ 31" unfolding uint_drop_bit P by simp
  have "2 ^ s * uint w < 2 ^ s * 2 ^ 31" by (rule mult_strict_left_mono [OF w]) simp
  moreover have "2 ^ s * uint w div 2 ^ 31 * 2 ^ 31 + 2 ^ s * uint w mod 2 ^ 31 = 2 ^ s * uint w" by (rule div_mult_mod_eq)
  moreover have "0 \<le> 2 ^ s * uint w mod 2 ^ 31" by simp
  ultimately have "2 ^ s * uint w div 2 ^ 31 * 2 ^ 31 < 2 ^ s * 2 ^ 31" by linarith
  then show "uint (drop_bit (31 - s) w) < 2 ^ s" unfolding e by simp
qed

lemma sign_word:
  assumes n: "0 < n" and y: "zlimbs st n y"
  shows "uint (scaled_sign y n st) = (if zsval st n y < 0 then 2 ^ 31 - 1 else 0)"
proof -
  let ?t = "y ! ((n - 1) * st)"
  have t: "uint ?t < 2 ^ 31" by (rule zlimbs_nth(1) [OF y]) (use n in simp)
  have neg: "zsval st n y < 0 \<longleftrightarrow> \<not> uint ?t < 2 ^ 30"
    using n zval_nonneg [of st n y] zval_lt [OF y] by (simp add: zsval_def)
  have "uint ?t div 2 ^ 30 = (if uint ?t < 2 ^ 30 then 0 else 1)" using t by (intro div_int_eqI) (simp_all split: if_splits)
  then have "drop_bit 30 ?t = (if uint ?t < 2 ^ 30 then 0 else 1)" by (intro word_uint_eqI) (simp add: uint_drop_bit)
  moreover have "drop_bit 1 (- 1 :: u32) = 0x7FFFFFFF" by code_simp
  ultimately show ?thesis unfolding neg scaled_sign_def mult.commute [of st] by simp
qed

text \<open>The sign-extended words represent the signed number modulo every power of the word size.\<close>

lemma prefix_mod: "(\<Sum>t<m + k. f t * 2 ^ (31 * t)) mod 2 ^ (31 * m) = (\<Sum>t<m. f t * 2 ^ (31 * t)) mod (2 :: int) ^ (31 * m)"
proof (induction k)
  case (Suc k)
  have "(2 :: int) ^ (31 * (m + k)) = 2 ^ (31 * m) * 2 ^ (31 * k)" by (simp only: distrib_left power_add)
  then have "(\<Sum>t<m + Suc k. f t * 2 ^ (31 * t)) = (\<Sum>t<m + k. f t * 2 ^ (31 * t)) + f (m + k) * 2 ^ (31 * k) * 2 ^ (31 * m)" by simp
  then show ?case using Suc by (simp only: mod_mult_self1)
qed simp

lemma extended_value:
  assumes n: "0 < n" and y: "zlimbs st n y"
  shows "(\<Sum>t<m. uint (scaled_word y n st (scaled_sign y n st) t) * 2 ^ (31 * t)) mod 2 ^ (31 * m) = zsval st n y mod 2 ^ (31 * m)"
proof -
  let ?f = "\<lambda>t. uint (scaled_word y n st (scaled_sign y n st) t)" and ?z = "zsval st n y"
  have e: "(\<Sum>t<n + k. ?f t * 2 ^ (31 * t)) = ?z + (if ?z < 0 then 2 ^ (31 * (n + k)) else 0)" for k
  proof (induction k)
    case 0
    have "zsval st n y < 0 \<longleftrightarrow> \<not> uint (y ! ((n - 1) * st)) < 2 ^ 30"
      using n zval_nonneg [of st n y] zval_lt [OF y] by (simp add: zsval_def)
    then have "zval st n y = ?z + (if ?z < 0 then 2 ^ (31 * n) else 0)" using n by (simp add: zsval_def)
    then show ?case by (simp add: zval_def scaled_word_def)
  next
    case (Suc k)
    have "?f (n + k) = (if ?z < 0 then 2 ^ 31 - 1 else 0)" using sign_word [OF n y] by (simp add: scaled_word_def)
    then show ?case using Suc unfolding add_Suc_right limb_power by (simp add: left_diff_distrib)
  qed
  have "(\<Sum>t<m. ?f t * 2 ^ (31 * t)) mod 2 ^ (31 * m) = (\<Sum>t<n + m. ?f t * 2 ^ (31 * t)) mod 2 ^ (31 * m)"
    unfolding add.commute [of n] by (rule prefix_mod [symmetric])
  also have "\<dots> = (?z + (if ?z < 0 then 2 ^ (31 * n) else 0) * 2 ^ (31 * m)) mod 2 ^ (31 * m)"
    unfolding e by (simp add: distrib_left power_add)
  finally show ?thesis by (simp only: mod_mult_self1)
qed

section \<open>One step\<close>

text \<open>A carry is the part of the shifted operand that moves to the next word, and the carry of the product.\<close>

lemma scaled_step:
  fixes w t x k c :: u32
  assumes s: "s < 31" and w: "uint w < 2 ^ 31" and t: "uint t < 2 ^ s" and x: "uint x < 2 ^ 31"
  defines "wys \<equiv> (push_bit s w AND 0x7FFFFFFF) OR t"
  defines "z \<equiv> ucast wys * scast k + ucast x + scast c :: u64"
  shows "uint (ucast z AND 0x7FFFFFFF :: u32) + 2 ^ 31 * (sint k * uint (drop_bit (31 - s) w) + sint (ucast (drop_bit 31 z) :: u32))
      = (uint x + sint k * (2 ^ s * uint w)) + (sint k * uint t + sint c)"
    "uint wys < 2 ^ 31" "uint (drop_bit (31 - s) w) < 2 ^ s"
proof -
  note w1 = shifted_word [OF s w t, folded wys_def]
  show wb: "uint wys < 2 ^ 31" unfolding w1(1) by (rule w1(2))
  show "uint (drop_bit (31 - s) w) < 2 ^ s" by (rule w1(4))
  let ?S = "uint wys * sint k + uint x + sint c"
  have kb: "- (2 ^ 31) \<le> sint v" "sint v \<le> 2 ^ 31 - 1" for v :: u32 using sint_greater_eq [of v] sint_less [of v] by simp_all
  have m: "- (2 ^ 31 - 1) * 2 ^ 31 \<le> p * r \<and> p * r \<le> (2 ^ 31 - 1) * (2 ^ 31 - 1)" if "0 \<le> p" "p \<le> 2 ^ 31 - 1" "- (2 ^ 31) \<le> r" "r \<le> 2 ^ 31 - 1" for p r :: int
  proof
    have "p * r \<le> p * (2 ^ 31 - 1)" by (rule mult_left_mono) (use that in simp_all)
    also have "\<dots> \<le> (2 ^ 31 - 1) * (2 ^ 31 - 1)" by (rule mult_right_mono) (use that in simp_all)
    finally show "p * r \<le> (2 ^ 31 - 1) * (2 ^ 31 - 1)" .
    have "p * - r \<le> p * 2 ^ 31" by (rule mult_left_mono) (use that in simp_all)
    also have "\<dots> \<le> (2 ^ 31 - 1) * 2 ^ 31" by (rule mult_right_mono) (use that in simp_all)
    finally show "- (2 ^ 31 - 1) * 2 ^ 31 \<le> p * r" by simp
  qed
  have b: "- (2 ^ 62) \<le> ?S" "?S < 2 ^ 62"
  proof -
    have add: "- (2 ^ 62) \<le> u + v + r \<and> u + v + r < 2 ^ 62" if "- (2 ^ 31 - 1) * 2 ^ 31 \<le> u \<and> u \<le> (2 ^ 31 - 1) * (2 ^ 31 - 1)"
      "0 \<le> v" "v < 2 ^ 31" "- (2 ^ 31) \<le> r" "r \<le> 2 ^ 31 - 1" for u v r :: int using that by simp
    have "uint wys \<le> 2 ^ 31 - 1" using wb by simp
    from add [OF m [OF uint_ge_0 this kb] uint_ge_0 x kb [of c], of k] show "- (2 ^ 62) \<le> ?S" "?S < 2 ^ 62" by blast+
  qed
  have zw: "z = word_of_int ?S" by (simp add: z_def)
  have z: "sint z = ?S" by (rule sint_of_int_eqI [OF zw]) (use b in simp_all)
  have "uint z = ?S mod 2 ^ LENGTH(64)" unfolding zw by (rule uint_word_of_int)
  then have uz: "uint z = ?S mod 2 ^ 64" by simp
  have "?S = uint z + 2 ^ 64 * (?S div 2 ^ 64)" unfolding uz by simp
  then have "?S div 2 ^ 31 = (uint z + 2 ^ 31 * (2 ^ 33 * (?S div 2 ^ 64))) div 2 ^ 31" by simp
  also have "\<dots> = uint z div 2 ^ 31 + 2 ^ 33 * (?S div 2 ^ 64)" by (subst div_mult_self2) simp_all
  finally have "word_of_int (?S div 2 ^ 31) = (word_of_int (uint z div 2 ^ 31) + word_of_int (2 ^ 33) * word_of_int (?S div 2 ^ 64) :: u32)"
    by (simp only: wi_hom_add wi_hom_mult)
  also have "word_of_int (2 ^ 33) = (0 :: u32)" by simp
  finally have "word_of_int (?S div 2 ^ 31) = (word_of_int (uint z div 2 ^ 31) :: u32)" by simp
  also have "\<dots> = ucast (drop_bit 31 z)" by (simp only: ucast_eq uint_drop_bit)
  finally have h: "ucast (drop_bit 31 z) = (word_of_int (?S div 2 ^ 31) :: u32)" ..
  have "- (2 ^ 62) div 2 ^ 31 \<le> ?S div 2 ^ 31" "?S div 2 ^ 31 \<le> (2 ^ 62 - 1) div 2 ^ 31" by (rule zdiv_mono1; use b in simp)+
  then have hi: "sint (ucast (drop_bit 31 z) :: u32) = ?S div 2 ^ 31" by (intro sint_of_int_eqI [OF h]) simp_all
  have lo: "uint (ucast z AND 0x7FFFFFFF :: u32) = ?S mod 2 ^ 31" unfolding low31_signed z ..
  have "2 ^ s * uint w = (2 ^ s * uint w) mod 2 ^ 31 + 2 ^ 31 * uint (drop_bit (31 - s) w)" unfolding w1(3) by simp
  then have W: "2 ^ s * uint w = uint wys - uint t + 2 ^ 31 * uint (drop_bit (31 - s) w)" unfolding w1(1) by linarith
  have "?S mod 2 ^ 31 + 2 ^ 31 * (?S div 2 ^ 31) = ?S" by (rule mod_div_31)
  then show "uint (ucast z AND 0x7FFFFFFF :: u32) + 2 ^ 31 * (sint k * uint (drop_bit (31 - s) w) + sint (ucast (drop_bit 31 z) :: u32))
      = (uint x + sint k * (2 ^ s * uint w)) + (sint k * uint t + sint c)" unfolding lo hi W by (simp add: algebra_simps)
qed

section \<open>The loops\<close>

text \<open>A loop that starts at a later word is the loop on the rest of the slice.\<close>

lemma fold_offset:
  fixes lo :: "nat \<Rightarrow> u32 \<Rightarrow> 'c \<Rightarrow> u32"
  assumes "off * st \<le> length x"
  shows "fold (\<lambda>i (x, c). (x[i * st := lo (i - off) (x ! (i * st)) c], hi (i - off) (x ! (i * st)) c)) [off..<off + k] (x, c) =
    (let (d, c') = fold (\<lambda>i (d, c). (d[i * st := lo i (d ! (i * st)) c], hi i (d ! (i * st)) c)) [0..<k] (drop (off * st) x, c)
     in (take (off * st) x @ d, c'))"
proof (induction k)
  case (Suc k)
  obtain d e where F: "fold (\<lambda>i (d, c). (d[i * st := lo i (d ! (i * st)) c], hi i (d ! (i * st)) c)) [0..<k] (drop (off * st) x, c) = (d, e)"
    by (rule prod.exhaust)
  have "(take (off * st) x @ d) ! ((off + k) * st) = d ! (k * st)"
    "(take (off * st) x @ d)[(off + k) * st := v] = take (off * st) x @ d[k * st := v]" for v
    by (simp_all add: nth_append list_update_append distrib_right assms min.absorb2)
  then show ?case using Suc F by (simp add: Let_def)
qed simp

lemma zval_split:
  assumes "m * st \<le> length d"
  shows "zval st (m + n) d = zval st m d + 2 ^ (31 * m) * zval st n (drop (m * st) d)"
proof (induction n)
  case (Suc n)
  have "drop (m * st) d ! (n * st) = d ! ((m + n) * st)" using assms by (simp add: distrib_right)
  then show ?case unfolding add_Suc_right zval_Suc Suc by (simp add: distrib_left power_add)
qed simp

lemma zsval_mod: "zsval st n d mod 2 ^ (31 * n) = zval st n d mod 2 ^ (31 * n)"
  using mod_mult_self2 [of "zval st n d" "2 ^ (31 * n)" "- 1"] by (simp add: zsval_def)

lemma scaled_word_lt: "0 < n \<Longrightarrow> zlimbs st n y \<Longrightarrow> uint (scaled_word y n st (scaled_sign y n st) t) < 2 ^ 31"
  using sign_word [of n st y] zlimbs_nth(1) [of st n y t] by (simp add: scaled_word_def)

text \<open>An integer whose high words have been replaced.\<close>

lemma rebuilt:
  assumes st: "0 < st" and x: "zlimbs st (m + j) x" and len: "m * st \<le> length x"
    and d: "length d = length (drop (m * st) x)" "zlimbs st j d"
  defines "x' \<equiv> take (m * st) x @ d"
  shows "zlimbs st (m + j) x'" "length x' = length x" "zval st (m + j) x' = zval st m x + 2 ^ (31 * m) * zval st j d"
proof -
  have lt: "length (take (m * st) x) = m * st" using len by simp
  have high: "x' ! ((m + i) * st) = d ! (i * st)" for i
    unfolding x'_def distrib_right by (subst (2) lt [symmetric]) (rule nth_append_length_plus)
  have low: "x' ! (i * st) = x ! (i * st)" if "i < m" for i
  proof -
    have "i * st < m * st" using that st by simp
    then show ?thesis using len by (simp add: x'_def nth_append)
  qed
  show l: "length x' = length x" using d len by (simp add: x'_def)
  show "zlimbs st (m + j) x'"
  proof (rule zlimbsI)
    fix i assume i: "i < m + j"
    have "uint (x' ! (i * st)) < 2 ^ 31"
    proof (cases "i < m")
      case True
      then show ?thesis using low zlimbs_nth(1) [OF x i] by simp
    next
      case False
      then show ?thesis using high [of "i - m"] zlimbs_nth(1) [OF d(2), of "i - m"] i by simp
    qed
    then show "i * st < length x' \<and> uint (x' ! (i * st)) < 2 ^ 31" using zlimbs_nth(2) [OF x i] l by simp
  qed
  have "drop (m * st) x' = d" using lt by (simp add: x'_def)
  then show "zval st (m + j) x' = zval st m x + 2 ^ (31 * m) * zval st j d"
    using zval_split [of m st x' j] len l low by (simp add: zval_cong [of m x' st x])
qed

text \<open>The arithmetic of the whole loop.\<close>

lemma scaled_total:
  fixes X X' D D' k E y c :: int
  assumes X: "X = L + 2 ^ (31 * m) * D" and X': "X' = L + 2 ^ (31 * m) * D'"
    and D: "D' + 2 ^ (31 * n) * c = D + k * (2 ^ s * E)" and E: "E mod 2 ^ (31 * n) = y mod 2 ^ (31 * n)"
  shows "2 ^ (31 * (m + n)) dvd X' - (X + k * 2 ^ (31 * m + s) * y)"
proof -
  obtain e where "E - y = 2 ^ (31 * n) * e" using E by (auto simp: mod_eq_dvd_iff elim: dvdE)
  then have "E = y + 2 ^ (31 * n) * e" by linarith
  then have D': "D' = D + k * (2 ^ s * y) + 2 ^ (31 * n) * (k * 2 ^ s * e - c)" using D by (simp add: algebra_simps)
  have "X' - (X + k * 2 ^ (31 * m + s) * y) = 2 ^ (31 * (m + n)) * (k * 2 ^ s * e - c)"
    unfolding X X' D' by (simp add: algebra_simps power_add distrib_left)
  then show ?thesis by simp
qed

lemma zint_add_scaled_spec:
  fixes k sch scl :: u32
  assumes st: "0 < st" and n: "0 < ylen" and x: "zlimbs st xlen x" and y: "zlimbs st ylen y" and scl: "unat scl < 31"
  defines "x' \<equiv> zint_add_scaled_mul_small x xlen y ylen st k sch scl"
  shows "zlimbs st xlen x'" "length x' = length x"
    "2 ^ (31 * xlen) dvd zval st xlen x' - (zval st xlen x + sint k * 2 ^ (31 * unat sch + unat scl) * zsval st ylen y)"
proof -
  let ?s = "unat scl" and ?m = "unat sch" and ?k = "sint k"
  define wy where "wy = scaled_word y ylen st (scaled_sign y ylen st)"
  define lo where "lo = (\<lambda>i (w :: u32) (tw :: u32, cc :: u32). ucast (ucast ((push_bit ?s (wy i) AND 0x7FFFFFFF) OR tw) * scast k + ucast w + scast cc :: u64) AND 0x7FFFFFFF :: u32)"
  define hi where "hi = (\<lambda>i (w :: u32) (tw :: u32, cc :: u32). (drop_bit (31 - ?s) (wy i),
    ucast (drop_bit 31 (ucast ((push_bit ?s (wy i) AND 0x7FFFFFFF) OR tw) * scast k + ucast w + scast cc :: u64)) :: u32))"
  have sc: "unat (31 - scl) = 31 - ?s" using scl by (subst unat_sub) (simp_all add: word_le_nat_alt)
  have body: "x' = fst (fold (\<lambda>i (x, c). (x[i * st := lo (i - ?m) (x ! (i * st)) c], hi (i - ?m) (x ! (i * st)) c)) [?m..<xlen] (x, 0, 0))"
    using n by (simp add: x'_def zint_add_scaled_mul_small_def Let_def sc lo_def hi_def wy_def case_prod_unfold)
  have "zlimbs st xlen x' \<and> length x' = length x \<and>
    2 ^ (31 * xlen) dvd zval st xlen x' - (zval st xlen x + sint k * 2 ^ (31 * unat sch + unat scl) * zsval st ylen y)"
  proof (cases "?m < xlen")
    case False
    then have "(2 :: int) ^ (31 * xlen) dvd 2 ^ (31 * ?m + ?s)" by (intro le_imp_power_dvd) simp
    then show ?thesis using False x by (simp add: body)
  next
    case True
    define j where "j = xlen - ?m"
    have xl: "xlen = ?m + j" using True by (simp add: j_def)
    let ?d = "drop (?m * st) x"
    have "?m * st < length x" by (rule zlimbs_nth(2) [OF x True])
    then have len: "?m * st \<le> length x" by simp
    have d: "i * st < length ?d" "uint (?d ! (i * st)) < 2 ^ 31" if "i < j" for i
      using zlimbs_nth [OF x, of "?m + i"] that xl len by (simp_all add: distrib_right)
    obtain d' tw cc where F: "fold (\<lambda>i (d, c). (d[i * st := lo i (d ! (i * st)) c], hi i (d ! (i * st)) c)) [0..<j] (?d, 0, 0) = (d', tw, cc)"
      by (rule prod_cases3)
    have x': "x' = take (?m * st) x @ d'" unfolding body xl fold_offset [OF len] F by simp
    have step: "uint (lo i (?d ! (i * st)) c) < 2 ^ 31 \<and> (case hi i (?d ! (i * st)) c of (t, cc) \<Rightarrow> uint t < 2 ^ ?s) \<and>
        uint (lo i (?d ! (i * st)) c) + 2 ^ 31 * (case hi i (?d ! (i * st)) c of (t, cc) \<Rightarrow> ?k * uint t + sint cc) =
        (uint (?d ! (i * st)) + ?k * (2 ^ ?s * uint (wy i))) + (case c of (t, cc) \<Rightarrow> ?k * uint t + sint cc)"
      if i: "i < j" and c: "case c of (t, cc) \<Rightarrow> uint t < 2 ^ ?s" for i c
    proof -
      obtain t cc where e: "c = (t, cc)" by (rule prod.exhaust)
      have w: "uint (wy i) < 2 ^ 31" unfolding wy_def by (rule scaled_word_lt [OF n y])
      have t: "uint t < 2 ^ ?s" using c e by simp
      show ?thesis using scaled_step(1) [OF scl w t d(2) [OF i], of k cc] scaled_step(3) [OF scl w t d(2) [OF i]]
        unfolding e lo_def hi_def prod.case low31_signed by simp
    qed
    note L = carry_loop [where lo = lo and hi = hi and cinit = "(0, 0)" and d = ?d and n = j and ok = "\<lambda>_ (t, cc). uint t < 2 ^ ?s"
        and num = "\<lambda>(t, cc). ?k * uint t + sint cc" and V = "\<lambda>i. uint (?d ! (i * st)) + ?k * (2 ^ ?s * uint (wy i))",
        OF st d(1) _ step, unfolded F fst_conv snd_conv prod.case]
    have z: "uint (0 :: u32) < 2 ^ ?s" by simp
    have ld: "length d' = length ?d" and lim: "zlimbs st j d'" using L(2,3) z by blast+
    have X: "zval st xlen x = zval st ?m x + 2 ^ (31 * ?m) * zval st j ?d" unfolding xl by (rule zval_split [OF len])
    note B = rebuilt [OF st x [unfolded xl] len ld lim, folded x']
    have "(\<Sum>i<j. (uint (?d ! (i * st)) + ?k * (2 ^ ?s * uint (wy i))) * 2 ^ (31 * i))
        = zval st j ?d + ?k * (2 ^ ?s * (\<Sum>i<j. uint (wy i) * 2 ^ (31 * i)))"
      by (simp add: zval_def distrib_right sum.distrib sum_distrib_left mult.assoc)
    then have D: "zval st j d' + 2 ^ (31 * j) * (?k * uint tw + sint cc) = zval st j ?d + ?k * (2 ^ ?s * (\<Sum>i<j. uint (wy i) * 2 ^ (31 * i)))"
      using L(5) z by simp
    show ?thesis
      using scaled_total [OF X B(3) D extended_value [OF n y, of j, folded wy_def]] B(1,2) by (simp add: xl)
  qed
  then show "zlimbs st xlen x'" "length x' = length x"
    "2 ^ (31 * xlen) dvd zval st xlen x' - (zval st xlen x + sint k * 2 ^ (31 * unat sch + unat scl) * zsval st ylen y)" by blast+
qed

section \<open>The subtraction is the addition of the multiple -1\<close>

lemma sub_scaled_step:
  fixes x w c d :: u32
  assumes "uint x < 2 ^ 31" "uint w < 2 ^ 31" "uint c \<le> 1" "d = - c"
  defines "z \<equiv> ucast w * scast (- 1 :: u32) + ucast x + scast d :: u64"
  shows "ucast z AND 0x7FFFFFFF = (x - w - c) AND 0x7FFFFFFF" "ucast (drop_bit 31 z) = - drop_bit 31 (x - w - c)"
proof -
  let ?S = "uint x - uint w - uint c"
  have v: "x - w - c = word_of_int ?S" by simp
  have b: "- (2 ^ 31) \<le> i - j - k \<and> i - j - k < 2 ^ 31" if "0 \<le> i" "i < 2 ^ 31" "0 \<le> j" "j < 2 ^ 31" "0 \<le> k" "k \<le> 1" for i j k :: int
    using that by simp
  have b: "- (2 ^ 31) \<le> ?S" "?S < 2 ^ 31" using b [OF uint_ge_0 assms(1) uint_ge_0 assms(2) uint_ge_0 assms(3)] by blast+
  have "uint c = 0 \<or> uint c = 1" using assms(3) uint_ge_0 [of c] by linarith
  then have "c = 0 \<or> c = 1" by (simp add: word_uint_eq_iff)
  then have "scast d = (word_of_int (- uint c) :: u64)" using assms(4) by auto
  moreover have "scast (- 1 :: u32) = (word_of_int (- 1) :: u64)" by simp
  ultimately have z: "z = word_of_int ?S" unfolding z_def by simp
  have "ucast z = (word_of_int ?S :: u32)"
  proof -
    have "scast z = (ucast z :: u32)" by (simp add: down_cast_same is_down)
    then have "word_of_int (sint z) = (ucast z :: u32)" by (simp only: scast_eq)
    moreover have "sint z = ?S" by (rule sint_of_int_eqI [OF z]) (use b in simp_all)
    ultimately show ?thesis by simp
  qed
  then show "ucast z AND 0x7FFFFFFF = (x - w - c) AND 0x7FFFFFFF" unfolding v by simp
  show "ucast (drop_bit 31 z) = - drop_bit 31 (x - w - c)"
  proof (cases "?S < 0")
    case True
    have "z = word_of_int (?S + 2 ^ 64)" using z by simp
    then have "uint z = ?S + 2 ^ 64" by (rule uint_of_int_eqI) (use True b in simp_all)
    moreover have "(?S + 2 ^ 64) div 2 ^ 31 = 2 ^ 33 - 1" by (rule div_int_eqI) (use True b in simp_all)
    ultimately have "uint (drop_bit 31 z) = 2 ^ 33 - 1" by (simp add: uint_drop_bit)
    then have "ucast (drop_bit 31 z) = (word_of_int (2 ^ 33 - 1) :: u32)" by (simp only: ucast_eq)
    moreover have "drop_bit 31 (x - w - c) = 1" using signed_limb(1) [OF v b] True by (simp add: word_uint_eq_iff)
    ultimately show ?thesis by simp
  next
    case False
    then have "uint z = ?S" by (intro uint_of_int_eqI [OF z]) (use b in simp_all)
    then have "uint (drop_bit 31 z) = 0" using False b by (simp add: uint_drop_bit)
    then have "drop_bit 31 z = 0" by (simp add: word_uint_eq_iff)
    moreover have "drop_bit 31 (x - w - c) = 0" using signed_limb(1) [OF v b] False by (simp add: word_uint_eq_iff)
    ultimately show ?thesis by simp
  qed
qed

text \<open>The two loops run side by side: the borrow of one is the negated carry of the other.\<close>

lemma zlimbs_update: "zlimbs st n d \<Longrightarrow> uint v < 2 ^ 31 \<Longrightarrow> zlimbs st n (d[p := v])"
  by (rule zlimbsI) (metis length_list_update nth_list_update_eq nth_list_update_neq zlimbs_nth)

lemma zint_sub_scaled_eq:
  assumes n: "0 < ylen" and x: "zlimbs st xlen x" and y: "zlimbs st ylen y" and scl: "unat scl < 31"
  shows "zint_sub_scaled x xlen y ylen st sch scl = zint_add_scaled_mul_small x xlen y ylen st (- 1) sch scl"
proof -
  let ?s = "unat scl" and ?m = "unat sch"
  define wy where "wy = scaled_word y ylen st (scaled_sign y ylen st)"
  define wys where "wys = (\<lambda>i (tw :: u32). (push_bit ?s (wy (i - ?m)) AND 0x7FFFFFFF) OR tw)"
  define add where "add = (\<lambda>i (x :: u32 list, tw, cc :: u32). let z = ucast (wys i tw) * scast (- 1 :: u32) + ucast (x ! (i * st)) + scast cc :: u64
    in (x[i * st := ucast z AND 0x7FFFFFFF], drop_bit (31 - ?s) (wy (i - ?m)), ucast (drop_bit 31 z) :: u32))"
  define sub where "sub = (\<lambda>i (x :: u32 list, tw, cc). let w = x ! (i * st) - wys i tw - cc
    in (x[i * st := w AND 0x7FFFFFFF], drop_bit (31 - ?s) (wy (i - ?m)), drop_bit 31 w))"
  have sc: "unat (31 - scl) = 31 - ?s" using scl by (subst unat_sub) (simp_all add: word_le_nat_alt)
  have e: "zint_add_scaled_mul_small x xlen y ylen st (- 1) sch scl = fst (fold add [?m..<xlen] (x, 0, 0))"
    "zint_sub_scaled x xlen y ylen st sch scl = fst (fold sub [?m..<xlen] (x, 0, 0))"
    using n by (simp_all add: zint_add_scaled_mul_small_def zint_sub_scaled_def Let_def sc add_def sub_def wys_def wy_def)
  have "\<exists>x' tw c. fold add [?m..<?m + k] (x, 0, 0) = (x', tw, - c) \<and> fold sub [?m..<?m + k] (x, 0, 0) = (x', tw, c) \<and> uint c \<le> 1
      \<and> uint tw < 2 ^ ?s \<and> zlimbs st xlen x'" if "?m + k \<le> xlen" for k
    using that
  proof (induction k)
    case 0
    then show ?case using x by auto
  next
    case (Suc k)
    then obtain x' tw c where I: "fold add [?m..<?m + k] (x, 0, 0) = (x', tw, - c)" "fold sub [?m..<?m + k] (x, 0, 0) = (x', tw, c)"
      "uint c \<le> 1" "uint tw < 2 ^ ?s" "zlimbs st xlen x'" by auto
    let ?i = "?m + k"
    let ?w = "x' ! (?i * st) - wys ?i tw - c"
    have w: "uint (wy (?i - ?m)) < 2 ^ 31" unfolding wy_def by (rule scaled_word_lt [OF n y])
    have lx: "uint (x' ! (?i * st)) < 2 ^ 31" by (rule zlimbs_nth(1) [OF I(5)]) (use Suc.prems in simp)
    have "wys ?i tw = (push_bit ?s (wy (?i - ?m)) AND 0x7FFFFFFF) OR tw" by (simp add: wys_def)
    note ws = scaled_step(2,3) [OF scl w I(4) lx, folded this]
    note E = sub_scaled_step [OF lx ws(1) I(3) refl]
    have "add ?i (x', tw, - c) = (x'[?i * st := ?w AND 0x7FFFFFFF], drop_bit (31 - ?s) (wy (?i - ?m)), - drop_bit 31 ?w)"
      unfolding add_def prod.case Let_def E ..
    moreover have "sub ?i (x', tw, c) = (x'[?i * st := ?w AND 0x7FFFFFFF], drop_bit (31 - ?s) (wy (?i - ?m)), drop_bit 31 ?w)"
      unfolding sub_def prod.case Let_def ..
    moreover have "uint (drop_bit 31 ?w) \<le> 1" "uint (?w AND 0x7FFFFFFF) < 2 ^ 31" using sub_limb [OF lx ws(1) I(3)] by simp_all
    ultimately show ?case using I(1,2) ws(2) zlimbs_update [OF I(5)] by simp
  qed
  from this [of "xlen - ?m"] show ?thesis unfolding e by (cases "?m \<le> xlen") auto
qed

section \<open>Correctness\<close>

lemma zsval_signed:
  assumes n: "0 < n" and d: "zlimbs st n d"
  shows "zsval st n d = signed_take_bit (31 * n - 1) (zval st n d)"
proof -
  have P: "(2 :: int) ^ (31 * n) = 2 * 2 ^ (31 * n - 1)" "Suc (31 * n - 1) = 31 * n" using n by (simp_all flip: power_Suc)
  have "- (2 ^ (31 * n - 1)) \<le> zsval st n d" "zsval st n d < 2 ^ (31 * n - 1)"
    using zval_nonneg [of st n d] zval_lt [OF d] unfolding zsval_alt [OF d] P(1) by simp_all
  then have "zsval st n d = signed_take_bit (31 * n - 1) (zsval st n d)" by (rule signed_take_bit_int_eq_self [symmetric])
  also have "\<dots> = signed_take_bit (31 * n - 1) (zval st n d)"
    unfolding signed_take_bit_eq_iff_take_bit_eq take_bit_eq_mod P(2) by (rule zsval_mod)
  finally show ?thesis .
qed

text \<open>C27: adding a multiple of a shifted integer, and subtracting one, computes the exact result reduced to the signed
  range of the first operand; so it is the exact result whenever that fits, for all lengths, strides, signs, 32-bit
  multipliers and shifts.\<close>

theorem zint_add_scaled_correct:
  assumes st: "0 < st" and n: "0 < ylen" "0 < xlen" and x: "zlimbs st xlen x" and y: "zlimbs st ylen y" and scl: "unat scl < 31"
  shows "zsval st xlen (zint_add_scaled_mul_small x xlen y ylen st k sch scl)
      = signed_take_bit (31 * xlen - 1) (zsval st xlen x + sint k * 2 ^ (31 * unat sch + unat scl) * zsval st ylen y)
    \<and> zlimbs st xlen (zint_add_scaled_mul_small x xlen y ylen st k sch scl)
    \<and> zsval st xlen (zint_sub_scaled x xlen y ylen st sch scl)
      = signed_take_bit (31 * xlen - 1) (zsval st xlen x - 2 ^ (31 * unat sch + unat scl) * zsval st ylen y)"
proof -
  have P: "Suc (31 * xlen - 1) = 31 * xlen" using n by simp
  have add: "zsval st xlen (zint_add_scaled_mul_small x xlen y ylen st k sch scl)
      = signed_take_bit (31 * xlen - 1) (zsval st xlen x + sint k * 2 ^ (31 * unat sch + unat scl) * zsval st ylen y)" for k
  proof -
    let ?r = "sint k * 2 ^ (31 * unat sch + unat scl) * zsval st ylen y"
    note S = zint_add_scaled_spec [OF st n(1) x y scl, of k sch]
    have "zval st xlen (zint_add_scaled_mul_small x xlen y ylen st k sch scl) mod 2 ^ (31 * xlen) = (zval st xlen x + ?r) mod 2 ^ (31 * xlen)"
      using S(3) by (simp only: mod_eq_dvd_iff)
    also have "\<dots> = (zsval st xlen x + ?r) mod 2 ^ (31 * xlen)" by (intro mod_add_cong zsval_mod [symmetric] refl)
    finally show ?thesis unfolding zsval_signed [OF n(2) S(1)] signed_take_bit_eq_iff_take_bit_eq take_bit_eq_mod P .
  qed
  show ?thesis using add [of k] add [of "- 1"] zint_add_scaled_spec(1) [OF st n(1) x y scl]
    by (simp add: zint_sub_scaled_eq [OF n(1) x y scl])
qed

theorem zint_add_scaled_correct_witness:
  "zsval 1 2 (zint_add_scaled_mul_small [5, 0] 2 [3] 1 1 (- 2) 0 1) = - 7"
proof -
  have l: "zlimbs 1 2 [5, 0]" "zlimbs 1 1 [3]" by (auto intro!: zlimbsI simp: less_2_cases_iff)
  have "zval 1 (Suc (Suc 0)) [5, 0] = 5" "zval 1 (Suc 0) [3] = 3" by (simp_all add: zval_Suc)
  then have "zval 1 2 [5, 0] = 5" "zval 1 1 [3] = 3" by (simp_all only: numeral_2_eq_2 One_nat_def)
  then have v: "zsval 1 2 [5, 0] = 5" "zsval 1 1 [3] = 3" by (simp_all add: zsval_def)
  have "zsval 1 2 (zint_add_scaled_mul_small [5, 0] 2 [3] 1 1 (- 2) 0 1) = signed_take_bit (31 * 2 - 1) (5 + sint (- 2 :: u32) * 2 ^ (31 * unat (0 :: u32) + unat (1 :: u32)) * 3)"
    using zint_add_scaled_correct [OF _ _ _ l, of 1 "- 2" 0] unfolding v by simp
  also have "5 + sint (- 2 :: u32) * 2 ^ (31 * unat (0 :: u32) + unat (1 :: u32)) * 3 = - 7" by simp
  also have "signed_take_bit (31 * 2 - 1) (- 7 :: int) = - 7" by (rule signed_take_bit_int_eq_self) simp_all
  finally show ?thesis .
qed

end
