(* ===== verification/Spec2Isabelle.thy ===== *)
theory Spec2Isabelle
  imports GatewayProps Signing ZintCrt ZintBezout ZintScaled
begin

text \<open>
  Verification development of the tasktify backend (\<^verbatim>\<open>src/backend\<close>).

  \<^bold>\<open>The program.\<close> Tasktify is a to-do application in three Go services. The gateway (\<^verbatim>\<open>gateway\<close>) serves HTTP: it
  verifies JSON Web Tokens and turns requests into gRPC calls. The auth service (\<^verbatim>\<open>auth-service\<close>) keeps the users and
  issues pairs of tokens at sign-in and refresh. The to-do service (\<^verbatim>\<open>todo-service\<close>) keeps the tasks of each user and
  trusts the user identifier the gateway sends in the call's metadata. Tokens are made by a JWT library
  (\<^verbatim>\<open>pkg/jwt\<close>), wrapped by the application's claims and algorithm configurations (\<^verbatim>\<open>pkg/utils/jwtutils\<close>); one of its
  signature algorithms, FN-DSA (Falcon), is implemented in the repository (\<^verbatim>\<open>pkg/fndsa\<close>).

  \<^bold>\<open>The theories\<close>, from the bottom up, with the files under \<^verbatim>\<open>src/backend\<close> they model:

  \<^item> \<open>Prelude\<close>: the integer types of Go as words, errors as sums, the loop \<open>for_upd\<close> over a slice, and generic facts.
  \<^item> \<open>ModArith\<close>, \<open>Ntt\<close>, \<open>NttRing\<close>: residues and Fermat's theorem; the butterfly loop nest of the number-theoretic transform over
    an arbitrary butterfly, with its correctness proved in the locale \<open>butterfly\<close> from the laws of the arithmetic,
    and the ring of polynomials seen through the values at the roots.
  \<^item> \<open>MqArith\<close>, \<open>MqTables\<close>, \<open>MqPoly\<close>: \<^verbatim>\<open>pkg/fndsa/mq.go\<close>, arithmetic modulo 12289 in Montgomery form, its root tables, and
    polynomials; interprets \<open>butterfly\<close>. Multiplication, division, invertibility, conversion and norms are shown
    to be those of the ring of polynomials modulo \<open>X^n + 1\<close>.
    \<open>MqRing\<close> turns equations of that ring into equations of numbers.
  \<^item> \<open>Mp31\<close>, \<open>Mp31Tables\<close>, \<open>Mp31Ntt\<close>: \<^verbatim>\<open>pkg/fndsa/kgen_mp31.go\<close>, the bottom layer of key generation: arithmetic modulo primes of 31
    bits with the division by a binary GCD of 62 rounds, the list of 308 primes, the tables of roots and the
    transforms, another instance of \<open>butterfly\<close> for every prime and degree.
  \<^item> \<open>Zint\<close>, \<open>ZintCrt\<close>, \<open>ZintGcd\<close>, \<open>ZintBezout\<close>, \<open>ZintScaled\<close>: \<^verbatim>\<open>pkg/fndsa/kgen_zint31.go\<close>, big integers in slices of 31-bit words:
    products and residues with small numbers over one lemma on loops with a carry, negation, the rebuilding of interleaved
    integers from residues, the reductions of the extended binary GCD and the GCD itself, and scaled additions.
  \<^item> \<open>Bits\<close>, \<open>Codec\<close>, \<open>CodecComp\<close>, \<open>CodecModq\<close>, \<open>CodecTrim\<close>: \<^verbatim>\<open>pkg/fndsa/codec.go\<close>. The encoders and decoders are related to bit strings; the
    compressed and the 14-bit formats round-trip and accept one encoding per value, the fixed-width format of signing keys round-trips.
  \<^item> \<open>FndsaUtil\<close>: \<^verbatim>\<open>pkg/fndsa/util.go\<close>, key and signature sizes, the buffered SHAKE256 generator and hashing to a point.
  \<^item> \<open>Verify\<close>: \<^verbatim>\<open>pkg/fndsa/vrfy.go\<close>. Verification is the FN-DSA predicate on decoded keys and signatures; where the
    hashing fails, it is that predicate on the contents of a buffer, because the error is dropped.
  \<^item> \<open>KeyPair\<close>, \<open>Signing\<close>: the encoding of key pairs (\<^verbatim>\<open>kgen.go\<close>), and \<^verbatim>\<open>sign.go\<close> and \<^verbatim>\<open>sign_core.go\<close> around the Fast Fourier sampling, which is the
    argument \<open>ffs\<close>. A signer recovers the key from its encoding; what signing returns verifies.
  \<^item> \<open>Base64\<close>, \<open>Json\<close>, \<open>JsonRound\<close>: what the JWT library uses of \<^verbatim>\<open>encoding/base64\<close> and \<^verbatim>\<open>encoding/json\<close>, with their round trips.
  \<^item> \<open>JwtTypes\<close>, \<open>JwtValidator\<close>, \<open>JwtParser\<close>, \<open>JwtTokens\<close>: \<^verbatim>\<open>pkg/jwt\<close>: errors, dates, claims, the validator, options, token building and
    parsing, the registry and the methods none, HMAC and FN-DSA. The validator accepts exactly the claims that meet
    its conditions; an accepted token is signed; a signed token is accepted.
  \<^item> \<open>JwtMethods\<close>: the methods RSA, RSA-PSS, ECDSA, Ed25519, ML-DSA and SLH-DSA, and the type of key each one accepts.
  \<^item> \<open>JwtUtils\<close>, \<open>JwtUtilsProps\<close>: \<^verbatim>\<open>pkg/utils/jwtutils/jwt.go\<close>, the application's claims, signer and parser, for one and for several
    algorithms. \<open>Loader\<close>: \<^verbatim>\<open>loader.go\<close> and the PEM key readers of \<^verbatim>\<open>pkg/jwt\<close>.
  \<^item> \<open>Store\<close>: status values, times and the interface of the relational store: the record \<open>gorm\<close> of its calls, the locales
    \<open>gorm_table\<close> and \<open>gorm_unique\<close> of its laws, and a reference table that has them.
  \<^item> \<open>TaskService\<close>: \<^verbatim>\<open>todo-service/internal\<close>, from the interceptor to the repository, as a refinement of the step relation
    \<open>task_step\<close> in the locale \<open>task_store\<close>.
  \<^item> \<open>AuthService\<close>, \<open>AuthProps\<close>: \<^verbatim>\<open>auth-service/internal\<close>: the user server as a refinement of \<open>user_step\<close> in the locale \<open>user_store\<close>,
    sign-in, refresh and start-up.
  \<^item> \<open>Gateway\<close>, \<open>GatewayProps\<close>: \<^verbatim>\<open>gateway/internal\<close>: middleware, handlers, routes, benchmarks and start-up; and, in the locale
    \<open>task_rpc\<close>, the gateway in front of the to-do service, over a channel that may fail with any error; the locale
    \<open>task_channel\<close> adds, for the status codes, that errors of the channel itself are none of those the handlers translate.

  \<^bold>\<open>Conventions.\<close> A Go method is a definition of the same name, prefixed with its receiver where names clash. Slices are
  lists, strings are lists of bytes, integers are words of their width (\<^verbatim>\<open>int64\<close> read by \<open>sint\<close>), maps are partial functions,
  or lists of entries where the order of an iteration matters: theorems then hold for every order. An error result is a
  sum, \<open>Inl\<close> the error; a panic, or a loop that does not end, is \<open>None\<close>. What a call takes from the world (time, randomness, fresh
  identifiers) is an argument. Packages outside the repository are records of functions or arguments: SHAKE256 (\<open>xof\<close>), the
  primitives of the other signature methods (\<open>crypto\<close>, \<open>pk_crypto\<close>), x509 and the file system (\<open>x509\<close>, \<open>files\<close>), bcrypt, gorm, uuid and
  timestamps (\<open>libs\<close>), gRPC clients (\<open>clients\<close>) and fiber (\<open>binders\<close>, \<open>fiber_Ctx\<close>). Their documented behaviour is a hypothesis
  (\<open>libs_ok\<close>, \<open>bcrypt_ok\<close>, \<open>keys_match\<close>) or a locale, and each has an instance in a witness.

  \<^bold>\<open>Bounds and fuel.\<close> The rejection loop of \<open>hash_to_point\<close> need not end for an arbitrary byte stream: its model is \<open>None\<close> when the
  stream never offers enough samples, and the theorems say when it returns. So it is with the loop of signing, which repeats its attempts until one is kept. The JSON reader recurses on fuel, twice the length of the
  text plus one, which is shown to be enough for every text (\<open>json_first_fuel\<close>). All other loops are structural, or functions with
  a termination proof.

  \<^bold>\<open>Not modelled.\<close> FN-DSA key generation above its modular arithmetic and big integers, and the sampling in signing: the solver of the NTRU equation over big integers and fixed-point
  numbers, and Fast Fourier sampling over IEEE doubles, whose correctness is one of distributions and rounding errors; signing is a
  parameter of the token methods. That the sampled vector is a point of the key's lattice (\<open>lattice_sampler\<close>), for every reduced target, is a hypothesis on the sampling. The timings, floating-point statistics and process figures that benchmarks and sign-in report. Routing
  by path, headers and JSON bodies, which are fiber's, and the transport of gRPC. Logging, configuration files, database
  connections and the \<^verbatim>\<open>main\<close> functions. The request extractors and the command line tool of the JWT library, which no service
  uses, and the code protoc generates.
\<close>

end
